(* ===== verification/Prelude.thy ===== *)
theory Prelude
  imports Main "HOL-Library.Word" "HOL-Library.Multiset" "HOL-Library.Monad_Syntax"
begin

text \<open>
  Shared vocabulary of the development: the machine integers of the C sources, the byte
  order of the target (x86-64, little endian), byte buffers and their slices, the error
  codes the modules return, and the generic list and word lemmas the component theories use.
\<close>

unbundle bit_operations_syntax

named_theorems le_simps "evaluation of little-endian encodings"
named_theorems field_simps_ivs "reads and writes of structure fields"

subsection \<open>Machine integers\<close>

type_synonym u8 = "8 word"
type_synonym u16 = "16 word"
type_synonym u32 = "32 word"
type_synonym u64 = "64 word"

text \<open>A byte buffer, and a MAC address as the six bytes the C code keeps.\<close>

type_synonym bytes = "u8 list"
type_synonym mac = "u8 list"

subsection \<open>Error codes\<close>

text \<open>
  \<open>aim_error_t\<close> and \<open>indigo_error_t\<close>: the codes the modelled functions return. In C,
  \<open>NONE\<close> is 0 and every other code is negative, so the test \<open>err < 0\<close> is \<open>failed\<close>.
\<close>

datatype error = ERROR_NONE | ERROR_UNKNOWN | ERROR_PARAM | ERROR_NOT_FOUND | ERROR_RESOURCE
  | ERROR_COMPAT | ERROR_RANGE | ERROR_BAD_ACTION | ERROR_NOT_SUPPORTED

definition failed :: "error \<Rightarrow> bool" where
  "failed e \<longleftrightarrow> e \<noteq> ERROR_NONE"

lemma failed_simps [simp]:
  "\<not> failed ERROR_NONE" "failed ERROR_UNKNOWN" "failed ERROR_PARAM" "failed ERROR_NOT_FOUND"
  "failed ERROR_RESOURCE" "failed ERROR_COMPAT" "failed ERROR_RANGE" "failed ERROR_BAD_ACTION"
  "failed ERROR_NOT_SUPPORTED"
  by (simp_all add: failed_def)

subsection \<open>Words as numbers\<close>

lemma unat_of_nat_id: "n < 2 ^ LENGTH('a) \<Longrightarrow> unat (of_nat n :: 'a::len word) = n"
  by (simp add: unat_of_nat take_bit_nat_eq_self)

lemma unat_add_of_nat:
  "unat x + n < 2 ^ LENGTH('a) \<Longrightarrow> unat (x + of_nat n :: 'a::len word) = unat x + n"
  by (simp add: unat_word_ariths unat_of_nat take_bit_eq_mod mod_add_right_eq)

lemma unat_dec: "0 < unat (x :: 'a::len word) \<Longrightarrow> unat (x - 1) = unat x - 1"
  using unat_minus_one [of x] by (cases "x = 0") simp_all

lemma unat_less_exp: "unat (x :: 'a::len word) < 2 ^ LENGTH('a)"
  by (metis take_bit_nat_less_exp take_bit_nat_eq_self_iff unsigned_less)

subsection \<open>Little-endian bytes\<close>

primrec le_bytes :: "nat \<Rightarrow> 'a::len word \<Rightarrow> bytes" where
  "le_bytes 0 w = []"
| "le_bytes (Suc n) w = ucast w # le_bytes n (drop_bit 8 w)"

fun of_le :: "bytes \<Rightarrow> 'a::len word" where
  "of_le [] = 0"
| "of_le (b # bs) = ucast b OR push_bit 8 (of_le bs)"

lemma length_le_bytes [simp]: "length (le_bytes n w) = n"
  by (induction n arbitrary: w) auto

lemma nth_le_bytes: "i < n \<Longrightarrow> le_bytes n w ! i = ucast (drop_bit (8 * i) w)"
proof (induction n arbitrary: w i)
  case 0
  then show ?case by simp
next
  case (Suc n)
  show ?case
  proof (cases i)
    case 0
    then show ?thesis by simp
  next
    case (Suc j)
    with Suc.prems have "le_bytes n (drop_bit 8 w) ! j = ucast (drop_bit (8 * j) (drop_bit 8 w))"
      by (intro Suc.IH) simp
    then show ?thesis using Suc by (simp add: add.commute)
  qed
qed

lemma bit_of_le:
  "bit (of_le bs :: 'a::len word) k \<longleftrightarrow>
     k < LENGTH('a) \<and> k div 8 < length bs \<and> bit (bs ! (k div 8)) (k mod 8)"
proof (induction bs arbitrary: k)
  case Nil
  then show ?case by simp
next
  case (Cons b bs)
  show ?case
  proof (cases "k < 8")
    case True
    then show ?thesis
      by (auto simp: bit_or_iff bit_push_bit_iff bit_ucast_iff)
  next
    case False
    then have "k div 8 = Suc ((k - 8) div 8)" and "k mod 8 = (k - 8) mod 8"
      by (simp_all add: le_div_geq le_mod_geq)
    moreover have "\<not> bit b k"
      using False bit_imp_le_length [of b k] by auto
    ultimately show ?thesis
      using False Cons.IH [of "k - 8"] by (auto simp: bit_or_iff bit_push_bit_iff bit_ucast_iff)
  qed
qed

lemma of_le_le_bytes [simp]:
  assumes "LENGTH('a) \<le> 8 * n"
  shows "of_le (le_bytes n w) = (w :: 'a::len word)"
proof (rule bit_word_eqI)
  fix k assume k: "k < LENGTH('a)"
  then have "k div 8 < n" using assms by auto
  then show "bit (of_le (le_bytes n w) :: 'a word) k = bit w k"
    using k by (simp add: bit_of_le nth_le_bytes bit_ucast_iff bit_drop_bit_eq)
qed

lemma le_bytes_of_le [simp]:
  assumes "n = length bs" and "8 * n \<le> LENGTH('a)"
  shows "le_bytes n (of_le bs :: 'a::len word) = bs"
proof (rule nth_equalityI)
  show "length (le_bytes n (of_le bs :: 'a word)) = length bs" using assms by simp
next
  fix i assume "i < length (le_bytes n (of_le bs :: 'a word))"
  then have i: "i < n" by simp
  have "bit (ucast (drop_bit (8 * i) (of_le bs :: 'a word)) :: u8) k = bit (bs ! i) k" if "k < 8" for k
  proof -
    have "8 * i + k < LENGTH('a)" using i that assms by linarith
    moreover have "(8 * i + k) div 8 = i" and "(8 * i + k) mod 8 = k" using that by simp_all
    ultimately show ?thesis
      using i that assms by (simp add: bit_ucast_iff bit_drop_bit_eq bit_of_le)
  qed
  then have "(ucast (drop_bit (8 * i) (of_le bs :: 'a word)) :: u8) = bs ! i"
    by (intro bit_word_eqI) simp
  then show "le_bytes n (of_le bs :: 'a word) ! i = bs ! i"
    using i by (simp add: nth_le_bytes)
qed

subsection \<open>Data refinement\<close>

text \<open>
  The interface between a component's operations and their abstract specification. \<open>inv n s\<close>
  holds of a state reached by \<open>n\<close> operations, \<open>step\<close> is the concrete operation (\<open>None\<close>
  when it does not return or the process dies), \<open>spec\<close> the abstract one. The lemma is the
  client's view: a whole sequence of operations gives the results of the specification.
\<close>

fun run_steps :: "('op \<Rightarrow> 's \<Rightarrow> ('r \<times> 's) option) \<Rightarrow> 'op list \<Rightarrow> 's \<Rightarrow> ('r list \<times> 's) option" where
  "run_steps step [] s = Some ([], s)"
| "run_steps step (opn # ops) s =
     (case step opn s of
        None \<Rightarrow> None
      | Some (r, s') \<Rightarrow>
          (case run_steps step ops s' of None \<Rightarrow> None | Some (rs, s'') \<Rightarrow> Some (r # rs, s'')))"

fun run_spec :: "('op \<Rightarrow> 'a \<Rightarrow> 'r \<times> 'a) \<Rightarrow> 'op list \<Rightarrow> 'a \<Rightarrow> 'r list \<times> 'a" where
  "run_spec spec [] a = ([], a)"
| "run_spec spec (opn # ops) a =
     (case spec opn a of (r, a') \<Rightarrow> (case run_spec spec ops a' of (rs, a'') \<Rightarrow> (r # rs, a'')))"

locale refinement =
  fixes inv :: "nat \<Rightarrow> 's \<Rightarrow> bool" and abs_state :: "'s \<Rightarrow> 'a"
    and step :: "'op \<Rightarrow> 's \<Rightarrow> ('r \<times> 's) option" and spec :: "'op \<Rightarrow> 'a \<Rightarrow> 'r \<times> 'a"
    and ok :: "'op \<Rightarrow> bool" and cap :: nat
  assumes step_sim: "\<lbrakk>inv n s; n < cap; ok opn\<rbrakk> \<Longrightarrow>
    \<exists>r s'. step opn s = Some (r, s') \<and> inv (Suc n) s' \<and> spec opn (abs_state s) = (r, abs_state s')"
begin

lemma run_sim:
  assumes "inv n s" "n + length ops \<le> cap" "\<forall>opn \<in> set ops. ok opn"
  shows "\<exists>s'. run_steps step ops s = Some (fst (run_spec spec ops (abs_state s)), s') \<and>
    inv (n + length ops) s' \<and> snd (run_spec spec ops (abs_state s)) = abs_state s'"
  using assms
proof (induction ops arbitrary: n s)
  case (Cons opn ops)
  then obtain r s1 where s1: "step opn s = Some (r, s1)" "inv (Suc n) s1" "spec opn (abs_state s) = (r, abs_state s1)"
    using step_sim [of n s opn] by auto
  with Cons.IH [of "Suc n" s1] Cons.prems show ?case
    by (auto simp: split_beta)
qed simp

end

end
