(* ===== verification/L2table.thy ===== *)
theory L2table
  imports Prelude
begin

text \<open>
  The MAC/VLAN table of \<open>modules/l2table\<close>: an open-addressed hash table with triangular
  probing. The probe loop is a \<^theory_text>\<open>partial_function (option)\<close>, so that a probe that
  never meets a free slot has the value \<open>None\<close>; insertion and resizing call each other, and
  their nesting depth is a fuel argument. The external hash \<open>murmur_hash\<close> is a parameter, and
  no property of it is used.
\<close>

subsection \<open>Data\<close>

definition KEY_FREE :: u64 where
  "KEY_FREE = push_bit 63 1"

definition KEY_DELETED :: u64 where
  "KEY_DELETED = push_bit 62 3"

definition KEY_IS_UNOCCUPIED :: "u64 \<Rightarrow> bool" where
  "KEY_IS_UNOCCUPIED key \<longleftrightarrow> key AND KEY_FREE \<noteq> 0"

record l2table_entry =
  l2_key :: u64
  l2_out_port :: u32
  l2_metadata :: u32

record l2table =
  l2_entries :: "l2table_entry list"
  l2_size :: int
  num_occupied :: int
  num_deleted :: int
  l2_salt :: u32

text \<open>
  A slot as \<open>aim_malloc\<close> and the initialising loop leave it. \<open>malloc\<close> leaves the other two
  fields indeterminate; they are taken as 0, and no operation reads them while the key is
  unoccupied.
\<close>

definition free_entry :: l2table_entry where
  "free_entry = \<lparr>l2_key = KEY_FREE, l2_out_port = 0, l2_metadata = 0\<rparr>"

definition l2table_create :: "u32 \<Rightarrow> l2table" where
  "l2table_create slt =
     \<lparr>l2_entries = replicate 1 free_entry, l2_size = 1, num_occupied = 0, num_deleted = 0, l2_salt = slt\<rparr>"

subsection \<open>Keys\<close>

definition l2table_encode_key :: "mac \<Rightarrow> u16 \<Rightarrow> u64" where
  "l2table_encode_key mac vlan_id =
     of_le (take 6 mac @ [ucast (vlan_id AND 0xff), ucast (drop_bit 8 vlan_id)])"

definition l2table_decode_key :: "u64 \<Rightarrow> mac \<times> u16" where
  "l2table_decode_key k =
     (let buf = le_bytes 8 k
      in (take 6 buf, ucast (buf ! 6) OR push_bit 8 (ucast (buf ! 7))))"

text \<open>\<open>murmur_hash data seed\<close> is the external hash of a byte buffer.\<close>

type_synonym murmur_hash = "bytes \<Rightarrow> u32 \<Rightarrow> u32"

definition l2table_hash :: "murmur_hash \<Rightarrow> l2table \<Rightarrow> mac \<Rightarrow> u16 \<Rightarrow> u32" where
  "l2table_hash H t mac vlan_id = H (le_bytes 2 vlan_id @ take 6 mac) (l2_salt t)"

subsection \<open>Probing\<close>

text \<open>
  The loop of \<open>l2table_find_internal__\<close>. The result is the index of the slot the C code
  returns a pointer to, or \<open>None\<close> for \<open>NULL\<close>; the outer option says whether the loop returns.
  \<open>step_num\<close> and \<open>step_size\<close> are C \<open>int\<close>s that are only added to the unsigned hash; they are kept
  at 32 bits with wrap-around.
\<close>

partial_function (option) l2table_find_loop ::
  "l2table_entry list \<Rightarrow> u64 \<Rightarrow> u32 \<Rightarrow> u32 \<Rightarrow> bool \<Rightarrow> u32 \<Rightarrow> u32 \<Rightarrow> u32 option \<Rightarrow> u32 option option"
where
  "l2table_find_loop es k h msk find_unoccupied step_size step_num found =
     (let idx = (h + step_size) AND msk;
          ek = l2_key (es ! unat idx);
          found' = (if find_unoccupied \<and> KEY_IS_UNOCCUPIED ek \<and> found = None
                    then Some idx else found)
      in if \<not> find_unoccupied \<and> ek = k then Some (Some idx)
         else if \<not> find_unoccupied \<and> ek = KEY_FREE then Some None
         else if find_unoccupied \<and> ek = k then Some None
         else if find_unoccupied \<and> KEY_IS_UNOCCUPIED ek \<and> ek = KEY_FREE then Some found'
         else l2table_find_loop es k h msk find_unoccupied
                (step_size + (step_num + 1)) (step_num + 1) found')"

definition l2table_find_internal ::
  "murmur_hash \<Rightarrow> l2table \<Rightarrow> mac \<Rightarrow> u16 \<Rightarrow> bool \<Rightarrow> u32 option option" where
  "l2table_find_internal H t mac vlan_id find_unoccupied =
     l2table_find_loop (l2_entries t) (l2table_encode_key mac vlan_id) (l2table_hash H t mac vlan_id)
       (word_of_int (l2_size t - 1)) find_unoccupied 0 0 None"

definition l2table_find :: "murmur_hash \<Rightarrow> l2table \<Rightarrow> mac \<Rightarrow> u16 \<Rightarrow> u32 option option" where
  "l2table_find H t mac vlan_id = l2table_find_internal H t mac vlan_id False"

definition l2table_find_unoccupied :: "murmur_hash \<Rightarrow> l2table \<Rightarrow> mac \<Rightarrow> u16 \<Rightarrow> u32 option option" where
  "l2table_find_unoccupied H t mac vlan_id = l2table_find_internal H t mac vlan_id True"

subsection \<open>Operations\<close>

text \<open>\<open>Some (Inr (out_port, metadata))\<close> is a successful lookup.\<close>

definition l2table_lookup :: "murmur_hash \<Rightarrow> l2table \<Rightarrow> mac \<Rightarrow> u16 \<Rightarrow> (error + u32 \<times> u32) option" where
  "l2table_lookup H t mac vlan_id =
     (case l2table_find H t mac vlan_id of
        None \<Rightarrow> None
      | Some None \<Rightarrow> Some (Inl ERROR_NOT_FOUND)
      | Some (Some i) \<Rightarrow>
          (let e = l2_entries t ! unat i in Some (Inr (l2_out_port e, l2_metadata e))))"

text \<open>
  The part of \<open>l2table_insert\<close> after the size check: find a slot and fill it.
\<close>

definition l2table_fill ::
  "murmur_hash \<Rightarrow> l2table \<Rightarrow> mac \<Rightarrow> u16 \<Rightarrow> u32 \<Rightarrow> u32 \<Rightarrow> (error \<times> l2table) option" where
  "l2table_fill H t mac vlan_id port meta =
     (case l2table_find_unoccupied H t mac vlan_id of
        None \<Rightarrow> None
      | Some None \<Rightarrow> Some (ERROR_PARAM, t)
      | Some (Some i) \<Rightarrow>
          (let deleted = (l2_key (l2_entries t ! unat i) = KEY_DELETED)
           in Some (ERROR_NONE,
                t\<lparr>num_deleted := (if deleted then num_deleted t - 1 else num_deleted t),
                  num_occupied := num_occupied t + 1,
                  l2_entries := (l2_entries t)[unat i :=
                    \<lparr>l2_key = l2table_encode_key mac vlan_id, l2_out_port = port, l2_metadata = meta\<rparr>]\<rparr>)))"

text \<open>
  \<open>l2table_insert\<close> and \<open>l2table_resize__\<close>. The first argument bounds how deep a resize may
  nest inside the insertions of another resize; \<open>None\<close> is running out of it, a probe that does
  not end, or the death of the process when an insertion during a resize fails.
\<close>

function (sequential) l2table_insert ::
    "nat \<Rightarrow> murmur_hash \<Rightarrow> l2table \<Rightarrow> mac \<Rightarrow> u16 \<Rightarrow> u32 \<Rightarrow> u32 \<Rightarrow> (error \<times> l2table) option"
  and l2table_resize :: "nat \<Rightarrow> murmur_hash \<Rightarrow> l2table \<Rightarrow> (error \<times> l2table) option"
  and l2table_resize_loop :: "nat \<Rightarrow> murmur_hash \<Rightarrow> l2table_entry list \<Rightarrow> l2table \<Rightarrow> l2table option"
where
  "l2table_insert d H t mac vlan_id port meta =
     (if 2 * (num_occupied t + num_deleted t + 1) > l2_size t
      then (case d of
              0 \<Rightarrow> None
            | Suc d' \<Rightarrow>
                (case l2table_resize d' H t of
                   None \<Rightarrow> None
                 | Some (err, t') \<Rightarrow>
                     if failed err then Some (err, t') else l2table_fill H t' mac vlan_id port meta))
      else l2table_fill H t mac vlan_id port meta)"
| "l2table_resize d H t =
     (let new_size = l2_size t * 2;
          t' = t\<lparr>l2_size := new_size, l2_entries := replicate (nat new_size) free_entry,
                 num_occupied := 0, num_deleted := 0\<rparr>
      in case l2table_resize_loop d H (l2_entries t) t' of
           None \<Rightarrow> None
         | Some t'' \<Rightarrow> Some (ERROR_NONE, t''))"
| "l2table_resize_loop d H [] t = Some t"
| "l2table_resize_loop d H (e # old) t =
     (if \<not> KEY_IS_UNOCCUPIED (l2_key e)
      then (case l2table_decode_key (l2_key e) of (mac, vlan_id) \<Rightarrow>
             (case l2table_insert d H t mac vlan_id (l2_out_port e) (l2_metadata e) of
                None \<Rightarrow> None
              | Some (err, t') \<Rightarrow> if err = ERROR_NONE then l2table_resize_loop d H old t' else None))
      else l2table_resize_loop d H old t)"
  by pat_completeness auto
termination
  by (relation "measures [\<lambda>x. case x of Inl (d, _) \<Rightarrow> d | Inr (Inl (d, _)) \<Rightarrow> d | Inr (Inr (d, _)) \<Rightarrow> d,
        \<lambda>x. case x of Inl _ \<Rightarrow> 0 | Inr (Inl (_, _, t)) \<Rightarrow> length (l2_entries t) + 2
          | Inr (Inr (_, _, es, _)) \<Rightarrow> length es + 1]")
    auto

definition l2table_remove :: "murmur_hash \<Rightarrow> l2table \<Rightarrow> mac \<Rightarrow> u16 \<Rightarrow> (error \<times> l2table) option" where
  "l2table_remove H t mac vlan_id =
     (case l2table_find H t mac vlan_id of
        None \<Rightarrow> None
      | Some None \<Rightarrow> Some (ERROR_NOT_FOUND, t)
      | Some (Some i) \<Rightarrow>
          Some (ERROR_NONE,
            t\<lparr>num_deleted := num_deleted t + 1, num_occupied := num_occupied t - 1,
              l2_entries := (l2_entries t)[unat i := (l2_entries t ! unat i)\<lparr>l2_key := KEY_DELETED\<rparr>]\<rparr>))"

subsection \<open>Facts on keys\<close>

lemma KEY_IS_UNOCCUPIED_bit: "KEY_IS_UNOCCUPIED k \<longleftrightarrow> bit k 63"
  using and_exp_eq_0_iff_not_bit [of k 63] by (simp add: KEY_IS_UNOCCUPIED_def KEY_FREE_def)

lemma KEY_FREE_unoccupied [simp]: "KEY_IS_UNOCCUPIED KEY_FREE"
  by (simp add: KEY_IS_UNOCCUPIED_def KEY_FREE_def)

lemma KEY_DELETED_unoccupied [simp]: "KEY_IS_UNOCCUPIED KEY_DELETED"
  by (simp add: KEY_IS_UNOCCUPIED_def KEY_FREE_def KEY_DELETED_def)

lemma KEY_DELETED_neq_FREE [simp]: "KEY_DELETED \<noteq> KEY_FREE" "KEY_FREE \<noteq> KEY_DELETED"
  by (simp_all add: KEY_FREE_def KEY_DELETED_def)

lemma ucast_and_ff [simp]: "(ucast (v AND 0xff :: u16) :: u8) = ucast v"
proof -
  have "v AND 0xff = take_bit 8 v"
    by (simp add: take_bit_eq_mask mask_eq_exp_minus_1)
  then show ?thesis
    by (auto intro!: bit_word_eqI simp: bit_ucast_iff bit_take_bit_iff)
qed

lemma vlan_bytes_join:
  "ucast (ucast v :: u8) OR push_bit 8 (ucast (ucast (drop_bit 8 v) :: u8)) = (v :: u16)"
  by (rule bit_word_eqI) (auto simp: bit_or_iff bit_push_bit_iff bit_ucast_iff bit_drop_bit_eq)

lemma length_6_split: "length xs = 6 \<Longrightarrow> \<exists>a b c d e f. xs = [a, b, c, d, e, f]"
  by (auto simp: numeral_eq_Suc length_Suc_conv)

lemma l2table_decode_encode:
  assumes "length mac = 6"
  shows "l2table_decode_key (l2table_encode_key mac v) = (mac, v)"
proof -
  have "le_bytes 8 (l2table_encode_key mac v) = mac @ [ucast v, ucast (drop_bit 8 v)]"
    unfolding l2table_encode_key_def using assms by (simp add: le_bytes_of_le)
  then show ?thesis
    using assms by (simp add: l2table_decode_key_def nth_append vlan_bytes_join)
qed

lemma l2table_encode_decode:
  "l2table_decode_key k = (mac, v) \<Longrightarrow> l2table_encode_key mac v = k \<and> length mac = 6"
proof -
  assume a: "l2table_decode_key k = (mac, v)"
  let ?b = "le_bytes 8 k"
  have m: "mac = take 6 ?b" and v: "v = ucast (?b ! 6) OR push_bit 8 (ucast (?b ! 7))"
    using a by (auto simp: l2table_decode_key_def Let_def)
  have 1: "(ucast v :: u8) = ?b ! 6" "(ucast (drop_bit 8 v) :: u8) = ?b ! 7"
    unfolding v by (rule bit_word_eqI, auto simp: bit_or_iff bit_push_bit_iff bit_ucast_iff bit_drop_bit_eq dest: bit_imp_le_length)+
  have "take 7 ?b = take 6 ?b @ [?b ! 6]" "take 8 ?b = take 7 ?b @ [?b ! 7]"
    using take_Suc_conv_app_nth [of 6 ?b] take_Suc_conv_app_nth [of 7 ?b] by simp_all
  then have "take 6 ?b @ [?b ! 6, ?b ! 7] = ?b"
    by simp
  then show ?thesis
    by (simp add: l2table_encode_key_def m 1)
qed

lemma l2table_encode_occupied:
  assumes "length mac = 6" and "\<not> bit v 15"
  shows "\<not> KEY_IS_UNOCCUPIED (l2table_encode_key mac v)"
  using assms
  by (simp add: KEY_IS_UNOCCUPIED_bit l2table_encode_key_def bit_of_le nth_append bit_ucast_iff bit_drop_bit_eq)

subsection \<open>Triangular numbers modulo a power of two\<close>

definition tri :: "nat \<Rightarrow> nat" where
  "tri j = j * (j + 1) div 2"

lemma tri_0 [simp]: "tri 0 = 0"
  by (simp add: tri_def)

lemma tri_Suc [simp]: "tri (Suc j) = tri j + Suc j"
  by (simp add: tri_def)

lemma tri_diff: "2 * tri (i + d) = 2 * tri i + d * (2 * i + d + 1)"
  by (induction d) (auto simp: algebra_simps)

lemma tri_inj_mod:
  assumes "i < j" and "j < 2 ^ k"
  shows "(h + tri i) mod 2 ^ k \<noteq> (h + tri j) mod 2 ^ k"
proof
  assume eq: "(h + tri i) mod 2 ^ k = (h + tri j) mod 2 ^ k"
  obtain d where d: "j = i + d" "0 < d" using assms(1) less_imp_add_positive by blast
  have le: "tri i \<le> tri j" using tri_diff [of i d] d by simp
  from eq have "2 ^ k dvd (h + tri j) - (h + tri i)"
    by (metis mod_eq_dvd_iff_nat le add_left_mono)
  then have "2 ^ k dvd tri j - tri i" by simp
  then have "2 * 2 ^ k dvd 2 * (tri j - tri i)" by (rule mult_dvd_mono [OF dvd_refl])
  moreover have "2 * (tri j - tri i) = d * (2 * i + d + 1)"
    using tri_diff [of i d] d by simp
  ultimately have dv: "2 ^ Suc k dvd d * (2 * i + d + 1)" by simp
  have small: "d < 2 ^ Suc k" "2 * i + d + 1 < 2 ^ Suc k" using assms d by auto
  have "odd d \<or> odd (2 * i + d + 1)" by simp
  then have "2 ^ Suc k dvd d \<or> 2 ^ Suc k dvd 2 * i + d + 1"
  proof
    assume "odd d"
    then have "coprime (2 ^ Suc k) d" by simp
    then show ?thesis using dv coprime_dvd_mult_right_iff by blast
  next
    assume "odd (2 * i + d + 1)"
    then have "coprime (2 ^ Suc k) (2 * i + d + 1)" by simp
    then show ?thesis using dv coprime_dvd_mult_left_iff by blast
  qed
  with small d(2) show False by (auto dest: dvd_imp_le)
qed

lemma tri_covers:
  assumes "s < 2 ^ k"
  shows "\<exists>j < 2 ^ k. (h + tri j) mod 2 ^ k = s"
proof -
  let ?f = "\<lambda>j. (h + tri j) mod 2 ^ k"
  have "inj_on ?f {..<2 ^ k}"
  proof (rule inj_onI, rule ccontr)
    fix x y assume "x \<in> {..<2 ^ k}" "y \<in> {..<2 ^ k}" and eq: "?f x = ?f y" and "x \<noteq> y"
    then have "x < y \<and> y < 2 ^ k \<or> y < x \<and> x < 2 ^ k" by auto
    then show False using tri_inj_mod eq by metis
  qed
  moreover have "?f ` {..<2 ^ k} \<subseteq> {..<2 ^ k}" by auto
  ultimately have "?f ` {..<2 ^ k} = {..<2 ^ k}"
    by (intro endo_inj_surj) simp_all
  then have "s \<in> ?f ` {..<2 ^ k}" using assms by simp
  then show ?thesis by blast
qed
subsection \<open>The probe sequence\<close>

text \<open>The index of the slot probed in step \<open>j\<close> from hash \<open>h\<close>, for a table of \<open>2 ^ k\<close> slots.\<close>

definition slot :: "nat \<Rightarrow> u32 \<Rightarrow> nat \<Rightarrow> nat" where
  "slot k h j = (unat h + tri j) mod 2 ^ k"

lemma slot_less [simp]: "slot k h j < 2 ^ k"
  by (simp add: slot_def)

lemma slot_covers: "s < 2 ^ k \<Longrightarrow> \<exists>j < 2 ^ k. slot k h j = s"
  unfolding slot_def by (rule tri_covers)

definition slot_word :: "nat \<Rightarrow> u32 \<Rightarrow> nat \<Rightarrow> u32" where
  "slot_word k h j = (h + of_nat (tri j)) AND mask k"

lemma unat_slot_word:
  assumes "k < 32"
  shows "unat (slot_word k h j) = slot k h j"
proof -
  have "unat (slot_word k h j) = unat (h + of_nat (tri j)) mod 2 ^ k"
    unfolding slot_word_def
    by (simp only: take_bit_eq_mask [symmetric] unsigned_take_bit_eq) (simp add: take_bit_eq_mod)
  also have "\<dots> = (unat h + tri j) mod 2 ^ 32 mod 2 ^ k"
    by (simp add: unat_word_ariths unat_of_nat take_bit_eq_mod mod_add_right_eq)
  also have "\<dots> = (unat h + tri j) mod 2 ^ k"
    using assms le_imp_power_dvd [of k 32 "2 :: nat"] by (intro mod_mod_cancel) simp
  finally show ?thesis by (simp add: slot_def)
qed

lemma size_mask:
  assumes "k \<le> 31"
  shows "(word_of_int (2 ^ k - 1) :: u32) = mask k"
  by (simp add: mask_eq_exp_minus_1)

text \<open>The step at which the loop stops: the key itself or a free slot.\<close>

definition stops :: "l2table_entry list \<Rightarrow> nat \<Rightarrow> u64 \<Rightarrow> u32 \<Rightarrow> nat \<Rightarrow> bool" where
  "stops es k kk h j \<longleftrightarrow> l2_key (es ! slot k h j) = kk \<or> l2_key (es ! slot k h j) = KEY_FREE"

lemma find_loop_lookup:
  assumes k: "k < 32" and stop: "stops es k kk h m" and before: "\<forall>j<m. \<not> stops es k kk h j"
    and "i \<le> m"
  shows "l2table_find_loop es kk h (mask k) False (of_nat (tri i)) (of_nat i) found =
     Some (if l2_key (es ! slot k h m) = kk then Some (slot_word k h m) else None)"
  using \<open>i \<le> m\<close>
proof (induction "m - i" arbitrary: i)
  case 0
  then have "i = m" by simp
  then show ?case
    using stop unat_slot_word [OF k, of h m]
    by (subst l2table_find_loop.simps) (auto simp: Let_def stops_def slot_word_def)
next
  case (Suc n)
  then have "i < m" by simp
  with before have ns: "\<not> stops es k kk h i" by simp
  have IH: "l2table_find_loop es kk h (mask k) False (of_nat (tri (Suc i))) (of_nat (Suc i)) found =
     Some (if l2_key (es ! slot k h m) = kk then Some (slot_word k h m) else None)"
    using Suc \<open>i < m\<close> by (intro Suc.hyps(1)) auto
  show ?case
    using ns unat_slot_word [OF k, of h i] IH
    by (subst l2table_find_loop.simps) (simp add: Let_def stops_def slot_word_def ac_simps)
qed

text \<open>The slot an insertion takes: the first unoccupied one on the path.\<close>

definition first_unocc :: "l2table_entry list \<Rightarrow> nat \<Rightarrow> u32 \<Rightarrow> nat \<Rightarrow> bool" where
  "first_unocc es k h j \<longleftrightarrow> KEY_IS_UNOCCUPIED (l2_key (es ! slot k h j)) \<and>
     (\<forall>i<j. \<not> KEY_IS_UNOCCUPIED (l2_key (es ! slot k h i)))"

lemma find_loop_insert:
  assumes k: "k < 32" and stop: "stops es k kk h m" and before: "\<forall>j<m. \<not> stops es k kk h j"
    and "i \<le> m" and f: "first_unocc es k h f"
    and found: "found = (if f < i then Some (slot_word k h f) else None)"
  shows "l2table_find_loop es kk h (mask k) True (of_nat (tri i)) (of_nat i) found =
     Some (if l2_key (es ! slot k h m) = kk then None else Some (slot_word k h f))"
  using \<open>i \<le> m\<close> found
proof (induction "m - i" arbitrary: i found)
  case 0
  then have "i = m" by simp
  have "f \<le> m" if "l2_key (es ! slot k h m) = KEY_FREE"
    using that f by (metis first_unocc_def KEY_FREE_unoccupied not_le_imp_less)
  then show ?case
    using stop unat_slot_word [OF k, of h m] \<open>i = m\<close> f 0(2,3)
    by (subst l2table_find_loop.simps)
       (auto simp: Let_def stops_def slot_word_def first_unocc_def le_less)
next
  case (Suc n)
  then have "i < m" by simp
  with before have ns: "\<not> stops es k kk h i" by simp
  let ?found' = "if f < Suc i then Some (slot_word k h f) else None"
  have IH: "l2table_find_loop es kk h (mask k) True (of_nat (tri (Suc i))) (of_nat (Suc i)) ?found' =
     Some (if l2_key (es ! slot k h m) = kk then None else Some (slot_word k h f))"
    using Suc \<open>i < m\<close> by (intro Suc.hyps(1)) auto
  have upd: "(if KEY_IS_UNOCCUPIED (l2_key (es ! slot k h i)) \<and> found = None
      then Some (slot_word k h i) else found) = ?found'"
    using f Suc.prems(2) by (cases f i rule: linorder_cases) (auto simp: first_unocc_def)
  show ?case
    using ns unat_slot_word [OF k, of h i] IH upd [symmetric]
    by (subst l2table_find_loop.simps)
       (simp only: Let_def stops_def slot_word_def ac_simps tri_Suc of_nat_add of_nat_Suc
         HOL.if_False HOL.if_True simp_thms de_Morgan_disj)
qed

subsection \<open>The map a table stands for\<close>

primrec num_with :: "(u64 \<Rightarrow> bool) \<Rightarrow> l2table_entry list \<Rightarrow> int" where
  "num_with P [] = 0"
| "num_with P (e # es) = of_bool (P (l2_key e)) + num_with P es"

lemma num_with_nonneg [simp]: "0 \<le> num_with P es"
  by (induction es) auto

lemma num_with_update:
  "i < length es \<Longrightarrow>
     num_with P (es[i := e]) = num_with P es - of_bool (P (l2_key (es ! i))) + of_bool (P (l2_key e))"
proof (induction es arbitrary: i)
  case (Cons a es)
  then show ?case by (cases i) auto
qed simp

lemma num_with_replicate [simp]: "num_with P (replicate n e) = of_nat n * of_bool (P (l2_key e))"
  by (induction n) (auto simp: algebra_simps)

lemma num_with_gap:
  "num_with P es + num_with Q es < int (length es) \<Longrightarrow>
     \<exists>s<length es. \<not> P (l2_key (es ! s)) \<and> \<not> Q (l2_key (es ! s))"
proof (induction es)
  case (Cons e es)
  show ?case
  proof (cases "P (l2_key e) \<or> Q (l2_key e)")
    case True
    then have "num_with P es + num_with Q es < int (length es)"
      using Cons.prems by (auto simp: of_bool_def split: if_splits)
    then show ?thesis using Cons.IH by fastforce
  qed auto
qed simp

primrec kmap :: "l2table_entry list \<Rightarrow> u64 \<Rightarrow> (u32 \<times> u32) option" where
  "kmap [] = Map.empty"
| "kmap (e # es) = (if KEY_IS_UNOCCUPIED (l2_key e) then kmap es
     else (kmap es)(l2_key e \<mapsto> (l2_out_port e, l2_metadata e)))"

text \<open>
  The keys the callers use: a MAC address has 6 bytes and a VLAN identifier at most 15 bits (the
  top bit of an encoded key marks an unoccupied slot).
\<close>

definition valid_key :: "mac \<Rightarrow> u16 \<Rightarrow> bool" where
  "valid_key mac vlan_id \<longleftrightarrow> length mac = 6 \<and> \<not> bit vlan_id 15"

definition l2_abs :: "l2table \<Rightarrow> mac \<times> u16 \<Rightarrow> (u32 \<times> u32) option" where
  "l2_abs t = (\<lambda>(mac, vlan_id).
     if valid_key mac vlan_id then kmap (l2_entries t) (l2table_encode_key mac vlan_id) else None)"

lemma l2_abs_valid: "valid_key mac v \<Longrightarrow> l2_abs t (mac, v) = kmap (l2_entries t) (l2table_encode_key mac v)"
  by (simp add: l2_abs_def)

lemma kmap_None_iff:
  "kmap es K = None \<longleftrightarrow> (\<forall>s<length es. l2_key (es ! s) = K \<longrightarrow> KEY_IS_UNOCCUPIED K)"
  by (induction es) (auto simp: less_Suc_eq_0_disj)

lemma kmap_unoccupied [simp]: "KEY_IS_UNOCCUPIED K \<Longrightarrow> kmap es K = None"
  by (induction es) auto

lemma kmap_nth:
  assumes "s < length es" "\<not> KEY_IS_UNOCCUPIED (l2_key (es ! s))"
    "\<forall>s'<length es. l2_key (es ! s') = l2_key (es ! s) \<longrightarrow> s' = s"
  shows "kmap es (l2_key (es ! s)) = Some (l2_out_port (es ! s), l2_metadata (es ! s))"
  using assms
proof (induction es arbitrary: s)
  case (Cons e es)
  then show ?case
    by (cases s) (fastforce simp: less_Suc_eq_0_disj)+
qed simp

lemma kmap_fill:
  assumes "s < length es" "KEY_IS_UNOCCUPIED (l2_key (es ! s))" "\<not> KEY_IS_UNOCCUPIED K" "kmap es K = None"
  shows "kmap (es[s := \<lparr>l2_key = K, l2_out_port = p, l2_metadata = m\<rparr>]) = (kmap es)(K \<mapsto> (p, m))"
  using assms
proof (induction es arbitrary: s)
  case (Cons e es)
  then show ?case
    by (cases s) (auto simp: fun_upd_twist split: if_splits)
qed simp

lemma kmap_delete:
  assumes "s < length es" "l2_key (es ! s) = K" "\<not> KEY_IS_UNOCCUPIED K" "KEY_IS_UNOCCUPIED (l2_key e')"
    "\<forall>s'<length es. l2_key (es ! s') = K \<longrightarrow> s' = s"
  shows "kmap (es[s := e']) = (kmap es)(K := None)"
  using assms
proof (induction es arbitrary: s)
  case (Cons e es)
  show ?case
  proof (cases s)
    case 0
    then have "kmap es K = None"
      using Cons.prems by (fastforce simp: kmap_None_iff)
    then show ?thesis using 0 Cons.prems by (auto simp: fun_eq_iff)
  next
    case (Suc s0)
    moreover have "l2_key e \<noteq> K" using Cons.prems(5) Suc by (auto dest: spec [of _ 0])
    moreover have "kmap (es[s0 := e']) = (kmap es)(K := None)"
      using Cons.prems Suc by (intro Cons.IH) (auto dest: spec [of _ "Suc _"])
    ultimately show ?thesis by (auto simp: fun_upd_twist)
  qed
qed simp

subsection \<open>The table invariant\<close>

definition key_hash :: "murmur_hash \<Rightarrow> u32 \<Rightarrow> u64 \<Rightarrow> u32" where
  "key_hash H slt K = (case l2table_decode_key K of (mac, vlan_id) \<Rightarrow> H (le_bytes 2 vlan_id @ take 6 mac) slt)"

text \<open>An occupied slot is met on its key's probe path before a free slot and before an equal key.\<close>

definition probe_ok :: "(u64 \<Rightarrow> u32) \<Rightarrow> nat \<Rightarrow> l2table_entry list \<Rightarrow> nat \<Rightarrow> bool" where
  "probe_ok h k es s \<longleftrightarrow> (\<exists>j. slot k (h (l2_key (es ! s))) j = s \<and>
     (\<forall>i<j. \<not> stops es k (l2_key (es ! s)) (h (l2_key (es ! s))) i))"

definition es_inv :: "(u64 \<Rightarrow> u32) \<Rightarrow> nat \<Rightarrow> l2table_entry list \<Rightarrow> bool" where
  "es_inv h k es \<longleftrightarrow> length es = 2 ^ k \<and>
     (\<forall>s<length es. KEY_IS_UNOCCUPIED (l2_key (es ! s)) \<longrightarrow> l2_key (es ! s) \<in> {KEY_FREE, KEY_DELETED}) \<and>
     (\<forall>s<length es. \<not> KEY_IS_UNOCCUPIED (l2_key (es ! s)) \<longrightarrow> probe_ok h k es s) \<and>
     (\<exists>s<length es. l2_key (es ! s) = KEY_FREE)"

definition l2_wf :: "murmur_hash \<Rightarrow> l2table \<Rightarrow> bool" where
  "l2_wf H t \<longleftrightarrow> (\<exists>k. k \<le> 30 \<and> l2_size t = 2 ^ k \<and> es_inv (key_hash H (l2_salt t)) k (l2_entries t)) \<and>
     num_occupied t = num_with (\<lambda>K. \<not> KEY_IS_UNOCCUPIED K) (l2_entries t) \<and>
     num_deleted t = num_with (\<lambda>K. K = KEY_DELETED) (l2_entries t) \<and>
     2 * (num_occupied t + num_deleted t) \<le> l2_size t"

text \<open>The invariant after \<open>n\<close> insertions, which bounds how often the table can have grown.\<close>

definition l2_inv :: "murmur_hash \<Rightarrow> nat \<Rightarrow> l2table \<Rightarrow> bool" where
  "l2_inv H n t \<longleftrightarrow> l2_wf H t \<and> num_occupied t + num_deleted t \<le> int n \<and> l2_size t \<le> 4 * int n + 1"

lemma es_inv_distinct:
  assumes inv: "es_inv h k es" and s: "s < length es" "s' < length es"
    and occ: "\<not> KEY_IS_UNOCCUPIED (l2_key (es ! s))" and eq: "l2_key (es ! s') = l2_key (es ! s)"
  shows "s' = s"
proof -
  have "probe_ok h k es s" "probe_ok h k es s'"
    using inv s occ eq by (auto simp: es_inv_def)
  then obtain j j' where
    "slot k (h (l2_key (es ! s))) j = s" "\<forall>i<j. \<not> stops es k (l2_key (es ! s)) (h (l2_key (es ! s))) i"
    "slot k (h (l2_key (es ! s))) j' = s'" "\<forall>i<j'. \<not> stops es k (l2_key (es ! s)) (h (l2_key (es ! s))) i"
    using eq by (auto simp: probe_ok_def)
  then show ?thesis
    using eq by (cases j j' rule: linorder_cases) (auto simp: stops_def)
qed

lemma es_inv_unique:
  assumes "es_inv h k es" "s < length es" "\<not> KEY_IS_UNOCCUPIED (l2_key (es ! s))"
  shows "\<forall>s'<length es. l2_key (es ! s') = l2_key (es ! s) \<longrightarrow> s' = s"
  using es_inv_distinct [OF assms(1,2) _ assms(3)] by blast

text \<open>The first step at which a probe for key \<open>K\<close> stops.\<close>

lemma free_slot_stops:
  assumes "\<exists>s<2 ^ k. l2_key (es ! s) = KEY_FREE"
  obtains m where "stops es k K g m" "\<forall>j<m. \<not> stops es k K g j"
proof -
  have "\<exists>j. stops es k K g j"
    using assms slot_covers [of _ k g] by (auto simp: stops_def)
  then show thesis
    using that [of "LEAST j. stops es k K g j"] by (metis LeastI_ex not_less_Least)
qed

lemma free_slot_first_unocc:
  assumes "\<exists>s<2 ^ k. l2_key (es ! s) = KEY_FREE"
  obtains f where "first_unocc es k g f"
proof -
  have "\<exists>j. KEY_IS_UNOCCUPIED (l2_key (es ! slot k g j))"
    using assms slot_covers [of _ k g] KEY_FREE_unoccupied by metis
  then show thesis
    using that [of "LEAST j. KEY_IS_UNOCCUPIED (l2_key (es ! slot k g j))"]
    by (metis (mono_tags, lifting) LeastI_ex first_unocc_def not_less_Least)
qed

lemma es_inv_free: "es_inv h k es \<Longrightarrow> \<exists>s<2 ^ k. l2_key (es ! s) = KEY_FREE"
  by (auto simp: es_inv_def)

lemma stops_at_key:
  assumes inv: "es_inv h k es" and K: "\<not> KEY_IS_UNOCCUPIED K"
    and m: "stops es k K (h K) m" "\<forall>j<m. \<not> stops es k K (h K) j"
  shows "kmap es K = None \<longleftrightarrow> l2_key (es ! slot k (h K) m) \<noteq> K"
proof
  assume "kmap es K = None"
  then show "l2_key (es ! slot k (h K) m) \<noteq> K"
    using inv K by (auto simp: kmap_None_iff es_inv_def)
next
  assume ne: "l2_key (es ! slot k (h K) m) \<noteq> K"
  show "kmap es K = None"
  proof (rule ccontr)
    assume "kmap es K \<noteq> None"
    then obtain s where s: "s < length es" "l2_key (es ! s) = K" by (auto simp: kmap_None_iff)
    then obtain j where j: "slot k (h K) j = s" "\<forall>i<j. \<not> stops es k K (h K) i"
      using inv K by (auto simp: es_inv_def probe_ok_def)
    then have "stops es k K (h K) j" using s by (simp add: stops_def)
    then have "j = m" using m j by (metis linorder_neqE_nat)
    then show False using s j ne by simp
  qed
qed

lemma probe_ok_mono:
  assumes "probe_ok h k es s" "l2_key (es' ! s) = l2_key (es ! s)"
    "\<And>i. \<not> stops es k (l2_key (es ! s)) (h (l2_key (es ! s))) i \<Longrightarrow>
       \<not> stops es' k (l2_key (es ! s)) (h (l2_key (es ! s))) i"
  shows "probe_ok h k es' s"
  using assms by (auto simp: probe_ok_def)

lemma es_inv_fill:
  assumes inv: "es_inv h k es" and K: "\<not> KEY_IS_UNOCCUPIED K" "kmap es K = None"
    and f: "first_unocc es k (h K) f" and e: "l2_key e = K"
    and free: "\<exists>s<length es. l2_key (es[slot k (h K) f := e] ! s) = KEY_FREE"
  shows "es_inv h k (es[slot k (h K) f := e])"
proof -
  let ?f = "slot k (h K) f" and ?es = "es[slot k (h K) f := e]"
  have len: "length es = 2 ^ k" using inv by (simp add: es_inv_def)
  have absent: "l2_key (es ! s) \<noteq> K" if "s < length es" for s
    using K that by (auto simp: kmap_None_iff)
  have nostop: "\<not> stops ?es k K' g i" if "\<not> stops es k K' g i" "K' \<noteq> K" for K' g i
    using that K e len by (auto simp: stops_def nth_list_update)
  have "probe_ok h k ?es s" if s: "s < length ?es" "\<not> KEY_IS_UNOCCUPIED (l2_key (?es ! s))" for s
  proof (cases "s = ?f")
    case True
    have "\<not> stops ?es k K (h K) i" if "i < f" for i
      using f that absent [of "slot k (h K) i"] len
      by (auto simp: stops_def first_unocc_def nth_list_update)
    then show ?thesis using True e s by (auto simp: probe_ok_def)
  next
    case False
    then have "probe_ok h k es s" "l2_key (es ! s) \<noteq> K" "l2_key (?es ! s) = l2_key (es ! s)"
      using inv s absent by (auto simp: es_inv_def)
    then show ?thesis by (intro probe_ok_mono [of h k es s ?es] nostop)
  qed
  moreover have "KEY_IS_UNOCCUPIED (l2_key (?es ! s)) \<longrightarrow> l2_key (?es ! s) \<in> {KEY_FREE, KEY_DELETED}"
    if "s < length es" for s
    using inv K e that by (cases "s = ?f") (auto simp: es_inv_def)
  ultimately show ?thesis
    using inv free by (simp add: es_inv_def)
qed

lemma es_inv_delete:
  assumes inv: "es_inv h k es" and s0: "s0 < length es" and occ: "\<not> KEY_IS_UNOCCUPIED (l2_key (es ! s0))"
    and e: "l2_key e = KEY_DELETED"
  shows "es_inv h k (es[s0 := e])"
proof -
  have "probe_ok h k (es[s0 := e]) s"
    if s: "s < length es" "\<not> KEY_IS_UNOCCUPIED (l2_key (es[s0 := e] ! s))" for s
  proof (rule probe_ok_mono)
    have ne: "s \<noteq> s0" using s e by auto
    then show "probe_ok h k es s" "l2_key (es[s0 := e] ! s) = l2_key (es ! s)"
      using inv s by (auto simp: es_inv_def)
    then have "l2_key (es ! s) \<noteq> KEY_DELETED" using s by auto
    then show "\<not> stops (es[s0 := e]) k (l2_key (es ! s)) g i" if "\<not> stops es k (l2_key (es ! s)) g i" for g i
      using that e s0 by (simp add: stops_def nth_list_update)
  qed
  moreover obtain s where "s < length es" "l2_key (es ! s) = KEY_FREE"
    using inv by (auto simp: es_inv_def)
  then have "s < length es \<and> l2_key (es[s0 := e] ! s) = KEY_FREE"
    using occ by (cases "s = s0") auto
  then have "\<exists>s<length es. l2_key (es[s0 := e] ! s) = KEY_FREE" by blast
  moreover have "KEY_IS_UNOCCUPIED (l2_key (es[s0 := e] ! s)) \<longrightarrow>
      l2_key (es[s0 := e] ! s) \<in> {KEY_FREE, KEY_DELETED}" if "s < length es" for s
    using inv e that by (cases "s = s0") (auto simp: es_inv_def)
  ultimately show ?thesis
    using inv by (simp add: es_inv_def)
qed

lemma es_inv_fresh: "es_inv h k (replicate (2 ^ k) free_entry)"
  by (auto simp: es_inv_def free_entry_def intro!: exI [of _ 0])

subsection \<open>The operations refine a map\<close>

lemma valid_key_occupied: "valid_key mac v \<Longrightarrow> \<not> KEY_IS_UNOCCUPIED (l2table_encode_key mac v)"
  by (simp add: valid_key_def l2table_encode_occupied)

lemma valid_key_hash:
  "valid_key mac v \<Longrightarrow> l2table_hash H t mac v = key_hash H (l2_salt t) (l2table_encode_key mac v)"
  by (simp add: valid_key_def key_hash_def l2table_decode_encode l2table_hash_def)

lemma valid_key_inj:
  "valid_key mac v \<Longrightarrow> valid_key mac' v' \<Longrightarrow>
     l2table_encode_key mac v = l2table_encode_key mac' v' \<Longrightarrow> (mac, v) = (mac', v')"
  unfolding valid_key_def by (metis l2table_decode_encode)

lemma l2_find_cases:
  assumes inv: "l2_wf H t" and v: "valid_key mac v"
  obtains
    (absent) "l2_abs t (mac, v) = None" "l2table_find H t mac v = Some None"
  | (present) i where "l2table_find H t mac v = Some (Some i)" "unat i < length (l2_entries t)"
      "l2_key (l2_entries t ! unat i) = l2table_encode_key mac v"
      "l2_abs t (mac, v) = Some (l2_out_port (l2_entries t ! unat i), l2_metadata (l2_entries t ! unat i))"
proof -
  let ?K = "l2table_encode_key mac v" and ?es = "l2_entries t" and ?h = "key_hash H (l2_salt t)"
  obtain k where k: "k \<le> 30" "l2_size t = 2 ^ k" "es_inv ?h k ?es"
    using inv by (auto simp: l2_wf_def)
  have occ: "\<not> KEY_IS_UNOCCUPIED ?K" using v by (rule valid_key_occupied)
  obtain m where m: "stops ?es k ?K (?h ?K) m" "\<forall>j<m. \<not> stops ?es k ?K (?h ?K) j"
    by (rule free_slot_stops [OF es_inv_free [OF k(3)]])
  have find: "l2table_find H t mac v =
      Some (if l2_key (?es ! slot k (?h ?K) m) = ?K then Some (slot_word k (?h ?K) m) else None)"
    using find_loop_lookup [OF _ m, of 0 None] k v
    by (simp add: l2table_find_def l2table_find_internal_def mask_eq_exp_minus_1 valid_key_hash)
  note key = stops_at_key [OF k(3) occ m]
  show thesis
  proof (cases "l2_key (?es ! slot k (?h ?K) m) = ?K")
    case True
    have u: "unat (slot_word k (?h ?K) m) = slot k (?h ?K) m"
      using k by (simp add: unat_slot_word)
    have len: "slot k (?h ?K) m < length ?es"
      using k(3) by (simp add: es_inv_def)
    have "kmap ?es (l2_key (?es ! slot k (?h ?K) m)) =
        Some (l2_out_port (?es ! slot k (?h ?K) m), l2_metadata (?es ! slot k (?h ?K) m))"
      using True occ by (intro kmap_nth es_inv_unique [OF k(3)] len) simp_all
    then show ?thesis
      using True u len find by (intro present [of "slot_word k (?h ?K) m"]) (simp_all add: l2_abs_valid v)
  next
    case False
    then show ?thesis
      using key find by (intro absent) (simp_all add: l2_abs_valid v)
  qed
qed

lemma l2_find_unoccupied_cases:
  assumes inv: "es_inv (key_hash H (l2_salt t)) k (l2_entries t)" "k \<le> 30" "l2_size t = 2 ^ k"
    and v: "valid_key mac v"
  obtains
    (present) "l2_abs t (mac, v) \<noteq> None" "l2table_find_unoccupied H t mac v = Some None"
  | (absent) i f where "l2_abs t (mac, v) = None" "l2table_find_unoccupied H t mac v = Some (Some i)"
      "unat i = slot k (key_hash H (l2_salt t) (l2table_encode_key mac v)) f"
      "first_unocc (l2_entries t) k (key_hash H (l2_salt t) (l2table_encode_key mac v)) f"
proof -
  let ?K = "l2table_encode_key mac v" and ?es = "l2_entries t" and ?h = "key_hash H (l2_salt t)"
  have occ: "\<not> KEY_IS_UNOCCUPIED ?K" using v by (rule valid_key_occupied)
  obtain m where m: "stops ?es k ?K (?h ?K) m" "\<forall>j<m. \<not> stops ?es k ?K (?h ?K) j"
    by (rule free_slot_stops [OF es_inv_free [OF inv(1)]])
  obtain f where f: "first_unocc ?es k (?h ?K) f"
    by (rule free_slot_first_unocc [OF es_inv_free [OF inv(1)]])
  have find: "l2table_find_unoccupied H t mac v =
      Some (if l2_key (?es ! slot k (?h ?K) m) = ?K then None else Some (slot_word k (?h ?K) f))"
    using find_loop_insert [OF _ m _ f, of 0 None] inv v
    by (simp add: l2table_find_unoccupied_def l2table_find_internal_def mask_eq_exp_minus_1 valid_key_hash)
  note key = stops_at_key [OF inv(1) occ m]
  show thesis
  proof (cases "l2_key (?es ! slot k (?h ?K) m) = ?K")
    case True
    then show ?thesis using key find by (intro present) (auto simp: l2_abs_valid v)
  next
    case False
    then show ?thesis
      using key find f unat_slot_word [of k] inv(2)
      by (intro absent [of "slot_word k (?h ?K) f" f]) (simp_all add: l2_abs_valid v)
  qed
qed

lemma l2_lookup_refines:
  assumes "l2_wf H t" "valid_key mac v"
  shows "l2table_lookup H t mac v =
    Some (case l2_abs t (mac, v) of None \<Rightarrow> Inl ERROR_NOT_FOUND | Some pm \<Rightarrow> Inr pm)"
  using assms by (rule l2_find_cases) (auto simp: l2table_lookup_def Let_def)

lemma l2_remove_refines:
  assumes inv: "l2_wf H t" and v: "valid_key mac v"
  obtains err t' where "l2table_remove H t mac v = Some (err, t')" "l2_wf H t'"
    "num_occupied t' + num_deleted t' = num_occupied t + num_deleted t" "l2_size t' = l2_size t"
    "err = (if l2_abs t (mac, v) = None then ERROR_NOT_FOUND else ERROR_NONE)"
    "kmap (l2_entries t') = (kmap (l2_entries t))(l2table_encode_key mac v := None)"
  using inv v
proof (cases rule: l2_find_cases)
  case absent
  then show ?thesis
    using inv by (intro that [of ERROR_NOT_FOUND t]) (simp_all add: l2table_remove_def l2_abs_valid v fun_upd_idem)
next
  case (present i)
  let ?K = "l2table_encode_key mac v" and ?es = "l2_entries t" and ?h = "key_hash H (l2_salt t)"
  let ?e = "(?es ! unat i)\<lparr>l2_key := KEY_DELETED\<rparr>"
  obtain k where k: "k \<le> 30" "l2_size t = 2 ^ k" "es_inv ?h k ?es"
    using inv by (auto simp: l2_wf_def)
  have occ: "\<not> KEY_IS_UNOCCUPIED ?K" using v by (rule valid_key_occupied)
  have "?K \<noteq> KEY_DELETED" using occ by auto
  then have n: "num_with (\<lambda>K. \<not> KEY_IS_UNOCCUPIED K) (?es[unat i := ?e]) = num_with (\<lambda>K. \<not> KEY_IS_UNOCCUPIED K) ?es - 1"
    "num_with (\<lambda>K. K = KEY_DELETED) (?es[unat i := ?e]) = num_with (\<lambda>K. K = KEY_DELETED) ?es + 1"
    using present occ by (simp_all add: num_with_update)
  have "kmap (?es[unat i := ?e]) = (kmap ?es)(?K := None)"
    by (rule kmap_delete [OF present(2,3) occ _ es_inv_unique [OF k(3) present(2), unfolded present(3), OF occ]])
      simp
  moreover have "es_inv ?h k (?es[unat i := ?e])"
    using k(3) present occ by (intro es_inv_delete) simp_all
  ultimately have m: "kmap (?es[unat i := ?e]) = (kmap ?es)(?K := None)"
    and "\<exists>k'. k' \<le> 30 \<and> l2_size t = 2 ^ k' \<and> es_inv ?h k' (?es[unat i := ?e])"
    using k by blast+
  let ?t = "t\<lparr>num_deleted := num_deleted t + 1, num_occupied := num_occupied t - 1,
              l2_entries := ?es[unat i := ?e]\<rparr>"
  have "l2_wf H ?t"
    using inv n \<open>\<exists>k'. _ k'\<close> by (simp add: l2_wf_def)
  moreover have "l2table_remove H t mac v = Some (ERROR_NONE, ?t)"
    using present by (simp add: l2table_remove_def)
  ultimately show ?thesis
    using m present by (intro that [of ERROR_NONE ?t]) simp_all
qed

lemma encode_occupied_iff:
  "length mac = 6 \<Longrightarrow> KEY_IS_UNOCCUPIED (l2table_encode_key mac v) \<longleftrightarrow> bit v 15"
  by (simp add: KEY_IS_UNOCCUPIED_bit l2table_encode_key_def bit_of_le nth_append bit_ucast_iff bit_drop_bit_eq)

lemma l2_fill_refines:
  assumes wf: "l2_wf H t" and v: "valid_key mac v"
    and room: "2 * (num_occupied t + num_deleted t + 1) \<le> l2_size t"
  obtains err t' where "l2table_fill H t mac v p m = Some (err, t')" "l2_wf H t'"
    "err = (if l2_abs t (mac, v) = None then ERROR_NONE else ERROR_PARAM)"
    "kmap (l2_entries t') = (if l2_abs t (mac, v) = None
       then (kmap (l2_entries t))(l2table_encode_key mac v \<mapsto> (p, m)) else kmap (l2_entries t))"
    "num_occupied t' + num_deleted t' \<le> num_occupied t + num_deleted t + 1" "l2_size t' = l2_size t"
proof -
  let ?K = "l2table_encode_key mac v" and ?es = "l2_entries t" and ?h = "key_hash H (l2_salt t)"
  obtain k where k: "es_inv ?h k ?es" "k \<le> 30" "l2_size t = 2 ^ k"
    using wf by (auto simp: l2_wf_def)
  from k v show thesis
  proof (cases rule: l2_find_unoccupied_cases)
    case present
    then show ?thesis using wf by (intro that [of ERROR_PARAM t]) (auto simp: l2table_fill_def)
  next
    case (absent i f)
    let ?e = "\<lparr>l2_key = ?K, l2_out_port = p, l2_metadata = m\<rparr>" and ?D = "l2_key (?es ! unat i) = KEY_DELETED"
    let ?occ = "num_with (\<lambda>K. \<not> KEY_IS_UNOCCUPIED K)" and ?del = "num_with (\<lambda>K. K = KEY_DELETED)"
    have occ: "\<not> KEY_IS_UNOCCUPIED ?K" using v by (rule valid_key_occupied)
    have len: "length ?es = 2 ^ k" "unat i < length ?es" using k absent by (auto simp: es_inv_def)
    have un: "KEY_IS_UNOCCUPIED (l2_key (?es ! unat i))" using absent by (simp add: first_unocc_def)
    have n: "?occ (?es[unat i := ?e]) = ?occ ?es + 1" "?del (?es[unat i := ?e]) = ?del ?es - of_bool ?D"
      using occ un len by (auto simp: num_with_update)
    then have "?occ (?es[unat i := ?e]) + ?del (?es[unat i := ?e]) < int (length (?es[unat i := ?e]))"
      using room wf k(3) len(1) num_with_nonneg [of "\<lambda>K. \<not> KEY_IS_UNOCCUPIED K" ?es]
        num_with_nonneg [of "\<lambda>K. K = KEY_DELETED" ?es]
      by (auto simp: l2_wf_def simp del: num_with_nonneg)
    from num_with_gap [OF this] obtain s where s: "s < length ?es"
      "KEY_IS_UNOCCUPIED (l2_key (?es[unat i := ?e] ! s))" "l2_key (?es[unat i := ?e] ! s) \<noteq> KEY_DELETED"
      by auto
    then have "l2_key (?es[unat i := ?e] ! s) = KEY_FREE"
      using k(1) occ by (cases "s = unat i") (auto simp: es_inv_def)
    then have inv: "es_inv ?h k (?es[unat i := ?e])"
      using absent s(1) occ k(1) by (auto simp: l2_abs_valid v intro!: es_inv_fill)
    let ?t = "t\<lparr>num_deleted := (if ?D then num_deleted t - 1 else num_deleted t),
        num_occupied := num_occupied t + 1, l2_entries := ?es[unat i := ?e]\<rparr>"
    have "l2_wf H ?t"
      using wf inv n k room by (auto simp: l2_wf_def)
    moreover have "l2table_fill H t mac v p m = Some (ERROR_NONE, ?t)"
      using absent by (simp add: l2table_fill_def Let_def)
    moreover have "kmap (?es[unat i := ?e]) = (kmap ?es)(?K \<mapsto> (p, m))"
      using len un occ absent(1) by (intro kmap_fill) (simp_all add: l2_abs_valid v)
    ultimately show ?thesis
      using absent(1) by (intro that [of ERROR_NONE ?t]) simp_all
  qed
qed

subsection \<open>Resizing\<close>

primrec occ_distinct :: "l2table_entry list \<Rightarrow> bool" where
  "occ_distinct [] = True"
| "occ_distinct (e # es) = ((KEY_IS_UNOCCUPIED (l2_key e) \<or> kmap es (l2_key e) = None) \<and> occ_distinct es)"

lemma occ_distinctI:
  assumes "\<And>s s'. s < length es \<Longrightarrow> s' < length es \<Longrightarrow> \<not> KEY_IS_UNOCCUPIED (l2_key (es ! s)) \<Longrightarrow>
     l2_key (es ! s') = l2_key (es ! s) \<Longrightarrow> s' = s"
  shows "occ_distinct es"
  using assms
proof (induction es)
  case (Cons e es)
  have "occ_distinct es"
    using Cons.prems [of "Suc _" "Suc _"] by (intro Cons.IH) auto
  moreover have "kmap es (l2_key e) = None" if "\<not> KEY_IS_UNOCCUPIED (l2_key e)"
    using Cons.prems [of 0 "Suc _"] that by (auto simp: kmap_None_iff)
  ultimately show ?case by (cases "KEY_IS_UNOCCUPIED (l2_key e)") simp_all
qed simp

lemma l2table_resize_loop_ok:
  assumes "l2_wf H t" "2 * (num_occupied t + num_deleted t + num_with (\<lambda>K. \<not> KEY_IS_UNOCCUPIED K) old) \<le> l2_size t"
    "occ_distinct old" "\<And>K. kmap old K \<noteq> None \<Longrightarrow> kmap (l2_entries t) K = None"
  shows "\<exists>t'. l2table_resize_loop d H old t = Some t' \<and> l2_wf H t' \<and> l2_size t' = l2_size t \<and>
     kmap (l2_entries t') = kmap (l2_entries t) ++ kmap old \<and>
     num_occupied t' + num_deleted t' \<le> num_occupied t + num_deleted t + num_with (\<lambda>K. \<not> KEY_IS_UNOCCUPIED K) old"
  using assms
proof (induction old arbitrary: t)
  case (Cons e old)
  let ?occ = "num_with (\<lambda>K. \<not> KEY_IS_UNOCCUPIED K)"
  show ?case
  proof (cases "KEY_IS_UNOCCUPIED (l2_key e)")
    case True
    then show ?thesis using Cons.IH [of t] Cons.prems by simp
  next
    case False
    obtain mac v where dec: "l2table_decode_key (l2_key e) = (mac, v)" by fastforce
    from l2table_encode_decode [OF dec] have enc: "l2table_encode_key mac v = l2_key e" and
      "valid_key mac v" using False encode_occupied_iff [of mac v] by (auto simp: valid_key_def)
    have none: "l2_abs t (mac, v) = None" "kmap old (l2_key e) = None"
      using Cons.prems(3) Cons.prems(4) [of "l2_key e"] False enc \<open>valid_key mac v\<close> by (simp_all add: l2_abs_valid)
    have room: "2 * (num_occupied t + num_deleted t + 1) \<le> l2_size t"
      using Cons.prems(2) False num_with_nonneg [of "\<lambda>K. \<not> KEY_IS_UNOCCUPIED K" old]
      by (simp del: num_with_nonneg)
    obtain t1 where t1: "l2table_fill H t mac v (l2_out_port e) (l2_metadata e) = Some (ERROR_NONE, t1)"
      "l2_wf H t1" "kmap (l2_entries t1) = (kmap (l2_entries t))(l2_key e \<mapsto> (l2_out_port e, l2_metadata e))"
      "num_occupied t1 + num_deleted t1 \<le> num_occupied t + num_deleted t + 1" "l2_size t1 = l2_size t"
      by (rule l2_fill_refines [OF Cons.prems(1) \<open>valid_key mac v\<close> room]) (auto simp: none enc)
    have "\<exists>t'. l2table_resize_loop d H old t1 = Some t' \<and> l2_wf H t' \<and> l2_size t' = l2_size t1 \<and>
      kmap (l2_entries t') = kmap (l2_entries t1) ++ kmap old \<and>
      num_occupied t' + num_deleted t' \<le> num_occupied t1 + num_deleted t1 + ?occ old"
      using Cons.prems False t1 none(2) by (intro Cons.IH) (auto split: if_splits)
    moreover have "l2table_resize_loop d H (e # old) t = l2table_resize_loop d H old t1"
      using False dec t1(1) room by simp
    moreover have "kmap (l2_entries t1) ++ kmap old = kmap (l2_entries t) ++ kmap (e # old)"
      using t1(3) False none(2) by (simp add: map_add_upd_left domIff)
    ultimately show ?thesis
      using t1(4,5) False by (auto simp del: l2table_resize_loop.simps kmap.simps)
  qed
qed simp

lemma l2_wf_fresh: "k \<le> 30 \<Longrightarrow>
    l2_wf H \<lparr>l2_entries = replicate (2 ^ k) free_entry, l2_size = 2 ^ k, num_occupied = 0, num_deleted = 0, l2_salt = s\<rparr>"
  using es_inv_fresh [of "key_hash H s" k] by (auto simp: l2_wf_def) (auto simp: free_entry_def)

lemma kmap_fresh [simp]: "kmap (replicate n free_entry) = Map.empty"
  by (induction n) (auto simp: free_entry_def)

lemma l2table_resize_ok:
  assumes wf: "l2_wf H t" and small: "l2_size t < 2 ^ 30"
  obtains t' where "l2table_resize d H t = Some (ERROR_NONE, t')" "l2_wf H t'" "l2_size t' = 2 * l2_size t"
    "kmap (l2_entries t') = kmap (l2_entries t)" "num_occupied t' + num_deleted t' \<le> num_occupied t"
proof -
  obtain k where k: "es_inv (key_hash H (l2_salt t)) k (l2_entries t)" "l2_size t = 2 ^ k"
    using wf by (auto simp: l2_wf_def)
  let ?t = "t\<lparr>l2_size := 2 ^ Suc k, l2_entries := replicate (2 ^ Suc k) free_entry,
     num_occupied := 0, num_deleted := 0\<rparr>"
  have "k < 30" using small k(2) power_strict_increasing_iff [of "2 :: int" k 30] by simp
  then have wf': "l2_wf H ?t"
    using l2_wf_fresh [of "Suc k" H "l2_salt t"] by (simp add: l2_wf_def)
  have occ: "num_with (\<lambda>K. \<not> KEY_IS_UNOCCUPIED K) (l2_entries t) = num_occupied t" "0 \<le> num_occupied t" "0 \<le> num_deleted t"
    "2 * (num_occupied t + num_deleted t) \<le> l2_size t"
    using wf by (simp_all add: l2_wf_def)
  have "occ_distinct (l2_entries t)"
    using es_inv_distinct [OF k(1)] by (rule occ_distinctI)
  then have "\<exists>t'. l2table_resize_loop d H (l2_entries t) ?t = Some t' \<and> l2_wf H t' \<and> l2_size t' = l2_size ?t \<and>
     kmap (l2_entries t') = kmap (l2_entries ?t) ++ kmap (l2_entries t) \<and>
     num_occupied t' + num_deleted t' \<le>
       num_occupied ?t + num_deleted ?t + num_with (\<lambda>K. \<not> KEY_IS_UNOCCUPIED K) (l2_entries t)"
    using wf' occ k(2) by (intro l2table_resize_loop_ok) (simp_all del: replicate.simps)
  then show thesis
    using that occ k(2) by (auto simp: Let_def nat_mult_distrib nat_power_eq mult.commute simp del: replicate.simps)
qed

lemma l2_abs_upd:
  assumes "valid_key mac v" "kmap (l2_entries t') = (kmap (l2_entries t))(l2table_encode_key mac v := x)"
  shows "l2_abs t' = (l2_abs t)((mac, v) := x)"
  using assms valid_key_inj [OF assms(1)] by (fastforce simp: l2_abs_def fun_eq_iff)

lemma l2_abs_cong: "kmap (l2_entries t') = kmap (l2_entries t) \<Longrightarrow> l2_abs t' = l2_abs t"
  by (auto simp: l2_abs_def fun_eq_iff)

lemma l2_insert_refines:
  assumes inv: "l2_inv H n t" and v: "valid_key mac v" and n: "n < 2 ^ 27"
  obtains err t' where "l2table_insert (Suc d) H t mac v p m = Some (err, t')" "l2_inv H (Suc n) t'"
    "err = (if l2_abs t (mac, v) = None then ERROR_NONE else ERROR_PARAM)"
    "l2_abs t' = (if l2_abs t (mac, v) = None then (l2_abs t)((mac, v) \<mapsto> (p, m)) else l2_abs t)"
proof -
  note result = that
  have fill: thesis if t0: "l2_wf H t0" "2 * (num_occupied t0 + num_deleted t0 + 1) \<le> l2_size t0"
    "kmap (l2_entries t0) = kmap (l2_entries t)" "num_occupied t0 + num_deleted t0 \<le> int n"
    "l2_size t0 \<le> 4 * int n + 4"
    "l2table_insert (Suc d) H t mac v p m = l2table_fill H t0 mac v p m" for t0
    using t0(1) v t0(2)
  proof (rule l2_fill_refines [where p = p and m = m])
    have abs0: "l2_abs t0 = l2_abs t" using t0(3) by (rule l2_abs_cong)
    fix err t' assume t': "l2table_fill H t0 mac v p m = Some (err, t')" "l2_wf H t'"
      "err = (if l2_abs t0 (mac, v) = None then ERROR_NONE else ERROR_PARAM)"
      "kmap (l2_entries t') = (if l2_abs t0 (mac, v) = None
         then (kmap (l2_entries t0))(l2table_encode_key mac v \<mapsto> (p, m)) else kmap (l2_entries t0))"
      "num_occupied t' + num_deleted t' \<le> num_occupied t0 + num_deleted t0 + 1" "l2_size t' = l2_size t0"
    have "l2_inv H (Suc n) t'" using t' t0 by (simp add: l2_inv_def)
    moreover have "l2_abs t' = (if l2_abs t (mac, v) = None then (l2_abs t)((mac, v) \<mapsto> (p, m)) else l2_abs t)"
      using t'(4) l2_abs_upd [OF v, of t' t0] l2_abs_cong [of t' t0]
      by (cases "l2_abs t (mac, v)") (simp_all add: abs0)
    ultimately show thesis using result [of err t'] t'(1,3) t0(6) by (simp add: abs0 del: l2table_insert.simps)
  qed
  have wf: "l2_wf H t" "num_occupied t + num_deleted t \<le> int n" "l2_size t \<le> 4 * int n + 1"
    using inv by (simp_all add: l2_inv_def)
  show thesis
  proof (cases "2 * (num_occupied t + num_deleted t + 1) > l2_size t")
    case True
    have "l2_size t < 2 ^ 30" using wf(3) n by simp
    then obtain t0 where t0: "l2table_resize d H t = Some (ERROR_NONE, t0)" "l2_wf H t0"
      "l2_size t0 = 2 * l2_size t" "kmap (l2_entries t0) = kmap (l2_entries t)"
      "num_occupied t0 + num_deleted t0 \<le> num_occupied t"
      using l2table_resize_ok [OF wf(1)] by metis
    have "0 \<le> num_deleted t" "2 * (num_occupied t + num_deleted t) \<le> l2_size t" "1 \<le> l2_size t"
      using wf(1) by (auto simp: l2_wf_def)
    then have "num_occupied t + 1 \<le> l2_size t" "num_occupied t \<le> int n" using wf(2) by presburger+
    then show thesis
      using t0 True wf by (intro fill [of t0]) (simp_all add: failed_def)
  next
    case False
    then show thesis using wf by (intro fill [of t]) simp_all
  qed
qed

lemma l2_create_refines: "l2_inv H 0 (l2table_create s)" "l2_abs (l2table_create s) = Map.empty"
proof -
  show "l2_inv H 0 (l2table_create s)"
    using l2_wf_fresh [of 0 H s] by (simp add: l2_inv_def l2table_create_def)
  show "l2_abs (l2table_create s) = Map.empty"
    by (auto simp: l2_abs_def l2table_create_def free_entry_def)
qed

subsection \<open>Sequences of operations\<close>

datatype l2_op = L2_Insert mac u16 u32 u32 | L2_Remove mac u16 | L2_Lookup mac u16

definition l2_ok :: "l2_op \<Rightarrow> bool" where
  "l2_ok opn = (case opn of L2_Insert mac v _ _ \<Rightarrow> valid_key mac v | L2_Remove mac v \<Rightarrow> valid_key mac v
     | L2_Lookup mac v \<Rightarrow> valid_key mac v)"

fun l2_step :: "murmur_hash \<Rightarrow> l2_op \<Rightarrow> l2table \<Rightarrow> ((error \<times> (u32 \<times> u32) option) \<times> l2table) option" where
  "l2_step H (L2_Insert mac v p m) t = map_option (\<lambda>(err, t'). ((err, None), t')) (l2table_insert 1 H t mac v p m)"
| "l2_step H (L2_Remove mac v) t = map_option (\<lambda>(err, t'). ((err, None), t')) (l2table_remove H t mac v)"
| "l2_step H (L2_Lookup mac v) t =
     map_option (\<lambda>r. (case r of Inl err \<Rightarrow> (err, None) | Inr pm \<Rightarrow> (ERROR_NONE, Some pm), t)) (l2table_lookup H t mac v)"

fun l2_spec :: "l2_op \<Rightarrow> (mac \<times> u16 \<rightharpoonup> u32 \<times> u32) \<Rightarrow> (error \<times> (u32 \<times> u32) option) \<times> (mac \<times> u16 \<rightharpoonup> u32 \<times> u32)" where
  "l2_spec (L2_Insert mac v p m) f =
     (if f (mac, v) = None then ((ERROR_NONE, None), f((mac, v) \<mapsto> (p, m))) else ((ERROR_PARAM, None), f))"
| "l2_spec (L2_Remove mac v) f =
     (if f (mac, v) = None then ((ERROR_NOT_FOUND, None), f) else ((ERROR_NONE, None), f((mac, v) := None)))"
| "l2_spec (L2_Lookup mac v) f =
     (case f (mac, v) of None \<Rightarrow> ((ERROR_NOT_FOUND, None), f) | Some pm \<Rightarrow> ((ERROR_NONE, Some pm), f))"

lemma l2_inv_Suc: "l2_inv H n t \<Longrightarrow> l2_inv H (Suc n) t"
  by (simp add: l2_inv_def)

lemma l2_step_sim:
  assumes inv: "l2_inv H n t" and n: "n < 2 ^ 27" and ok: "l2_ok opn"
  shows "\<exists>r t'. l2_step H opn t = Some (r, t') \<and> l2_inv H (Suc n) t' \<and> l2_spec opn (l2_abs t) = (r, l2_abs t')"
proof (cases opn)
  case (L2_Insert mac v p m)
  then have v: "valid_key mac v" using ok by (simp add: l2_ok_def)
  show ?thesis
    by (rule l2_insert_refines [OF inv v n, of 0 p m])
       (auto simp: L2_Insert simp del: l2table_insert.simps)
next
  case (L2_Remove mac v)
  then have v: "valid_key mac v" using ok by (simp add: l2_ok_def)
  have wf: "l2_wf H t" using inv by (simp add: l2_inv_def)
  show ?thesis
  proof (rule l2_remove_refines [OF wf v])
    fix err t' assume t': "l2table_remove H t mac v = Some (err, t')" "l2_wf H t'"
      "num_occupied t' + num_deleted t' = num_occupied t + num_deleted t" "l2_size t' = l2_size t"
      "err = (if l2_abs t (mac, v) = None then ERROR_NOT_FOUND else ERROR_NONE)"
      "kmap (l2_entries t') = (kmap (l2_entries t))(l2table_encode_key mac v := None)"
    have "l2_inv H (Suc n) t'" using inv t' by (simp add: l2_inv_def)
    moreover have "l2_abs t' = (l2_abs t)((mac, v) := None)" using v t'(6) by (rule l2_abs_upd)
    ultimately show ?thesis using t'(1,5) L2_Remove by (auto simp: fun_upd_idem)
  qed
next
  case (L2_Lookup mac v)
  then have v: "valid_key mac v" using ok by (simp add: l2_ok_def)
  have wf: "l2_wf H t" using inv by (simp add: l2_inv_def)
  show ?thesis
    using l2_lookup_refines [OF wf v] l2_inv_Suc [OF inv] L2_Lookup by (auto split: option.split)
qed

interpretation l2t: refinement "l2_inv H" l2_abs "l2_step H" l2_spec l2_ok "2 ^ 27" for H
  by unfold_locales (rule l2_step_sim)

subsection \<open>Properties\<close>

text \<open>
  C16: a freshly created table, driven by any sequence of up to \<open>2^27\<close> insertions, removals and
  lookups of valid keys, returns from every one of them and gives exactly the error codes and
  values of a finite map, whatever the hash function: collisions, deleted slots and resizes are
  invisible.
\<close>

theorem l2table_run_refines_map:
  assumes "\<forall>opn \<in> set ops. l2_ok opn" and "length ops \<le> 2 ^ 27"
  shows "\<exists>t'. run_steps (l2_step H) ops (l2table_create slt) = Some (fst (run_spec l2_spec ops Map.empty), t') \<and>
    l2_inv H (length ops) t' \<and> l2_abs t' = snd (run_spec l2_spec ops Map.empty)"
  using l2t.run_sim [of H 0 "l2table_create slt" ops] assms l2_create_refines by fastforce

theorem l2table_run_refines_map_witness:
  "\<exists>t'. run_steps (l2_step (\<lambda>_ _. 7)) [L2_Insert [1,2,3,4,5,6] 100 3 9, L2_Insert [6,5,4,3,2,1] 100 4 8,
      L2_Insert [1,2,3,4,5,6] 100 5 5, L2_Remove [1,2,3,4,5,6] 100, L2_Lookup [1,2,3,4,5,6] 100,
      L2_Lookup [6,5,4,3,2,1] 100] (l2table_create 0) =
    Some ([(ERROR_NONE, None), (ERROR_NONE, None), (ERROR_PARAM, None), (ERROR_NONE, None),
      (ERROR_NOT_FOUND, None), (ERROR_NONE, Some (4, 8))], t')"
  using l2table_run_refines_map [of "[L2_Insert [1,2,3,4,5,6] 100 3 9, L2_Insert [6,5,4,3,2,1] 100 4 8,
      L2_Insert [1,2,3,4,5,6] 100 5 5, L2_Remove [1,2,3,4,5,6] 100, L2_Lookup [1,2,3,4,5,6] 100,
      L2_Lookup [6,5,4,3,2,1] 100]" "\<lambda>_ _. 7" 0]
  by (auto simp: l2_ok_def valid_key_def)

text \<open>
  C17: a probe ends in every table whose size is a power of two and that has a free slot, for
  lookups and for insertions, whatever the hash: the triangular steps reach every slot.
\<close>

theorem l2table_probe_terminates:
  assumes "length (l2_entries t) = 2 ^ k" "k < 32" "l2_size t = 2 ^ k"
    and "\<exists>s<2 ^ k. l2_key (l2_entries t ! s) = KEY_FREE"
  shows "\<exists>r. l2table_find_internal H t mac v find_unoccupied = Some r"
proof -
  let ?K = "l2table_encode_key mac v" and ?h = "l2table_hash H t mac v" and ?es = "l2_entries t"
  obtain m where m: "stops ?es k ?K ?h m" "\<forall>j<m. \<not> stops ?es k ?K ?h j"
    by (rule free_slot_stops [OF assms(4)])
  obtain f where f: "first_unocc ?es k ?h f"
    by (rule free_slot_first_unocc [OF assms(4)])
  show ?thesis
    using find_loop_lookup [OF assms(2) m, of 0 None] find_loop_insert [OF assms(2) m _ f, of 0 None] assms(3)
    by (cases find_unoccupied) (simp_all add: l2table_find_internal_def mask_eq_exp_minus_1)
qed

theorem l2table_probe_terminates_witness:
  "\<exists>r. l2table_find_internal (\<lambda>_ _. 5) \<lparr>l2_entries = [\<lparr>l2_key = KEY_DELETED, l2_out_port = 0, l2_metadata = 0\<rparr>,
      free_entry], l2_size = 2, num_occupied = 0, num_deleted = 1, l2_salt = 0\<rparr> [1,2,3,4,5,6] 7 True = Some r"
  by (rule l2table_probe_terminates [where k = 1]) (auto simp: free_entry_def intro: exI [of _ 1])

text \<open>
  C18: the 64-bit key of a MAC address and a VLAN identifier determines both, and every key is the
  encoding of what it decodes to.
\<close>

theorem l2table_key_roundtrip:
  "(length mac = 6 \<longrightarrow> l2table_decode_key (l2table_encode_key mac v) = (mac, v)) \<and>
   (case l2table_decode_key k of (mac', v') \<Rightarrow> l2table_encode_key mac' v' = k \<and> length mac' = 6)"
  using l2table_decode_encode [of mac v] l2table_encode_decode [of k] by (auto split: prod.split)

theorem l2table_key_roundtrip_witness:
  "l2table_decode_key (l2table_encode_key [1, 2, 3, 4, 5, 6] 0x0a0b) = ([1, 2, 3, 4, 5, 6], 0x0a0b)"
  using l2table_key_roundtrip [of "[1, 2, 3, 4, 5, 6]" "0x0a0b"] by simp

text \<open>
  C19: a resize doubles the table, keeps the map it stands for, drops the deleted slots, and never
  needs a second resize while it reinserts the old entries (no fuel is used).
\<close>

theorem l2table_resize_keeps_map:
  assumes "l2_wf H t" "l2_size t < 2 ^ 30"
  shows "\<exists>t'. l2table_resize 0 H t = Some (ERROR_NONE, t') \<and> l2_wf H t' \<and> l2_size t' = 2 * l2_size t \<and>
    l2_abs t' = l2_abs t \<and> num_occupied t' + num_deleted t' \<le> num_occupied t"
  by (rule l2table_resize_ok [OF assms, of 0]) (use l2_abs_cong in blast)

theorem l2table_resize_keeps_map_witness:
  "\<exists>t'. l2table_resize 0 (\<lambda>_ _. 1) (l2table_create 5) = Some (ERROR_NONE, t') \<and> l2_size t' = 2"
proof -
  have "l2_wf (\<lambda>_ _. 1) (l2table_create 5)" using l2_create_refines(1) by (simp add: l2_inv_def)
  from l2table_resize_keeps_map [OF this] show ?thesis by (auto simp: l2table_create_def)
qed

end
