(* ===== verification/Xbuf.thy ===== *)
theory Xbuf
  imports Prelude
begin

text \<open>
  The growable buffer of \<open>modules/xbuf\<close> (\<open>xbuf.h\<close>, \<open>xbuf.c\<close>), in which the pipelines keep
  compiled actions as netlink attributes. The backing memory is a list of bytes; \<open>realloc\<close>
  keeps the common prefix and leaves new bytes unspecified, which a parameter \<open>junk\<close> supplies.
  An operation is \<open>None\<close> when the process dies (an assertion, a failed allocation) or when the C
  code would access memory outside the buffer.
\<close>

subsection \<open>Memory\<close>

definition aim_realloc :: "(nat \<Rightarrow> u8) \<Rightarrow> bytes \<Rightarrow> nat \<Rightarrow> bytes" where
  "aim_realloc junk bs n = take n bs @ map junk [length bs ..< n]"

definition write_at :: "nat \<Rightarrow> bytes \<Rightarrow> bytes \<Rightarrow> bytes option" where
  "write_at off d bs =
     (if off + length d \<le> length bs then Some (take off bs @ d @ drop (off + length d) bs) else None)"

definition read_at :: "nat \<Rightarrow> nat \<Rightarrow> bytes \<Rightarrow> bytes option" where
  "read_at off n bs = (if off + n \<le> length bs then Some (take n (drop off bs)) else None)"

subsection \<open>The buffer\<close>

record xbuf =
  xb_data :: bytes
  xb_length :: u32
  xb_allocated :: u32

definition next_pow2 :: "u32 \<Rightarrow> u32" where
  "next_pow2 x0 =
     (let x = x0 - 1;
          x = x OR drop_bit 1 x;
          x = x OR drop_bit 2 x;
          x = x OR drop_bit 4 x;
          x = x OR drop_bit 8 x;
          x = x OR drop_bit 16 x
      in x + 1)"

text \<open>A request for 0 bytes gives \<open>NULL\<close>, on which \<open>xbuf_resize\<close> dies.\<close>

definition xbuf_resize :: "(nat \<Rightarrow> u8) \<Rightarrow> xbuf \<Rightarrow> u32 \<Rightarrow> xbuf option" where
  "xbuf_resize junk x new_len =
     (let n = next_pow2 new_len
      in if n = 0 then None
         else Some (x\<lparr>xb_allocated := n, xb_data := aim_realloc junk (xb_data x) (unat n)\<rparr>))"

definition XBUF_INITIAL_LEN :: u32 where
  "XBUF_INITIAL_LEN = 64"

definition xbuf_init :: "(nat \<Rightarrow> u8) \<Rightarrow> xbuf option" where
  "xbuf_init junk = xbuf_resize junk \<lparr>xb_data = [], xb_length = 0, xb_allocated = 0\<rparr> XBUF_INITIAL_LEN"

definition xbuf_cleanup :: "xbuf \<Rightarrow> xbuf" where
  "xbuf_cleanup x = x\<lparr>xb_data := [], xb_length := 0, xb_allocated := 0\<rparr>"

definition xbuf_resize_check :: "(nat \<Rightarrow> u8) \<Rightarrow> xbuf \<Rightarrow> u32 \<Rightarrow> xbuf option" where
  "xbuf_resize_check junk x new_len = (if new_len > xb_allocated x then xbuf_resize junk x new_len else Some x)"

definition xbuf_compact :: "(nat \<Rightarrow> u8) \<Rightarrow> xbuf \<Rightarrow> xbuf" where
  "xbuf_compact junk x =
     x\<lparr>xb_allocated := xb_length x, xb_data := aim_realloc junk (xb_data x) (unat (xb_length x))\<rparr>"

definition xbuf_steal :: "xbuf \<Rightarrow> bytes \<times> xbuf" where
  "xbuf_steal x = (xb_data x, x\<lparr>xb_data := [], xb_length := 0, xb_allocated := 0\<rparr>)"

definition xbuf_reset :: "xbuf \<Rightarrow> xbuf" where
  "xbuf_reset x = x\<lparr>xb_length := 0\<rparr>"

text \<open>\<open>xbuf_reserve__\<close> returns the offset of the reserved bytes.\<close>

definition xbuf_reserve_tail :: "xbuf \<Rightarrow> u32 \<Rightarrow> nat \<times> xbuf" where
  "xbuf_reserve_tail x len = (unat (xb_length x), x\<lparr>xb_length := xb_length x + len\<rparr>)"

definition xbuf_reserve :: "(nat \<Rightarrow> u8) \<Rightarrow> xbuf \<Rightarrow> u32 \<Rightarrow> (nat \<times> xbuf) option" where
  "xbuf_reserve junk x len =
     do { x' \<leftarrow> xbuf_resize_check junk x (xb_length x + len); Some (xbuf_reserve_tail x' len) }"

text \<open>\<open>xbuf_append__\<close> and \<open>xbuf_append_zeroes__\<close>: \<open>memcpy\<close> and \<open>memset\<close> at the reserved tail.\<close>

definition xbuf_append_raw :: "xbuf \<Rightarrow> bytes \<Rightarrow> xbuf option" where
  "xbuf_append_raw x d =
     (case xbuf_reserve_tail x (of_nat (length d)) of (off, x') \<Rightarrow>
        do { bs \<leftarrow> write_at off d (xb_data x'); Some (x'\<lparr>xb_data := bs\<rparr>) })"

definition xbuf_append :: "(nat \<Rightarrow> u8) \<Rightarrow> xbuf \<Rightarrow> bytes \<Rightarrow> xbuf option" where
  "xbuf_append junk x d =
     do { x' \<leftarrow> xbuf_resize_check junk x (xb_length x + of_nat (length d)); xbuf_append_raw x' d }"

definition xbuf_append_zeroes_raw :: "xbuf \<Rightarrow> nat \<Rightarrow> xbuf option" where
  "xbuf_append_zeroes_raw x n = xbuf_append_raw x (replicate n 0)"

definition xbuf_append_zeroes :: "(nat \<Rightarrow> u8) \<Rightarrow> xbuf \<Rightarrow> u32 \<Rightarrow> xbuf option" where
  "xbuf_append_zeroes junk x len =
     do { x' \<leftarrow> xbuf_resize_check junk x (xb_length x + len); xbuf_append_zeroes_raw x' (unat len) }"

definition xbuf_append_ptr :: "(nat \<Rightarrow> u8) \<Rightarrow> xbuf \<Rightarrow> u64 \<Rightarrow> xbuf option" where
  "xbuf_append_ptr junk x ptr = xbuf_append junk x (le_bytes 8 ptr)"

subsection \<open>Attributes\<close>

definition NLA_HDRLEN :: nat where
  "NLA_HDRLEN = 4"

definition NLA_ALIGN :: "nat \<Rightarrow> nat" where
  "NLA_ALIGN n = (n + 3) div 4 * 4"

text \<open>\<open>struct nlattr\<close>: a length that includes the header, and a type.\<close>

definition nlattr_hdr :: "u16 \<Rightarrow> u16 \<Rightarrow> bytes" where
  "nlattr_hdr len typ = le_bytes 2 len @ le_bytes 2 typ"

text \<open>The \<open>len\<close> argument of the C function is a \<open>uint16_t\<close>: \<open>length d\<close> is below \<open>2^16\<close> at every call.\<close>

definition xbuf_append_attr :: "(nat \<Rightarrow> u8) \<Rightarrow> xbuf \<Rightarrow> u16 \<Rightarrow> bytes \<Rightarrow> xbuf option" where
  "xbuf_append_attr junk x typ d =
     do {
       x1 \<leftarrow> xbuf_resize_check junk x (xb_length x + of_nat (NLA_HDRLEN + NLA_ALIGN (length d)));
       x2 \<leftarrow> xbuf_append_raw x1 (nlattr_hdr (of_nat (NLA_HDRLEN + length d)) typ);
       if length d > 0
       then do {
         x3 \<leftarrow> xbuf_append_raw x2 d;
         xbuf_append_zeroes_raw x3 (NLA_ALIGN (length d) - length d)
       }
       else Some x2
     }"

definition xbuf_start_nest :: "(nat \<Rightarrow> u8) \<Rightarrow> xbuf \<Rightarrow> u16 \<Rightarrow> (u32 \<times> xbuf) option" where
  "xbuf_start_nest junk x typ =
     do {
       x1 \<leftarrow> xbuf_resize_check junk x (xb_length x + of_nat NLA_HDRLEN);
       x2 \<leftarrow> xbuf_append_raw x1 (nlattr_hdr 0 typ);
       Some (xb_length x2 - of_nat NLA_HDRLEN, x2)
     }"

definition xbuf_end_nest :: "xbuf \<Rightarrow> u32 \<Rightarrow> xbuf option" where
  "xbuf_end_nest x offset =
     do {
       bs \<leftarrow> write_at (unat offset) (le_bytes 2 (ucast (xb_length x - offset) :: u16)) (xb_data x);
       Some (x\<lparr>xb_data := bs\<rparr>)
     }"

text \<open>
  An attribute met by an iteration: its type and its payload. \<open>XBUF_FOREACH\<close> visits the
  attributes from \<open>off\<close> to \<open>len\<close>; a header of length 0 makes the loop spin for ever, and a
  payload or header outside the memory is \<open>None\<close>.
\<close>

type_synonym attr = "u16 \<times> bytes"

definition nlattr_at :: "bytes \<Rightarrow> nat \<Rightarrow> (u16 \<times> u16) option" where
  "nlattr_at bs off = do { h \<leftarrow> read_at off 4 bs; Some (of_le (take 2 h), of_le (drop 2 h)) }"

definition xbuf_payload :: "bytes \<Rightarrow> nat \<Rightarrow> u16 \<Rightarrow> bytes option" where
  "xbuf_payload bs off nla_len = read_at (off + NLA_HDRLEN) (unat nla_len - NLA_HDRLEN) bs"

partial_function (option) xbuf_foreach :: "bytes \<Rightarrow> nat \<Rightarrow> nat \<Rightarrow> attr list option" where
  "xbuf_foreach bs off len =
     (if off < len
      then do {
        (nla_len, nla_type) \<leftarrow> nlattr_at bs off;
        d \<leftarrow> xbuf_payload bs off nla_len;
        as \<leftarrow> xbuf_foreach bs (off + NLA_ALIGN (unat nla_len)) len;
        Some ((nla_type, d) # as)
      }
      else Some [])"

declare xbuf_foreach.simps [code]

definition xbuf_foreach2 :: "xbuf \<Rightarrow> attr list option" where
  "xbuf_foreach2 x = xbuf_foreach (xb_data x) 0 (unat (xb_length x))"

text \<open>The children of an attribute: the iteration over its payload.\<close>

definition xbuf_foreach_child :: "bytes \<Rightarrow> attr list option" where
  "xbuf_foreach_child d = xbuf_foreach d 0 (length d)"

definition xbuf_payload_check :: "attr \<Rightarrow> nat \<Rightarrow> bytes option" where
  "xbuf_payload_check a len = (if length (snd a) = len then Some (snd a) else None)"

subsection \<open>The next power of two\<close>

lemma bit_smear:
  fixes x y :: u32
  assumes "\<And>n. bit x n \<longleftrightarrow> (\<exists>d<k. bit y (n + d))"
  shows "bit (x OR drop_bit k x) n \<longleftrightarrow> (\<exists>d<2 * k. bit y (n + d))"
proof -
  have "(\<exists>d<2 * k. bit y (n + d)) \<longleftrightarrow> (\<exists>d<k. bit y (n + d)) \<or> (\<exists>d<k. bit y (n + k + d))"
    (is "?l \<longleftrightarrow> ?r")
  proof
    assume ?l
    then obtain d where d: "d < 2 * k" "bit y (n + d)" by blast
    show ?r
    proof (cases "d < k")
      case False
      then have "d - k < k" "bit y (n + k + (d - k))" using d by simp_all
      then show ?thesis by blast
    qed (use d in blast)
  next
    assume ?r
    then show ?l
    proof (elim disjE exE conjE)
      fix d assume "d < k" "bit y (n + d)" then show ?l by (auto intro!: exI [of _ d])
    next
      fix d assume "d < k" "bit y (n + k + d)" then show ?l by (auto intro!: exI [of _ "k + d"] simp: ac_simps)
    qed
  qed
  then show ?thesis
    using assms by (simp add: bit_or_iff bit_drop_bit_eq add.commute)
qed

lemma next_pow2_smear:
  "\<exists>y. next_pow2 x = y + 1 \<and> (\<forall>n. bit y n \<longleftrightarrow> (\<exists>d<32. bit (x - 1) (n + d)))"
proof -
  define y1 where "y1 = (x - 1) OR drop_bit 1 (x - 1)"
  define y2 where "y2 = y1 OR drop_bit 2 y1"
  define y3 where "y3 = y2 OR drop_bit 4 y2"
  define y4 where "y4 = y3 OR drop_bit 8 y3"
  define y5 where "y5 = y4 OR drop_bit 16 y4"
  have "bit y1 n \<longleftrightarrow> (\<exists>d<2. bit (x - 1) (n + d))" for n
    using bit_smear [of "x - 1" 1 "x - 1"] by (simp add: y1_def)
  then have "bit y2 n \<longleftrightarrow> (\<exists>d<4. bit (x - 1) (n + d))" for n
    using bit_smear [of y1 2 "x - 1"] by (simp add: y2_def)
  then have "bit y3 n \<longleftrightarrow> (\<exists>d<8. bit (x - 1) (n + d))" for n
    using bit_smear [of y2 4 "x - 1"] by (simp add: y3_def)
  then have "bit y4 n \<longleftrightarrow> (\<exists>d<16. bit (x - 1) (n + d))" for n
    using bit_smear [of y3 8 "x - 1"] by (simp add: y4_def)
  then have "bit y5 n \<longleftrightarrow> (\<exists>d<32. bit (x - 1) (n + d))" for n
    using bit_smear [of y4 16 "x - 1"] by (simp add: y5_def)
  moreover have "next_pow2 x = y5 + 1"
    by (simp only: next_pow2_def Let_def y1_def y2_def y3_def y4_def y5_def)
  ultimately show ?thesis by blast
qed

text \<open>Every set bit is at or below the highest one.\<close>

lemma u32_top_bit:
  fixes w :: u32
  assumes "w \<noteq> 0"
  obtains h where "h < 32" "bit w h" "\<forall>n. bit w n \<longrightarrow> n \<le> h"
proof -
  obtain n where "bit w n" using assms by (auto simp: bit_eq_iff)
  moreover have "\<forall>n. bit w n \<longrightarrow> n \<le> 31" using bit_imp_le_length [of w] by fastforce
  ultimately have "bit w (GREATEST n. bit w n)" "\<And>n. bit w n \<Longrightarrow> n \<le> (GREATEST n. bit w n)"
    by (blast intro: GreatestI_nat Greatest_le_nat)+
  then show thesis using that bit_imp_le_length by force
qed

lemma unat_top_bit:
  fixes w :: u32
  assumes "h < 32" "bit w h" "\<forall>n. bit w n \<longrightarrow> n \<le> h"
  shows "2 ^ h \<le> unat w" "unat w < 2 ^ Suc h"
proof -
  show "2 ^ h \<le> unat w"
  proof (rule ccontr)
    assume "\<not> 2 ^ h \<le> unat w"
    then have "unat w div 2 ^ h = 0" by simp
    moreover have "bit (unat w) h" using assms(1,2) by (simp add: bit_unsigned_iff)
    ultimately show False by (simp add: bit_iff_odd)
  qed
  have "w = take_bit (Suc h) w"
    using assms(3) by (auto intro!: bit_word_eqI simp: bit_take_bit_iff less_Suc_eq_le)
  then have "unat w = take_bit (Suc h) (unat w)" by (metis unsigned_take_bit_eq)
  then show "unat w < 2 ^ Suc h" by (metis take_bit_nat_less_exp)
qed

lemma next_pow2_spec:
  assumes "0 < x" "x \<le> 2 ^ 31"
  obtains k where "k \<le> 31" "next_pow2 x = 2 ^ k" "unat x \<le> 2 ^ k" "k = 0 \<or> 2 ^ (k - 1) < unat x"
proof -
  obtain y where y: "next_pow2 x = y + 1" "\<And>n. bit y n \<longleftrightarrow> (\<exists>d<32. bit (x - 1) (n + d))"
    using next_pow2_smear by blast
  have x: "unat x = Suc (unat (x - 1))" "unat (x - 1) < 2 ^ 31"
    using assms(2) unat_minus_one [OF word_neq_0_conv [THEN iffD2, OF assms(1)]] assms(1)
    by (auto simp: word_less_nat_alt word_le_nat_alt)
  show thesis
  proof (cases "x - 1 = 0")
    case True
    then have "y = 0" using y(2) by (intro bit_word_eqI) simp
    then show thesis using that [of 0] y(1) x True by simp
  next
    case False
    then obtain h where h: "h < 32" "bit (x - 1) h" "\<forall>n. bit (x - 1) n \<longrightarrow> n \<le> h" by (rule u32_top_bit)
    have "bit y n \<longleftrightarrow> n \<le> h" for n
    proof
      assume "bit y n" then show "n \<le> h" using y(2) h(3) by fastforce
    next
      assume "n \<le> h" then show "bit y n" using y(2) h(1,2) by (auto intro!: exI [of _ "h - n"])
    qed
    then have "y = mask (Suc h)"
      by (intro bit_word_eqI) (simp add: bit_mask_iff less_Suc_eq_le)
    then have "next_pow2 x = 2 ^ Suc h" using y(1) by (simp add: mask_eq_exp_minus_1)
    moreover have "2 ^ h \<le> unat (x - 1)" "unat (x - 1) < 2 ^ Suc h" using unat_top_bit [OF h] by auto
    moreover then have "(2 :: nat) ^ h < 2 ^ 31" using x(2) by linarith
    then have "h < 31" by (rule power_less_imp_less_exp [rotated]) simp
    ultimately show thesis using that [of "Suc h"] x(1) by simp
  qed
qed

lemma next_pow2_large:
  assumes "\<not> x \<le> 2 ^ 31"
  shows "next_pow2 x = 0"
proof -
  obtain y where y: "next_pow2 x = y + 1" "\<And>n. bit y n \<longleftrightarrow> (\<exists>d<32. bit (x - 1) (n + d))"
    using next_pow2_smear by blast
  have "x \<noteq> 0" using assms by auto
  then have "2 ^ 31 \<le> unat (x - 1)" "unat (x - 1) < 2 ^ 32"
    using assms unat_minus_one [of x] unat_less_exp [of "x - 1"] by (simp_all add: word_le_nat_alt)
  then have "unat (x - 1) div 2 ^ 31 = 1" by simp
  then have "bit (unat (x - 1)) 31" by (simp add: bit_iff_odd)
  then have "bit (x - 1) 31" by (simp add: bit_unsigned_iff)
  then have "bit y n" if "n < 32" for n
    using y(2) that by (auto intro!: exI [of _ "31 - n"])
  then have "y = mask 32" by (intro bit_word_eqI) (simp add: bit_mask_iff)
  then show ?thesis using y(1) by (simp add: mask_eq_exp_minus_1)
qed

subsection \<open>Contents\<close>

definition xb_wf :: "xbuf \<Rightarrow> bool" where
  "xb_wf x \<longleftrightarrow> length (xb_data x) = unat (xb_allocated x) \<and> xb_length x \<le> xb_allocated x"

definition contents :: "xbuf \<Rightarrow> bytes" where
  "contents x = take (unat (xb_length x)) (xb_data x)"

lemma length_contents: "xb_wf x \<Longrightarrow> length (contents x) = unat (xb_length x)"
  by (simp add: contents_def xb_wf_def word_le_nat_alt)

lemma length_aim_realloc [simp]: "length (aim_realloc junk bs n) = n"
  by (simp add: aim_realloc_def min_def)

lemma take_aim_realloc: "k \<le> n \<Longrightarrow> k \<le> length bs \<Longrightarrow> take k (aim_realloc junk bs n) = take k bs"
  by (simp add: aim_realloc_def min_def)

lemma xbuf_resize_check_ok:
  assumes wf: "xb_wf x" and n: "new_len \<le> 2 ^ 31"
  obtains x' where "xbuf_resize_check junk x new_len = Some x'" "xb_wf x'" "contents x' = contents x"
    "xb_length x' = xb_length x" "new_len \<le> xb_allocated x'"
proof (cases "new_len > xb_allocated x")
  case False
  then show thesis using wf by (intro that [of x]) (auto simp: xbuf_resize_check_def)
next
  case True
  then have "0 < new_len" by (metis word_coorder.not_eq_extremum word_not_simps(1))
  then obtain k where k: "k \<le> 31" "next_pow2 new_len = 2 ^ k" "unat new_len \<le> 2 ^ k"
    using n by (rule next_pow2_spec)
  have p: "unat (2 ^ k :: u32) = 2 ^ k" using k(1) unat_of_nat_id [of "2 ^ k", where 'a = 32] power_strict_increasing [of k 32 "2 :: nat"] by simp
  then have "(2 ^ k :: u32) \<noteq> 0" by (metis power_not_zero unat_0 zero_neq_numeral)
  moreover have "unat (xb_length x) \<le> 2 ^ k" "unat (xb_length x) \<le> unat (xb_allocated x)"
    using wf True k(3) by (auto simp: xb_wf_def word_less_nat_alt word_le_nat_alt)
  ultimately show thesis
    using that [of "x\<lparr>xb_allocated := 2 ^ k, xb_data := aim_realloc junk (xb_data x) (2 ^ k)\<rparr>"] True k p wf
    by (simp add: xbuf_resize_check_def xbuf_resize_def xb_wf_def contents_def take_aim_realloc word_le_nat_alt)
qed

lemma xbuf_append_raw_ok:
  assumes wf: "xb_wf x" and room: "unat (xb_length x) + length d \<le> unat (xb_allocated x)"
  obtains x' where "xbuf_append_raw x d = Some x'" "xb_wf x'" "contents x' = contents x @ d"
    "xb_allocated x' = xb_allocated x" "unat (xb_length x') = unat (xb_length x) + length d"
proof -
  have u: "unat (xb_length x + of_nat (length d)) = unat (xb_length x) + length d"
    using room unat_less_exp [of "xb_allocated x"] by (intro unat_add_of_nat) simp
  show thesis
    using that [of "x\<lparr>xb_length := xb_length x + of_nat (length d),
        xb_data := take (unat (xb_length x)) (xb_data x) @ d @ drop (unat (xb_length x) + length d) (xb_data x)\<rparr>"]
      wf room u
    by (simp add: xbuf_append_raw_def xbuf_reserve_tail_def write_at_def xb_wf_def contents_def word_le_nat_alt)
qed

lemma xbuf_append_ok:
  assumes wf: "xb_wf x" and small: "unat (xb_length x) + length d \<le> 2 ^ 31"
  obtains x' where "xbuf_append junk x d = Some x'" "xb_wf x'" "contents x' = contents x @ d"
    "unat (xb_length x') = unat (xb_length x) + length d"
proof -
  have u: "unat (xb_length x + of_nat (length d)) = unat (xb_length x) + length d"
    using small by (simp add: unat_add_of_nat)
  then have "xb_length x + of_nat (length d) \<le> 2 ^ 31" using small by (simp add: word_le_nat_alt)
  with wf obtain x1 where x1: "xbuf_resize_check junk x (xb_length x + of_nat (length d)) = Some x1" "xb_wf x1"
    "contents x1 = contents x" "xb_length x1 = xb_length x" "xb_length x + of_nat (length d) \<le> xb_allocated x1"
    by (rule xbuf_resize_check_ok)
  then have "unat (xb_length x1) + length d \<le> unat (xb_allocated x1)" using u by (simp add: word_le_nat_alt)
  with x1(2) obtain x2 where "xbuf_append_raw x1 d = Some x2" "xb_wf x2" "contents x2 = contents x1 @ d"
    "xb_allocated x2 = xb_allocated x1" "unat (xb_length x2) = unat (xb_length x1) + length d"
    by (rule xbuf_append_raw_ok)
  then show thesis using that [of x2] x1 by (simp add: xbuf_append_def)
qed

subsection \<open>Attributes as bytes\<close>

definition attr_bytes :: "attr \<Rightarrow> bytes" where
  "attr_bytes a = nlattr_hdr (of_nat (NLA_HDRLEN + length (snd a))) (fst a) @ snd a @
     replicate (NLA_ALIGN (length (snd a)) - length (snd a)) 0"

definition attr_ok :: "attr \<Rightarrow> bool" where
  "attr_ok a \<longleftrightarrow> NLA_HDRLEN + length (snd a) < 2 ^ 16"

lemma NLA_ALIGN_ge: "n \<le> NLA_ALIGN n" "NLA_ALIGN n < n + 4"
  unfolding NLA_ALIGN_def by presburger+

lemma NLA_ALIGN_add4: "NLA_ALIGN (NLA_HDRLEN + n) = NLA_HDRLEN + NLA_ALIGN n"
  unfolding NLA_ALIGN_def NLA_HDRLEN_def by presburger

lemma length_nlattr_hdr [simp]: "length (nlattr_hdr l t) = 4"
  by (simp add: nlattr_hdr_def)

lemma length_attr_bytes: "length (attr_bytes (t, d)) = NLA_HDRLEN + NLA_ALIGN (length d)"
  using NLA_ALIGN_ge [of "length d"] by (simp add: attr_bytes_def NLA_HDRLEN_def)

lemma xbuf_append_attr_ok:
  assumes wf: "xb_wf x" and small: "unat (xb_length x) + length (attr_bytes (t, d)) \<le> 2 ^ 31"
  obtains x' where "xbuf_append_attr junk x t d = Some x'" "xb_wf x'" "contents x' = contents x @ attr_bytes (t, d)"
    "unat (xb_length x') = unat (xb_length x) + length (attr_bytes (t, d))"
proof -
  let ?n = "NLA_HDRLEN + NLA_ALIGN (length d)"
  have u: "unat (xb_length x + of_nat ?n) = unat (xb_length x) + ?n"
    using small by (simp add: unat_add_of_nat length_attr_bytes del: of_nat_add)
  then have "xb_length x + of_nat ?n \<le> 2 ^ 31" using small by (simp add: word_le_nat_alt length_attr_bytes)
  with wf obtain x1 where x1: "xbuf_resize_check junk x (xb_length x + of_nat ?n) = Some x1" "xb_wf x1"
    "contents x1 = contents x" "xb_length x1 = xb_length x" "xb_length x + of_nat ?n \<le> xb_allocated x1"
    by (rule xbuf_resize_check_ok)
  have room: "unat (xb_length x1) + ?n \<le> unat (xb_allocated x1)"
    using x1(4,5) u by (simp add: word_le_nat_alt)
  let ?h = "nlattr_hdr (of_nat (NLA_HDRLEN + length d)) t" and ?z = "replicate (NLA_ALIGN (length d) - length d) (0 :: u8)"
  obtain x2 where x2: "xbuf_append_raw x1 ?h = Some x2" "xb_wf x2" "contents x2 = contents x1 @ ?h"
    "xb_allocated x2 = xb_allocated x1" "unat (xb_length x2) = unat (xb_length x1) + length ?h"
    using room by (elim xbuf_append_raw_ok [OF x1(2), rotated]) (simp add: NLA_HDRLEN_def)
  show thesis
  proof (cases "length d > 0")
    case False
    then show thesis using that [of x2] x1 x2
      by (simp add: xbuf_append_attr_def attr_bytes_def NLA_ALIGN_def NLA_HDRLEN_def)
  next
    case True
    have le: "length d \<le> NLA_ALIGN (length d)" by (rule NLA_ALIGN_ge)
    have r2: "unat (xb_length x2) + length d \<le> unat (xb_allocated x2)"
      using room x2(4,5) le by (simp add: NLA_HDRLEN_def)
    obtain x3 where x3: "xbuf_append_raw x2 d = Some x3" "xb_wf x3" "contents x3 = contents x2 @ d"
      "xb_allocated x3 = xb_allocated x2" "unat (xb_length x3) = unat (xb_length x2) + length d"
      by (rule xbuf_append_raw_ok [OF x2(2) r2])
    have r3: "unat (xb_length x3) + length ?z \<le> unat (xb_allocated x3)"
      using room x2(4,5) x3(4,5) le by (simp add: NLA_HDRLEN_def)
    obtain x4 where "xbuf_append_raw x3 ?z = Some x4" "xb_wf x4" "contents x4 = contents x3 @ ?z"
      "xb_allocated x4 = xb_allocated x3" "unat (xb_length x4) = unat (xb_length x3) + length ?z"
      by (rule xbuf_append_raw_ok [OF x3(2) r3])
    then show thesis using that [of x4] True x1 x2 x3 le
      by (simp add: xbuf_append_attr_def attr_bytes_def xbuf_append_zeroes_raw_def)
  qed
qed

lemma xb_data_split: "xb_wf x \<Longrightarrow> \<exists>rest. xb_data x = contents x @ rest"
  by (auto simp: contents_def intro!: exI [of _ "drop (unat (xb_length x)) (xb_data x)"])

lemma write_at_append:
  "length d = length old \<Longrightarrow> write_at (length c) d (c @ old @ rest) = Some (c @ d @ rest)"
  by (simp add: write_at_def)

lemma xbuf_start_nest_ok:
  assumes wf: "xb_wf x" and small: "unat (xb_length x) + NLA_HDRLEN \<le> 2 ^ 31"
  obtains x' where "xbuf_start_nest junk x t = Some (xb_length x, x')" "xb_wf x'"
    "contents x' = contents x @ nlattr_hdr 0 t" "unat (xb_length x') = unat (xb_length x) + NLA_HDRLEN"
proof -
  have u: "unat (xb_length x + of_nat NLA_HDRLEN) = unat (xb_length x) + NLA_HDRLEN"
    using small by (intro unat_add_of_nat) simp
  then have "xb_length x + of_nat NLA_HDRLEN \<le> 2 ^ 31" using small by (simp add: word_le_nat_alt)
  with wf obtain x1 where x1: "xbuf_resize_check junk x (xb_length x + of_nat NLA_HDRLEN) = Some x1" "xb_wf x1"
    "contents x1 = contents x" "xb_length x1 = xb_length x" "xb_length x + of_nat NLA_HDRLEN \<le> xb_allocated x1"
    by (rule xbuf_resize_check_ok)
  then have "unat (xb_length x1) + length (nlattr_hdr 0 t) \<le> unat (xb_allocated x1)"
    using u by (simp add: word_le_nat_alt NLA_HDRLEN_def)
  with x1(2) obtain x2 where x2: "xbuf_append_raw x1 (nlattr_hdr 0 t) = Some x2" "xb_wf x2"
    "contents x2 = contents x1 @ nlattr_hdr 0 t" "xb_allocated x2 = xb_allocated x1"
    "unat (xb_length x2) = unat (xb_length x1) + length (nlattr_hdr 0 t)"
    by (rule xbuf_append_raw_ok)
  have "xb_length x2 = xb_length x + of_nat NLA_HDRLEN"
    using u x1(4) x2(5) by (simp add: word_unat_eq_iff NLA_HDRLEN_def)
  then show thesis
    using that [of x2] x1 x2 u by (simp add: xbuf_start_nest_def)
qed

lemma xbuf_end_nest_ok:
  assumes wf: "xb_wf x" and off: "unat offset = length c"
    and c: "contents x = c @ nlattr_hdr 0 t @ body" and al: "NLA_ALIGN (length body) = length body"
  obtains x' where "xbuf_end_nest x offset = Some x'" "xb_wf x'" "contents x' = c @ attr_bytes (t, body)"
    "xb_length x' = xb_length x"
proof -
  obtain rest where rest: "xb_data x = contents x @ rest" using xb_data_split [OF wf] by blast
  have len: "unat (xb_length x) = length c + (NLA_HDRLEN + length body)"
    using length_contents [OF wf] c by (simp add: NLA_HDRLEN_def)
  then have "xb_length x = offset + of_nat (NLA_HDRLEN + length body)"
    using off unat_less_exp [of "xb_length x"]
    by (intro word_unat_eq_iff [THEN iffD2]) (simp add: unat_add_of_nat del: of_nat_add)
  then have diff: "(ucast (xb_length x - offset) :: u16) = of_nat (NLA_HDRLEN + length body)"
    by (simp add: unsigned_of_nat word_of_nat_eq_iff flip: of_nat_add)
  let ?hdr = "le_bytes 2 (of_nat (NLA_HDRLEN + length body) :: u16)"
  have "write_at (unat offset) ?hdr (xb_data x) = Some (c @ ?hdr @ le_bytes 2 t @ body @ rest)"
    using rest c off write_at_append [of ?hdr "le_bytes 2 (0 :: u16)" c "le_bytes 2 t @ body @ rest"]
    by (simp add: nlattr_hdr_def)
  then have e: "xbuf_end_nest x offset = Some (x\<lparr>xb_data := c @ attr_bytes (t, body) @ rest\<rparr>)"
    using diff al by (simp add: xbuf_end_nest_def attr_bytes_def nlattr_hdr_def)
  have "length (xb_data x) = length c + (NLA_HDRLEN + length body) + length rest"
    using rest c by (simp add: NLA_HDRLEN_def)
  then show thesis
    using wf len al
    by (intro that [OF e]) (simp_all add: xb_wf_def contents_def length_attr_bytes NLA_HDRLEN_def)
qed

subsection \<open>Iteration\<close>

lemma nlattr_at_append: "nlattr_at (pre @ nlattr_hdr l t @ post) (length pre) = Some (l, t)"
  by (simp add: nlattr_at_def read_at_def nlattr_hdr_def)

lemma xbuf_foreach_step:
  assumes "attr_ok (t, d)"
  shows "xbuf_foreach (pre @ attr_bytes (t, d) @ post) (length pre) len =
    (if length pre < len then do {
        as \<leftarrow> xbuf_foreach (pre @ attr_bytes (t, d) @ post) (length (pre @ attr_bytes (t, d))) len;
        Some ((t, d) # as) }
     else Some [])"
proof -
  have u: "unat (of_nat (NLA_HDRLEN + length d) :: u16) = NLA_HDRLEN + length d"
    using assms by (intro unat_of_nat_id) (simp add: attr_ok_def)
  have h: "nlattr_at (pre @ attr_bytes (t, d) @ post) (length pre) = Some (of_nat (NLA_HDRLEN + length d), t)"
    unfolding attr_bytes_def append_assoc by (simp only: nlattr_at_append fst_conv snd_conv)
  have p: "xbuf_payload (pre @ attr_bytes (t, d) @ post) (length pre) (of_nat (NLA_HDRLEN + length d)) = Some d"
    unfolding xbuf_payload_def u by (simp add: attr_bytes_def read_at_def NLA_HDRLEN_def)
  have n: "length pre + NLA_ALIGN (unat (of_nat (NLA_HDRLEN + length d) :: u16)) = length (pre @ attr_bytes (t, d))"
    unfolding u by (simp add: NLA_ALIGN_add4 length_attr_bytes)
  show ?thesis
    by (subst xbuf_foreach.simps) (simp only: h p n Option.bind.bind_lunit prod.case)
qed

lemma xbuf_foreach_attrs:
  assumes "\<forall>a \<in> set as. attr_ok a"
  shows "xbuf_foreach (pre @ concat (map attr_bytes as) @ post) (length pre)
    (length pre + length (concat (map attr_bytes as))) = Some as"
  using assms
proof (induction as arbitrary: pre)
  case Nil
  then show ?case by (subst xbuf_foreach.simps) simp
next
  case (Cons a as)
  obtain t d where a: "a = (t, d)" by (cases a)
  have "xbuf_foreach ((pre @ attr_bytes (t, d)) @ concat (map attr_bytes as) @ post) (length (pre @ attr_bytes (t, d)))
    (length (pre @ attr_bytes (t, d)) + length (concat (map attr_bytes as))) = Some as"
    using Cons.prems by (intro Cons.IH) simp
  moreover have "length (attr_bytes (t, d)) > 0" by (simp add: length_attr_bytes NLA_HDRLEN_def)
  ultimately show ?case
    using xbuf_foreach_step [of t d pre "concat (map attr_bytes as) @ post"] Cons.prems a
    by (simp add: add.assoc)
qed

definition xb_holds :: "xbuf \<Rightarrow> attr list \<Rightarrow> bool" where
  "xb_holds x as \<longleftrightarrow> xb_wf x \<and> contents x = concat (map attr_bytes as) \<and> (\<forall>a \<in> set as. attr_ok a)"

lemma xb_holds_foreach: "xb_holds x as \<Longrightarrow> xbuf_foreach2 x = Some as"
proof -
  assume h: "xb_holds x as"
  then obtain rest where "xb_data x = contents x @ rest" using xb_data_split [of x] by (auto simp: xb_holds_def)
  then show ?thesis
    using h length_contents [of x] xbuf_foreach_attrs [of as "[]" rest]
    by (simp add: xb_holds_def xbuf_foreach2_def)
qed

lemma xb_holds_append_attr:
  assumes "xb_holds x as" "attr_ok (t, d)" "unat (xb_length x) + length (attr_bytes (t, d)) \<le> 2 ^ 31"
  obtains x' where "xbuf_append_attr junk x t d = Some x'" "xb_holds x' (as @ [(t, d)])"
    "unat (xb_length x') = unat (xb_length x) + length (attr_bytes (t, d))"
proof -
  have "xb_wf x" using assms(1) by (simp add: xb_holds_def)
  then obtain x' where "xbuf_append_attr junk x t d = Some x'" "xb_wf x'" "contents x' = contents x @ attr_bytes (t, d)"
    "unat (xb_length x') = unat (xb_length x) + length (attr_bytes (t, d))"
    using assms(3) by (rule xbuf_append_attr_ok)
  then show thesis using that [of x'] assms(1,2) by (simp add: xb_holds_def)
qed

subsection \<open>Sequences of operations\<close>

datatype xbuf_op = XAppendAttr u16 bytes | XReset

fun xbuf_step :: "(nat \<Rightarrow> u8) \<Rightarrow> xbuf_op \<Rightarrow> xbuf \<Rightarrow> (unit \<times> xbuf) option" where
  "xbuf_step junk (XAppendAttr t d) x = map_option (Pair ()) (xbuf_append_attr junk x t d)"
| "xbuf_step junk XReset x = Some ((), xbuf_reset x)"

fun xbuf_spec :: "xbuf_op \<Rightarrow> attr list \<Rightarrow> unit \<times> attr list" where
  "xbuf_spec (XAppendAttr t d) as = ((), as @ [(t, d)])"
| "xbuf_spec XReset as = ((), [])"

fun xbuf_op_ok :: "xbuf_op \<Rightarrow> bool" where
  "xbuf_op_ok (XAppendAttr t d) = attr_ok (t, d)"
| "xbuf_op_ok XReset = True"

definition xbuf_attrs :: "xbuf \<Rightarrow> attr list" where
  "xbuf_attrs x = (case xbuf_foreach2 x of None \<Rightarrow> [] | Some as \<Rightarrow> as)"

definition xbuf_inv :: "nat \<Rightarrow> xbuf \<Rightarrow> bool" where
  "xbuf_inv n x \<longleftrightarrow> (\<exists>as. xb_holds x as) \<and> unat (xb_length x) \<le> n * 2 ^ 16"

lemma attr_ok_length: "attr_ok (t, d) \<Longrightarrow> length (attr_bytes (t, d)) \<le> 2 ^ 16"
  using NLA_ALIGN_ge(2) [of "length d"]
  by (simp add: attr_ok_def length_attr_bytes NLA_HDRLEN_def NLA_ALIGN_def)

lemma xb_holds_reset: "xb_wf x \<Longrightarrow> xb_holds (xbuf_reset x) []"
  by (simp add: xb_holds_def xb_wf_def xbuf_reset_def contents_def)

lemma xbuf_init_holds: obtains x where "xbuf_init junk = Some x" "xb_holds x []" "xb_length x = 0"
proof -
  have "next_pow2 64 = 64" by (simp add: next_pow2_def)
  then show thesis
    using that [of "\<lparr>xb_data = aim_realloc junk [] 64, xb_length = 0, xb_allocated = 64\<rparr>"]
    by (simp add: xbuf_init_def xbuf_resize_def XBUF_INITIAL_LEN_def xb_holds_def xb_wf_def contents_def)
qed

lemma xbuf_step_sim:
  assumes inv: "xbuf_inv n x" and n: "n < 2 ^ 15" and ok: "xbuf_op_ok opn"
  shows "\<exists>r x'. xbuf_step junk opn x = Some (r, x') \<and> xbuf_inv (Suc n) x' \<and>
    xbuf_spec opn (xbuf_attrs x) = (r, xbuf_attrs x')"
proof -
  obtain as where as: "xb_holds x as" "unat (xb_length x) \<le> n * 2 ^ 16" using inv by (auto simp: xbuf_inv_def)
  show ?thesis
  proof (cases opn)
    case (XAppendAttr t d)
    then have "attr_ok (t, d)" using ok by simp
    moreover have "n * 2 ^ 16 + 2 ^ 16 \<le> (2 :: nat) ^ 31" using n by simp
    then have "unat (xb_length x) + length (attr_bytes (t, d)) \<le> 2 ^ 31"
      using as(2) attr_ok_length [OF calculation] by linarith
    ultimately obtain x' where "xbuf_append_attr junk x t d = Some x'" "xb_holds x' (as @ [(t, d)])"
      "unat (xb_length x') = unat (xb_length x) + length (attr_bytes (t, d))"
      using as(1) by (elim xb_holds_append_attr [rotated])
    moreover then have "xbuf_inv (Suc n) x'"
      using as(2) attr_ok_length [OF \<open>attr_ok (t, d)\<close>] by (auto simp: xbuf_inv_def)
    ultimately show ?thesis
      using as(1) XAppendAttr by (simp add: xbuf_attrs_def xb_holds_foreach)
  next
    case XReset
    have "xb_holds (xbuf_reset x) []" using as(1) by (intro xb_holds_reset) (simp add: xb_holds_def)
    then show ?thesis
      using XReset xb_holds_foreach [of "xbuf_reset x" "[]"]
      by (auto simp: xbuf_inv_def xbuf_attrs_def) (simp add: xbuf_reset_def)
  qed
qed

interpretation xb: refinement xbuf_inv xbuf_attrs "xbuf_step junk" xbuf_spec xbuf_op_ok "2 ^ 15" for junk
  by unfold_locales (rule xbuf_step_sim)

text \<open>A nested attribute as the callers write one: children appended between the two nest calls.\<close>

fun xbuf_append_attrs :: "(nat \<Rightarrow> u8) \<Rightarrow> attr list \<Rightarrow> xbuf \<Rightarrow> xbuf option" where
  "xbuf_append_attrs junk [] x = Some x"
| "xbuf_append_attrs junk ((t, d) # as) x = do { x' \<leftarrow> xbuf_append_attr junk x t d; xbuf_append_attrs junk as x' }"

definition xbuf_nest :: "(nat \<Rightarrow> u8) \<Rightarrow> u16 \<Rightarrow> attr list \<Rightarrow> xbuf \<Rightarrow> xbuf option" where
  "xbuf_nest junk t as x =
     do { (off, x1) \<leftarrow> xbuf_start_nest junk x t; x2 \<leftarrow> xbuf_append_attrs junk as x1; xbuf_end_nest x2 off }"

lemma xbuf_append_attrs_ok:
  assumes "xb_wf x" "unat (xb_length x) + length (concat (map attr_bytes as)) \<le> 2 ^ 31"
  shows "\<exists>x'. xbuf_append_attrs junk as x = Some x' \<and> xb_wf x' \<and> contents x' = contents x @ concat (map attr_bytes as)"
  using assms
proof (induction as arbitrary: x)
  case (Cons a as)
  obtain t d where a: "a = (t, d)" by (cases a)
  have "unat (xb_length x) + length (attr_bytes (t, d)) \<le> 2 ^ 31" using Cons.prems(2) a by simp
  with Cons.prems(1) obtain x1 where x1: "xbuf_append_attr junk x t d = Some x1" "xb_wf x1"
    "contents x1 = contents x @ attr_bytes (t, d)" "unat (xb_length x1) = unat (xb_length x) + length (attr_bytes (t, d))"
    by (rule xbuf_append_attr_ok)
  then show ?case using Cons.IH [of x1] Cons.prems(2) a by (auto simp: add.assoc)
qed simp

lemma attrs_aligned: "NLA_ALIGN (length (concat (map attr_bytes as))) = length (concat (map attr_bytes as))"
proof -
  have "4 dvd length (concat (map attr_bytes as))"
  proof (induction as)
    case (Cons a as)
    moreover have "4 dvd length (attr_bytes a)"
      by (cases a) (simp add: length_attr_bytes NLA_HDRLEN_def NLA_ALIGN_def)
    ultimately show ?case by simp
  qed simp
  then show ?thesis unfolding NLA_ALIGN_def by presburger
qed

lemma xbuf_nest_ok:
  assumes h: "xb_holds x bs" and ok: "attr_ok (t, concat (map attr_bytes as))"
    and small: "unat (xb_length x) + NLA_HDRLEN + length (concat (map attr_bytes as)) \<le> 2 ^ 31"
  obtains x' where "xbuf_nest junk t as x = Some x'" "xb_holds x' (bs @ [(t, concat (map attr_bytes as))])"
proof -
  let ?body = "concat (map attr_bytes as)"
  have wf: "xb_wf x" using h by (simp add: xb_holds_def)
  moreover have "unat (xb_length x) + NLA_HDRLEN \<le> 2 ^ 31" using small by simp
  ultimately obtain x1 where x1: "xbuf_start_nest junk x t = Some (xb_length x, x1)" "xb_wf x1"
    "contents x1 = contents x @ nlattr_hdr 0 t" "unat (xb_length x1) = unat (xb_length x) + NLA_HDRLEN"
    by (rule xbuf_start_nest_ok)
  obtain x2 where x2: "xbuf_append_attrs junk as x1 = Some x2" "xb_wf x2" "contents x2 = contents x1 @ ?body"
    using xbuf_append_attrs_ok [OF x1(2), of as] x1(4) small by auto
  then have "contents x2 = contents x @ nlattr_hdr 0 t @ ?body" using x1(3) by simp
  moreover have "unat (xb_length x) = length (contents x)" using length_contents [OF wf] by simp
  ultimately obtain x3 where x3: "xbuf_end_nest x2 (xb_length x) = Some x3" "xb_wf x3"
    "contents x3 = contents x @ attr_bytes (t, ?body)" "xb_length x3 = xb_length x2"
    using attrs_aligned [of as] by (elim xbuf_end_nest_ok [OF x2(2), rotated 1])
  then show thesis
    using that [of x3] h ok x1(1) x2(1) by (auto simp: xb_holds_def xbuf_nest_def)
qed

subsection \<open>Properties\<close>

text \<open>
  C20: a fresh buffer takes any sequence of up to \<open>2^15\<close> attribute appends and resets without a
  memory error, whatever bytes \<open>realloc\<close> leaves, and iterating over it gives exactly the
  attributes appended since the last reset, in order, with their payloads.
\<close>

theorem xbuf_attr_sequence:
  assumes "\<forall>opn \<in> set ops. xbuf_op_ok opn" and "length ops \<le> 2 ^ 15"
  shows "\<exists>x x'. xbuf_init junk = Some x \<and>
    run_steps (xbuf_step junk) ops x = Some (fst (run_spec xbuf_spec ops []), x') \<and>
    xbuf_foreach2 x' = Some (snd (run_spec xbuf_spec ops []))"
proof -
  obtain x where x: "xbuf_init junk = Some x" "xb_holds x []" "xb_length x = 0" by (rule xbuf_init_holds)
  then have x0: "xbuf_inv 0 x" "xbuf_attrs x = []" by (auto simp: xbuf_inv_def xbuf_attrs_def xb_holds_foreach)
  then obtain x' where x': "run_steps (xbuf_step junk) ops x = Some (fst (run_spec xbuf_spec ops []), x')"
    "xbuf_inv (length ops) x'" "snd (run_spec xbuf_spec ops []) = xbuf_attrs x'"
    using xb.run_sim [of 0 x ops junk] assms by auto
  then have "xbuf_foreach2 x' = Some (xbuf_attrs x')"
    by (auto simp: xbuf_inv_def xbuf_attrs_def xb_holds_foreach)
  then show ?thesis using x(1) x' by auto
qed

theorem xbuf_attr_sequence_witness:
  "\<exists>x x'. xbuf_init (\<lambda>_. 0xaa) = Some x \<and>
    run_steps (xbuf_step (\<lambda>_. 0xaa)) [XAppendAttr 9 [], XReset, XAppendAttr 1 [1, 2, 3], XAppendAttr 2 [7]] x =
      Some ([(), (), (), ()], x') \<and> xbuf_foreach2 x' = Some [(1, [1, 2, 3]), (2, [7])]"
  using xbuf_attr_sequence [of "[XAppendAttr 9 [], XReset, XAppendAttr 1 [1, 2, 3], XAppendAttr 2 [7]]" "\<lambda>_. 0xaa"]
  by (simp add: attr_ok_def NLA_HDRLEN_def)

text \<open>
  C21: a nested attribute built with \<open>xbuf_start_nest\<close>, a list of children and \<open>xbuf_end_nest\<close> is
  read back as one more attribute whose children are that list.
\<close>

theorem xbuf_nest_roundtrip:
  assumes "xb_holds x bs" and "\<forall>a \<in> set as. attr_ok a" and "attr_ok (t, concat (map attr_bytes as))"
    and "unat (xb_length x) + NLA_HDRLEN + length (concat (map attr_bytes as)) \<le> 2 ^ 31"
  shows "\<exists>x' d. xbuf_nest junk t as x = Some x' \<and> xbuf_foreach2 x' = Some (bs @ [(t, d)]) \<and>
    xbuf_foreach_child d = Some as"
proof -
  obtain x' where x': "xbuf_nest junk t as x = Some x'" "xb_holds x' (bs @ [(t, concat (map attr_bytes as))])"
    by (rule xbuf_nest_ok [OF assms(1,3,4)])
  moreover have "xbuf_foreach_child (concat (map attr_bytes as)) = Some as"
    using xbuf_foreach_attrs [OF assms(2), of "[]" "[]"] by (simp add: xbuf_foreach_child_def)
  ultimately show ?thesis using xb_holds_foreach by blast
qed

theorem xbuf_nest_roundtrip_witness:
  "\<exists>x' d. xbuf_nest (\<lambda>_. 0) 5 [(1, [1, 2]), (2, [3])] \<lparr>xb_data = replicate 64 9, xb_length = 0, xb_allocated = 64\<rparr> = Some x' \<and>
    xbuf_foreach2 x' = Some [(5, d)] \<and> xbuf_foreach_child d = Some [(1, [1, 2]), (2, [3])]"
proof -
  have "xb_holds \<lparr>xb_data = replicate 64 9, xb_length = 0, xb_allocated = 64\<rparr> []"
    by (simp add: xb_holds_def xb_wf_def contents_def)
  from xbuf_nest_roundtrip [OF this, of "[(1, [1, 2]), (2, [3])]" 5 "\<lambda>_. 0"] show ?thesis
    by (simp add: attr_ok_def length_attr_bytes NLA_HDRLEN_def NLA_ALIGN_def)
qed

text \<open>
  C22: \<open>next_pow2\<close> gives the least power of two that is not below its argument, for every request
  from 1 to \<open>2^31\<close> bytes, and 0 above, so that larger buffers end the process.
\<close>

theorem next_pow2_least:
  assumes "0 < x"
  shows "if x \<le> 2 ^ 31 then \<exists>k\<le>31. next_pow2 x = 2 ^ k \<and> unat x \<le> 2 ^ k \<and> (\<forall>j. unat x \<le> 2 ^ j \<longrightarrow> k \<le> j)
    else next_pow2 x = 0"
proof (cases "x \<le> 2 ^ 31")
  case True
  then obtain k where k: "k \<le> 31" "next_pow2 x = 2 ^ k" "unat x \<le> 2 ^ k" "k = 0 \<or> 2 ^ (k - 1) < unat x"
    using assms by (elim next_pow2_spec [rotated])
  have "k \<le> j" if "unat x \<le> 2 ^ j" for j
  proof (cases "k = 0")
    case False
    then have "(2 :: nat) ^ (k - 1) < 2 ^ j" using k(4) that by linarith
    then show ?thesis using False by simp
  qed simp
  then show ?thesis using True k by auto
next
  case False
  then show ?thesis using next_pow2_large by simp
qed

theorem next_pow2_least_witness:
  "next_pow2 65 = 128 \<and> (\<exists>k\<le>31. next_pow2 65 = 2 ^ k \<and> unat (65 :: u32) \<le> 2 ^ k \<and> (\<forall>j. unat (65 :: u32) \<le> 2 ^ j \<longrightarrow> k \<le> j))"
  using next_pow2_least [of 65] by (simp add: next_pow2_def)

end
