(* ===== verification/Netlink.thy ===== *)
theory Netlink
  imports Xbuf
begin

text \<open>
  Netlink attributes as the switch exchanges them with the kernel through libnl. The library is
  external: a message under construction is the sequence of library calls the code makes, and
  \<open>nl_tree\<close> states the documented meaning of such a sequence as a list of attribute trees; a
  received attribute is such a tree, read through the library functions that are the fields of
  \<open>nl_env\<close>.
\<close>

subsection \<open>Attribute trees\<close>

datatype nla = Nla u16 bytes | NlaNest u16 "nla list"

primrec nla_type :: "nla \<Rightarrow> u16" where
  "nla_type (Nla t d) = t"
| "nla_type (NlaNest t as) = t"

primrec nla_children :: "nla \<Rightarrow> nla list" where
  "nla_children (Nla t d) = []"
| "nla_children (NlaNest t as) = as"

subsection \<open>Building a message\<close>

text \<open>The calls \<open>nla_put\<close>, \<open>nla_nest_start\<close> and \<open>nla_nest_end\<close>; the other put functions are \<open>nla_put\<close>.\<close>

datatype nl_call = NlaPut u16 bytes | NlaNestStart u16 | NlaNestEnd

type_synonym nl_msg = "nl_call list"

definition nla_put :: "nl_msg \<Rightarrow> u16 \<Rightarrow> bytes \<Rightarrow> nl_msg" where
  "nla_put msg t d = msg @ [NlaPut t d]"

definition nla_put_u16 :: "nl_msg \<Rightarrow> u16 \<Rightarrow> u16 \<Rightarrow> nl_msg" where
  "nla_put_u16 msg t v = nla_put msg t (le_bytes 2 v)"

definition nla_put_u32 :: "nl_msg \<Rightarrow> u16 \<Rightarrow> u32 \<Rightarrow> nl_msg" where
  "nla_put_u32 msg t v = nla_put msg t (le_bytes 4 v)"

definition nla_put_flag :: "nl_msg \<Rightarrow> u16 \<Rightarrow> nl_msg" where
  "nla_put_flag msg t = nla_put msg t []"

definition nla_nest_start :: "nl_msg \<Rightarrow> u16 \<Rightarrow> nl_msg" where
  "nla_nest_start msg t = msg @ [NlaNestStart t]"

definition nla_nest_end :: "nl_msg \<Rightarrow> nl_msg" where
  "nla_nest_end msg = msg @ [NlaNestEnd]"

text \<open>
  The meaning of a sequence of calls: a stack of open nests, each with its type and the attributes
  put before it in its parent. \<open>None\<close> is an end without a start or an unclosed nest.
\<close>

fun nl_run :: "nl_call list \<Rightarrow> (u16 \<times> nla list) list \<Rightarrow> nla list \<Rightarrow> ((u16 \<times> nla list) list \<times> nla list) option" where
  "nl_run [] st cur = Some (st, cur)"
| "nl_run (NlaPut t d # cs) st cur = nl_run cs st (cur @ [Nla t d])"
| "nl_run (NlaNestStart t # cs) st cur = nl_run cs ((t, cur) # st) []"
| "nl_run (NlaNestEnd # cs) ((t, up) # st) cur = nl_run cs st (up @ [NlaNest t cur])"
| "nl_run (NlaNestEnd # cs) [] cur = None"

definition nl_tree :: "nl_msg \<Rightarrow> nla list option" where
  "nl_tree msg = (case nl_run msg [] [] of Some ([], as) \<Rightarrow> Some as | _ \<Rightarrow> None)"

text \<open>A closed piece of a message: it leaves the open nests alone and appends the trees \<open>as\<close>.\<close>

definition nl_emits :: "nl_call list \<Rightarrow> nla list \<Rightarrow> bool" where
  "nl_emits cs as \<longleftrightarrow> (\<forall>rest st cur. nl_run (cs @ rest) st cur = nl_run rest st (cur @ as))"

lemma nl_emits_Nil [intro]: "nl_emits [] []"
  by (simp add: nl_emits_def)

lemma nl_emits_put [intro]: "nl_emits [NlaPut t d] [Nla t d]"
  by (simp add: nl_emits_def)

lemma nl_emits_append [intro]: "nl_emits cs as \<Longrightarrow> nl_emits ds bs \<Longrightarrow> nl_emits (cs @ ds) (as @ bs)"
  by (simp add: nl_emits_def)

lemma nl_emits_nest [intro]: "nl_emits cs as \<Longrightarrow> nl_emits (NlaNestStart t # cs @ [NlaNestEnd]) [NlaNest t as]"
  by (simp add: nl_emits_def)

lemma nl_emits_tree:
  assumes "nl_emits cs as"
  shows "nl_tree cs = Some as"
proof -
  have "nl_run (cs @ []) [] [] = nl_run [] [] ([] @ as)" using assms unfolding nl_emits_def by blast
  then show ?thesis by (simp add: nl_tree_def)
qed

subsection \<open>Reading a message\<close>

text \<open>
  \<open>nla_parse_nested maxtype a\<close> is the table of the children of \<open>a\<close> by type, or \<open>None\<close> if the
  library rejects the attribute; \<open>nla_data\<close> is the payload.
\<close>

record nl_env =
  nla_parse_nested :: "nat \<Rightarrow> nla \<Rightarrow> (nat \<Rightarrow> nla option) option"
  nla_data :: "nla \<Rightarrow> bytes"

definition last_of_type :: "nla list \<Rightarrow> nat \<Rightarrow> nla option" where
  "last_of_type as t = find (\<lambda>a. unat (nla_type a) = t) (rev as)"

definition nl_env_ok :: "nl_env \<Rightarrow> bool" where
  "nl_env_ok N \<longleftrightarrow> (\<forall>t d. nla_data N (Nla t d) = d) \<and>
     (\<forall>mx t as. nla_parse_nested N mx (NlaNest t as) = Some (\<lambda>i. if i \<le> mx then last_of_type as i else None))"

definition tree_env :: nl_env where
  "tree_env = \<lparr>nla_parse_nested = (\<lambda>mx a. Some (\<lambda>i. if i \<le> mx then last_of_type (nla_children a) i else None)),
     nla_data = (\<lambda>a. case a of Nla t d \<Rightarrow> d | NlaNest t as \<Rightarrow> [])\<rparr>"

lemma tree_env_ok: "nl_env_ok tree_env"
  by (simp add: nl_env_ok_def tree_env_def fun_eq_iff)

lemma last_of_type_simps [simp]:
  "last_of_type [] t = None"
  "last_of_type (as @ [a]) t = (if unat (nla_type a) = t then Some a else last_of_type as t)"
  by (simp_all add: last_of_type_def)

lemma last_of_type_append:
  "last_of_type (as @ bs) t = (case last_of_type bs t of None \<Rightarrow> last_of_type as t | Some a \<Rightarrow> Some a)"
proof (induction bs rule: rev_induct)
  case (snoc b bs)
  have "last_of_type (as @ bs @ [b]) t = last_of_type ((as @ bs) @ [b]) t" by simp
  then show ?case using snoc by (simp only: last_of_type_simps) simp
qed simp

end
