(* ===== verification/Util.thy ===== *)
theory Util
  imports Netlink
begin

text \<open>
  The utilities of the driver (\<open>OVSDriver/module/src/util.c\<close>): the pool of preallocated netlink messages,
  synchronous transactions with the kernel, and the network-device requests. The kernel is a parameter: a state and the
  answers of the system calls. A message has the address of its buffer and the library calls that build its attributes.
\<close>

subsection \<open>The pool of messages\<close>

definition IND_OVS_NLMSG_FREELIST_SIZE :: nat where "IND_OVS_NLMSG_FREELIST_SIZE = 8"

type_synonym freelist = "u64 option list"

text \<open>\<open>alloc i\<close> is the address that the \<open>i\<close>-th \<open>nlmsg_alloc\<close> returns.\<close>

definition ind_ovs_nlmsg_freelist_init :: "(nat \<Rightarrow> u64 option) \<Rightarrow> freelist option" where
  "ind_ovs_nlmsg_freelist_init alloc =
     (let fl = map alloc [0..<IND_OVS_NLMSG_FREELIST_SIZE] in if None \<in> set fl then None else Some fl)"

text \<open>The messages that are freed, and the empty pool.\<close>

definition ind_ovs_nlmsg_freelist_finish :: "freelist \<Rightarrow> u64 list \<times> freelist" where
  "ind_ovs_nlmsg_freelist_finish fl = (List.map_filter id fl, map (\<lambda>_. None) fl)"

fun ind_ovs_nlmsg_freelist_alloc :: "freelist \<Rightarrow> (u64 \<times> freelist) option" where
  "ind_ovs_nlmsg_freelist_alloc [] = None"
| "ind_ovs_nlmsg_freelist_alloc (Some m # fl) = Some (m, None # fl)"
| "ind_ovs_nlmsg_freelist_alloc (None # fl) = map_option (\<lambda>(m, fl). (m, None # fl)) (ind_ovs_nlmsg_freelist_alloc fl)"

text \<open>The message goes to the first free slot, a duplicate before it is fatal; a full pool frees the message.\<close>

fun ind_ovs_nlmsg_freelist_free :: "u64 \<Rightarrow> freelist \<Rightarrow> (bool \<times> freelist) option" where
  "ind_ovs_nlmsg_freelist_free m [] = Some (True, [])"
| "ind_ovs_nlmsg_freelist_free m (None # fl) = Some (False, Some m # fl)"
| "ind_ovs_nlmsg_freelist_free m (Some k # fl) =
     (if k = m then None else map_option (\<lambda>(freed, fl). (freed, Some k # fl)) (ind_ovs_nlmsg_freelist_free m fl))"

subsection \<open>Transactions\<close>

record ovs_families =
  ovs_datapath_family :: int
  ovs_packet_family :: int
  ovs_vport_family :: int
  ovs_flow_family :: int

record genl_msg =
  gm_addr :: u64
  gm_family :: int
  gm_cmd :: u8
  gm_version :: u8
  gm_flags :: u16
  gm_dp_ifindex :: int
  gm_calls :: nl_msg

definition OVS_DATAPATH_VERSION :: u8 where "OVS_DATAPATH_VERSION = 1"
definition OVS_PACKET_VERSION :: u8 where "OVS_PACKET_VERSION = 1"
definition OVS_VPORT_VERSION :: u8 where "OVS_VPORT_VERSION = 1"
definition OVS_FLOW_VERSION :: u8 where "OVS_FLOW_VERSION = 1"

text \<open>Linux: \<open>NLM_F_REQUEST\<close>, \<open>NLM_F_ACK\<close>, \<open>NLM_F_DUMP\<close>; \<open>ENOENT\<close>, \<open>ENODEV\<close>.\<close>

definition NLM_F_REQUEST :: u16 where "NLM_F_REQUEST = 1"
definition NLM_F_ACK :: u16 where "NLM_F_ACK = 4"
definition NLM_F_DUMP :: u16 where "NLM_F_DUMP = 0x300"
definition ENOENT :: int where "ENOENT = 2"
definition ENODEV :: int where "ENODEV = 19"

text \<open>A reply of the kernel: an error message (0 is an acknowledgement) or the attributes of another message.\<close>

datatype nl_reply = NlError int | NlReply "nla list"

record 'k kernel =
  k_send :: "genl_msg \<Rightarrow> 'k \<Rightarrow> int \<times> 'k"
  k_recv :: "'k \<Rightarrow> nl_reply option \<times> 'k"

record 'k nl_state =
  nl_freelist :: freelist
  nl_kernel :: 'k

definition sys2indigoerr :: "int \<Rightarrow> error" where
  "sys2indigoerr err = (if err = ENOENT \<or> err = ENODEV then ERROR_NOT_FOUND else ERROR_UNKNOWN)"

definition monotonic_us :: "u64 \<Rightarrow> u64 \<Rightarrow> u64" where
  "monotonic_us tv_sec tv_nsec = tv_sec * 1000 * 1000 + tv_nsec div 1000"

definition nlmsg_version :: "ovs_families \<Rightarrow> int \<Rightarrow> u8 option" where
  "nlmsg_version F family =
     (if family = ovs_datapath_family F then Some OVS_DATAPATH_VERSION
      else if family = ovs_packet_family F then Some OVS_PACKET_VERSION
      else if family = ovs_vport_family F then Some OVS_VPORT_VERSION
      else if family = ovs_flow_family F then Some OVS_FLOW_VERSION
      else None)"

definition ind_ovs_create_nlmsg :: "ovs_families \<Rightarrow> int \<Rightarrow> int \<Rightarrow> u8 \<Rightarrow> 'k nl_state \<Rightarrow> (genl_msg \<times> 'k nl_state) option" where
  "ind_ovs_create_nlmsg F dp_ifindex family cmd st =
     do {
       version \<leftarrow> nlmsg_version F family;
       (addr, fl) \<leftarrow> ind_ovs_nlmsg_freelist_alloc (nl_freelist st);
       Some (\<lparr>gm_addr = addr, gm_family = family, gm_cmd = cmd, gm_version = version, gm_flags = 0, gm_dp_ifindex = dp_ifindex, gm_calls = []\<rparr>,
         st\<lparr>nl_freelist := fl\<rparr>)
     }"

definition nlmsg_free_to_pool :: "u64 \<Rightarrow> 'k nl_state \<Rightarrow> 'k nl_state option" where
  "nlmsg_free_to_pool addr st = do { (_, fl) \<leftarrow> ind_ovs_nlmsg_freelist_free addr (nl_freelist st); Some (st\<lparr>nl_freelist := fl\<rparr>) }"

text \<open>The received message takes a buffer of the pool; \<open>None\<close> of the inner option is a failed read.\<close>

definition ind_ovs_recv_nlmsg :: "'k kernel \<Rightarrow> 'k nl_state \<Rightarrow> ((u64 \<times> nl_reply) option \<times> 'k nl_state) option" where
  "ind_ovs_recv_nlmsg K st =
     do {
       (addr, fl) \<leftarrow> ind_ovs_nlmsg_freelist_alloc (nl_freelist st);
       let (r, k) = k_recv K (nl_kernel st);
       let st = st\<lparr>nl_freelist := fl, nl_kernel := k\<rparr>;
       case r of
         None \<Rightarrow> do { st \<leftarrow> nlmsg_free_to_pool addr st; Some (None, st) }
       | Some reply \<Rightarrow> Some (Some (addr, reply), st)
     }"

text \<open>
  An acknowledgement with an impossible error number counts as success. The reply to a
  transaction is an error message: the assertion that it is one is the value \<open>None\<close>.
\<close>

definition transact_error :: "int \<Rightarrow> error" where
  "transact_error err = (let err = (if err > 0 \<or> err < - 4095 then 0 else err) in if err < 0 then sys2indigoerr (- err) else ERROR_NONE)"

definition ind_ovs_transact_nofree :: "'k kernel \<Rightarrow> genl_msg \<Rightarrow> 'k nl_state \<Rightarrow> (error \<times> 'k nl_state) option" where
  "ind_ovs_transact_nofree K msg st =
     (let (err, k) = k_send K (msg\<lparr>gm_flags := gm_flags msg OR NLM_F_ACK\<rparr>) (nl_kernel st);
          st = st\<lparr>nl_kernel := k\<rparr>
      in if err < 0 then Some (ERROR_UNKNOWN, st)
         else do {
           (r, st) \<leftarrow> ind_ovs_recv_nlmsg K st;
           case r of
             None \<Rightarrow> Some (ERROR_UNKNOWN, st)
           | Some (addr, NlReply as) \<Rightarrow> None
           | Some (addr, NlError e) \<Rightarrow> do { st \<leftarrow> nlmsg_free_to_pool addr st; Some (transact_error e, st) }
         })"

definition ind_ovs_transact :: "'k kernel \<Rightarrow> genl_msg \<Rightarrow> 'k nl_state \<Rightarrow> (error \<times> 'k nl_state) option" where
  "ind_ovs_transact K msg st =
     do {
       (ret, st) \<leftarrow> ind_ovs_transact_nofree K msg st;
       st \<leftarrow> nlmsg_free_to_pool (gm_addr msg) st;
       Some (ret, st)
     }"

text \<open>The reply is in memory of its own, not in the pool.\<close>

definition ind_ovs_transact_reply :: "'k kernel \<Rightarrow> genl_msg \<Rightarrow> 'k nl_state \<Rightarrow> (error \<times> nla list \<times> 'k nl_state) option" where
  "ind_ovs_transact_reply K msg st =
     do {
       let (err, k) = k_send K msg (nl_kernel st);
       st \<leftarrow> nlmsg_free_to_pool (gm_addr msg) (st\<lparr>nl_kernel := k\<rparr>);
       if err < 0 then Some (ERROR_UNKNOWN, [], st)
       else do {
         let (r, k) = k_recv K (nl_kernel st);
         let st = st\<lparr>nl_kernel := k\<rparr>;
         case r of
           None \<Rightarrow> Some (ERROR_UNKNOWN, [], st)
         | Some (NlError e) \<Rightarrow> Some (sys2indigoerr (- e), [], st)
         | Some (NlReply as) \<Rightarrow> Some (ERROR_NONE, as, st)
       }
     }"

text \<open>An empty nest is kept: unlike libnl's function, which may drop it.\<close>

definition ind_ovs_nla_nest_end :: "nl_msg \<Rightarrow> nl_msg" where
  "ind_ovs_nla_nest_end msg = nla_nest_end msg"

subsection \<open>Network devices\<close>

text \<open>
  The requests of \<open>ioctl\<close> that the driver makes on a device and what they answer: an error number, or the
  data that the request fills in.
\<close>

record ethtool_cmd =
  ec_speed :: u32
  ec_full_duplex :: bool
  ec_port :: u8
  ec_autoneg :: bool

datatype ioctl_req = SIOCGIFFLAGS | SIOCSIFFLAGS u16 | ETHTOOL_GSET | ETHTOOL_GFLAGS | ETHTOOL_SFLAGS u32 | ETHTOOL_SGRO u32
datatype ioctl_data = IoNone | IoFlags u16 | IoCmd ethtool_cmd | IoValue u32

record 'k netdev =
  nd_socket :: "'k \<Rightarrow> int \<times> 'k"
  nd_ioctl :: "int \<Rightarrow> string \<Rightarrow> ioctl_req \<Rightarrow> 'k \<Rightarrow> (int + ioctl_data) \<times> 'k"

text \<open>The socket is opened once and kept; it is -1 before.\<close>

record 'k dev_state =
  ioctl_sock :: int
  dev_kernel :: 'k

definition IFNAMSIZ :: nat where "IFNAMSIZ = 16"

definition ind_ovs_interface_ioctl :: "'k netdev \<Rightarrow> string \<Rightarrow> ioctl_req \<Rightarrow> 'k dev_state \<Rightarrow> error \<times> ioctl_data \<times> 'k dev_state" where
  "ind_ovs_interface_ioctl N ifname req st =
     (let st = (if ioctl_sock st < 0
           then let (s, k) = nd_socket N (dev_kernel st) in st\<lparr>ioctl_sock := s, dev_kernel := k\<rparr>
           else st)
      in if ioctl_sock st < 0 then (ERROR_UNKNOWN, IoNone, st)
         else let (r, k) = nd_ioctl N (ioctl_sock st) (take IFNAMSIZ ifname) req (dev_kernel st);
                  st = st\<lparr>dev_kernel := k\<rparr>
              in case r of Inl errno \<Rightarrow> (sys2indigoerr errno, IoNone, st) | Inr d \<Rightarrow> (ERROR_NONE, d, st))"

text \<open>\<open>ifr_flags\<close> is a \<open>short\<close>: the flags are sign-extended. They are only written on success.\<close>

definition ind_ovs_get_interface_flags :: "'k netdev \<Rightarrow> string \<Rightarrow> u32 \<Rightarrow> 'k dev_state \<Rightarrow> error \<times> u32 \<times> 'k dev_state" where
  "ind_ovs_get_interface_flags N ifname flags st =
     (case ind_ovs_interface_ioctl N ifname SIOCGIFFLAGS st of
        (err, d, st) \<Rightarrow> (err, (if failed err then flags else case d of IoFlags f \<Rightarrow> scast f | _ \<Rightarrow> flags), st))"

definition ind_ovs_set_interface_flags :: "'k netdev \<Rightarrow> string \<Rightarrow> u32 \<Rightarrow> 'k dev_state \<Rightarrow> error \<times> 'k dev_state" where
  "ind_ovs_set_interface_flags N ifname flags st =
     (case ind_ovs_interface_ioctl N ifname (SIOCSIFFLAGS (ucast flags)) st of (err, d, st) \<Rightarrow> (err, st))"

text \<open>The bits of a port's features, as the set of OpenFlow flags.\<close>

datatype port_feature = PF_10MB_HD | PF_10MB_FD | PF_100MB_HD | PF_100MB_FD | PF_1GB_HD | PF_1GB_FD | PF_10GB_FD | PF_COPPER | PF_FIBER | PF_AUTONEG

definition PORT_TP :: u8 where "PORT_TP = 0"
definition PORT_FIBRE :: u8 where "PORT_FIBRE = 3"

definition speed_features :: "ethtool_cmd \<Rightarrow> port_feature set" where
  "speed_features ecmd =
     (if ec_full_duplex ecmd
      then (if ec_speed ecmd = 10 then {PF_10MB_FD} else if ec_speed ecmd = 100 then {PF_100MB_FD}
            else if ec_speed ecmd = 1000 then {PF_1GB_FD} else if ec_speed ecmd = 10000 then {PF_10GB_FD} else {})
      else (if ec_speed ecmd = 10 then {PF_10MB_HD} else if ec_speed ecmd = 100 then {PF_100MB_HD}
            else if ec_speed ecmd = 1000 then {PF_1GB_HD} else {}))"

definition ind_ovs_get_interface_features :: "'k netdev \<Rightarrow> string \<Rightarrow> 'k dev_state \<Rightarrow> port_feature set \<times> 'k dev_state" where
  "ind_ovs_get_interface_features N ifname st =
     (case ind_ovs_interface_ioctl N ifname ETHTOOL_GSET st of
        (err, d, st) \<Rightarrow>
          if err = ERROR_NOT_FOUND then ({PF_10GB_FD, PF_COPPER}, st)
          else if failed err then ({}, st)
          else (case d of
              IoCmd ecmd \<Rightarrow>
                (speed_features ecmd \<union> (if ec_port ecmd = PORT_TP then {PF_COPPER} else if ec_port ecmd = PORT_FIBRE then {PF_FIBER} else {}) \<union>
                  (if ec_autoneg ecmd then {PF_AUTONEG} else {}), st)
            | _ \<Rightarrow> ({}, st)))"

definition ind_ovs_set_ethtool_flags :: "'k netdev \<Rightarrow> string \<Rightarrow> u32 \<Rightarrow> u32 \<Rightarrow> 'k dev_state \<Rightarrow> error \<times> 'k dev_state" where
  "ind_ovs_set_ethtool_flags N ifname flags msk st =
     (case ind_ovs_interface_ioctl N ifname ETHTOOL_GFLAGS st of
        (err, d, st) \<Rightarrow>
          if failed err then (err, st)
          else let old = (case d of IoValue v \<Rightarrow> v | _ \<Rightarrow> 0);
                   new_flags = (old AND NOT msk) OR flags
               in if new_flags = old then (ERROR_NONE, st)
                  else case ind_ovs_interface_ioctl N ifname (ETHTOOL_SFLAGS new_flags) st of (err, d, st) \<Rightarrow> (err, st))"

definition ind_ovs_set_ethtool_gro :: "'k netdev \<Rightarrow> string \<Rightarrow> bool \<Rightarrow> 'k dev_state \<Rightarrow> error \<times> 'k dev_state" where
  "ind_ovs_set_ethtool_gro N ifname enabled st =
     (case ind_ovs_interface_ioctl N ifname (ETHTOOL_SGRO (if enabled then 1 else 0)) st of (err, d, st) \<Rightarrow> (err, st))"

subsection \<open>The pool never runs dry\<close>

text \<open>
  \<open>P\<close> is the set of buffers of the pool, \<open>U\<close> those in use. Buffers are never lost: what is not in use is free.
\<close>

definition pool_inv :: "u64 set \<Rightarrow> u64 set \<Rightarrow> freelist \<Rightarrow> bool" where
  "pool_inv P U fl \<longleftrightarrow> length fl = IND_OVS_NLMSG_FREELIST_SIZE \<and> finite P \<and> card P = IND_OVS_NLMSG_FREELIST_SIZE \<and> U \<subseteq> P \<and>
     distinct (List.map_filter id fl) \<and> set (List.map_filter id fl) = P - U"

lemma map_filter_id_simps [simp]:
  "List.map_filter id [] = []" "List.map_filter id (None # xs) = List.map_filter id xs" "List.map_filter id (Some x # xs) = x # List.map_filter id xs"
  by (simp_all add: List.map_filter_def)

lemma freelist_alloc_spec:
  "List.map_filter id fl = m # ms \<Longrightarrow> \<exists>fl'. ind_ovs_nlmsg_freelist_alloc fl = Some (m, fl') \<and> List.map_filter id fl' = ms \<and> length fl' = length fl"
  by (induction fl rule: ind_ovs_nlmsg_freelist_alloc.induct) auto

lemma freelist_free_spec:
  "m \<notin> set (List.map_filter id fl) \<Longrightarrow> None \<in> set fl \<Longrightarrow>
    \<exists>fl'. ind_ovs_nlmsg_freelist_free m fl = Some (False, fl') \<and> mset (List.map_filter id fl') = add_mset m (mset (List.map_filter id fl)) \<and> length fl' = length fl"
  by (induction m fl rule: ind_ovs_nlmsg_freelist_free.induct) (auto, blast)

lemma length_filter_None: "length (List.map_filter id fl) + count_list fl None = length fl"
  by (induction fl) (auto simp: List.map_filter_def)

lemma pool_init:
  assumes "inj_on alloc {..<8}" "\<And>i. i < 8 \<Longrightarrow> alloc i \<noteq> None"
  obtains fl where "ind_ovs_nlmsg_freelist_init alloc = Some fl" "pool_inv (the ` alloc ` {..<8}) {} fl"
proof -
  let ?fl = "map alloc [0..<8]"
  have i: "inj_on (\<lambda>i. the (alloc i)) {..<8}"
  proof (rule inj_onI)
    fix x y assume xy: "x \<in> {..<8}" "y \<in> {..<8}" "the (alloc x) = the (alloc y)"
    then have "alloc x = alloc y" using assms(2) [of x] assms(2) [of y] by (intro option.expand) auto
    then show "x = y" using assms(1) xy by (auto dest: inj_onD)
  qed
  have mf: "List.map_filter id (map alloc [0..<n]) = map (\<lambda>i. the (alloc i)) [0..<n]" if "n \<le> 8" for n
    using that assms(2) by (induction n) (auto simp: List.map_filter_def)
  have "None \<notin> set ?fl" using assms(2) by (fastforce simp: image_iff)
  moreover have "pool_inv (the ` alloc ` {..<8}) {} ?fl"
    using i mf [of 8] by (simp add: pool_inv_def IND_OVS_NLMSG_FREELIST_SIZE_def image_image card_image distinct_map atLeast0LessThan)
  ultimately show thesis using that [of ?fl] by (simp add: ind_ovs_nlmsg_freelist_init_def IND_OVS_NLMSG_FREELIST_SIZE_def)
qed

lemma pool_alloc:
  assumes "pool_inv P U fl" "card U < IND_OVS_NLMSG_FREELIST_SIZE"
  obtains m fl' where "ind_ovs_nlmsg_freelist_alloc fl = Some (m, fl')" "m \<in> P - U" "pool_inv P (insert m U) fl'"
proof -
  have p: "finite P" "card P = IND_OVS_NLMSG_FREELIST_SIZE" "U \<subseteq> P" "distinct (List.map_filter id fl)" "set (List.map_filter id fl) = P - U"
    "length fl = IND_OVS_NLMSG_FREELIST_SIZE" using assms(1) by (simp_all add: pool_inv_def)
  have "U \<noteq> P" using assms(2) p(2) by auto
  then have "List.map_filter id fl \<noteq> []" using p(3,5) by auto
  then obtain m ms where ms: "List.map_filter id fl = m # ms" by (cases "List.map_filter id fl") auto
  obtain fl' where fl': "ind_ovs_nlmsg_freelist_alloc fl = Some (m, fl')" "List.map_filter id fl' = ms" "length fl' = length fl"
    using freelist_alloc_spec [OF ms] by blast
  have "pool_inv P (insert m U) fl'" using p ms fl'(2,3) by (auto simp: pool_inv_def)
  then show thesis using that fl'(1) p(5) ms by auto
qed

lemma pool_free:
  assumes "pool_inv P U fl" "m \<in> U"
  obtains fl' where "ind_ovs_nlmsg_freelist_free m fl = Some (False, fl')" "pool_inv P (U - {m}) fl'"
proof -
  have p: "finite P" "card P = IND_OVS_NLMSG_FREELIST_SIZE" "U \<subseteq> P" "distinct (List.map_filter id fl)" "set (List.map_filter id fl) = P - U"
    "length fl = IND_OVS_NLMSG_FREELIST_SIZE" using assms(1) by (simp_all add: pool_inv_def)
  have new: "m \<notin> set (List.map_filter id fl)" using p(5) assms(2) by simp
  have "length (List.map_filter id fl) = card (P - U)" using p(4,5) distinct_card by metis
  also have "\<dots> < card P" using p(1,3) assms(2) by (intro psubset_card_mono) auto
  finally have "count_list fl None \<noteq> 0" using length_filter_None [of fl] p(2,6) by simp
  then have "None \<in> set fl" by (simp add: count_list_0_iff)
  then obtain fl' where fl': "ind_ovs_nlmsg_freelist_free m fl = Some (False, fl')" "mset (List.map_filter id fl') = add_mset m (mset (List.map_filter id fl))"
    "length fl' = length fl" using freelist_free_spec [OF new] by blast
  have "set (List.map_filter id fl') = insert m (P - U)" using arg_cong [OF fl'(2), of set_mset] p(5) by simp
  moreover have "distinct (List.map_filter id fl')" using fl'(2) new p(4) by (metis distinct.simps(2) mset.simps(2) mset_eq_imp_distinct_iff)
  ultimately have "pool_inv P (U - {m}) fl'" using p fl'(3) assms(2) by (auto simp: pool_inv_def)
  then show thesis using that fl'(1) by blast
qed

lemma nlmsg_free_ok:
  assumes "pool_inv P U (nl_freelist st)" "m \<in> U"
  obtains st' where "nlmsg_free_to_pool m st = Some st'" "pool_inv P (U - {m}) (nl_freelist st')" "nl_kernel st' = nl_kernel st"
proof -
  obtain fl where "ind_ovs_nlmsg_freelist_free m (nl_freelist st) = Some (False, fl)" "pool_inv P (U - {m}) fl" by (rule pool_free [OF assms])
  then show thesis using that by (simp add: nlmsg_free_to_pool_def)
qed

text \<open>The documented reply to a message with \<open>NLM_F_ACK\<close>: an acknowledgement or an error.\<close>

definition kernel_acks :: "'k kernel \<Rightarrow> bool" where
  "kernel_acks K \<longleftrightarrow> (\<forall>m k as. gm_flags m AND NLM_F_ACK \<noteq> 0 \<longrightarrow> fst (k_recv K (snd (k_send K m k))) \<noteq> Some (NlReply as))"

lemma recv_nlmsg_ok:
  assumes "pool_inv P U (nl_freelist st)" "card U < IND_OVS_NLMSG_FREELIST_SIZE" "k_recv K (nl_kernel st) = (r, k)"
  shows "case r of None \<Rightarrow> \<exists>st'. ind_ovs_recv_nlmsg K st = Some (None, st') \<and> pool_inv P U (nl_freelist st') \<and> nl_kernel st' = k
    | Some reply \<Rightarrow> \<exists>m st'. ind_ovs_recv_nlmsg K st = Some (Some (m, reply), st') \<and> m \<in> P - U \<and> pool_inv P (insert m U) (nl_freelist st') \<and> nl_kernel st' = k"
proof -
  obtain m fl where a: "ind_ovs_nlmsg_freelist_alloc (nl_freelist st) = Some (m, fl)" "m \<in> P - U" "pool_inv P (insert m U) fl" by (rule pool_alloc [OF assms(1,2)])
  let ?st = "st\<lparr>nl_freelist := fl, nl_kernel := k\<rparr>"
  show ?thesis
  proof (cases r)
    case None
    obtain st' where "nlmsg_free_to_pool m ?st = Some st'" "pool_inv P (insert m U - {m}) (nl_freelist st')" "nl_kernel st' = nl_kernel ?st"
      by (rule nlmsg_free_ok [of P "insert m U" ?st m]) (use a in auto)
    then show ?thesis using None a assms(3) by (simp add: ind_ovs_recv_nlmsg_def)
  next
    case (Some reply)
    then show ?thesis using a assms(3) by (simp add: ind_ovs_recv_nlmsg_def)
  qed
qed

definition transact_result :: "'k kernel \<Rightarrow> genl_msg \<Rightarrow> 'k \<Rightarrow> error \<times> 'k" where
  "transact_result K msg k =
     (let (err, k) = k_send K (msg\<lparr>gm_flags := gm_flags msg OR NLM_F_ACK\<rparr>) k
      in if err < 0 then (ERROR_UNKNOWN, k)
         else let (r, k) = k_recv K k in (case r of Some (NlError e) \<Rightarrow> transact_error e | _ \<Rightarrow> ERROR_UNKNOWN, k))"

lemma transact_ok:
  assumes inv: "pool_inv P U (nl_freelist st)" "card U < IND_OVS_NLMSG_FREELIST_SIZE" and m: "gm_addr msg \<in> U" and K: "kernel_acks K"
  shows "\<exists>st'. ind_ovs_transact K msg st = Some (fst (transact_result K msg (nl_kernel st)), st') \<and> pool_inv P (U - {gm_addr msg}) (nl_freelist st') \<and>
    nl_kernel st' = snd (transact_result K msg (nl_kernel st))"
proof -
  obtain e k where s: "k_send K (msg\<lparr>gm_flags := gm_flags msg OR NLM_F_ACK\<rparr>) (nl_kernel st) = (e, k)" by fastforce
  obtain r k2 where r: "k_recv K k = (r, k2)" by fastforce
  let ?st = "st\<lparr>nl_kernel := k\<rparr>"
  have "\<exists>st1. ind_ovs_transact_nofree K msg st = Some (fst (transact_result K msg (nl_kernel st)), st1) \<and> pool_inv P U (nl_freelist st1) \<and>
      nl_kernel st1 = snd (transact_result K msg (nl_kernel st))"
  proof (cases "e < 0")
    case True
    then show ?thesis using s inv(1) by (simp add: ind_ovs_transact_nofree_def transact_result_def)
  next
    case False
    note R = recv_nlmsg_ok [of P U ?st K r k2]
    have "(gm_flags msg OR NLM_F_ACK) AND NLM_F_ACK \<noteq> 0" by (simp add: NLM_F_ACK_def word_ao_absorbs)
    then have "r \<noteq> Some (NlReply as)" for as using K s r unfolding kernel_acks_def by (metis fst_conv genl_msg.select_convs(5) genl_msg.surjective genl_msg.update_convs(5) snd_conv)
    then consider (none) "r = None" | (err) x where "r = Some (NlError x)" by (metis nl_reply.exhaust option.exhaust)
    then show ?thesis
    proof cases
      case none
      then show ?thesis using R inv s r False by (auto simp: ind_ovs_transact_nofree_def transact_result_def)
    next
      case err
      then obtain a st2 where 2: "ind_ovs_recv_nlmsg K ?st = Some (Some (a, NlError x), st2)" "a \<in> P - U" "pool_inv P (insert a U) (nl_freelist st2)" "nl_kernel st2 = k2"
        using R inv r by auto
      obtain st3 where "nlmsg_free_to_pool a st2 = Some st3" "pool_inv P (insert a U - {a}) (nl_freelist st3)" "nl_kernel st3 = nl_kernel st2"
        by (rule nlmsg_free_ok [OF 2(3), of a]) auto
      then show ?thesis using 2 err s r False by (simp add: ind_ovs_transact_nofree_def transact_result_def)
    qed
  qed
  then obtain st1 where 1: "ind_ovs_transact_nofree K msg st = Some (fst (transact_result K msg (nl_kernel st)), st1)" "pool_inv P U (nl_freelist st1)"
    "nl_kernel st1 = snd (transact_result K msg (nl_kernel st))" by blast
  obtain st2 where "nlmsg_free_to_pool (gm_addr msg) st1 = Some st2" "pool_inv P (U - {gm_addr msg}) (nl_freelist st2)" "nl_kernel st2 = nl_kernel st1"
    by (rule nlmsg_free_ok [OF 1(2) m])
  then show ?thesis using 1 by (simp add: ind_ovs_transact_def)
qed

lemma failed_sys2indigoerr [simp]: "failed (sys2indigoerr e)"
  by (simp add: sys2indigoerr_def)

lemma transact_reply_ok:
  assumes "pool_inv P U (nl_freelist st)" "gm_addr msg \<in> U"
  obtains err as st' where "ind_ovs_transact_reply K msg st = Some (err, as, st')" "pool_inv P (U - {gm_addr msg}) (nl_freelist st')"
    "\<not> failed err \<Longrightarrow> fst (k_recv K (snd (k_send K msg (nl_kernel st)))) = Some (NlReply as)"
proof -
  obtain e k where s: "k_send K msg (nl_kernel st) = (e, k)" by fastforce
  obtain st1 where 1: "nlmsg_free_to_pool (gm_addr msg) (st\<lparr>nl_kernel := k\<rparr>) = Some st1" "pool_inv P (U - {gm_addr msg}) (nl_freelist st1)" "nl_kernel st1 = k"
    using nlmsg_free_ok [of P U "st\<lparr>nl_kernel := k\<rparr>" "gm_addr msg"] assms by auto
  obtain r k2 where r: "k_recv K k = (r, k2)" by fastforce
  consider "e < 0" | "\<not> e < 0" "r = None" | x where "\<not> e < 0" "r = Some (NlError x)" | as where "\<not> e < 0" "r = Some (NlReply as)"
    by (metis nl_reply.exhaust option.exhaust)
  then show thesis
  proof cases
    case 1 then show thesis using that [of ERROR_UNKNOWN "[]" st1] s \<open>nlmsg_free_to_pool _ _ = _\<close> \<open>pool_inv P (U - {gm_addr msg}) (nl_freelist st1)\<close>
      by (simp add: ind_ovs_transact_reply_def failed_def)
  next
    case 2 then show thesis using that [of ERROR_UNKNOWN "[]" "st1\<lparr>nl_kernel := k2\<rparr>"] s r 1 by (simp add: ind_ovs_transact_reply_def failed_def)
  next
    case (3 x) then show thesis using that [of "sys2indigoerr (- x)" "[]" "st1\<lparr>nl_kernel := k2\<rparr>"] s r 1
      by (simp add: ind_ovs_transact_reply_def)
  next
    case (4 as) then show thesis using that [of ERROR_NONE as "st1\<lparr>nl_kernel := k2\<rparr>"] s r 1 by (simp add: ind_ovs_transact_reply_def)
  qed
qed

subsection \<open>Properties\<close>

text \<open>
  C15: a transaction with the kernel never exhausts the pool of messages and loses none: with two buffers free, creating
  a message and running the transaction gives an answer on every path (send failure, receive failure, error, success),
  all buffers are back in the pool afterwards, and the answer is success exactly when the message was sent and
  acknowledged with 0 or with a number that is no error number.
\<close>

theorem transact_pool:
  assumes "pool_inv P U (nl_freelist st)" "card U + 2 \<le> IND_OVS_NLMSG_FREELIST_SIZE" "kernel_acks K" "nlmsg_version F family \<noteq> None"
  shows "\<exists>msg st1. ind_ovs_create_nlmsg F dp family cmd st = Some (msg, st1) \<and>
    (\<forall>calls. \<exists>err st2. ind_ovs_transact K (msg\<lparr>gm_calls := calls\<rparr>) st1 = Some (err, st2) \<and> pool_inv P U (nl_freelist st2) \<and>
      (err = ERROR_NONE \<longleftrightarrow> (let (e, k) = k_send K (msg\<lparr>gm_calls := calls, gm_flags := NLM_F_ACK\<rparr>) (nl_kernel st)
        in 0 \<le> e \<and> (\<exists>x. fst (k_recv K k) = Some (NlError x) \<and> (0 \<le> x \<or> x < - 4095)))))"
proof -
  have fin: "finite U" using assms(1) finite_subset by (auto simp: pool_inv_def)
  have c: "card U < IND_OVS_NLMSG_FREELIST_SIZE" using assms(2) by simp
  obtain v where v: "nlmsg_version F family = Some v" using assms(4) by blast
  obtain m fl where m: "ind_ovs_nlmsg_freelist_alloc (nl_freelist st) = Some (m, fl)" "m \<in> P - U" "pool_inv P (insert m U) fl" by (rule pool_alloc [OF assms(1) c])
  let ?msg = "\<lparr>gm_addr = m, gm_family = family, gm_cmd = cmd, gm_version = v, gm_flags = 0, gm_dp_ifindex = dp, gm_calls = []\<rparr>"
  let ?st = "st\<lparr>nl_freelist := fl\<rparr>"
  have "\<exists>err st2. ind_ovs_transact K (?msg\<lparr>gm_calls := calls\<rparr>) ?st = Some (err, st2) \<and> pool_inv P U (nl_freelist st2) \<and>
      (err = ERROR_NONE \<longleftrightarrow> (let (e, k) = k_send K (?msg\<lparr>gm_calls := calls, gm_flags := NLM_F_ACK\<rparr>) (nl_kernel st)
        in 0 \<le> e \<and> (\<exists>x. fst (k_recv K k) = Some (NlError x) \<and> (0 \<le> x \<or> x < - 4095))))" for calls
  proof -
    let ?m = "?msg\<lparr>gm_calls := calls\<rparr>"
    obtain e k where s: "k_send K (?m\<lparr>gm_flags := NLM_F_ACK\<rparr>) (nl_kernel st) = (e, k)" by fastforce
    obtain r k2 where r: "k_recv K k = (r, k2)" by fastforce
    have "card (insert m U) < IND_OVS_NLMSG_FREELIST_SIZE" using m(2) fin assms(2) by simp
    then obtain st2 where t: "ind_ovs_transact K ?m ?st = Some (fst (transact_result K ?m (nl_kernel ?st)), st2)" "pool_inv P (insert m U - {m}) (nl_freelist st2)"
      using transact_ok [of P "insert m U" ?st ?m K] m assms(3) by auto
    have "fst (transact_result K ?m (nl_kernel ?st)) = ERROR_NONE \<longleftrightarrow> 0 \<le> e \<and> (\<exists>x. r = Some (NlError x) \<and> (0 \<le> x \<or> x < - 4095))"
      using s r by (auto simp: transact_result_def transact_error_def sys2indigoerr_def Let_def split: option.splits nl_reply.splits)
    then show ?thesis using t m(2) s r by auto
  qed
  then show ?thesis using m(1) v by (simp add: ind_ovs_create_nlmsg_def)
qed

definition demo_families :: ovs_families where
  "demo_families = \<lparr>ovs_datapath_family = 20, ovs_packet_family = 21, ovs_vport_family = 22, ovs_flow_family = 23\<rparr>"

text \<open>A kernel that counts messages and refuses every second one.\<close>

definition demo_kernel :: "nat kernel" where
  "demo_kernel = \<lparr>k_send = (\<lambda>msg n. (0, Suc n)), k_recv = (\<lambda>n. (Some (NlError (if even n then - 2 else 0)), n))\<rparr>"

definition demo_pool :: "nat nl_state" where
  "demo_pool = \<lparr>nl_freelist = map (\<lambda>i. Some (of_nat i)) [0..<8], nl_kernel = 0\<rparr>"

lemma demo_pool_inv: "pool_inv {0, 1, 2, 3, 4, 5, 6, 7} {} (nl_freelist demo_pool)"
proof -
  have "nl_freelist demo_pool = map Some [0, 1, 2, 3, 4, 5, 6, 7]" by (simp add: demo_pool_def upt_rec)
  then show ?thesis by (simp add: pool_inv_def IND_OVS_NLMSG_FREELIST_SIZE_def)
qed

theorem transact_pool_witness:
  "\<exists>msg st1 st2. ind_ovs_create_nlmsg demo_families 1 23 1 demo_pool = Some (msg, st1) \<and>
    ind_ovs_transact demo_kernel (msg\<lparr>gm_calls := []\<rparr>) st1 = Some (ERROR_NONE, st2) \<and> pool_inv {0, 1, 2, 3, 4, 5, 6, 7} {} (nl_freelist st2)"
proof -
  have "card ({} :: u64 set) + 2 \<le> IND_OVS_NLMSG_FREELIST_SIZE" "kernel_acks demo_kernel" "nlmsg_version demo_families 23 \<noteq> None"
    by (simp_all add: IND_OVS_NLMSG_FREELIST_SIZE_def kernel_acks_def demo_kernel_def nlmsg_version_def demo_families_def)
  from transact_pool [OF demo_pool_inv this, of 1 1] obtain msg st1 where 1: "ind_ovs_create_nlmsg demo_families 1 23 1 demo_pool = Some (msg, st1)"
    "\<exists>err st2. ind_ovs_transact demo_kernel (msg\<lparr>gm_calls := []\<rparr>) st1 = Some (err, st2) \<and> pool_inv {0, 1, 2, 3, 4, 5, 6, 7} {} (nl_freelist st2) \<and>
      (err = ERROR_NONE \<longleftrightarrow> (let (e, k) = k_send demo_kernel (msg\<lparr>gm_calls := [], gm_flags := NLM_F_ACK\<rparr>) (nl_kernel demo_pool)
        in 0 \<le> e \<and> (\<exists>x. fst (k_recv demo_kernel k) = Some (NlError x) \<and> (0 \<le> x \<or> x < - 4095))))" by blast
  then show ?thesis by (auto simp: demo_kernel_def demo_pool_def)
qed

end
