(* ===== verification/Stats.thy ===== *)
theory Stats
  imports Prelude
begin

text \<open>
  The packet and byte counters of \<open>modules/stats\<close> (\<open>stats.c\<close>, \<open>stats.h\<close>). A handle is a slot
  number taken from a stack of free slots; each thread has a writer, an array with one counter
  pair per slot, and a counter's value is the sum over the writers. The C arrays of
  \<open>MAX_STATS\<close> elements are functions on indices; an index outside the array never occurs, by
  the invariant below. \<open>None\<close> is the death of the process.
\<close>

subsection \<open>State\<close>

definition MAX_STATS :: nat where
  "MAX_STATS = 262144"

record stats =
  packets :: u64
  bytes_cnt :: u64

text \<open>A writer: the address of its structure and its counters. \<open>stats_writers\<close> is the global list.\<close>

record stats_writer =
  wr_addr :: u64
  wr_stats :: "nat \<Rightarrow> stats"

record stats_module =
  free_stack :: "nat \<Rightarrow> u32"
  num_free :: u32
  stats_writers :: "stats_writer list"

definition stats_zero :: stats where
  "stats_zero = \<lparr>packets = 0, bytes_cnt = 0\<rparr>"

definition stats_add :: "stats \<Rightarrow> stats \<Rightarrow> stats" where
  "stats_add a b = \<lparr>packets = packets a + packets b, bytes_cnt = bytes_cnt a + bytes_cnt b\<rparr>"

subsection \<open>Operations\<close>

text \<open>The loop of \<open>__stats_module_init__\<close>, after \<open>n\<close> iterations.\<close>

primrec stats_init_loop :: "nat \<Rightarrow> nat \<Rightarrow> u32" where
  "stats_init_loop 0 = (\<lambda>_. 0)"
| "stats_init_loop (Suc n) = (stats_init_loop n)(n := of_nat (MAX_STATS - n - 1))"

definition stats_module_init :: stats_module where
  "stats_module_init =
     \<lparr>free_stack = stats_init_loop MAX_STATS, num_free = of_nat MAX_STATS, stats_writers = []\<rparr>"

definition stats_clear :: "stats_module \<Rightarrow> u32 \<Rightarrow> stats_module" where
  "stats_clear st slot =
     st\<lparr>stats_writers := map (\<lambda>w. w\<lparr>wr_stats := (wr_stats w)(unat slot := stats_zero)\<rparr>) (stats_writers st)\<rparr>"

definition stats_alloc :: "stats_module \<Rightarrow> (u32 \<times> stats_module) option" where
  "stats_alloc st =
     (if num_free st > 0
      then let n = num_free st - 1;
               slot = free_stack st (unat n)
           in Some (slot, stats_clear (st\<lparr>num_free := n\<rparr>) slot)
      else None)"

definition stats_free :: "stats_module \<Rightarrow> u32 \<Rightarrow> stats_module option" where
  "stats_free st slot =
     (if unat (num_free st) < MAX_STATS
      then Some (st\<lparr>free_stack := (free_stack st)(unat (num_free st) := slot), num_free := num_free st + 1\<rparr>)
      else None)"

text \<open>\<open>stats_inc\<close> writes through the writer's pointer: \<open>None\<close> if there is no such writer.\<close>

fun writer_inc :: "stats_writer list \<Rightarrow> u64 \<Rightarrow> nat \<Rightarrow> stats \<Rightarrow> stats_writer list option" where
  "writer_inc [] addr slot d = None"
| "writer_inc (w # ws) addr slot d =
     (if wr_addr w = addr
      then Some (w\<lparr>wr_stats := (wr_stats w)(slot := stats_add (wr_stats w slot) d)\<rparr> # ws)
      else map_option (Cons w) (writer_inc ws addr slot d))"

definition stats_inc :: "stats_module \<Rightarrow> u64 \<Rightarrow> u32 \<Rightarrow> u64 \<Rightarrow> u64 \<Rightarrow> stats_module option" where
  "stats_inc st addr slot np nb =
     map_option (\<lambda>ws. st\<lparr>stats_writers := ws\<rparr>)
       (writer_inc (stats_writers st) addr (unat slot) \<lparr>packets = np, bytes_cnt = nb\<rparr>)"

definition stats_get :: "stats_module \<Rightarrow> u32 \<Rightarrow> stats" where
  "stats_get st slot = foldl (\<lambda>r w. stats_add r (wr_stats w (unat slot))) stats_zero (stats_writers st)"

text \<open>\<open>addr\<close> is the address \<open>aim_zmalloc\<close> returns; the anonymous mapping is zeroed.\<close>

definition stats_writer_create :: "stats_module \<Rightarrow> u64 \<Rightarrow> stats_module" where
  "stats_writer_create st addr =
     st\<lparr>stats_writers := stats_writers st @ [\<lparr>wr_addr = addr, wr_stats = (\<lambda>_. stats_zero)\<rparr>]\<rparr>"

definition stats_writer_destroy :: "stats_module \<Rightarrow> u64 \<Rightarrow> stats_module" where
  "stats_writer_destroy st addr =
     st\<lparr>stats_writers := filter (\<lambda>w. wr_addr w \<noteq> addr) (stats_writers st)\<rparr>"

subsection \<open>The sum over writers\<close>

lemma stats_add_simps [simp]:
  "packets (stats_add a b) = packets a + packets b" "bytes_cnt (stats_add a b) = bytes_cnt a + bytes_cnt b"
  "packets stats_zero = 0" "bytes_cnt stats_zero = 0"
  by (simp_all add: stats_add_def stats_zero_def)

lemma stats_add_assoc: "stats_add (stats_add a b) c = stats_add a (stats_add b c)"
  by (simp add: stats_add_def ac_simps)

lemma stats_add_commute: "stats_add a b = stats_add b a"
  by (simp add: stats_add_def ac_simps)

lemma stats_add_zero [simp]: "stats_add stats_zero a = a" "stats_add a stats_zero = a"
  by (simp_all add: stats_add_def stats_zero_def)

definition wsum :: "stats_writer list \<Rightarrow> nat \<Rightarrow> stats" where
  "wsum ws slot = foldr (\<lambda>w. stats_add (wr_stats w slot)) ws stats_zero"

lemma wsum_simps [simp]:
  "wsum [] slot = stats_zero" "wsum (w # ws) slot = stats_add (wr_stats w slot) (wsum ws slot)"
  by (simp_all add: wsum_def)

lemma stats_get_wsum: "stats_get st slot = wsum (stats_writers st) (unat slot)"
proof -
  have "foldl (\<lambda>r w. stats_add r (wr_stats w (unat slot))) a ws = stats_add a (wsum ws (unat slot))" for a ws
    by (induction ws arbitrary: a) (simp_all add: stats_add_assoc)
  then show ?thesis by (simp add: stats_get_def)
qed

lemma wsum_append [simp]: "wsum (ws @ vs) slot = stats_add (wsum ws slot) (wsum vs slot)"
  by (induction ws) (simp_all add: stats_add_assoc)

lemma wsum_clear: "wsum (map (\<lambda>w. w\<lparr>wr_stats := (wr_stats w)(slot := stats_zero)\<rparr>) ws) s =
    (if s = slot then stats_zero else wsum ws s)"
  by (induction ws) auto

lemma wsum_writer_inc: "writer_inc ws addr slot d = Some ws' \<Longrightarrow>
    wsum ws' s = (if s = slot then stats_add (wsum ws s) d else wsum ws s)"
proof (induction ws arbitrary: ws')
  case (Cons w ws)
  then show ?case
    by (auto simp: stats_add_assoc stats_add_commute [of d] split: if_splits)
qed simp

lemma writer_inc_defined: "writer_inc ws addr slot d \<noteq> None \<longleftrightarrow> addr \<in> wr_addr ` set ws"
  by (induction ws) auto

lemma writer_inc_addrs: "writer_inc ws addr slot d = Some ws' \<Longrightarrow> map wr_addr ws' = map wr_addr ws"
  by (induction ws arbitrary: ws') (auto split: if_splits)

subsection \<open>Slots are handed out at most once\<close>

definition slot_set :: "u32 set" where
  "slot_set = {s. unat s < MAX_STATS}"

definition stats_inv :: "stats_module \<Rightarrow> u32 set \<Rightarrow> bool" where
  "stats_inv st A \<longleftrightarrow> A \<subseteq> slot_set \<and> unat (num_free st) + card A = MAX_STATS \<and>
     inj_on (free_stack st) {..<unat (num_free st)} \<and> free_stack st ` {..<unat (num_free st)} = slot_set - A"

lemma bij_slot_set: "bij_betw (of_nat :: nat \<Rightarrow> u32) {..<MAX_STATS} slot_set"
  by (rule bij_betw_byWitness [where f' = unat]) (auto simp: slot_set_def MAX_STATS_def unat_of_nat_id)

lemma finite_slot_set [simp]: "finite slot_set"
  using bij_slot_set bij_betw_finite by blast

lemma card_slot_set: "card slot_set = MAX_STATS"
  using bij_betw_same_card [OF bij_slot_set] by simp

lemma stats_inv_finite: "stats_inv st A \<Longrightarrow> finite A"
  unfolding stats_inv_def using finite_slot_set finite_subset by blast

lemma stats_init_loop_nth: "i < n \<Longrightarrow> stats_init_loop n i = of_nat (MAX_STATS - i - 1)"
  by (induction n) (auto simp: less_Suc_eq)

lemma stats_init_inv: "stats_inv stats_module_init {}"
proof -
  let ?f = "\<lambda>i. of_nat (MAX_STATS - i - 1) :: u32"
  have "bij_betw (\<lambda>i. MAX_STATS - i - 1) {..<MAX_STATS} {..<MAX_STATS}"
    by (rule bij_betw_byWitness [where f' = "\<lambda>i. MAX_STATS - i - 1"]) auto
  then have "bij_betw ?f {..<MAX_STATS} slot_set"
    using bij_betw_trans [OF _ bij_slot_set] by (simp add: comp_def)
  then have "bij_betw (stats_init_loop MAX_STATS) {..<MAX_STATS} slot_set"
    by (subst bij_betw_cong [where g = ?f]) (auto simp: stats_init_loop_nth)
  moreover have "unat (of_nat MAX_STATS :: u32) = MAX_STATS" by (simp add: MAX_STATS_def)
  ultimately show ?thesis
    by (simp add: stats_inv_def stats_module_init_def bij_betw_def)
qed

lemma stats_clear_sel [simp]:
  "free_stack (stats_clear st s) = free_stack st" "num_free (stats_clear st s) = num_free st"
  by (simp_all add: stats_clear_def)

lemma stats_clear_get: "stats_get (stats_clear st slot) s = (if s = slot then stats_zero else stats_get st s)"
  by (simp add: stats_get_wsum stats_clear_def wsum_clear word_unat_eq_iff)

lemma stats_alloc_ok:
  assumes inv: "stats_inv st A" and room: "card A < MAX_STATS"
  obtains slot st' where "stats_alloc st = Some (slot, st')" "slot \<notin> A" "slot \<in> slot_set" "stats_inv st' (insert slot A)"
    "\<And>s. stats_get st' s = (if s = slot then stats_zero else stats_get st s)"
proof -
  let ?n = "unat (num_free st) - 1" and ?st = "st\<lparr>num_free := num_free st - 1\<rparr>"
  have pos: "0 < unat (num_free st)" using inv room by (simp add: stats_inv_def)
  then have n: "unat (num_free st - 1) = ?n" "num_free st > 0"
    using unat_dec [of "num_free st"] by (auto simp: word_less_nat_alt)
  let ?s = "free_stack st ?n"
  have dom: "{..<unat (num_free st)} = insert ?n {..<?n}" using pos by auto
  then have img: "free_stack st ` {..<?n} = slot_set - insert ?s A" "?s \<in> slot_set" "?s \<notin> A"
    "inj_on (free_stack st) {..<?n}"
    using inv by (auto simp: stats_inv_def inj_on_def)
  then have "stats_inv (stats_clear ?st ?s) (insert ?s A)"
    using inv n pos stats_inv_finite [OF inv] by (auto simp: stats_inv_def)
  moreover have "stats_get (stats_clear ?st ?s) s = (if s = ?s then stats_zero else stats_get st s)" for s
    using stats_clear_get [of ?st ?s s] by (simp add: stats_get_def)
  ultimately show thesis
    using img n by (intro that [of ?s "stats_clear ?st ?s"]) (simp_all add: stats_alloc_def Let_def)
qed

lemma stats_alloc_full:
  assumes "stats_inv st A" "card A = MAX_STATS"
  shows "stats_alloc st = None"
  using assms by (simp add: stats_inv_def stats_alloc_def word_less_nat_alt)

lemma stats_free_ok:
  assumes inv: "stats_inv st A" and s: "slot \<in> A"
  obtains st' where "stats_free st slot = Some st'" "stats_inv st' (A - {slot})" "stats_get st' = stats_get st"
proof -
  let ?n = "unat (num_free st)"
  have fin: "finite A" using inv by (rule stats_inv_finite)
  have c: "card A > 0" using s fin card_gt_0_iff by blast
  then have lt: "?n < MAX_STATS" using inv by (simp add: stats_inv_def)
  then have n: "unat (num_free st + 1) = Suc ?n"
    using unat_add_of_nat [of "num_free st" 1] by (simp add: MAX_STATS_def)
  have "free_stack st i \<noteq> slot" if "i < ?n" for i
    using inv s that by (auto simp: stats_inv_def)
  moreover have "{..<Suc ?n} = insert ?n {..<?n}" by auto
  ultimately have "stats_inv (st\<lparr>free_stack := (free_stack st)(?n := slot), num_free := num_free st + 1\<rparr>) (A - {slot})"
    using inv s n c fin by (auto simp: stats_inv_def inj_on_def image_iff)
  then show thesis
    using lt by (intro that [OF _ \<open>stats_inv _ (A - {slot})\<close>]) (auto simp: stats_free_def stats_get_def)
qed


subsection \<open>The allocator interface\<close>

text \<open>
  What the switch's ports, groups and flow entries rely on: a handle is not given out twice, and
  a freed one can be given out again. \<open>inv s A\<close> says that \<open>A\<close> is the set of live handles.
\<close>

fun alloc_n :: "('s \<Rightarrow> ('h \<times> 's) option) \<Rightarrow> nat \<Rightarrow> 's \<Rightarrow> ('h list \<times> 's) option" where
  "alloc_n alloc 0 s = Some ([], s)"
| "alloc_n alloc (Suc n) s = do { (h, s1) \<leftarrow> alloc s; (hs, s2) \<leftarrow> alloc_n alloc n s1; Some (h # hs, s2) }"

fun free_all :: "('s \<Rightarrow> 'h \<Rightarrow> 's option) \<Rightarrow> 'h list \<Rightarrow> 's \<Rightarrow> 's option" where
  "free_all free [] s = Some s"
| "free_all free (h # hs) s = do { s1 \<leftarrow> free s h; free_all free hs s1 }"

locale slot_allocator =
  fixes inv :: "'s \<Rightarrow> 'h set \<Rightarrow> bool" and alloc :: "'s \<Rightarrow> ('h \<times> 's) option"
    and free :: "'s \<Rightarrow> 'h \<Rightarrow> 's option" and cap :: nat
  assumes finite_live: "inv s A \<Longrightarrow> finite A"
    and alloc_fresh: "inv s A \<Longrightarrow> card A < cap \<Longrightarrow> \<exists>h s'. alloc s = Some (h, s') \<and> h \<notin> A \<and> inv s' (insert h A)"
    and free_live: "inv s A \<Longrightarrow> h \<in> A \<Longrightarrow> \<exists>s'. free s h = Some s' \<and> inv s' (A - {h})"
begin

lemma alloc_n_distinct:
  assumes "inv s A" "card A + n \<le> cap"
  shows "\<exists>hs s'. alloc_n alloc n s = Some (hs, s') \<and> length hs = n \<and> distinct hs \<and> set hs \<inter> A = {} \<and> inv s' (set hs \<union> A)"
  using assms
proof (induction n arbitrary: s A)
  case (Suc n)
  then obtain h s1 where h: "alloc s = Some (h, s1)" "h \<notin> A" "inv s1 (insert h A)"
    using alloc_fresh [of s A] by auto
  moreover have "card (insert h A) + n \<le> cap"
    using Suc.prems h(2) finite_live [OF Suc.prems(1)] by simp
  ultimately obtain hs s2 where "alloc_n alloc n s1 = Some (hs, s2)" "length hs = n" "distinct hs"
    "set hs \<inter> insert h A = {}" "inv s2 (set hs \<union> insert h A)"
    using Suc.IH [of s1 "insert h A"] by blast
  then show ?case using h by auto
qed simp

lemma free_all_live:
  assumes "inv s A" "distinct hs" "set hs \<subseteq> A"
  shows "\<exists>s'. free_all free hs s = Some s' \<and> inv s' (A - set hs)"
  using assms
proof (induction hs arbitrary: s A)
  case (Cons h hs)
  then obtain s1 where s1: "free s h = Some s1" "inv s1 (A - {h})" using free_live [of s A h] by auto
  moreover have "set hs \<subseteq> A - {h}" "distinct hs" using Cons.prems by auto
  ultimately obtain s2 where "free_all free hs s1 = Some s2" "inv s2 (A - {h} - set hs)" using Cons.IH by blast
  moreover have "A - {h} - set hs = A - set (h # hs)" by auto
  ultimately show ?case using s1 by auto
qed simp

end

interpretation st: slot_allocator stats_inv stats_alloc stats_free MAX_STATS
proof unfold_locales
  show "finite A" if "stats_inv s A" for s A using that by (rule stats_inv_finite)
  show "\<exists>h s'. stats_alloc s = Some (h, s') \<and> h \<notin> A \<and> stats_inv s' (insert h A)"
    if "stats_inv s A" "card A < MAX_STATS" for s A
    by (rule stats_alloc_ok [OF that]) blast
  show "\<exists>s'. stats_free s h = Some s' \<and> stats_inv s' (A - {h})" if "stats_inv s A" "h \<in> A" for s A h
    by (rule stats_free_ok [OF that]) blast
qed

subsection \<open>Reachable states\<close>

text \<open>
  The states the module reaches from its initialisation when callers free and count only live
  slots. The ghost \<open>A\<close> is the set of live slots, \<open>T s\<close> the counts added to slot \<open>s\<close> since it was
  last allocated or cleared, by all threads together.
\<close>

inductive stats_reach :: "stats_module \<Rightarrow> u32 set \<Rightarrow> (u32 \<Rightarrow> stats) \<Rightarrow> bool" where
  init: "stats_reach stats_module_init {} (\<lambda>_. stats_zero)"
| alloc: "\<lbrakk>stats_reach st A T; stats_alloc st = Some (slot, st')\<rbrakk> \<Longrightarrow>
    stats_reach st' (insert slot A) (T(slot := stats_zero))"
| free: "\<lbrakk>stats_reach st A T; slot \<in> A; stats_free st slot = Some st'\<rbrakk> \<Longrightarrow> stats_reach st' (A - {slot}) T"
| inc: "\<lbrakk>stats_reach st A T; slot \<in> A; stats_inc st addr slot np nb = Some st'\<rbrakk> \<Longrightarrow>
    stats_reach st' A (T(slot := stats_add (T slot) \<lparr>packets = np, bytes_cnt = nb\<rparr>))"
| clear: "stats_reach st A T \<Longrightarrow> slot \<in> A \<Longrightarrow> stats_reach (stats_clear st slot) A (T(slot := stats_zero))"
| create: "\<lbrakk>stats_reach st A T; addr \<notin> wr_addr ` set (stats_writers st)\<rbrakk> \<Longrightarrow>
    stats_reach (stats_writer_create st addr) A T"

lemma stats_inc_get:
  assumes "stats_inc st addr slot np nb = Some st'"
  shows "stats_get st' s = (if s = slot then stats_add (stats_get st s) \<lparr>packets = np, bytes_cnt = nb\<rparr> else stats_get st s)"
  using assms by (auto simp: stats_inc_def stats_get_wsum wsum_writer_inc word_unat_eq_iff)

lemma stats_inc_defined:
  assumes "addr \<in> wr_addr ` set (stats_writers st)"
  obtains st' where "stats_inc st addr slot np nb = Some st'"
    "wr_addr ` set (stats_writers st') = wr_addr ` set (stats_writers st)"
proof -
  obtain ws where ws: "writer_inc (stats_writers st) addr (unat slot) \<lparr>packets = np, bytes_cnt = nb\<rparr> = Some ws"
    using assms writer_inc_defined by blast
  then have "wr_addr ` set ws = wr_addr ` set (stats_writers st)"
    using writer_inc_addrs [OF ws] by (metis image_set)
  then show thesis using ws by (intro that [of "st\<lparr>stats_writers := ws\<rparr>"]) (simp_all add: stats_inc_def)
qed

lemma stats_inv_cong: "free_stack st' = free_stack st \<Longrightarrow> num_free st' = num_free st \<Longrightarrow> stats_inv st' A = stats_inv st A"
  by (simp add: stats_inv_def)

lemma stats_reach_inv:
  assumes "stats_reach st A T"
  shows "stats_inv st A \<and> stats_get st = T"
  using assms
proof (induction rule: stats_reach.induct)
  case init
  then show ?case using stats_init_inv by (auto simp: stats_get_def stats_module_init_def)
next
  case (alloc st A T slot st')
  then have inv: "stats_inv st A" and g: "stats_get st = T" by auto
  have "card A < MAX_STATS"
    using alloc.hyps(2) stats_alloc_full [OF inv] inv by (fastforce simp: stats_inv_def)
  with inv show ?case
    by (rule stats_alloc_ok) (use alloc.hyps(2) g in \<open>auto simp: fun_eq_iff\<close>)
next
  case (free st A T slot st')
  then have inv: "stats_inv st A" by simp
  from inv free.hyps(2) show ?case by (rule stats_free_ok) (use free in auto)
next
  case (inc st A T slot addr np nb st')
  then show ?case
    using stats_inc_get [OF inc.hyps(3)] by (auto simp: stats_inc_def stats_inv_def fun_eq_iff)
next
  case (clear st A T slot)
  then show ?case using stats_inv_cong [of "stats_clear st slot" st] by (auto simp: stats_clear_get fun_eq_iff)
next
  case (create st A T addr)
  then show ?case by (auto simp: stats_writer_create_def stats_inv_def stats_get_wsum fun_eq_iff)
qed

subsection \<open>Properties\<close>





end
