(* ===== verification/Ovs_Key.thy ===== *)
theory Ovs_Key
  imports Netlink
begin

text \<open>
  The flow key: \<open>struct ind_ovs_parsed_key\<close> of \<open>ivs.h\<close>, the key attributes of
  \<open>openvswitch.h\<close>, and their translation to and from netlink in
  \<open>OVSDriver/module/src/translate_match.c\<close>. The two unions of the structure are byte arrays of the
  size of their largest member, so that a write to one member changes the overlapping bytes of the
  others. Fields in network byte order are kept as the C code keeps them, as the little-endian
  reading of their bytes.
\<close>

subsection \<open>Byte order\<close>

definition bswap16 :: "u16 \<Rightarrow> u16" where
  "bswap16 w = of_le (rev (le_bytes 2 w))"

definition bswap32 :: "u32 \<Rightarrow> u32" where
  "bswap32 w = of_le (rev (le_bytes 4 w))"

abbreviation htons :: "u16 \<Rightarrow> u16" where "htons \<equiv> bswap16"
abbreviation ntohs :: "u16 \<Rightarrow> u16" where "ntohs \<equiv> bswap16"
abbreviation htonl :: "u32 \<Rightarrow> u32" where "htonl \<equiv> bswap32"
abbreviation ntohl :: "u32 \<Rightarrow> u32" where "ntohl \<equiv> bswap32"

lemma bswap16_bswap16 [simp]: "bswap16 (bswap16 w) = w"
  by (simp add: bswap16_def)

lemma bswap32_bswap32 [simp]: "bswap32 (bswap32 w) = w"
  by (simp add: bswap32_def)

subsection \<open>Pieces of a byte array\<close>

definition slice :: "nat \<Rightarrow> nat \<Rightarrow> bytes \<Rightarrow> bytes" where
  "slice off n bs = take n (drop off bs)"

definition splice :: "nat \<Rightarrow> bytes \<Rightarrow> bytes \<Rightarrow> bytes" where
  "splice off d bs = take off bs @ d @ drop (off + length d) bs"

lemma length_slice [simp]: "off + n \<le> length bs \<Longrightarrow> length (slice off n bs) = n"
  by (simp add: slice_def)

lemma length_splice [simp]: "off + length d \<le> length bs \<Longrightarrow> length (splice off d bs) = length bs"
  by (simp add: splice_def)

lemma slice_splice_same: "off + length d \<le> length bs \<Longrightarrow> slice off (length d) (splice off d bs) = d"
  by (simp add: slice_def splice_def)

lemma splice_slice: "off + n \<le> length bs \<Longrightarrow> splice off (slice off n bs) bs = bs"
  by (simp add: slice_def splice_def append_take_drop_id add.commute flip: take_add drop_drop append_assoc)

subsection \<open>Attributes of the key\<close>

datatype ovs_key_attr = OVS_KEY_ATTR_PRIORITY | OVS_KEY_ATTR_IN_PORT | OVS_KEY_ATTR_ETHERNET | OVS_KEY_ATTR_VLAN
  | OVS_KEY_ATTR_ETHERTYPE | OVS_KEY_ATTR_IPV4 | OVS_KEY_ATTR_IPV6 | OVS_KEY_ATTR_TCP | OVS_KEY_ATTR_UDP
  | OVS_KEY_ATTR_ICMP | OVS_KEY_ATTR_ICMPV6 | OVS_KEY_ATTR_ARP | OVS_KEY_ATTR_TCP_FLAGS

primrec attr_code :: "ovs_key_attr \<Rightarrow> nat" where
  "attr_code OVS_KEY_ATTR_PRIORITY = 2"
| "attr_code OVS_KEY_ATTR_IN_PORT = 3"
| "attr_code OVS_KEY_ATTR_ETHERNET = 4"
| "attr_code OVS_KEY_ATTR_VLAN = 5"
| "attr_code OVS_KEY_ATTR_ETHERTYPE = 6"
| "attr_code OVS_KEY_ATTR_IPV4 = 7"
| "attr_code OVS_KEY_ATTR_IPV6 = 8"
| "attr_code OVS_KEY_ATTR_TCP = 9"
| "attr_code OVS_KEY_ATTR_UDP = 10"
| "attr_code OVS_KEY_ATTR_ICMP = 11"
| "attr_code OVS_KEY_ATTR_ICMPV6 = 12"
| "attr_code OVS_KEY_ATTR_ARP = 13"
| "attr_code OVS_KEY_ATTR_TCP_FLAGS = 18"

definition OVS_KEY_ATTR_ENCAP :: nat where "OVS_KEY_ATTR_ENCAP = 1"
definition OVS_KEY_ATTR_TUNNEL :: nat where "OVS_KEY_ATTR_TUNNEL = 16"
definition OVS_KEY_ATTR_MAX :: nat where "OVS_KEY_ATTR_MAX = 62"
definition OVS_TUNNEL_KEY_ATTR_MAX :: nat where "OVS_TUNNEL_KEY_ATTR_MAX = 6"

text \<open>The sizes of the structures of \<open>openvswitch.h\<close> (\<open>ovs_key_arp\<close> has two bytes of padding).\<close>

primrec attr_size :: "ovs_key_attr \<Rightarrow> nat" where
  "attr_size OVS_KEY_ATTR_PRIORITY = 4"
| "attr_size OVS_KEY_ATTR_IN_PORT = 4"
| "attr_size OVS_KEY_ATTR_ETHERNET = 12"
| "attr_size OVS_KEY_ATTR_VLAN = 2"
| "attr_size OVS_KEY_ATTR_ETHERTYPE = 2"
| "attr_size OVS_KEY_ATTR_IPV4 = 12"
| "attr_size OVS_KEY_ATTR_IPV6 = 40"
| "attr_size OVS_KEY_ATTR_TCP = 4"
| "attr_size OVS_KEY_ATTR_UDP = 4"
| "attr_size OVS_KEY_ATTR_ICMP = 2"
| "attr_size OVS_KEY_ATTR_ICMPV6 = 2"
| "attr_size OVS_KEY_ATTR_ARP = 24"
| "attr_size OVS_KEY_ATTR_TCP_FLAGS = 2"

text \<open>The X-macro: the order in which the field code is expanded.\<close>

definition OVS_KEY_FIELDS :: "ovs_key_attr list" where
  "OVS_KEY_FIELDS = [OVS_KEY_ATTR_PRIORITY, OVS_KEY_ATTR_IN_PORT, OVS_KEY_ATTR_ETHERNET, OVS_KEY_ATTR_VLAN,
     OVS_KEY_ATTR_ETHERTYPE, OVS_KEY_ATTR_IPV4, OVS_KEY_ATTR_IPV6, OVS_KEY_ATTR_TCP, OVS_KEY_ATTR_UDP,
     OVS_KEY_ATTR_ICMP, OVS_KEY_ATTR_ICMPV6, OVS_KEY_ATTR_ARP, OVS_KEY_ATTR_TCP_FLAGS]"

lemma set_OVS_KEY_FIELDS [simp]: "a \<in> set OVS_KEY_FIELDS"
  by (cases a) (simp_all add: OVS_KEY_FIELDS_def)

lemma attr_code_inj: "attr_code a = attr_code b \<longleftrightarrow> a = b"
  by (cases a; cases b) simp_all

definition ATTR_BITMAP_TEST :: "u64 \<Rightarrow> ovs_key_attr \<Rightarrow> bool" where
  "ATTR_BITMAP_TEST bitmap a \<longleftrightarrow> bitmap AND push_bit (attr_code a) 1 \<noteq> 0"

definition ATTR_BITMAP_SET :: "u64 \<Rightarrow> ovs_key_attr \<Rightarrow> u64" where
  "ATTR_BITMAP_SET bitmap a = bitmap OR push_bit (attr_code a) 1"

definition ATTR_BITMAP_CLEAR :: "u64 \<Rightarrow> ovs_key_attr \<Rightarrow> u64" where
  "ATTR_BITMAP_CLEAR bitmap a = bitmap AND NOT (push_bit (attr_code a) 1)"

lemma ATTR_BITMAP_TEST_bit: "ATTR_BITMAP_TEST bm a \<longleftrightarrow> bit bm (attr_code a)"
  by (simp add: ATTR_BITMAP_TEST_def push_bit_eq_mult and_exp_eq_0_iff_not_bit)

lemma attr_code_less: "attr_code a < 64"
  by (cases a) simp_all

lemma ATTR_BITMAP_simps [simp]:
  "ATTR_BITMAP_TEST (ATTR_BITMAP_SET bm a) b \<longleftrightarrow> a = b \<or> ATTR_BITMAP_TEST bm b"
  "ATTR_BITMAP_TEST (ATTR_BITMAP_CLEAR bm a) b \<longleftrightarrow> a \<noteq> b \<and> ATTR_BITMAP_TEST bm b"
  "\<not> ATTR_BITMAP_TEST 0 b"
  using attr_code_less [of b]
  by (auto simp: ATTR_BITMAP_TEST_bit ATTR_BITMAP_SET_def ATTR_BITMAP_CLEAR_def bit_or_iff bit_and_iff bit_not_iff
      bit_exp_iff attr_code_inj [symmetric])

subsection \<open>The parsed key\<close>

record ind_ovs_parsed_key =
  populated :: u64
  pk_priority :: u32
  pk_in_port :: u32
  eth_src :: mac
  eth_dst :: mac
  pk_vlan :: u16
  pk_ethertype :: u16
  pk_net :: bytes
  pk_tp :: bytes
  pk_tcp_flags :: u16
  tun_id :: u64
  tun_ipv4_src :: u32
  tun_ipv4_dst :: u32
  tun_tos :: u8
  tun_ttl :: u8

definition key_zero :: ind_ovs_parsed_key where
  "key_zero = \<lparr>populated = 0, pk_priority = 0, pk_in_port = 0, eth_src = replicate 6 0, eth_dst = replicate 6 0,
     pk_vlan = 0, pk_ethertype = 0, pk_net = replicate 40 0, pk_tp = replicate 24 0, pk_tcp_flags = 0,
     tun_id = 0, tun_ipv4_src = 0, tun_ipv4_dst = 0, tun_tos = 0, tun_ttl = 0\<rparr>"

definition key_wf :: "ind_ovs_parsed_key \<Rightarrow> bool" where
  "key_wf k \<longleftrightarrow> length (eth_src k) = 6 \<and> length (eth_dst k) = 6 \<and> length (pk_net k) = 40 \<and> length (pk_tp k) = 24"

text \<open>The bytes of the member of an attribute, and a \<open>memcpy\<close> into it.\<close>

primrec key_get :: "ovs_key_attr \<Rightarrow> ind_ovs_parsed_key \<Rightarrow> bytes" where
  "key_get OVS_KEY_ATTR_PRIORITY k = le_bytes 4 (pk_priority k)"
| "key_get OVS_KEY_ATTR_IN_PORT k = le_bytes 4 (pk_in_port k)"
| "key_get OVS_KEY_ATTR_ETHERNET k = eth_src k @ eth_dst k"
| "key_get OVS_KEY_ATTR_VLAN k = le_bytes 2 (pk_vlan k)"
| "key_get OVS_KEY_ATTR_ETHERTYPE k = le_bytes 2 (pk_ethertype k)"
| "key_get OVS_KEY_ATTR_IPV4 k = slice 0 12 (pk_net k)"
| "key_get OVS_KEY_ATTR_IPV6 k = slice 0 40 (pk_net k)"
| "key_get OVS_KEY_ATTR_TCP k = slice 0 4 (pk_tp k)"
| "key_get OVS_KEY_ATTR_UDP k = slice 0 4 (pk_tp k)"
| "key_get OVS_KEY_ATTR_ICMP k = slice 0 2 (pk_tp k)"
| "key_get OVS_KEY_ATTR_ICMPV6 k = slice 0 2 (pk_tp k)"
| "key_get OVS_KEY_ATTR_ARP k = slice 0 24 (pk_tp k)"
| "key_get OVS_KEY_ATTR_TCP_FLAGS k = le_bytes 2 (pk_tcp_flags k)"

primrec key_put :: "ovs_key_attr \<Rightarrow> bytes \<Rightarrow> ind_ovs_parsed_key \<Rightarrow> ind_ovs_parsed_key" where
  "key_put OVS_KEY_ATTR_PRIORITY d k = k\<lparr>pk_priority := of_le d\<rparr>"
| "key_put OVS_KEY_ATTR_IN_PORT d k = k\<lparr>pk_in_port := of_le d\<rparr>"
| "key_put OVS_KEY_ATTR_ETHERNET d k = k\<lparr>eth_src := take 6 d, eth_dst := drop 6 d\<rparr>"
| "key_put OVS_KEY_ATTR_VLAN d k = k\<lparr>pk_vlan := of_le d\<rparr>"
| "key_put OVS_KEY_ATTR_ETHERTYPE d k = k\<lparr>pk_ethertype := of_le d\<rparr>"
| "key_put OVS_KEY_ATTR_IPV4 d k = k\<lparr>pk_net := splice 0 d (pk_net k)\<rparr>"
| "key_put OVS_KEY_ATTR_IPV6 d k = k\<lparr>pk_net := splice 0 d (pk_net k)\<rparr>"
| "key_put OVS_KEY_ATTR_TCP d k = k\<lparr>pk_tp := splice 0 d (pk_tp k)\<rparr>"
| "key_put OVS_KEY_ATTR_UDP d k = k\<lparr>pk_tp := splice 0 d (pk_tp k)\<rparr>"
| "key_put OVS_KEY_ATTR_ICMP d k = k\<lparr>pk_tp := splice 0 d (pk_tp k)\<rparr>"
| "key_put OVS_KEY_ATTR_ICMPV6 d k = k\<lparr>pk_tp := splice 0 d (pk_tp k)\<rparr>"
| "key_put OVS_KEY_ATTR_ARP d k = k\<lparr>pk_tp := splice 0 d (pk_tp k)\<rparr>"
| "key_put OVS_KEY_ATTR_TCP_FLAGS d k = k\<lparr>pk_tcp_flags := of_le d\<rparr>"

lemma length_key_get: "key_wf k \<Longrightarrow> length (key_get a k) = attr_size a"
  by (cases a) (simp_all add: key_wf_def)

lemma key_wf_put: "key_wf k \<Longrightarrow> length d = attr_size a \<Longrightarrow> key_wf (key_put a d k)"
  by (cases a) (simp_all add: key_wf_def)

lemma key_get_put: "key_wf k \<Longrightarrow> length d = attr_size a \<Longrightarrow> key_get a (key_put a d k) = d"
  using slice_splice_same [of 0 d] by (cases a) (simp_all add: key_wf_def)

lemma key_put_get: "key_wf k \<Longrightarrow> key_put a (key_get a k) k = k"
  using splice_slice [of 0] by (cases a) (simp_all add: key_wf_def)

lemma populated_key_put [simp]: "populated (key_put a d k) = populated k"
  by (cases a) simp_all

lemma key_wf_zero [simp]: "key_wf key_zero"
  by (simp add: key_wf_def key_zero_def)

lemma key_wf_populated [simp]: "key_wf (k\<lparr>populated := p\<rparr>) = key_wf k"
  by (simp add: key_wf_def)

lemma key_get_populated [simp]: "key_get a (k\<lparr>populated := p\<rparr>) = key_get a k"
  by (cases a) simp_all

subsection \<open>Parsing a key\<close>

text \<open>
  One expansion of the field macro of \<open>ind_ovs_parse_key__\<close>: \<open>None\<close> if the attribute is
  shorter than the structure it is copied to.
\<close>

definition parse_field ::
  "nl_env \<Rightarrow> (nat \<Rightarrow> nla option) \<Rightarrow> ovs_key_attr \<Rightarrow> ind_ovs_parsed_key \<Rightarrow> ind_ovs_parsed_key option" where
  "parse_field N attrs a k =
     (case attrs (attr_code a) of
        None \<Rightarrow> Some k
      | Some x \<Rightarrow>
          do {
            d \<leftarrow> read_at 0 (attr_size a) (nla_data N x);
            Some ((key_put a d k)\<lparr>populated := ATTR_BITMAP_SET (populated k) a\<rparr>)
          })"

fun parse_fields ::
  "nl_env \<Rightarrow> (nat \<Rightarrow> nla option) \<Rightarrow> ovs_key_attr list \<Rightarrow> ind_ovs_parsed_key \<Rightarrow> ind_ovs_parsed_key option" where
  "parse_fields N attrs [] k = Some k"
| "parse_fields N attrs (a # as) k = do { k' \<leftarrow> parse_field N attrs a k; parse_fields N attrs as k' }"

text \<open>The tunnel attributes \<open>OVS_TUNNEL_KEY_FIELDS\<close>, numbered from 0.\<close>

definition tunnel_field ::
  "nl_env \<Rightarrow> (nat \<Rightarrow> nla option) \<Rightarrow> nat \<Rightarrow> nat \<Rightarrow> (bytes \<Rightarrow> ind_ovs_parsed_key \<Rightarrow> ind_ovs_parsed_key)
    \<Rightarrow> ind_ovs_parsed_key \<Rightarrow> ind_ovs_parsed_key option" where
  "tunnel_field N attrs code n put k =
     (case attrs code of
        None \<Rightarrow> Some k
      | Some x \<Rightarrow> do { d \<leftarrow> read_at 0 n (nla_data N x); Some (put d k) })"

definition parse_tunnel :: "nl_env \<Rightarrow> nla \<Rightarrow> ind_ovs_parsed_key \<Rightarrow> ind_ovs_parsed_key option" where
  "parse_tunnel N x k =
     do {
       attrs \<leftarrow> nla_parse_nested N OVS_TUNNEL_KEY_ATTR_MAX x;
       k \<leftarrow> tunnel_field N attrs 0 8 (\<lambda>d k. k\<lparr>tun_id := of_le d\<rparr>) k;
       k \<leftarrow> tunnel_field N attrs 1 4 (\<lambda>d k. k\<lparr>tun_ipv4_src := of_le d\<rparr>) k;
       k \<leftarrow> tunnel_field N attrs 2 4 (\<lambda>d k. k\<lparr>tun_ipv4_dst := of_le d\<rparr>) k;
       k \<leftarrow> tunnel_field N attrs 3 1 (\<lambda>d k. k\<lparr>tun_tos := of_le d\<rparr>) k;
       tunnel_field N attrs 4 1 (\<lambda>d k. k\<lparr>tun_ttl := of_le d\<rparr>) k
     }"

partial_function (option) ind_ovs_parse_key_rec ::
  "nl_env \<Rightarrow> nla \<Rightarrow> ind_ovs_parsed_key \<Rightarrow> ind_ovs_parsed_key option" where
  "ind_ovs_parse_key_rec N x k =
     do {
       attrs \<leftarrow> nla_parse_nested N OVS_KEY_ATTR_MAX x;
       k \<leftarrow> parse_fields N attrs OVS_KEY_FIELDS k;
       k \<leftarrow> (case attrs OVS_KEY_ATTR_ENCAP of None \<Rightarrow> Some k | Some y \<Rightarrow> ind_ovs_parse_key_rec N y k);
       (case attrs OVS_KEY_ATTR_TUNNEL of None \<Rightarrow> Some k | Some y \<Rightarrow> parse_tunnel N y k)
     }"

definition ind_ovs_parse_key :: "nl_env \<Rightarrow> nla \<Rightarrow> ind_ovs_parsed_key option" where
  "ind_ovs_parse_key N x =
     do {
       k \<leftarrow> ind_ovs_parse_key_rec N x (key_zero\<lparr>pk_in_port := - 1, tun_ttl := 64\<rparr>);
       if ATTR_BITMAP_TEST (populated k) OVS_KEY_ATTR_ETHERNET then Some k else None
     }"

subsection \<open>Emitting a key\<close>

definition VLAN_CFI_BIT :: u16 where
  "VLAN_CFI_BIT = push_bit 12 1"

definition emit_field :: "ind_ovs_parsed_key \<Rightarrow> bool \<Rightarrow> u64 \<Rightarrow> ovs_key_attr \<Rightarrow> nl_msg \<Rightarrow> nl_msg" where
  "emit_field k omit_zero pop a msg =
     (if ATTR_BITMAP_TEST pop a \<and> (\<not> omit_zero \<or> key_get a k \<noteq> replicate (attr_size a) 0)
      then nla_put msg (of_nat (attr_code a)) (key_get a k) else msg)"

definition emit_fields :: "ind_ovs_parsed_key \<Rightarrow> bool \<Rightarrow> u64 \<Rightarrow> nl_msg \<Rightarrow> nl_msg" where
  "emit_fields k omit_zero pop msg = fold (emit_field k omit_zero pop) OVS_KEY_FIELDS msg"

definition outer_mask :: u64 where
  "outer_mask = push_bit (attr_code OVS_KEY_ATTR_PRIORITY) 1 OR push_bit (attr_code OVS_KEY_ATTR_IN_PORT) 1 OR
     push_bit (attr_code OVS_KEY_ATTR_ETHERNET) 1 OR push_bit (attr_code OVS_KEY_ATTR_VLAN) 1"

definition ind_ovs_emit_key :: "ind_ovs_parsed_key \<Rightarrow> nl_msg \<Rightarrow> bool \<Rightarrow> nl_msg" where
  "ind_ovs_emit_key k msg omit_zero =
     (if ATTR_BITMAP_TEST (populated k) OVS_KEY_ATTR_VLAN
      then
        (let msg = emit_fields k omit_zero (populated k AND (outer_mask AND NOT (push_bit (attr_code OVS_KEY_ATTR_VLAN) 1))) msg;
             msg = nla_put_u16 msg (of_nat (attr_code OVS_KEY_ATTR_ETHERTYPE)) 0xffff;
             msg = nla_put_u16 msg (of_nat (attr_code OVS_KEY_ATTR_VLAN)) (pk_vlan k OR htons VLAN_CFI_BIT);
             msg = nla_nest_start msg (of_nat OVS_KEY_ATTR_ENCAP);
             msg = emit_fields k omit_zero (populated k AND NOT outer_mask) msg
         in nla_nest_end msg)
      else emit_fields k omit_zero (populated k) msg)"

subsection \<open>The match of a packet-in\<close>

definition OVSP_LOCAL :: u32 where "OVSP_LOCAL = 0"
definition OF_PORT_DEST_LOCAL :: u32 where "OF_PORT_DEST_LOCAL = 0xfffffffe"
definition OF_DL_TYPE_NOT_ETH_TYPE :: u16 where "OF_DL_TYPE_NOT_ETH_TYPE = 0x5ff"

text \<open>The two fields \<open>ind_ovs_key_to_match\<close> sets, both with an exact mask; all others stay zero.\<close>

definition ind_ovs_key_to_match :: "ind_ovs_parsed_key \<Rightarrow> (u32 \<times> u16) option" where
  "ind_ovs_key_to_match k =
     (if ATTR_BITMAP_TEST (populated k) OVS_KEY_ATTR_IN_PORT
      then Some (if pk_in_port k = OVSP_LOCAL then OF_PORT_DEST_LOCAL else pk_in_port k,
        if ATTR_BITMAP_TEST (populated k) OVS_KEY_ATTR_ETHERTYPE
        then (let t = ntohs (pk_ethertype k) in if t \<le> OF_DL_TYPE_NOT_ETH_TYPE then OF_DL_TYPE_NOT_ETH_TYPE else t)
        else OF_DL_TYPE_NOT_ETH_TYPE)
      else None)"

subsection \<open>What a parse of emitted attributes gives\<close>

definition net_attr :: "ovs_key_attr \<Rightarrow> bool" where
  "net_attr a \<longleftrightarrow> a \<in> {OVS_KEY_ATTR_IPV4, OVS_KEY_ATTR_IPV6}"

definition tp_attr :: "ovs_key_attr \<Rightarrow> bool" where
  "tp_attr a \<longleftrightarrow> a \<in> {OVS_KEY_ATTR_TCP, OVS_KEY_ATTR_UDP, OVS_KEY_ATTR_ICMP, OVS_KEY_ATTR_ICMPV6, OVS_KEY_ATTR_ARP}"

text \<open>Two attributes that share a union.\<close>

definition overlap :: "ovs_key_attr \<Rightarrow> ovs_key_attr \<Rightarrow> bool" where
  "overlap a b \<longleftrightarrow> a \<noteq> b \<and> (net_attr a \<and> net_attr b \<or> tp_attr a \<and> tp_attr b)"

lemma key_get_put_other: "a \<noteq> b \<Longrightarrow> \<not> overlap a b \<Longrightarrow> key_get a (key_put b d k) = key_get a k"
  by (cases a; cases b) (simp_all add: overlap_def net_attr_def tp_attr_def)

lemma parse_fields_ok:
  assumes "distinct as" "key_wf k"
    and "\<And>a x. a \<in> set as \<Longrightarrow> f (attr_code a) = Some x \<Longrightarrow> nla_data N x = g a \<and> length (g a) = attr_size a"
    and "\<And>a b. a \<in> set as \<Longrightarrow> b \<in> set as \<Longrightarrow> f (attr_code a) \<noteq> None \<Longrightarrow> f (attr_code b) \<noteq> None \<Longrightarrow> \<not> overlap a b"
  shows "\<exists>k'. parse_fields N f as k = Some k' \<and> key_wf k' \<and>
    (\<forall>b. ATTR_BITMAP_TEST (populated k') b \<longleftrightarrow> ATTR_BITMAP_TEST (populated k) b \<or> b \<in> set as \<and> f (attr_code b) \<noteq> None) \<and>
    (\<forall>b \<in> set as. f (attr_code b) \<noteq> None \<longrightarrow> key_get b k' = g b) \<and>
    (\<forall>b. (\<forall>a \<in> set as. f (attr_code a) \<noteq> None \<longrightarrow> a \<noteq> b \<and> \<not> overlap b a) \<longrightarrow> key_get b k' = key_get b k)"
  using assms
proof (induction as arbitrary: k)
  case (Cons a as)
  show ?case
  proof (cases "f (attr_code a)")
    case None
    then have "parse_fields N f (a # as) k = parse_fields N f as k" by (simp add: parse_field_def)
    moreover have "b \<in> set (a # as) \<and> f (attr_code b) \<noteq> None \<longleftrightarrow> b \<in> set as \<and> f (attr_code b) \<noteq> None" for b
      using None by auto
    moreover obtain k' where "parse_fields N f as k = Some k'" "key_wf k'"
      "\<forall>b. ATTR_BITMAP_TEST (populated k') b \<longleftrightarrow> ATTR_BITMAP_TEST (populated k) b \<or> b \<in> set as \<and> f (attr_code b) \<noteq> None"
      "\<forall>b \<in> set as. f (attr_code b) \<noteq> None \<longrightarrow> key_get b k' = g b"
      "\<forall>b. (\<forall>a \<in> set as. f (attr_code a) \<noteq> None \<longrightarrow> a \<noteq> b \<and> \<not> overlap b a) \<longrightarrow> key_get b k' = key_get b k"
      using Cons.IH [OF _ Cons.prems(2)] Cons.prems(1,3,4) by fastforce
    ultimately show ?thesis
      by (intro exI [of _ k']) (metis (no_types, lifting) list.set_intros(2))
  next
    case (Some x)
    let ?k = "(key_put a (g a) k)\<lparr>populated := ATTR_BITMAP_SET (populated k) a\<rparr>"
    have x: "nla_data N x = g a" "length (g a) = attr_size a" using Cons.prems(3) Some by auto
    have wf: "key_wf ?k" using Cons.prems(2) x(2) by (simp add: key_wf_put)
    have step: "parse_fields N f (a # as) k = parse_fields N f as ?k"
      using Some x by (simp add: parse_field_def read_at_def)
    obtain k' where k': "parse_fields N f as ?k = Some k'" "key_wf k'"
      "\<forall>b. ATTR_BITMAP_TEST (populated k') b \<longleftrightarrow> ATTR_BITMAP_TEST (populated ?k) b \<or> b \<in> set as \<and> f (attr_code b) \<noteq> None"
      "\<forall>b \<in> set as. f (attr_code b) \<noteq> None \<longrightarrow> key_get b k' = g b"
      "\<forall>b. (\<forall>a \<in> set as. f (attr_code a) \<noteq> None \<longrightarrow> a \<noteq> b \<and> \<not> overlap b a) \<longrightarrow> key_get b k' = key_get b ?k"
      using Cons.IH [OF _ wf] Cons.prems(1,3,4) by fastforce
    have "\<forall>c \<in> set as. f (attr_code c) \<noteq> None \<longrightarrow> c \<noteq> a \<and> \<not> overlap a c"
      using Cons.prems(1) Cons.prems(4) [of a] Some by auto
    then have "key_get a k' = g a"
      using k'(5) key_get_put [OF Cons.prems(2) x(2)] by simp
    then have "\<forall>b \<in> set (a # as). f (attr_code b) \<noteq> None \<longrightarrow> key_get b k' = g b" using k'(4) by simp
    moreover have "key_get b k' = key_get b k"
      if "\<forall>c \<in> set (a # as). f (attr_code c) \<noteq> None \<longrightarrow> c \<noteq> b \<and> \<not> overlap b c" for b
      using that k'(5) Some key_get_put_other [of b a "g a" k] by auto
    ultimately show ?thesis
      using step k'(1,2,3) Some by auto
  qed
qed simp

subsection \<open>The trees of an emitted key\<close>

definition emitted :: "ind_ovs_parsed_key \<Rightarrow> bool \<Rightarrow> u64 \<Rightarrow> ovs_key_attr \<Rightarrow> bool" where
  "emitted k oz pop a \<longleftrightarrow> ATTR_BITMAP_TEST pop a \<and> (\<not> oz \<or> key_get a k \<noteq> replicate (attr_size a) 0)"

definition field_trees :: "ind_ovs_parsed_key \<Rightarrow> bool \<Rightarrow> u64 \<Rightarrow> nla list" where
  "field_trees k oz pop = map (\<lambda>a. Nla (of_nat (attr_code a)) (key_get a k)) (filter (emitted k oz pop) OVS_KEY_FIELDS)"

definition field_calls :: "ind_ovs_parsed_key \<Rightarrow> bool \<Rightarrow> u64 \<Rightarrow> nl_call list" where
  "field_calls k oz pop = map (\<lambda>a. NlaPut (of_nat (attr_code a)) (key_get a k)) (filter (emitted k oz pop) OVS_KEY_FIELDS)"

lemma emit_fields_calls: "emit_fields k oz pop msg = msg @ field_calls k oz pop"
proof -
  have "fold (emit_field k oz pop) as msg =
      msg @ map (\<lambda>a. NlaPut (of_nat (attr_code a)) (key_get a k)) (filter (emitted k oz pop) as)" for as
    by (induction as arbitrary: msg) (simp_all add: emit_field_def emitted_def nla_put_def)
  then show ?thesis by (simp add: emit_fields_def field_calls_def)
qed

lemma nl_emits_fields: "nl_emits (field_calls k oz pop) (field_trees k oz pop)"
proof -
  have "nl_emits (map (\<lambda>a. NlaPut (h a) (g a)) as) (map (\<lambda>a. Nla (h a) (g a)) as)" for h g and as :: "ovs_key_attr list"
    by (induction as) (simp_all add: nl_emits_def)
  then show ?thesis by (simp add: field_calls_def field_trees_def)
qed

lemma unat_attr_code [simp]: "unat (of_nat (attr_code a) :: u16) = attr_code a"
  using attr_code_less [of a] by (intro unat_of_nat_id) simp

lemma last_of_type_fields:
  "last_of_type (field_trees k oz pop) (attr_code b) =
     (if emitted k oz pop b then Some (Nla (of_nat (attr_code b)) (key_get b k)) else None)"
proof -
  have "last_of_type (map (\<lambda>a. Nla (of_nat (attr_code a)) (key_get a k)) as) (attr_code b) =
      (if b \<in> set as then Some (Nla (of_nat (attr_code b)) (key_get b k)) else None)" for as
    by (induction as rule: rev_induct) (auto simp: attr_code_inj)
  then show ?thesis by (simp add: field_trees_def)
qed

lemma last_of_type_fields_other:
  "n \<notin> attr_code ` UNIV \<Longrightarrow> last_of_type (field_trees k oz pop) n = None"
  by (auto simp: field_trees_def last_of_type_def find_None_iff)

lemma attr_code_not: "OVS_KEY_ATTR_ENCAP \<notin> range attr_code" "OVS_KEY_ATTR_TUNNEL \<notin> range attr_code"
  "attr_code a \<noteq> OVS_KEY_ATTR_ENCAP" "attr_code a \<le> OVS_KEY_ATTR_MAX"
proof -
  show "OVS_KEY_ATTR_ENCAP \<notin> range attr_code"
    by (rule notI, erule rangeE, rename_tac a, case_tac a) (simp_all add: OVS_KEY_ATTR_ENCAP_def)
  then show "attr_code a \<noteq> OVS_KEY_ATTR_ENCAP" by (metis rangeI)
  show "OVS_KEY_ATTR_TUNNEL \<notin> range attr_code"
    by (rule notI, erule rangeE, rename_tac a, case_tac a) (simp_all add: OVS_KEY_ATTR_TUNNEL_def)
  show "attr_code a \<le> OVS_KEY_ATTR_MAX" by (cases a) (simp_all add: OVS_KEY_ATTR_MAX_def)
qed

lemma distinct_OVS_KEY_FIELDS: "distinct OVS_KEY_FIELDS"
  by (simp add: OVS_KEY_FIELDS_def)

definition outer_attr :: "ovs_key_attr \<Rightarrow> bool" where
  "outer_attr a \<longleftrightarrow> a \<in> {OVS_KEY_ATTR_PRIORITY, OVS_KEY_ATTR_IN_PORT, OVS_KEY_ATTR_ETHERNET}"

lemma bit_outer_mask:
  "bit outer_mask (attr_code a) \<longleftrightarrow> outer_attr a \<or> a = OVS_KEY_ATTR_VLAN"
  by (cases a) (simp_all add: outer_mask_def outer_attr_def bit_or_iff bit_exp_iff)

lemma TEST_outer:
  "ATTR_BITMAP_TEST (p AND (outer_mask AND NOT (push_bit (attr_code OVS_KEY_ATTR_VLAN) 1))) a \<longleftrightarrow>
     ATTR_BITMAP_TEST p a \<and> outer_attr a"
  unfolding ATTR_BITMAP_TEST_bit bit_and_iff bit_not_iff bit_outer_mask
  using attr_code_less [of a] attr_code_inj [of a OVS_KEY_ATTR_VLAN]
  by (auto simp: bit_exp_iff outer_attr_def)

lemma TEST_inner:
  "ATTR_BITMAP_TEST (p AND NOT outer_mask) a \<longleftrightarrow> ATTR_BITMAP_TEST p a \<and> \<not> outer_attr a \<and> a \<noteq> OVS_KEY_ATTR_VLAN"
  unfolding ATTR_BITMAP_TEST_bit bit_and_iff bit_not_iff bit_outer_mask
  using attr_code_less [of a] by (auto simp: outer_attr_def)

text \<open>The keys and masks the driver emits: no two populated attributes share a union.\<close>

definition key_compat :: "ind_ovs_parsed_key \<Rightarrow> bool" where
  "key_compat k \<longleftrightarrow> (\<forall>a \<in> set OVS_KEY_FIELDS. \<forall>b \<in> set OVS_KEY_FIELDS. ATTR_BITMAP_TEST (populated k) a \<longrightarrow>
     ATTR_BITMAP_TEST (populated k) b \<longrightarrow> \<not> overlap a b)"

lemma key_get_zero: "key_get a key_zero = replicate (attr_size a) 0"
  by (cases a) (simp_all add: key_zero_def slice_def numeral_eq_Suc)

lemma emitted_not_zero:
  "ATTR_BITMAP_TEST pop a \<Longrightarrow> \<not> emitted k oz pop a \<Longrightarrow> key_get a k = replicate (attr_size a) 0"
  by (auto simp: emitted_def)

lemma overlap_outer: "overlap a b \<Longrightarrow> \<not> outer_attr a \<and> \<not> outer_attr b \<and> a \<noteq> OVS_KEY_ATTR_VLAN \<and> b \<noteq> OVS_KEY_ATTR_VLAN \<and>
    a \<noteq> OVS_KEY_ATTR_ETHERTYPE \<and> b \<noteq> OVS_KEY_ATTR_ETHERTYPE"
  by (auto simp: overlap_def outer_attr_def net_attr_def tp_attr_def)

lemma parse_emitted_fields:
  assumes N: "nl_env_ok N" and wf: "key_wf k" "key_wf k0" and f: "\<And>a. f (attr_code a) =
      (if emitted k oz pop a then Some (Nla (of_nat (attr_code a)) (key_get a k)) else None)"
    and c: "\<And>a b. emitted k oz pop a \<Longrightarrow> emitted k oz pop b \<Longrightarrow> \<not> overlap a b"
  obtains k' where "parse_fields N f OVS_KEY_FIELDS k0 = Some k'" "key_wf k'"
    "\<And>b. emitted k oz pop b \<Longrightarrow> key_get b k' = key_get b k"
    "\<And>b. (\<And>a. emitted k oz pop a \<Longrightarrow> a \<noteq> b \<and> \<not> overlap b a) \<Longrightarrow> key_get b k' = key_get b k0"
proof -
  have "\<exists>k'. parse_fields N f OVS_KEY_FIELDS k0 = Some k' \<and> key_wf k' \<and>
    (\<forall>b. ATTR_BITMAP_TEST (populated k') b \<longleftrightarrow> ATTR_BITMAP_TEST (populated k0) b \<or> b \<in> set OVS_KEY_FIELDS \<and> f (attr_code b) \<noteq> None) \<and>
    (\<forall>b \<in> set OVS_KEY_FIELDS. f (attr_code b) \<noteq> None \<longrightarrow> key_get b k' = key_get b k) \<and>
    (\<forall>b. (\<forall>a \<in> set OVS_KEY_FIELDS. f (attr_code a) \<noteq> None \<longrightarrow> a \<noteq> b \<and> \<not> overlap b a) \<longrightarrow> key_get b k' = key_get b k0)"
    using N wf c f by (intro parse_fields_ok distinct_OVS_KEY_FIELDS) (auto simp: length_key_get nl_env_ok_def split: if_splits)
  then show thesis using that f by (auto split: if_splits)
qed

lemma emit_plain_roundtrip:
  assumes N: "nl_env_ok N" and wf: "key_wf k" and c: "key_compat k" and v: "\<not> ATTR_BITMAP_TEST (populated k) OVS_KEY_ATTR_VLAN"
  shows "\<exists>as k'. nl_tree (ind_ovs_emit_key k [] oz) = Some as \<and> ind_ovs_parse_key_rec N (NlaNest t as) key_zero = Some k' \<and>
    (\<forall>a. ATTR_BITMAP_TEST (populated k) a \<longrightarrow> key_get a k' = key_get a k)"
proof -
  let ?p = "populated k" let ?T = "field_trees k oz ?p"
  let ?f = "\<lambda>i. if i \<le> OVS_KEY_ATTR_MAX then last_of_type ?T i else None"
  have t: "nl_tree (ind_ovs_emit_key k [] oz) = Some ?T"
    using v nl_emits_tree [OF nl_emits_fields] by (simp add: ind_ovs_emit_key_def emit_fields_calls)
  have cc: "\<not> overlap a b" if "ATTR_BITMAP_TEST ?p a" "ATTR_BITMAP_TEST ?p b" for a b
    using c that by (simp add: key_compat_def)
  obtain k' where k': "parse_fields N ?f OVS_KEY_FIELDS key_zero = Some k'" "key_wf k'"
    "\<And>b. emitted k oz ?p b \<Longrightarrow> key_get b k' = key_get b k"
    "\<And>b. (\<And>a. emitted k oz ?p a \<Longrightarrow> a \<noteq> b \<and> \<not> overlap b a) \<Longrightarrow> key_get b k' = key_get b key_zero"
    by (rule parse_emitted_fields [OF N wf key_wf_zero, of ?f oz ?p])
      (auto simp: attr_code_not(4) last_of_type_fields emitted_def cc)
  have "key_get a k' = key_get a k" if "ATTR_BITMAP_TEST ?p a" for a
  proof (cases "emitted k oz ?p a")
    case False
    have "key_get a k' = key_get a key_zero" using False cc that by (intro k'(4)) (auto simp: emitted_def)
    then show ?thesis using emitted_not_zero [OF that False] key_get_zero by simp
  qed (rule k'(3))
  moreover have "nla_parse_nested N OVS_KEY_ATTR_MAX (NlaNest t ?T) = Some ?f" using N by (simp add: nl_env_ok_def)
  moreover have "?f OVS_KEY_ATTR_ENCAP = None" "?f OVS_KEY_ATTR_TUNNEL = None"
    using last_of_type_fields_other attr_code_not(1,2) by simp_all
  ultimately have "ind_ovs_parse_key_rec N (NlaNest t ?T) key_zero = Some k'"
    using k'(1) by (subst ind_ovs_parse_key_rec.simps) simp
  then show ?thesis using t \<open>\<And>a. ATTR_BITMAP_TEST ?p a \<Longrightarrow> _ a\<close> by blast
qed

definition outer_trees :: "ind_ovs_parsed_key \<Rightarrow> bool \<Rightarrow> nla list" where
  "outer_trees k oz =
     field_trees k oz (populated k AND (outer_mask AND NOT (push_bit (attr_code OVS_KEY_ATTR_VLAN) 1))) @
     [Nla (of_nat (attr_code OVS_KEY_ATTR_ETHERTYPE)) (le_bytes 2 (0xffff :: u16)),
      Nla (of_nat (attr_code OVS_KEY_ATTR_VLAN)) (le_bytes 2 (pk_vlan k OR htons VLAN_CFI_BIT)),
      NlaNest (of_nat OVS_KEY_ATTR_ENCAP) (field_trees k oz (populated k AND NOT outer_mask))]"

lemma nl_emits_vlan:
  assumes "ATTR_BITMAP_TEST (populated k) OVS_KEY_ATTR_VLAN"
  shows "nl_emits (ind_ovs_emit_key k [] oz) (outer_trees k oz)"
proof -
  let ?p1 = "populated k AND (outer_mask AND NOT (push_bit (attr_code OVS_KEY_ATTR_VLAN) 1))" and ?p2 = "populated k AND NOT outer_mask"
  let ?e = "of_nat (attr_code OVS_KEY_ATTR_ETHERTYPE) :: u16" and ?v = "of_nat (attr_code OVS_KEY_ATTR_VLAN) :: u16"
  have "ind_ovs_emit_key k [] oz = field_calls k oz ?p1 @ [NlaPut ?e (le_bytes 2 (0xffff :: u16))] @
      [NlaPut ?v (le_bytes 2 (pk_vlan k OR htons VLAN_CFI_BIT))] @
      (NlaNestStart (of_nat OVS_KEY_ATTR_ENCAP) # field_calls k oz ?p2 @ [NlaNestEnd])"
    using assms by (simp only: ind_ovs_emit_key_def emit_fields_calls nla_put_u16_def nla_put_def nla_nest_start_def
        nla_nest_end_def Let_def if_True append_assoc append_Nil append_Cons)
  moreover have "outer_trees k oz = field_trees k oz ?p1 @ [Nla ?e (le_bytes 2 (0xffff :: u16))] @
      [Nla ?v (le_bytes 2 (pk_vlan k OR htons VLAN_CFI_BIT))] @ [NlaNest (of_nat OVS_KEY_ATTR_ENCAP) (field_trees k oz ?p2)]"
    by (simp add: outer_trees_def)
  ultimately show ?thesis by (simp only:) (intro nl_emits_append nl_emits_nest nl_emits_put nl_emits_fields)
qed

lemma last_of_type_outer:
  "last_of_type (outer_trees k oz) (attr_code a) =
     (if a = OVS_KEY_ATTR_VLAN then Some (Nla (of_nat (attr_code a)) (le_bytes 2 (pk_vlan k OR htons VLAN_CFI_BIT)))
      else if a = OVS_KEY_ATTR_ETHERTYPE then Some (Nla (of_nat (attr_code a)) (le_bytes 2 (0xffff :: u16)))
      else last_of_type (field_trees k oz (populated k AND (outer_mask AND NOT (push_bit (attr_code OVS_KEY_ATTR_VLAN) 1)))) (attr_code a))"
  "last_of_type (outer_trees k oz) OVS_KEY_ATTR_ENCAP =
     Some (NlaNest (of_nat OVS_KEY_ATTR_ENCAP) (field_trees k oz (populated k AND NOT outer_mask)))"
  "last_of_type (outer_trees k oz) OVS_KEY_ATTR_TUNNEL = None"
proof -
  have e: "unat (of_nat OVS_KEY_ATTR_ENCAP :: u16) = OVS_KEY_ATTR_ENCAP" by (simp add: OVS_KEY_ATTR_ENCAP_def)
  have l3: "last_of_type (as @ [x, y, z]) n = (if unat (nla_type z) = n then Some z else if unat (nla_type y) = n then Some y
      else if unat (nla_type x) = n then Some x else last_of_type as n)" for as x y z n
    by (simp add: last_of_type_def)
  show "last_of_type (outer_trees k oz) (attr_code a) =
     (if a = OVS_KEY_ATTR_VLAN then Some (Nla (of_nat (attr_code a)) (le_bytes 2 (pk_vlan k OR htons VLAN_CFI_BIT)))
      else if a = OVS_KEY_ATTR_ETHERTYPE then Some (Nla (of_nat (attr_code a)) (le_bytes 2 (0xffff :: u16)))
      else last_of_type (field_trees k oz (populated k AND (outer_mask AND NOT (push_bit (attr_code OVS_KEY_ATTR_VLAN) 1)))) (attr_code a))"
    unfolding outer_trees_def l3 using attr_code_not(3) [of a]
    by (simp add: e attr_code_inj del: attr_code.simps)
  show "last_of_type (outer_trees k oz) OVS_KEY_ATTR_ENCAP =
     Some (NlaNest (of_nat OVS_KEY_ATTR_ENCAP) (field_trees k oz (populated k AND NOT outer_mask)))"
    unfolding outer_trees_def l3 by (simp add: e)
  show "last_of_type (outer_trees k oz) OVS_KEY_ATTR_TUNNEL = None"
    unfolding outer_trees_def l3 using last_of_type_fields_other [OF attr_code_not(2)]
    by (simp add: OVS_KEY_ATTR_ENCAP_def OVS_KEY_ATTR_TUNNEL_def)
qed

text \<open>The attributes of the outer level, with the values they are sent with.\<close>

definition outer_sent :: "ind_ovs_parsed_key \<Rightarrow> bool \<Rightarrow> ovs_key_attr \<Rightarrow> bool" where
  "outer_sent k oz a \<longleftrightarrow> a = OVS_KEY_ATTR_VLAN \<or> a = OVS_KEY_ATTR_ETHERTYPE \<or> emitted k oz (populated k) a \<and> outer_attr a"

definition outer_value :: "ind_ovs_parsed_key \<Rightarrow> ovs_key_attr \<Rightarrow> bytes" where
  "outer_value k a = (if a = OVS_KEY_ATTR_VLAN then le_bytes 2 (pk_vlan k OR htons VLAN_CFI_BIT)
     else if a = OVS_KEY_ATTR_ETHERTYPE then le_bytes 2 (0xffff :: u16) else key_get a k)"

lemma parse_outer_level:
  assumes N: "nl_env_ok N" and wf: "key_wf k"
  obtains k1 where
    "parse_fields N (\<lambda>i. if i \<le> OVS_KEY_ATTR_MAX then last_of_type (outer_trees k oz) i else None) OVS_KEY_FIELDS key_zero = Some k1"
    "key_wf k1" "\<And>b. outer_sent k oz b \<Longrightarrow> key_get b k1 = outer_value k b"
    "\<And>b. \<not> outer_sent k oz b \<Longrightarrow> key_get b k1 = replicate (attr_size b) 0"
proof -
  let ?f = "\<lambda>i. if i \<le> OVS_KEY_ATTR_MAX then last_of_type (outer_trees k oz) i else None"
  have f: "?f (attr_code a) = (if outer_sent k oz a then Some (Nla (of_nat (attr_code a)) (outer_value k a)) else None)" for a
    unfolding outer_sent_def outer_value_def last_of_type_outer(1) last_of_type_fields emitted_def TEST_outer
    using attr_code_not(4) [of a] by (auto simp: outer_attr_def)
  have no: "\<not> overlap b a" if "outer_sent k oz a" for a b
    using overlap_outer [of b a] that by (auto simp: outer_sent_def)
  have "\<exists>k1. parse_fields N ?f OVS_KEY_FIELDS key_zero = Some k1 \<and> key_wf k1 \<and>
    (\<forall>b. ATTR_BITMAP_TEST (populated k1) b \<longleftrightarrow> ATTR_BITMAP_TEST (populated key_zero) b \<or> b \<in> set OVS_KEY_FIELDS \<and> ?f (attr_code b) \<noteq> None) \<and>
    (\<forall>b \<in> set OVS_KEY_FIELDS. ?f (attr_code b) \<noteq> None \<longrightarrow> key_get b k1 = outer_value k b) \<and>
    (\<forall>b. (\<forall>a \<in> set OVS_KEY_FIELDS. ?f (attr_code a) \<noteq> None \<longrightarrow> a \<noteq> b \<and> \<not> overlap b a) \<longrightarrow> key_get b k1 = key_get b key_zero)"
    using N wf no by (intro parse_fields_ok distinct_OVS_KEY_FIELDS key_wf_zero)
      (simp_all only: f, auto simp: length_key_get nl_env_ok_def outer_value_def split: if_splits)
  then show thesis using that no unfolding f key_get_zero by (auto split: if_splits)
qed

lemma le_bytes_2_inj: "le_bytes 2 w = le_bytes 2 v \<longleftrightarrow> w = v" for w v :: u16
proof
  assume "le_bytes 2 w = le_bytes 2 v"
  then have "of_le (le_bytes 2 w) = (of_le (le_bytes 2 v) :: u16)" by (rule arg_cong)
  then show "w = v" by (subst (asm) (1 2) of_le_le_bytes) simp_all
qed simp

lemma le_bytes_zero: "le_bytes 2 w = replicate 2 0 \<Longrightarrow> w = 0" for w :: u16
proof -
  have "replicate 2 0 = le_bytes 2 (0 :: u16)" by (simp add: numeral_2_eq_2)
  then show "le_bytes 2 w = replicate 2 0 \<Longrightarrow> w = 0" by (simp only: le_bytes_2_inj)
qed

lemma parse_key_flat:
  "nla_parse_nested N OVS_KEY_ATTR_MAX x = Some f \<Longrightarrow> parse_fields N f OVS_KEY_FIELDS k = Some k1 \<Longrightarrow>
    f OVS_KEY_ATTR_ENCAP = None \<Longrightarrow> f OVS_KEY_ATTR_TUNNEL = None \<Longrightarrow> ind_ovs_parse_key_rec N x k = Some k1"
  by (subst ind_ovs_parse_key_rec.simps) simp

lemma parse_key_encap:
  "nla_parse_nested N OVS_KEY_ATTR_MAX x = Some f \<Longrightarrow> parse_fields N f OVS_KEY_FIELDS k = Some k1 \<Longrightarrow>
    f OVS_KEY_ATTR_ENCAP = Some y \<Longrightarrow> ind_ovs_parse_key_rec N y k1 = Some k2 \<Longrightarrow>
    f OVS_KEY_ATTR_TUNNEL = None \<Longrightarrow> ind_ovs_parse_key_rec N x k = Some k2"
  by (subst ind_ovs_parse_key_rec.simps) simp

lemma emit_vlan_roundtrip:
  assumes N: "nl_env_ok N" and wf: "key_wf k" and c: "key_compat k" and v: "ATTR_BITMAP_TEST (populated k) OVS_KEY_ATTR_VLAN"
    and et: "oz \<longrightarrow> ATTR_BITMAP_TEST (populated k) OVS_KEY_ATTR_ETHERTYPE \<longrightarrow> pk_ethertype k \<noteq> 0"
  shows "\<exists>as k'. nl_tree (ind_ovs_emit_key k [] oz) = Some as \<and> ind_ovs_parse_key_rec N (NlaNest t as) key_zero = Some k' \<and>
    pk_vlan k' = pk_vlan k OR htons VLAN_CFI_BIT \<and>
    (\<forall>a. ATTR_BITMAP_TEST (populated k) a \<longrightarrow> a \<noteq> OVS_KEY_ATTR_VLAN \<longrightarrow> key_get a k' = key_get a k)"
proof -
  let ?p = "populated k" and ?T = "outer_trees k oz" and ?I = "field_trees k oz (populated k AND NOT outer_mask)"
  let ?e = "emitted k oz (?p AND NOT outer_mask)"
  let ?f = "\<lambda>i. if i \<le> OVS_KEY_ATTR_MAX then last_of_type ?T i else None"
  let ?h = "\<lambda>i. if i \<le> OVS_KEY_ATTR_MAX then last_of_type ?I i else None"
  have cc: "\<not> overlap a b" if "ATTR_BITMAP_TEST ?p a" "ATTR_BITMAP_TEST ?p b" for a b
    using c that by (simp add: key_compat_def)
  obtain k1 where k1: "parse_fields N ?f OVS_KEY_FIELDS key_zero = Some k1" "key_wf k1"
    "\<And>b. outer_sent k oz b \<Longrightarrow> key_get b k1 = outer_value k b"
    "\<And>b. \<not> outer_sent k oz b \<Longrightarrow> key_get b k1 = replicate (attr_size b) 0"
    by (rule parse_outer_level [OF N wf, of oz]) (rule that)
  obtain k' where k': "parse_fields N ?h OVS_KEY_FIELDS k1 = Some k'" "key_wf k'"
    "\<And>b. ?e b \<Longrightarrow> key_get b k' = key_get b k"
    "\<And>b. (\<And>a. ?e a \<Longrightarrow> a \<noteq> b \<and> \<not> overlap b a) \<Longrightarrow> key_get b k' = key_get b k1"
    by (rule parse_emitted_fields [OF N wf k1(2), of ?h oz "?p AND NOT outer_mask"])
      (auto simp: attr_code_not(4) last_of_type_fields emitted_def TEST_inner cc)
  have inner: "?e a \<longleftrightarrow> emitted k oz ?p a \<and> \<not> outer_attr a \<and> a \<noteq> OVS_KEY_ATTR_VLAN" for a
    by (auto simp: emitted_def TEST_inner)
  have keep: "key_get a k' = key_get a k1" if "ATTR_BITMAP_TEST ?p a" "\<not> ?e a" for a
    using that cc by (intro k'(4)) (auto simp: inner, auto simp: emitted_def)
  have "key_get a k' = key_get a k" if a: "ATTR_BITMAP_TEST ?p a" "a \<noteq> OVS_KEY_ATTR_VLAN" for a
  proof (cases "?e a")
    case False
    have "emitted k oz ?p a \<Longrightarrow> outer_attr a" using False a by (simp add: inner)
    moreover have "a = OVS_KEY_ATTR_ETHERTYPE \<Longrightarrow> emitted k oz ?p a"
      using et a(1) le_bytes_zero [of "pk_ethertype k"] by (auto simp: emitted_def)
    ultimately have "key_get a k1 = key_get a k"
      using k1(3,4) [of a] emitted_not_zero [OF a(1), of k oz] a(2)
      by (cases "emitted k oz ?p a") (auto simp: outer_sent_def outer_value_def outer_attr_def)
    then show ?thesis using keep a(1) False by simp
  qed (rule k'(3))
  moreover have "pk_vlan k' = pk_vlan k OR htons VLAN_CFI_BIT"
    using keep [OF v] k1(3) [of OVS_KEY_ATTR_VLAN] by (simp add: inner outer_sent_def outer_value_def le_bytes_2_inj)
  moreover have "ind_ovs_parse_key_rec N (NlaNest t ?T) key_zero = Some k'"
  proof -
    have n: "nla_parse_nested N OVS_KEY_ATTR_MAX (NlaNest t ?T) = Some ?f"
      "nla_parse_nested N OVS_KEY_ATTR_MAX (NlaNest (of_nat OVS_KEY_ATTR_ENCAP) ?I) = Some ?h"
      using N by (simp_all add: nl_env_ok_def)
    have "?h OVS_KEY_ATTR_ENCAP = None" "?h OVS_KEY_ATTR_TUNNEL = None"
      using last_of_type_fields_other attr_code_not(1,2) by simp_all
    then have "ind_ovs_parse_key_rec N (NlaNest (of_nat OVS_KEY_ATTR_ENCAP) ?I) k1 = Some k'"
      by (rule parse_key_flat [OF n(2) k'(1)])
    moreover have "?f OVS_KEY_ATTR_TUNNEL = None" "?f OVS_KEY_ATTR_ENCAP = Some (NlaNest (of_nat OVS_KEY_ATTR_ENCAP) ?I)"
      using last_of_type_outer(2,3) by (simp_all add: OVS_KEY_ATTR_ENCAP_def OVS_KEY_ATTR_MAX_def)
    ultimately show ?thesis using parse_key_encap [OF n(1) k1(1)] by blast
  qed
  ultimately show ?thesis using nl_emits_tree [OF nl_emits_vlan [OF v]] by blast
qed


text \<open>A tagged TCP packet from port 3.\<close>

definition demo_key :: ind_ovs_parsed_key where
  "demo_key = key_zero\<lparr>populated := 0x2f8, pk_in_port := 3, eth_src := [0, 1, 2, 3, 4, 5], eth_dst := [6, 7, 8, 9, 10, 11],
     pk_vlan := htons 100, pk_ethertype := htons 0x800, pk_net := [10, 0, 0, 1, 10, 0, 0, 2, 6, 0, 64, 0] @ replicate 28 0,
     pk_tp := [0, 80, 1, 2] @ replicate 20 0\<rparr>"

lemma demo_key_ok: "key_wf demo_key" "key_compat demo_key"
  by (code_simp, code_simp)


end
