(* ===== verification/Action.thy ===== *)
theory Action
  imports Ovs_Key
begin

text \<open>
  The action module (\<open>action/module/src/action.c\<close>): translation of abstract packet actions into
  the kernel's action attributes. Set-field actions only change the context's copy of the key and
  mark the attribute as modified; every output first writes the modified attributes out. The
  context also accumulates the mask of the key bits the result depends on.
\<close>

subsection \<open>Kernel action attributes\<close>

definition OVS_ACTION_ATTR_OUTPUT :: u16 where "OVS_ACTION_ATTR_OUTPUT = 1"
definition OVS_ACTION_ATTR_USERSPACE :: u16 where "OVS_ACTION_ATTR_USERSPACE = 2"
definition OVS_ACTION_ATTR_SET :: u16 where "OVS_ACTION_ATTR_SET = 3"
definition OVS_ACTION_ATTR_PUSH_VLAN :: u16 where "OVS_ACTION_ATTR_PUSH_VLAN = 4"
definition OVS_ACTION_ATTR_POP_VLAN :: u16 where "OVS_ACTION_ATTR_POP_VLAN = 5"
definition OVS_ACTION_ATTR_SAMPLE :: u16 where "OVS_ACTION_ATTR_SAMPLE = 6"
definition OVS_SAMPLE_ATTR_PROBABILITY :: u16 where "OVS_SAMPLE_ATTR_PROBABILITY = 1"
definition OVS_SAMPLE_ATTR_ACTIONS :: u16 where "OVS_SAMPLE_ATTR_ACTIONS = 2"
definition OVS_USERSPACE_ATTR_PID :: u16 where "OVS_USERSPACE_ATTR_PID = 1"
definition OVS_USERSPACE_ATTR_USERDATA :: u16 where "OVS_USERSPACE_ATTR_USERDATA = 2"
definition ETH_P_8021Q :: u16 where "ETH_P_8021Q = 0x8100"

lemmas ovs_action_defs = OVS_ACTION_ATTR_OUTPUT_def OVS_ACTION_ATTR_USERSPACE_def OVS_ACTION_ATTR_SET_def
  OVS_ACTION_ATTR_PUSH_VLAN_def OVS_ACTION_ATTR_POP_VLAN_def OVS_ACTION_ATTR_SAMPLE_def

definition IP_DSCP_MASK :: u8 where "IP_DSCP_MASK = 0xfc"
definition IP_ECN_MASK :: u8 where "IP_ECN_MASK = 0x03"

definition VLAN_TCI :: "u16 \<Rightarrow> u16 \<Rightarrow> u16" where
  "VLAN_TCI vid pcp = push_bit 13 (pcp AND 7) OR (vid AND 0xfff)"

definition VLAN_VID :: "u16 \<Rightarrow> u16" where
  "VLAN_VID tci = tci AND 0xfff"

definition VLAN_PCP :: "u16 \<Rightarrow> u16" where
  "VLAN_PCP tci = drop_bit 13 tci"

text \<open>\<open>struct ovs_action_push_vlan\<close> in memory.\<close>

definition ovs_action_push_vlan :: "u16 \<Rightarrow> u16 \<Rightarrow> bytes" where
  "ovs_action_push_vlan tpid tci = le_bytes 2 tpid @ le_bytes 2 tci"

subsection \<open>The context\<close>

record action_context =
  current_key :: ind_ovs_parsed_key
  ac_mask :: "ind_ovs_parsed_key option"
  modified_attrs :: u64
  ac_msg :: nl_msg

definition action_context_init :: "ind_ovs_parsed_key \<Rightarrow> ind_ovs_parsed_key option \<Rightarrow> nl_msg \<Rightarrow> action_context" where
  "action_context_init key msk msg = \<lparr>current_key = key, ac_mask = msk, modified_attrs = 0, ac_msg = msg\<rparr>"

text \<open>The macro \<open>MASK\<close> on the member of an attribute.\<close>

definition mask_attr :: "ovs_key_attr \<Rightarrow> ind_ovs_parsed_key \<Rightarrow> ind_ovs_parsed_key" where
  "mask_attr a m = key_put a (replicate (attr_size a) 0xff) m"

definition MASK :: "ovs_key_attr \<Rightarrow> action_context \<Rightarrow> action_context" where
  "MASK a ctx = ctx\<lparr>ac_mask := map_option (mask_attr a) (ac_mask ctx)\<rparr>"

definition commit_vlan :: "action_context \<Rightarrow> action_context" where
  "commit_vlan ctx =
     (if ATTR_BITMAP_TEST (modified_attrs ctx) OVS_KEY_ATTR_VLAN
      then
        (let msg = nla_put_flag (ac_msg ctx) OVS_ACTION_ATTR_POP_VLAN;
             msg = (if ATTR_BITMAP_TEST (populated (current_key ctx)) OVS_KEY_ATTR_VLAN
                then nla_put msg OVS_ACTION_ATTR_PUSH_VLAN (ovs_action_push_vlan (htons ETH_P_8021Q) (pk_vlan (current_key ctx)))
                else msg)
         in MASK OVS_KEY_ATTR_VLAN (ctx\<lparr>ac_msg := msg,
              modified_attrs := ATTR_BITMAP_CLEAR (modified_attrs ctx) OVS_KEY_ATTR_VLAN\<rparr>))
      else ctx)"

text \<open>One expansion of the field macro.\<close>

definition commit_field :: "ovs_key_attr \<Rightarrow> action_context \<Rightarrow> action_context" where
  "commit_field a ctx =
     (if ATTR_BITMAP_TEST (modified_attrs ctx) a
      then
        (let msg = nla_nest_start (ac_msg ctx) OVS_ACTION_ATTR_SET;
             msg = nla_put msg (of_nat (attr_code a)) (key_get a (current_key ctx));
             msg = nla_nest_end msg
         in MASK a (ctx\<lparr>ac_msg := msg\<rparr>))
      else ctx)"

definition commit_set_field_actions :: "action_context \<Rightarrow> action_context" where
  "commit_set_field_actions ctx =
     (if modified_attrs ctx = 0 then ctx
      else (fold commit_field OVS_KEY_FIELDS (commit_vlan ctx))\<lparr>modified_attrs := 0\<rparr>)"

subsection \<open>Output actions\<close>

definition action_userspace :: "action_context \<Rightarrow> bytes \<Rightarrow> u32 \<Rightarrow> action_context" where
  "action_userspace ctx userdata netlink_port =
     (let ctx = commit_set_field_actions ctx;
          msg = nla_nest_start (ac_msg ctx) OVS_ACTION_ATTR_USERSPACE;
          msg = nla_put_u32 msg OVS_USERSPACE_ATTR_PID netlink_port;
          msg = nla_put msg OVS_USERSPACE_ATTR_USERDATA userdata;
          msg = nla_nest_end msg
      in MASK OVS_KEY_ATTR_IN_PORT (ctx\<lparr>ac_msg := msg\<rparr>))"

definition action_output :: "action_context \<Rightarrow> u32 \<Rightarrow> action_context" where
  "action_output ctx port_no =
     (let ctx = commit_set_field_actions ctx
      in ctx\<lparr>ac_msg := nla_put_u32 (ac_msg ctx) OVS_ACTION_ATTR_OUTPUT port_no\<rparr>)"

definition action_output_local :: "action_context \<Rightarrow> action_context" where
  "action_output_local ctx =
     (let ctx = commit_set_field_actions ctx
      in ctx\<lparr>ac_msg := nla_put_u32 (ac_msg ctx) OVS_ACTION_ATTR_OUTPUT OVSP_LOCAL\<rparr>)"

definition action_output_in_port :: "action_context \<Rightarrow> action_context" where
  "action_output_in_port ctx =
     (let ctx = commit_set_field_actions ctx
      in MASK OVS_KEY_ATTR_IN_PORT
           (ctx\<lparr>ac_msg := nla_put_u32 (ac_msg ctx) OVS_ACTION_ATTR_OUTPUT (pk_in_port (current_key ctx))\<rparr>))"

definition action_sample_to_userspace :: "action_context \<Rightarrow> bytes \<Rightarrow> u32 \<Rightarrow> u32 \<Rightarrow> action_context" where
  "action_sample_to_userspace ctx userdata netlink_port probability =
     (let ctx = commit_set_field_actions ctx;
          msg = nla_nest_start (ac_msg ctx) OVS_ACTION_ATTR_SAMPLE;
          msg = nla_put_u32 msg OVS_SAMPLE_ATTR_PROBABILITY probability;
          msg = nla_nest_start msg OVS_SAMPLE_ATTR_ACTIONS;
          msg = nla_nest_start msg OVS_ACTION_ATTR_USERSPACE;
          msg = nla_put_u32 msg OVS_USERSPACE_ATTR_PID netlink_port;
          msg = nla_put msg OVS_USERSPACE_ATTR_USERDATA userdata;
          msg = nla_nest_end msg;
          msg = nla_nest_end msg;
          msg = nla_nest_end msg
      in MASK OVS_KEY_ATTR_IN_PORT (ctx\<lparr>ac_msg := msg\<rparr>))"

subsection \<open>Set-field actions\<close>

text \<open>The shape most setters share: only on a populated attribute, which is then marked.\<close>

definition set_attr :: "ovs_key_attr \<Rightarrow> (ind_ovs_parsed_key \<Rightarrow> ind_ovs_parsed_key) \<Rightarrow> action_context \<Rightarrow> action_context" where
  "set_attr a f ctx =
     (if ATTR_BITMAP_TEST (populated (current_key ctx)) a
      then ctx\<lparr>modified_attrs := ATTR_BITMAP_SET (modified_attrs ctx) a, current_key := f (current_key ctx)\<rparr>
      else ctx)"

definition action_set_eth_dst :: "action_context \<Rightarrow> mac \<Rightarrow> action_context" where
  "action_set_eth_dst ctx addr = set_attr OVS_KEY_ATTR_ETHERNET (\<lambda>k. k\<lparr>eth_dst := splice 0 addr (eth_dst k)\<rparr>) ctx"

definition action_set_eth_src :: "action_context \<Rightarrow> mac \<Rightarrow> action_context" where
  "action_set_eth_src ctx addr = set_attr OVS_KEY_ATTR_ETHERNET (\<lambda>k. k\<lparr>eth_src := splice 0 addr (eth_src k)\<rparr>) ctx"

definition action_set_eth_dst_scalar :: "action_context \<Rightarrow> u32 \<Rightarrow> u16 \<Rightarrow> action_context" where
  "action_set_eth_dst_scalar ctx mac_lo mac_hi = set_attr OVS_KEY_ATTR_ETHERNET
     (\<lambda>k. k\<lparr>eth_dst := splice 0 (le_bytes 2 (htons mac_hi)) (splice 2 (le_bytes 4 (htonl mac_lo)) (eth_dst k))\<rparr>) ctx"

definition action_set_eth_src_scalar :: "action_context \<Rightarrow> u32 \<Rightarrow> u16 \<Rightarrow> action_context" where
  "action_set_eth_src_scalar ctx mac_lo mac_hi = set_attr OVS_KEY_ATTR_ETHERNET
     (\<lambda>k. k\<lparr>eth_src := splice 0 (le_bytes 2 (htons mac_hi)) (splice 2 (le_bytes 4 (htonl mac_lo)) (eth_src k))\<rparr>) ctx"

text \<open>The VLAN setters also tag an untagged packet.\<close>

definition set_tci :: "(u16 \<Rightarrow> u16) \<Rightarrow> action_context \<Rightarrow> action_context" where
  "set_tci f ctx =
     (let ctx = ctx\<lparr>modified_attrs := ATTR_BITMAP_SET (modified_attrs ctx) OVS_KEY_ATTR_VLAN\<rparr>;
          k = current_key ctx;
          (cur_tci, k) =
            (if ATTR_BITMAP_TEST (populated k) OVS_KEY_ATTR_VLAN then (ntohs (pk_vlan k), k)
             else (VLAN_CFI_BIT, k\<lparr>populated := ATTR_BITMAP_SET (populated k) OVS_KEY_ATTR_VLAN\<rparr>))
      in ctx\<lparr>current_key := k\<lparr>pk_vlan := htons (f cur_tci)\<rparr>\<rparr>)"

definition action_set_vlan_vid :: "action_context \<Rightarrow> u16 \<Rightarrow> action_context" where
  "action_set_vlan_vid ctx vlan_vid = set_tci (\<lambda>tci. VLAN_TCI vlan_vid (VLAN_PCP tci) OR VLAN_CFI_BIT) ctx"

definition action_set_vlan_pcp :: "action_context \<Rightarrow> u8 \<Rightarrow> action_context" where
  "action_set_vlan_pcp ctx vlan_pcp = set_tci (\<lambda>tci. VLAN_TCI (VLAN_VID tci) (ucast vlan_pcp) OR VLAN_CFI_BIT) ctx"

definition action_pop_vlan :: "action_context \<Rightarrow> action_context" where
  "action_pop_vlan ctx = set_attr OVS_KEY_ATTR_VLAN
     (\<lambda>k. k\<lparr>populated := ATTR_BITMAP_CLEAR (populated k) OVS_KEY_ATTR_VLAN\<rparr>) ctx"

definition action_push_vlan :: "action_context \<Rightarrow> action_context" where
  "action_push_vlan ctx =
     (if ATTR_BITMAP_TEST (populated (current_key ctx)) OVS_KEY_ATTR_VLAN then ctx
      else ctx\<lparr>modified_attrs := ATTR_BITMAP_SET (modified_attrs ctx) OVS_KEY_ATTR_VLAN,
        current_key := (current_key ctx)\<lparr>populated := ATTR_BITMAP_SET (populated (current_key ctx)) OVS_KEY_ATTR_VLAN,
          pk_vlan := htons VLAN_CFI_BIT\<rparr>\<rparr>)"

definition action_pop_vlan_raw :: "action_context \<Rightarrow> action_context" where
  "action_pop_vlan_raw ctx =
     (let ctx = commit_set_field_actions ctx in ctx\<lparr>ac_msg := nla_put_flag (ac_msg ctx) OVS_ACTION_ATTR_POP_VLAN\<rparr>)"

definition action_push_vlan_raw :: "action_context \<Rightarrow> u16 \<Rightarrow> action_context" where
  "action_push_vlan_raw ctx vlan_tci =
     (let ctx = commit_set_field_actions ctx
      in ctx\<lparr>ac_msg := nla_put (ac_msg ctx) OVS_ACTION_ATTR_PUSH_VLAN
           (ovs_action_push_vlan (htons ETH_P_8021Q) (htons vlan_tci))\<rparr>)"

text \<open>
  Members of the two unions by offset. \<open>ovs_key_ipv4\<close>: src 0, dst 4, proto 8, tos 9, ttl 10, frag 11.
  \<open>ovs_key_ipv6\<close>: src 0, dst 16, label 32, proto 36, tclass 37, hlimit 38, frag 39. Ports: src 0, dst 2.
\<close>

definition put_net :: "nat \<Rightarrow> bytes \<Rightarrow> ind_ovs_parsed_key \<Rightarrow> ind_ovs_parsed_key" where
  "put_net off d k = k\<lparr>pk_net := splice off d (pk_net k)\<rparr>"

definition put_tp :: "nat \<Rightarrow> bytes \<Rightarrow> ind_ovs_parsed_key \<Rightarrow> ind_ovs_parsed_key" where
  "put_tp off d k = k\<lparr>pk_tp := splice off d (pk_tp k)\<rparr>"

definition upd_net_byte :: "nat \<Rightarrow> (u8 \<Rightarrow> u8) \<Rightarrow> ind_ovs_parsed_key \<Rightarrow> ind_ovs_parsed_key" where
  "upd_net_byte off f k = k\<lparr>pk_net := (pk_net k)[off := f (pk_net k ! off)]\<rparr>"

definition action_set_ipv4_dst :: "action_context \<Rightarrow> u32 \<Rightarrow> action_context" where
  "action_set_ipv4_dst ctx ipv4 = set_attr OVS_KEY_ATTR_IPV4 (put_net 4 (le_bytes 4 (htonl ipv4))) ctx"

definition action_set_ipv4_src :: "action_context \<Rightarrow> u32 \<Rightarrow> action_context" where
  "action_set_ipv4_src ctx ipv4 = set_attr OVS_KEY_ATTR_IPV4 (put_net 0 (le_bytes 4 (htonl ipv4))) ctx"

definition action_set_ipv4_dscp :: "action_context \<Rightarrow> u8 \<Rightarrow> action_context" where
  "action_set_ipv4_dscp ctx ip_dscp = set_attr OVS_KEY_ATTR_IPV4
     (upd_net_byte 9 (\<lambda>tos. (tos AND NOT IP_DSCP_MASK) OR ip_dscp)) ctx"

definition action_set_ipv4_ecn :: "action_context \<Rightarrow> u8 \<Rightarrow> action_context" where
  "action_set_ipv4_ecn ctx ip_ecn = set_attr OVS_KEY_ATTR_IPV4
     (upd_net_byte 9 (\<lambda>tos. (tos AND NOT IP_ECN_MASK) OR ip_ecn)) ctx"

definition action_set_ipv4_ttl :: "action_context \<Rightarrow> u8 \<Rightarrow> action_context" where
  "action_set_ipv4_ttl ctx ttl = set_attr OVS_KEY_ATTR_IPV4 (put_net 10 [ttl]) ctx"

definition action_set_ipv6_dst :: "action_context \<Rightarrow> bytes \<Rightarrow> action_context" where
  "action_set_ipv6_dst ctx ipv6 = set_attr OVS_KEY_ATTR_IPV6 (put_net 16 ipv6) ctx"

definition action_set_ipv6_src :: "action_context \<Rightarrow> bytes \<Rightarrow> action_context" where
  "action_set_ipv6_src ctx ipv6 = set_attr OVS_KEY_ATTR_IPV6 (put_net 0 ipv6) ctx"

definition action_set_ipv6_dscp :: "action_context \<Rightarrow> u8 \<Rightarrow> action_context" where
  "action_set_ipv6_dscp ctx ip_dscp = set_attr OVS_KEY_ATTR_IPV6
     (upd_net_byte 37 (\<lambda>tclass. (tclass AND NOT IP_DSCP_MASK) OR ip_dscp)) ctx"

definition action_set_ipv6_ecn :: "action_context \<Rightarrow> u8 \<Rightarrow> action_context" where
  "action_set_ipv6_ecn ctx ip_ecn = set_attr OVS_KEY_ATTR_IPV6
     (upd_net_byte 37 (\<lambda>tclass. (tclass AND NOT IP_ECN_MASK) OR ip_ecn)) ctx"

definition action_set_ipv6_ttl :: "action_context \<Rightarrow> u8 \<Rightarrow> action_context" where
  "action_set_ipv6_ttl ctx ttl = set_attr OVS_KEY_ATTR_IPV6 (put_net 38 [ttl]) ctx"

definition action_set_ipv6_flabel :: "action_context \<Rightarrow> u32 \<Rightarrow> action_context" where
  "action_set_ipv6_flabel ctx flabel = set_attr OVS_KEY_ATTR_IPV6 (put_net 32 (le_bytes 4 (htonl flabel))) ctx"

definition action_set_tcp_src :: "action_context \<Rightarrow> u16 \<Rightarrow> action_context" where
  "action_set_tcp_src ctx tcp_src = set_attr OVS_KEY_ATTR_TCP (put_tp 0 (le_bytes 2 (htons tcp_src))) ctx"

definition action_set_tcp_dst :: "action_context \<Rightarrow> u16 \<Rightarrow> action_context" where
  "action_set_tcp_dst ctx tcp_dst = set_attr OVS_KEY_ATTR_TCP (put_tp 2 (le_bytes 2 (htons tcp_dst))) ctx"

definition action_set_udp_src :: "action_context \<Rightarrow> u16 \<Rightarrow> action_context" where
  "action_set_udp_src ctx udp_src = set_attr OVS_KEY_ATTR_UDP (put_tp 0 (le_bytes 2 (htons udp_src))) ctx"

definition action_set_udp_dst :: "action_context \<Rightarrow> u16 \<Rightarrow> action_context" where
  "action_set_udp_dst ctx udp_dst = set_attr OVS_KEY_ATTR_UDP (put_tp 2 (le_bytes 2 (htons udp_dst))) ctx"

definition action_set_priority :: "action_context \<Rightarrow> u32 \<Rightarrow> action_context" where
  "action_set_priority ctx priority = ctx\<lparr>modified_attrs := ATTR_BITMAP_SET (modified_attrs ctx) OVS_KEY_ATTR_PRIORITY,
     current_key := (current_key ctx)\<lparr>pk_priority := priority\<rparr>\<rparr>"

subsection \<open>Sequences of actions\<close>

datatype action_op = Output u32 | OutputLocal | OutputInPort | Userspace bytes u32 | Sample bytes u32 u32
  | SetEthDst mac | SetEthSrc mac | SetEthDstScalar u32 u16 | SetEthSrcScalar u32 u16
  | SetVlanVid u16 | SetVlanPcp u8 | PopVlan | PushVlan | PopVlanRaw | PushVlanRaw u16
  | SetIpv4Dst u32 | SetIpv4Src u32 | SetIpv4Dscp u8 | SetIpv4Ecn u8 | SetIpv4Ttl u8
  | SetIpv6Dst bytes | SetIpv6Src bytes | SetIpv6Dscp u8 | SetIpv6Ecn u8 | SetIpv6Ttl u8 | SetIpv6Flabel u32
  | SetTcpSrc u16 | SetTcpDst u16 | SetUdpSrc u16 | SetUdpDst u16 | SetPriority u32

primrec action_step :: "action_op \<Rightarrow> action_context \<Rightarrow> action_context" where
  "action_step (Output p) ctx = action_output ctx p"
| "action_step OutputLocal ctx = action_output_local ctx"
| "action_step OutputInPort ctx = action_output_in_port ctx"
| "action_step (Userspace d p) ctx = action_userspace ctx d p"
| "action_step (Sample d p n) ctx = action_sample_to_userspace ctx d p n"
| "action_step (SetEthDst a) ctx = action_set_eth_dst ctx a"
| "action_step (SetEthSrc a) ctx = action_set_eth_src ctx a"
| "action_step (SetEthDstScalar l h) ctx = action_set_eth_dst_scalar ctx l h"
| "action_step (SetEthSrcScalar l h) ctx = action_set_eth_src_scalar ctx l h"
| "action_step (SetVlanVid v) ctx = action_set_vlan_vid ctx v"
| "action_step (SetVlanPcp v) ctx = action_set_vlan_pcp ctx v"
| "action_step PopVlan ctx = action_pop_vlan ctx"
| "action_step PushVlan ctx = action_push_vlan ctx"
| "action_step PopVlanRaw ctx = action_pop_vlan_raw ctx"
| "action_step (PushVlanRaw v) ctx = action_push_vlan_raw ctx v"
| "action_step (SetIpv4Dst a) ctx = action_set_ipv4_dst ctx a"
| "action_step (SetIpv4Src a) ctx = action_set_ipv4_src ctx a"
| "action_step (SetIpv4Dscp v) ctx = action_set_ipv4_dscp ctx v"
| "action_step (SetIpv4Ecn v) ctx = action_set_ipv4_ecn ctx v"
| "action_step (SetIpv4Ttl v) ctx = action_set_ipv4_ttl ctx v"
| "action_step (SetIpv6Dst a) ctx = action_set_ipv6_dst ctx a"
| "action_step (SetIpv6Src a) ctx = action_set_ipv6_src ctx a"
| "action_step (SetIpv6Dscp v) ctx = action_set_ipv6_dscp ctx v"
| "action_step (SetIpv6Ecn v) ctx = action_set_ipv6_ecn ctx v"
| "action_step (SetIpv6Ttl v) ctx = action_set_ipv6_ttl ctx v"
| "action_step (SetIpv6Flabel v) ctx = action_set_ipv6_flabel ctx v"
| "action_step (SetTcpSrc v) ctx = action_set_tcp_src ctx v"
| "action_step (SetTcpDst v) ctx = action_set_tcp_dst ctx v"
| "action_step (SetUdpSrc v) ctx = action_set_udp_src ctx v"
| "action_step (SetUdpDst v) ctx = action_set_udp_dst ctx v"
| "action_step (SetPriority v) ctx = action_set_priority ctx v"

text \<open>The sizes the C types fix.\<close>

fun action_op_ok :: "action_op \<Rightarrow> bool" where
  "action_op_ok (SetEthDst a) \<longleftrightarrow> length a = 6"
| "action_op_ok (SetEthSrc a) \<longleftrightarrow> length a = 6"
| "action_op_ok (SetIpv6Dst a) \<longleftrightarrow> length a = 16"
| "action_op_ok (SetIpv6Src a) \<longleftrightarrow> length a = 16"
| "action_op_ok _ \<longleftrightarrow> True"

lemmas action_set_defs = action_set_eth_dst_def action_set_eth_src_def action_set_eth_dst_scalar_def
  action_set_eth_src_scalar_def action_pop_vlan_def action_set_ipv4_dst_def action_set_ipv4_src_def
  action_set_ipv4_dscp_def action_set_ipv4_ecn_def action_set_ipv4_ttl_def action_set_ipv6_dst_def
  action_set_ipv6_src_def action_set_ipv6_dscp_def action_set_ipv6_ecn_def action_set_ipv6_ttl_def
  action_set_ipv6_flabel_def action_set_tcp_src_def action_set_tcp_dst_def action_set_udp_src_def action_set_udp_dst_def

lemmas action_out_defs = action_userspace_def action_output_def action_output_local_def action_output_in_port_def
  action_sample_to_userspace_def action_pop_vlan_raw_def action_push_vlan_raw_def

subsection \<open>Keys that agree under a mask\<close>

definition bytes_agree :: "bytes \<Rightarrow> bytes \<Rightarrow> bytes \<Rightarrow> bool" where
  "bytes_agree m x y \<longleftrightarrow> length x = length y \<and> list_all (\<lambda>(b, v, w). v AND b = w AND b) (zip m (zip x y))"

definition word_agree :: "'a::len word \<Rightarrow> 'a word \<Rightarrow> 'a word \<Rightarrow> bool" where
  "word_agree m x y \<longleftrightarrow> x AND m = y AND m"

definition key_agree :: "ind_ovs_parsed_key \<Rightarrow> ind_ovs_parsed_key \<Rightarrow> ind_ovs_parsed_key \<Rightarrow> bool" where
  "key_agree m k k' \<longleftrightarrow> populated k = populated k' \<and> word_agree (pk_priority m) (pk_priority k) (pk_priority k') \<and>
     word_agree (pk_in_port m) (pk_in_port k) (pk_in_port k') \<and> bytes_agree (eth_src m) (eth_src k) (eth_src k') \<and>
     bytes_agree (eth_dst m) (eth_dst k) (eth_dst k') \<and> word_agree (pk_vlan m) (pk_vlan k) (pk_vlan k') \<and>
     word_agree (pk_ethertype m) (pk_ethertype k) (pk_ethertype k') \<and> bytes_agree (pk_net m) (pk_net k) (pk_net k') \<and>
     bytes_agree (pk_tp m) (pk_tp k) (pk_tp k') \<and> word_agree (pk_tcp_flags m) (pk_tcp_flags k) (pk_tcp_flags k') \<and>
     word_agree (tun_id m) (tun_id k) (tun_id k') \<and> word_agree (tun_ipv4_src m) (tun_ipv4_src k) (tun_ipv4_src k') \<and>
     word_agree (tun_ipv4_dst m) (tun_ipv4_dst k) (tun_ipv4_dst k') \<and> word_agree (tun_tos m) (tun_tos k) (tun_tos k') \<and>
     word_agree (tun_ttl m) (tun_ttl k) (tun_ttl k')"

lemma bytes_agree_nth:
  "bytes_agree m x y \<longleftrightarrow> length x = length y \<and> (\<forall>i<length x. i < length m \<longrightarrow> x ! i AND m ! i = y ! i AND m ! i)"
  by (auto simp: bytes_agree_def list_all_length)

lemma word_agree_refl [simp]: "word_agree m x x"
  by (simp add: word_agree_def)

lemma bytes_agree_refl [simp]: "bytes_agree m x x"
  by (simp add: bytes_agree_nth)

lemma key_agree_refl [simp]: "key_agree m k k"
  by (simp add: key_agree_def)

lemma word_agree_full: "word_agree (- 1) x y \<longleftrightarrow> x = y"
  by (simp add: word_agree_def)

lemma nth_splice:
  "off + length d \<le> length bs \<Longrightarrow> i < length bs \<Longrightarrow>
    splice off d bs ! i = (if i < off then bs ! i else if i < off + length d then d ! (i - off) else bs ! i)"
  by (auto simp: splice_def nth_append)

lemma bytes_agree_splice:
  assumes "bytes_agree m x y" "off + length d \<le> length x"
  shows "bytes_agree m (splice off d x) (splice off d y)"
  using assms by (auto simp: bytes_agree_nth nth_splice)

lemma bytes_agree_full:
  assumes "length x = length m" "length y = length m" "n \<le> length m"
  shows "bytes_agree (splice 0 (replicate n 0xff) m) x y \<longleftrightarrow> take n x = take n y \<and> bytes_agree m x y" (is "?l \<longleftrightarrow> ?r")
proof -
  have "(0xff :: u8) = - 1" by simp
  then have ff: "z AND 0xff = z" for z :: u8 by (simp only: and.right_neutral)
  have n: "splice 0 (replicate n 0xff) m ! i = (if i < n then 0xff else m ! i)" if "i < length m" for i
    using assms that by (simp add: nth_splice)
  have t: "take n x = take n y \<longleftrightarrow> (\<forall>i<n. x ! i = y ! i)"
    using assms by (auto simp: list_eq_iff_nth_eq)
  show ?thesis unfolding t bytes_agree_nth using assms n ff by (auto split: if_splits)
qed

lemma of_le_ff:
  "of_le (replicate 4 0xff) = (- 1 :: u32)" "of_le (replicate 2 0xff) = (- 1 :: u16)"
  by (code_simp, code_simp)

lemma le_bytes_4_inj: "le_bytes 4 w = le_bytes 4 v \<longleftrightarrow> w = v" for w v :: u32
proof
  assume "le_bytes 4 w = le_bytes 4 v"
  then have "of_le (le_bytes 4 w) = (of_le (le_bytes 4 v) :: u32)" by (rule arg_cong)
  then show "w = v" by (subst (asm) (1 2) of_le_le_bytes) simp_all
qed simp

lemma key_agree_mask_attr:
  assumes "key_wf m" "key_wf k" "key_wf k'"
  shows "key_agree (mask_attr a m) k k' \<longleftrightarrow> key_agree m k k' \<and> key_get a k = key_get a k'"
proof (cases a)
  case OVS_KEY_ATTR_ETHERNET
  have f: "take 6 (replicate 12 (0xff :: u8)) = replicate 6 0xff" "drop 6 (replicate 12 (0xff :: u8)) = replicate 6 0xff"
    by simp_all
  have "splice 0 (replicate 6 0xff) b = replicate 6 0xff" if "length b = 6" for b using that by (simp add: splice_def)
  then have "bytes_agree (replicate 6 0xff) x y \<longleftrightarrow> x = y" if "length x = 6" "length y = 6" for x y
    using bytes_agree_full [of x "replicate 6 0" y 6] that by (auto simp: bytes_agree_nth)
  moreover have "length (eth_src k) = length (eth_src k')" using assms by (simp add: key_wf_def)
  ultimately show ?thesis using OVS_KEY_ATTR_ETHERNET assms by (auto simp: mask_attr_def key_agree_def f key_wf_def)
qed (use assms in \<open>auto simp: mask_attr_def key_agree_def of_le_ff word_agree_full key_wf_def bytes_agree_full slice_def le_bytes_2_inj le_bytes_4_inj\<close>)

subsection \<open>Agreement through the set-field actions\<close>

lemma bswap16_eq: "bswap16 w = drop_bit 8 w OR push_bit 8 w"
  by (rule bit_word_eqI) (auto simp: bswap16_def numeral_2_eq_2 bit_simps dest: bit_imp_le_length)

lemma bswap16_and: "bswap16 (v AND w) = bswap16 v AND bswap16 w"
  by (rule bit_word_eqI) (auto simp: bswap16_eq bit_simps dest: bit_imp_le_length)

lemma bswap16_or: "bswap16 (v OR w) = bswap16 v OR bswap16 w"
  by (rule bit_word_eqI) (auto simp: bswap16_eq bit_simps dest: bit_imp_le_length)

text \<open>Functions that act on each bit by itself keep an agreement.\<close>

lemma word_agree_bitwise: "word_agree m x y \<Longrightarrow> word_agree m ((x AND c) OR d) ((y AND c) OR d)"
  unfolding word_agree_def by (metis (no_types, opaque_lifting) and.left_commute and.commute bit.conj_disj_distrib)

lemma tci_bitwise:
  "VLAN_TCI v (VLAN_PCP t) OR VLAN_CFI_BIT = (t AND 0xe000) OR (v AND 0xfff OR VLAN_CFI_BIT)"
  "VLAN_TCI (VLAN_VID t) p OR VLAN_CFI_BIT = (t AND 0xfff) OR (push_bit 13 (p AND 7) OR VLAN_CFI_BIT)"
proof -
  have "push_bit 13 (drop_bit 13 t AND 7) = t AND 0xe000"
  proof (rule bit_word_eqI)
    fix n assume "n < LENGTH(16)"
    then have "n \<in> {0..<16}" by simp
    then show "bit (push_bit 13 (drop_bit 13 t AND 7)) n = bit (t AND 0xe000) n"
      by (auto simp: bit_simps atLeastLessThan_nat_numeral)
  qed
  then show "VLAN_TCI v (VLAN_PCP t) OR VLAN_CFI_BIT = (t AND 0xe000) OR (v AND 0xfff OR VLAN_CFI_BIT)"
    by (simp add: VLAN_TCI_def VLAN_PCP_def or.assoc)
  show "VLAN_TCI (VLAN_VID t) p OR VLAN_CFI_BIT = (t AND 0xfff) OR (push_bit 13 (p AND 7) OR VLAN_CFI_BIT)"
    by (simp add: VLAN_TCI_def VLAN_VID_def and.assoc or.assoc or.left_commute)
qed

lemma word_agree_tci:
  "word_agree m x y \<Longrightarrow> word_agree m (htons ((ntohs x AND c) OR d)) (htons ((ntohs y AND c) OR d))"
  by (simp add: bswap16_or bswap16_and word_agree_bitwise)

lemma bytes_agree_byte:
  assumes "bytes_agree m x y" "off < length x"
  shows "bytes_agree m (x[off := (x ! off AND c) OR d]) (y[off := (y ! off AND c) OR d])"
  using assms word_agree_bitwise [of "m ! off" "x ! off" "y ! off" c d]
  by (auto simp: bytes_agree_nth nth_list_update word_agree_def)

subsection \<open>Contexts that agree\<close>

definition mask_covers :: "ind_ovs_parsed_key \<Rightarrow> ind_ovs_parsed_key \<Rightarrow> bool" where
  "mask_covers M m \<longleftrightarrow> key_wf m \<and> (\<forall>k k'. key_wf k \<longrightarrow> key_wf k' \<longrightarrow> key_agree M k k' \<longrightarrow> key_agree m k k')"

definition ctx_covers :: "ind_ovs_parsed_key \<Rightarrow> action_context \<Rightarrow> bool" where
  "ctx_covers M c \<longleftrightarrow> (\<exists>m. ac_mask c = Some m \<and> mask_covers M m)"

text \<open>A step of the translation from \<open>c\<close> to \<open>d\<close> only adds to the mask.\<close>

definition ctx_grows :: "action_context \<Rightarrow> action_context \<Rightarrow> bool" where
  "ctx_grows c d \<longleftrightarrow> (\<forall>m. ac_mask c = Some m \<longrightarrow> key_wf m \<longrightarrow> (\<exists>m'. ac_mask d = Some m' \<and> mask_covers m' m \<and> key_wf m'))"

lemma mask_covers_refl [simp]: "mask_covers m m \<longleftrightarrow> key_wf m"
  by (auto simp: mask_covers_def)

lemma mask_covers_trans: "mask_covers M m \<Longrightarrow> mask_covers m m' \<Longrightarrow> mask_covers M m'"
  by (auto simp: mask_covers_def)

lemma ctx_grows_refl [simp]: "ctx_grows c c"
  by (simp add: ctx_grows_def)

lemma ctx_grows_trans: "ctx_grows c d \<Longrightarrow> ctx_grows d e \<Longrightarrow> ctx_grows c e"
  unfolding ctx_grows_def by (meson mask_covers_trans)

lemma ctx_grows_covers:
  assumes "ctx_grows c d" "ctx_covers M d" "ac_mask c = Some m" "key_wf m"
  shows "ctx_covers M c"
  using assms mask_covers_trans by (fastforce simp: ctx_grows_def ctx_covers_def)

lemma mask_attr_wf [simp]: "key_wf m \<Longrightarrow> key_wf (mask_attr a m)"
  by (simp add: mask_attr_def key_wf_put)

lemma mask_covers_attr: "key_wf m \<Longrightarrow> mask_covers (mask_attr a m) m"
  by (simp add: mask_covers_def key_agree_mask_attr)

lemma ac_mask_MASK [simp]: "ac_mask (MASK a c) = map_option (mask_attr a) (ac_mask c)"
  by (simp add: MASK_def)

lemma MASK_sel [simp]:
  "current_key (MASK a c) = current_key c" "modified_attrs (MASK a c) = modified_attrs c" "ac_msg (MASK a c) = ac_msg c"
  by (simp_all add: MASK_def)

lemma ctx_grows_eqI: "ac_mask d = ac_mask c \<Longrightarrow> ctx_grows c d"
  by (simp add: ctx_grows_def)

lemma ctx_grows_maskI: "ac_mask d = map_option (mask_attr a) (ac_mask c) \<Longrightarrow> ctx_grows c d"
  by (auto simp: ctx_grows_def mask_covers_attr)

lemma commit_field_grows: "ctx_grows c (commit_field a c)"
  by (auto simp: commit_field_def Let_def intro: ctx_grows_maskI)

lemma commit_vlan_grows: "ctx_grows c (commit_vlan c)"
  by (auto simp: commit_vlan_def Let_def intro: ctx_grows_maskI)

lemma fold_commit_field_grows: "ctx_grows c (fold commit_field as c)"
  by (induction as arbitrary: c) (auto intro: ctx_grows_trans commit_field_grows)

lemma commit_grows: "ctx_grows c (commit_set_field_actions c)"
proof -
  have "ctx_grows c (fold commit_field OVS_KEY_FIELDS (commit_vlan c))"
    using commit_vlan_grows fold_commit_field_grows by (rule ctx_grows_trans)
  then show ?thesis by (simp add: commit_set_field_actions_def ctx_grows_def)
qed

lemma set_attr_mask [simp]: "ac_mask (set_attr a f c) = ac_mask c"
  by (simp add: set_attr_def)

lemma set_tci_mask [simp]: "ac_mask (set_tci f c) = ac_mask c"
  by (simp add: set_tci_def Let_def split: prod.split)

lemma out_grows:
  assumes "ac_mask d = ac_mask (commit_set_field_actions c) \<or> ac_mask d = map_option (mask_attr a) (ac_mask (commit_set_field_actions c))"
  shows "ctx_grows c d"
  using assms ctx_grows_trans [OF commit_grows] ctx_grows_eqI ctx_grows_maskI by metis

lemma action_step_grows: "ctx_grows c (action_step op c)"
proof (cases op)
  case (SetVlanVid v) then show ?thesis by (auto simp: action_set_vlan_vid_def intro: ctx_grows_eqI)
next
  case (SetVlanPcp v) then show ?thesis by (auto simp: action_set_vlan_pcp_def intro: ctx_grows_eqI)
next
  case PushVlan then show ?thesis by (auto simp: action_push_vlan_def intro: ctx_grows_eqI)
next
  case (SetPriority v) then show ?thesis by (auto simp: action_set_priority_def intro: ctx_grows_eqI)
qed (auto simp: action_set_defs action_out_defs Let_def intro: ctx_grows_eqI out_grows [where a = OVS_KEY_ATTR_IN_PORT])

definition mask_wf :: "ind_ovs_parsed_key option \<Rightarrow> bool" where
  "mask_wf msk \<longleftrightarrow> (case msk of None \<Rightarrow> False | Some m \<Rightarrow> key_wf m)"

lemma mask_wf_Some [simp]: "mask_wf (Some m) \<longleftrightarrow> key_wf m"
  by (simp add: mask_wf_def)

lemma mask_wfE:
  assumes "mask_wf msk"
  obtains m where "msk = Some m" "key_wf m"
  using assms by (auto simp: mask_wf_def split: option.splits)

definition ctx_agree :: "ind_ovs_parsed_key \<Rightarrow> action_context \<Rightarrow> action_context \<Rightarrow> bool" where
  "ctx_agree M c d \<longleftrightarrow> key_agree M (current_key c) (current_key d) \<and> key_wf (current_key c) \<and> key_wf (current_key d) \<and>
     ac_mask c = ac_mask d \<and> mask_wf (ac_mask c) \<and> modified_attrs c = modified_attrs d \<and> ac_msg c = ac_msg d"

lemma ctx_agree_populated: "ctx_agree M c d \<Longrightarrow> populated (current_key c) = populated (current_key d)"
  by (simp add: ctx_agree_def key_agree_def)

lemma ctx_agree_mask:
  assumes "ctx_agree M c d"
  obtains m where "ac_mask c = Some m" "ac_mask d = Some m" "key_wf m"
  using assms mask_wfE unfolding ctx_agree_def by metis

lemma ctx_grows_mask:
  assumes "ctx_grows c e" "ctx_agree M c d"
  obtains m where "ac_mask e = Some m" "key_wf m"
  using assms(1) ctx_agree_mask [OF assms(2)] unfolding ctx_grows_def by metis

text \<open>The bytes of a masked attribute are the same on both sides.\<close>

lemma masked_attr_eq:
  assumes "ctx_agree M c d" "ac_mask c = Some m" "mask_covers M (mask_attr a m)"
  shows "key_get a (current_key c) = key_get a (current_key d)"
  using assms key_agree_mask_attr [of m "current_key c" "current_key d" a] by (auto simp: ctx_agree_def mask_covers_def)

lemma commit_field_agree:
  assumes "ctx_agree M c d" "ctx_covers M (commit_field a c)"
  shows "ctx_agree M (commit_field a c) (commit_field a d)"
proof (cases "ATTR_BITMAP_TEST (modified_attrs c) a")
  case True
  obtain m where m: "ac_mask c = Some m" "ac_mask d = Some m" "key_wf m" using ctx_agree_mask [OF assms(1)] .
  then have "mask_covers M (mask_attr a m)" using assms(2) True by (simp add: commit_field_def Let_def ctx_covers_def)
  then have "key_get a (current_key c) = key_get a (current_key d)" by (rule masked_attr_eq [OF assms(1) m(1)])
  then show ?thesis using assms(1) True m by (simp add: commit_field_def Let_def ctx_agree_def)
qed (use assms in \<open>auto simp: commit_field_def ctx_agree_def\<close>)

lemma commit_vlan_agree:
  assumes "ctx_agree M c d" "ctx_covers M (commit_vlan c)"
  shows "ctx_agree M (commit_vlan c) (commit_vlan d)"
proof (cases "ATTR_BITMAP_TEST (modified_attrs c) OVS_KEY_ATTR_VLAN")
  case True
  obtain m where m: "ac_mask c = Some m" "ac_mask d = Some m" "key_wf m" using ctx_agree_mask [OF assms(1)] .
  then have "mask_covers M (mask_attr OVS_KEY_ATTR_VLAN m)" using assms(2) True by (simp add: commit_vlan_def Let_def ctx_covers_def)
  then have "pk_vlan (current_key c) = pk_vlan (current_key d)" using masked_attr_eq [OF assms(1) m(1)] le_bytes_2_inj by fastforce
  then show ?thesis using assms(1) True m ctx_agree_populated [OF assms(1)] by (simp add: commit_vlan_def Let_def ctx_agree_def)
qed (use assms in \<open>auto simp: commit_vlan_def ctx_agree_def\<close>)

lemma fold_commit_field_agree:
  assumes "ctx_agree M c d" "ctx_covers M (fold commit_field as c)"
  shows "ctx_agree M (fold commit_field as c) (fold commit_field as d)"
  using assms
proof (induction as arbitrary: c d)
  case (Cons a as)
  obtain m where "ac_mask (commit_field a c) = Some m" "key_wf m"
    by (rule ctx_grows_mask [OF commit_field_grows Cons.prems(1)])
  then have "ctx_covers M (commit_field a c)"
    using ctx_grows_covers [OF fold_commit_field_grows] Cons.prems(2) by simp
  then show ?case using Cons commit_field_agree by simp
qed simp

lemma commit_agree:
  assumes "ctx_agree M c d" "ctx_covers M (commit_set_field_actions c)"
  shows "ctx_agree M (commit_set_field_actions c) (commit_set_field_actions d)"
proof (cases "modified_attrs c = 0")
  case False
  let ?f = "fold commit_field OVS_KEY_FIELDS"
  have c: "ctx_covers M (?f (commit_vlan c))" using assms(2) False by (simp add: commit_set_field_actions_def ctx_covers_def)
  obtain m where "ac_mask (commit_vlan c) = Some m" "key_wf m"
    by (rule ctx_grows_mask [OF commit_vlan_grows assms(1)])
  then have "ctx_covers M (commit_vlan c)" using ctx_grows_covers [OF fold_commit_field_grows c] by simp
  then have "ctx_agree M (?f (commit_vlan c)) (?f (commit_vlan d))"
    using fold_commit_field_agree [OF commit_vlan_agree [OF assms(1)] c] by simp
  moreover have "modified_attrs d \<noteq> 0" using False assms(1) by (simp add: ctx_agree_def)
  ultimately show ?thesis using False by (auto simp: commit_set_field_actions_def ctx_agree_def)
qed (use assms in \<open>auto simp: commit_set_field_actions_def ctx_agree_def\<close>)

text \<open>Functions on keys that keep every agreement, such as the writes of the setters.\<close>

definition keeps_agree :: "(ind_ovs_parsed_key \<Rightarrow> ind_ovs_parsed_key) \<Rightarrow> bool" where
  "keeps_agree f \<longleftrightarrow> (\<forall>M k k'. key_agree M k k' \<longrightarrow> key_wf k \<longrightarrow> key_wf k' \<longrightarrow> key_agree M (f k) (f k') \<and> key_wf (f k))"

lemma key_agree_sym: "key_agree M k k' \<longleftrightarrow> key_agree M k' k"
  by (auto simp: key_agree_def word_agree_def bytes_agree_nth)

lemma set_attr_agree: "keeps_agree f \<Longrightarrow> ctx_agree M c d \<Longrightarrow> ctx_agree M (set_attr a f c) (set_attr a f d)"
  using ctx_agree_populated [of M c d] unfolding keeps_agree_def ctx_agree_def set_attr_def
  by (auto dest: key_agree_sym [THEN iffD1])

lemma keeps_agree_writes [intro]:
  "length a = 6 \<Longrightarrow> keeps_agree (\<lambda>k. k\<lparr>eth_dst := splice 0 a (eth_dst k)\<rparr>)"
  "length a = 6 \<Longrightarrow> keeps_agree (\<lambda>k. k\<lparr>eth_src := splice 0 a (eth_src k)\<rparr>)"
  "keeps_agree (\<lambda>k. k\<lparr>eth_dst := splice 0 (le_bytes 2 h) (splice 2 (le_bytes 4 l) (eth_dst k))\<rparr>)"
  "keeps_agree (\<lambda>k. k\<lparr>eth_src := splice 0 (le_bytes 2 h) (splice 2 (le_bytes 4 l) (eth_src k))\<rparr>)"
  "keeps_agree (\<lambda>k. k\<lparr>populated := ATTR_BITMAP_CLEAR (populated k) b\<rparr>)"
  "off + length x \<le> 40 \<Longrightarrow> keeps_agree (put_net off x)"
  "off + length x \<le> 24 \<Longrightarrow> keeps_agree (put_tp off x)"
  "off < 40 \<Longrightarrow> keeps_agree (upd_net_byte off (\<lambda>t. (t AND u) OR v))"
  unfolding keeps_agree_def put_net_def put_tp_def upd_net_byte_def
  by (simp_all add: key_agree_def key_wf_def bytes_agree_splice bytes_agree_byte)

lemma set_tci_agree:
  assumes "ctx_agree M c d"
  shows "ctx_agree M (set_tci (\<lambda>t. (t AND u) OR v) c) (set_tci (\<lambda>t. (t AND u) OR v) d)"
  using assms ctx_agree_populated [OF assms] word_agree_tci
  by (auto simp: set_tci_def Let_def ctx_agree_def key_agree_def key_wf_def)

text \<open>An output: the attributes it appends after the commit are the same on both sides.\<close>

lemma out_agree:
  assumes "ctx_agree M c d" "ctx_covers M (g (commit_set_field_actions c))" "\<And>e. ctx_grows e (g e)"
    and "\<And>c d. ctx_agree M c d \<Longrightarrow> ctx_covers M (g c) \<Longrightarrow> ctx_agree M (g c) (g d)"
  shows "ctx_agree M (g (commit_set_field_actions c)) (g (commit_set_field_actions d))"
proof -
  obtain m where "ac_mask (commit_set_field_actions c) = Some m" "key_wf m"
    by (rule ctx_grows_mask [OF commit_grows assms(1)])
  then have "ctx_covers M (commit_set_field_actions c)" using ctx_grows_covers assms(2,3) by blast
  then show ?thesis using commit_agree [OF assms(1)] assms(2,4) by blast
qed

lemma append_agree: "ctx_agree M c d \<Longrightarrow> ctx_agree M (c\<lparr>ac_msg := ac_msg c @ x\<rparr>) (d\<lparr>ac_msg := ac_msg d @ x\<rparr>)"
  by (auto simp: ctx_agree_def)

lemma MASK_agree: "ctx_agree M c d \<Longrightarrow> ctx_agree M (MASK a c) (MASK a d)"
  using mask_wfE [of "ac_mask c"] by (fastforce simp: ctx_agree_def)

lemma append_grows: "ctx_grows c (c\<lparr>ac_msg := x\<rparr>)" "ctx_grows c (MASK a (c\<lparr>ac_msg := x\<rparr>))"
  by (auto intro: ctx_grows_eqI ctx_grows_maskI)

lemma out_append_agree:
  assumes "ctx_agree M c d"
  shows "ctx_covers M (commit_set_field_actions c) \<Longrightarrow> ctx_agree M
      ((commit_set_field_actions c)\<lparr>ac_msg := ac_msg (commit_set_field_actions c) @ x\<rparr>)
      ((commit_set_field_actions d)\<lparr>ac_msg := ac_msg (commit_set_field_actions d) @ x\<rparr>)"
    "ctx_covers M (MASK a (commit_set_field_actions c)) \<Longrightarrow> ctx_agree M
      (MASK a ((commit_set_field_actions c)\<lparr>ac_msg := ac_msg (commit_set_field_actions c) @ x\<rparr>))
      (MASK a ((commit_set_field_actions d)\<lparr>ac_msg := ac_msg (commit_set_field_actions d) @ x\<rparr>))"
  using out_agree [OF assms, of "\<lambda>e. e\<lparr>ac_msg := ac_msg e @ x\<rparr>"]
    out_agree [OF assms, of "\<lambda>e. MASK a (e\<lparr>ac_msg := ac_msg e @ x\<rparr>)"]
  by (auto simp: ctx_covers_def append_grows append_agree intro: MASK_agree append_agree)

lemma output_in_port_agree:
  assumes "ctx_agree M c d" "ctx_covers M (action_output_in_port c)"
  shows "ctx_agree M (action_output_in_port c) (action_output_in_port d)"
proof -
  let ?g = "\<lambda>e. MASK OVS_KEY_ATTR_IN_PORT (e\<lparr>ac_msg := nla_put_u32 (ac_msg e) OVS_ACTION_ATTR_OUTPUT (pk_in_port (current_key e))\<rparr>)"
  have "ctx_agree M (?g c) (?g d)" if a: "ctx_agree M c d" and v: "ctx_covers M (?g c)" for c d
  proof -
    obtain m where "ac_mask c = Some m" using ctx_agree_mask [OF a] .
    then have "pk_in_port (current_key c) = pk_in_port (current_key d)"
      using masked_attr_eq [OF a, of m OVS_KEY_ATTR_IN_PORT] v le_bytes_4_inj by (fastforce simp: ctx_covers_def)
    then show ?thesis using a by (auto intro: MASK_agree simp: nla_put_u32_def nla_put_def append_agree)
  qed
  then show ?thesis using out_agree [OF assms(1), of ?g] assms(2) append_grows by (simp add: action_output_in_port_def Let_def)
qed

lemma action_step_agree:
  assumes "ctx_agree M c d" "action_op_ok op" "ctx_covers M (action_step op c)"
  shows "ctx_agree M (action_step op c) (action_step op d)"
proof (cases op)
  case (SetVlanVid v) then show ?thesis using set_tci_agree [OF assms(1)] by (simp add: action_set_vlan_vid_def tci_bitwise)
next
  case (SetVlanPcp v) then show ?thesis using set_tci_agree [OF assms(1)] by (simp add: action_set_vlan_pcp_def tci_bitwise)
next
  case PushVlan then show ?thesis
    using assms(1) by (auto simp: action_push_vlan_def ctx_agree_def key_agree_def key_wf_def)
next
  case (SetPriority v) then show ?thesis
    using assms(1) by (auto simp: action_set_priority_def ctx_agree_def key_agree_def key_wf_def)
next
  case OutputInPort then show ?thesis using output_in_port_agree assms by simp
qed (use assms in \<open>auto simp: action_set_defs action_out_defs Let_def nla_put_u32_def nla_put_def nla_put_flag_def
    nla_nest_start_def nla_nest_end_def ctx_covers_def intro!: set_attr_agree keeps_agree_writes out_append_agree\<close>)

lemma actions_agree:
  assumes "ctx_agree M c d" "list_all action_op_ok ops" "ctx_covers M (fold action_step ops c)"
  shows "ctx_agree M (fold action_step ops c) (fold action_step ops d)"
  using assms
proof (induction ops arbitrary: c d)
  case (Cons op ops)
  have g: "ctx_grows e (fold action_step ops e)" for e
    by (induction ops arbitrary: e) (auto intro: ctx_grows_trans action_step_grows)
  obtain m where "ac_mask (action_step op c) = Some m" "key_wf m"
    by (rule ctx_grows_mask [OF action_step_grows Cons.prems(1)])
  then have "ctx_covers M (action_step op c)" using ctx_grows_covers [OF g] Cons.prems(3) by simp
  then show ?case using Cons action_step_agree by simp
qed simp

lemma ctx_agree_init:
  "key_agree M k k' \<Longrightarrow> key_wf k \<Longrightarrow> key_wf k' \<Longrightarrow> key_wf m \<Longrightarrow>
    ctx_agree M (action_context_init k (Some m) msg) (action_context_init k' (Some m) msg)"
  by (simp add: ctx_agree_def action_context_init_def)


definition demo_ops :: "action_op list" where
  "demo_ops = [SetIpv4Dst 0x0a000003, SetVlanVid 7, Output 4, SetTcpSrc 443, OutputInPort]"


subsection \<open>What the kernel does with the actions\<close>

text \<open>
  The datapath is external: the effect of the header-changing actions on the key of a packet is a
  parameter, with the behaviour that \<open>openvswitch.h\<close> documents as \<open>datapath_ok\<close>.
\<close>

record datapath =
  dp_set :: "nat \<Rightarrow> bytes \<Rightarrow> ind_ovs_parsed_key \<Rightarrow> ind_ovs_parsed_key"
  dp_push_vlan :: "bytes \<Rightarrow> ind_ovs_parsed_key \<Rightarrow> ind_ovs_parsed_key"
  dp_pop_vlan :: "ind_ovs_parsed_key \<Rightarrow> ind_ovs_parsed_key"

definition datapath_ok :: "datapath \<Rightarrow> bool" where
  "datapath_ok dp \<longleftrightarrow>
     (\<forall>a d k. key_wf k \<longrightarrow> length d = attr_size a \<longrightarrow> dp_set dp (attr_code a) d k = key_put a d k) \<and>
     (\<forall>tci k. \<not> ATTR_BITMAP_TEST (populated k) OVS_KEY_ATTR_VLAN \<longrightarrow>
        dp_push_vlan dp (ovs_action_push_vlan (htons ETH_P_8021Q) tci) k =
          k\<lparr>pk_vlan := tci, populated := ATTR_BITMAP_SET (populated k) OVS_KEY_ATTR_VLAN\<rparr>) \<and>
     (\<forall>k. dp_pop_vlan dp k = k\<lparr>populated := ATTR_BITMAP_CLEAR (populated k) OVS_KEY_ATTR_VLAN\<rparr>)"

datatype dp_output = DpPort u32 ind_ovs_parsed_key | DpUserspace "nla list" ind_ovs_parsed_key
  | DpSample "nla list" ind_ovs_parsed_key

fun dp_action :: "datapath \<Rightarrow> nla \<Rightarrow> ind_ovs_parsed_key \<Rightarrow> dp_output list \<times> ind_ovs_parsed_key" where
  "dp_action dp (Nla t d) k =
     (if t = OVS_ACTION_ATTR_OUTPUT then ([DpPort (of_le d) k], k)
      else if t = OVS_ACTION_ATTR_PUSH_VLAN then ([], dp_push_vlan dp d k)
      else if t = OVS_ACTION_ATTR_POP_VLAN then ([], dp_pop_vlan dp k)
      else ([], k))"
| "dp_action dp (NlaNest t as) k =
     (if t = OVS_ACTION_ATTR_SET then (case as of [Nla a d] \<Rightarrow> ([], dp_set dp (unat a) d k) | _ \<Rightarrow> ([], k))
      else if t = OVS_ACTION_ATTR_USERSPACE then ([DpUserspace as k], k)
      else if t = OVS_ACTION_ATTR_SAMPLE then ([DpSample as k], k)
      else ([], k))"

fun dp_exec :: "datapath \<Rightarrow> nla list \<Rightarrow> ind_ovs_parsed_key \<Rightarrow> dp_output list \<times> ind_ovs_parsed_key" where
  "dp_exec dp [] k = ([], k)"
| "dp_exec dp (a # as) k =
     (let (out, k) = dp_action dp a k; (outs, k) = dp_exec dp as k in (out @ outs, k))"

lemma dp_exec_append:
  "dp_exec dp (as @ bs) k = (let (o1, k1) = dp_exec dp as k; (o2, k2) = dp_exec dp bs k1 in (o1 @ o2, k2))"
  by (induction as arbitrary: k) (simp_all split: prod.split)

text \<open>The packet on the wire: the tag of an untagged packet means nothing.\<close>

definition wire :: "ind_ovs_parsed_key \<Rightarrow> ind_ovs_parsed_key" where
  "wire k = (if ATTR_BITMAP_TEST (populated k) OVS_KEY_ATTR_VLAN then k else k\<lparr>pk_vlan := 0\<rparr>)"

primrec wire_out :: "dp_output \<Rightarrow> dp_output" where
  "wire_out (DpPort p k) = DpPort p (wire k)"
| "wire_out (DpUserspace as k) = DpUserspace as (wire k)"
| "wire_out (DpSample as k) = DpSample as (wire k)"

text \<open>What an action sends when every set-field action takes effect at once.\<close>

definition userspace_attrs :: "bytes \<Rightarrow> u32 \<Rightarrow> nla list" where
  "userspace_attrs d pid = [Nla OVS_USERSPACE_ATTR_PID (le_bytes 4 pid), Nla OVS_USERSPACE_ATTR_USERDATA d]"

fun action_sends :: "action_op \<Rightarrow> ind_ovs_parsed_key \<Rightarrow> dp_output list" where
  "action_sends (Output p) k = [DpPort p (wire k)]"
| "action_sends OutputLocal k = [DpPort OVSP_LOCAL (wire k)]"
| "action_sends OutputInPort k = [DpPort (pk_in_port k) (wire k)]"
| "action_sends (Userspace d p) k = [DpUserspace (userspace_attrs d p) (wire k)]"
| "action_sends (Sample d p n) k = [DpSample [Nla OVS_SAMPLE_ATTR_PROBABILITY (le_bytes 4 n),
     NlaNest OVS_SAMPLE_ATTR_ACTIONS [NlaNest OVS_ACTION_ATTR_USERSPACE (userspace_attrs d p)]] (wire k)]"
| "action_sends _ k = []"

fun actions_send :: "action_op list \<Rightarrow> action_context \<Rightarrow> dp_output list" where
  "actions_send [] ctx = []"
| "actions_send (op # ops) ctx = action_sends op (current_key ctx) @ actions_send ops (action_step op ctx)"

fun action_raw :: "action_op \<Rightarrow> bool" where
  "action_raw PopVlanRaw \<longleftrightarrow> True"
| "action_raw (PushVlanRaw v) \<longleftrightarrow> True"
| "action_raw _ \<longleftrightarrow> False"

subsection \<open>Pending changes\<close>

text \<open>
  \<open>pend M p c\<close>: the packet \<open>p\<close> in the datapath is the translated key \<open>c\<close> outside of the attributes
  in \<open>M\<close> that are still to be written.
\<close>

definition pend :: "u64 \<Rightarrow> ind_ovs_parsed_key \<Rightarrow> ind_ovs_parsed_key \<Rightarrow> bool" where
  "pend M p c \<longleftrightarrow> key_wf p \<and> key_wf c \<and>
     (\<forall>a. ATTR_BITMAP_TEST M a \<longrightarrow> a \<in> {OVS_KEY_ATTR_PRIORITY, OVS_KEY_ATTR_ETHERNET, OVS_KEY_ATTR_VLAN, OVS_KEY_ATTR_IPV4,
        OVS_KEY_ATTR_IPV6, OVS_KEY_ATTR_TCP, OVS_KEY_ATTR_UDP}) \<and>
     ATTR_BITMAP_CLEAR (populated p) OVS_KEY_ATTR_VLAN = ATTR_BITMAP_CLEAR (populated c) OVS_KEY_ATTR_VLAN \<and>
     (ATTR_BITMAP_TEST M OVS_KEY_ATTR_PRIORITY \<or> pk_priority p = pk_priority c) \<and> pk_in_port p = pk_in_port c \<and>
     (ATTR_BITMAP_TEST M OVS_KEY_ATTR_ETHERNET \<or> eth_src p = eth_src c \<and> eth_dst p = eth_dst c) \<and>
     (ATTR_BITMAP_TEST M OVS_KEY_ATTR_VLAN \<or> populated p = populated c \<and>
        (ATTR_BITMAP_TEST (populated c) OVS_KEY_ATTR_VLAN \<longrightarrow> pk_vlan p = pk_vlan c)) \<and>
     pk_ethertype p = pk_ethertype c \<and>
     (ATTR_BITMAP_TEST M OVS_KEY_ATTR_IPV6 \<or> drop 12 (pk_net p) = drop 12 (pk_net c) \<and>
       (ATTR_BITMAP_TEST M OVS_KEY_ATTR_IPV4 \<or> take 12 (pk_net p) = take 12 (pk_net c))) \<and>
     drop 4 (pk_tp p) = drop 4 (pk_tp c) \<and>
     (ATTR_BITMAP_TEST M OVS_KEY_ATTR_TCP \<or> ATTR_BITMAP_TEST M OVS_KEY_ATTR_UDP \<or> take 4 (pk_tp p) = take 4 (pk_tp c)) \<and>
     pk_tcp_flags p = pk_tcp_flags c \<and> tun_id p = tun_id c \<and> tun_ipv4_src p = tun_ipv4_src c \<and>
     tun_ipv4_dst p = tun_ipv4_dst c \<and> tun_tos p = tun_tos c \<and> tun_ttl p = tun_ttl c"

lemma take_drop_eq: "take n x = take n y \<Longrightarrow> drop n x = drop n y \<Longrightarrow> x = y"
  by (metis append_take_drop_id)

lemma pend_wire:
  assumes "pend 0 p c"
  shows "wire p = wire c"
proof -
  have "pk_net p = pk_net c" using assms unfolding pend_def by (metis take_drop_eq ATTR_BITMAP_simps(3))
  moreover have "pk_tp p = pk_tp c" using assms unfolding pend_def by (metis take_drop_eq ATTR_BITMAP_simps(3))
  moreover have "ATTR_BITMAP_TEST (populated c) OVS_KEY_ATTR_VLAN \<Longrightarrow> pk_vlan p = pk_vlan c" "populated p = populated c"
    using assms by (simp_all add: pend_def)
  ultimately show ?thesis using assms unfolding pend_def wire_def by (intro ind_ovs_parsed_key.equality) simp_all
qed

text \<open>The effect of the commit on the packet.\<close>

definition sync_attr :: "u64 \<Rightarrow> ind_ovs_parsed_key \<Rightarrow> ovs_key_attr \<Rightarrow> ind_ovs_parsed_key \<Rightarrow> ind_ovs_parsed_key" where
  "sync_attr M c a p = (if ATTR_BITMAP_TEST M a then key_put a (key_get a c) p else p)"

lemma pend_sync:
  assumes "pend M p c" "a \<noteq> OVS_KEY_ATTR_VLAN"
  shows "pend (ATTR_BITMAP_CLEAR M a) (sync_attr M c a p) c"
proof (cases "ATTR_BITMAP_TEST M a")
  case True
  then have "a \<in> {OVS_KEY_ATTR_PRIORITY, OVS_KEY_ATTR_ETHERNET, OVS_KEY_ATTR_IPV4,
        OVS_KEY_ATTR_IPV6, OVS_KEY_ATTR_TCP, OVS_KEY_ATTR_UDP}" using assms by (auto simp: pend_def)
  moreover have "key_wf (sync_attr M c a p)" using assms by (auto simp: sync_attr_def pend_def key_wf_put length_key_get)
  ultimately show ?thesis using assms True
    by (cases a) (auto simp: pend_def sync_attr_def key_wf_def splice_def slice_def)
next
  case False
  then have "ATTR_BITMAP_TEST (ATTR_BITMAP_CLEAR M a) b = ATTR_BITMAP_TEST M b" for b by auto
  then show ?thesis using assms False by (simp add: pend_def sync_attr_def)
qed

text \<open>A piece of a message sends \<open>outs\<close> and takes the packet from \<open>p\<close> to \<open>p'\<close>.\<close>

definition dp_sends :: "datapath \<Rightarrow> nl_call list \<Rightarrow> dp_output list \<Rightarrow> ind_ovs_parsed_key \<Rightarrow> ind_ovs_parsed_key \<Rightarrow> bool" where
  "dp_sends dp cs outs p p' \<longleftrightarrow> (\<exists>as o'. nl_emits cs as \<and> dp_exec dp as p = (o', p') \<and> map wire_out o' = outs)"

lemma dp_sends_Nil: "dp_sends dp [] [] p p"
  unfolding dp_sends_def by (rule exI [of _ "[]"]) auto

lemma dp_sends_append: "dp_sends dp cs o1 p p1 \<Longrightarrow> dp_sends dp ds o2 p1 p2 \<Longrightarrow> dp_sends dp (cs @ ds) (o1 @ o2) p p2"
  unfolding dp_sends_def
proof (elim exE conjE)
  fix as bs oa ob
  assume "nl_emits cs as" "nl_emits ds bs" "dp_exec dp as p = (oa, p1)" "map wire_out oa = o1"
    "dp_exec dp bs p1 = (ob, p2)" "map wire_out ob = o2"
  then show "\<exists>as o'. nl_emits (cs @ ds) as \<and> dp_exec dp as p = (o', p2) \<and> map wire_out o' = o1 @ o2"
    by (intro exI [of _ "as @ bs"] exI [of _ "oa @ ob"]) (auto simp: dp_exec_append)
qed

lemma dp_sends_put: "dp_action dp (Nla t d) p = (o', p') \<Longrightarrow> dp_sends dp [NlaPut t d] (map wire_out o') p p'"
  unfolding dp_sends_def by (intro exI [of _ "[Nla t d]"] exI [of _ o']) auto

lemma dp_sends_nest:
  "nl_emits cs as \<Longrightarrow> dp_action dp (NlaNest t as) p = (o', p') \<Longrightarrow>
    dp_sends dp (NlaNestStart t # cs @ [NlaNestEnd]) (map wire_out o') p p'"
  unfolding dp_sends_def by (intro exI [of _ "[NlaNest t as]"] exI [of _ o']) auto

subsection \<open>The commit brings the packet up to date\<close>

definition ctx_sim :: "datapath \<Rightarrow> ind_ovs_parsed_key \<Rightarrow> dp_output list \<Rightarrow> action_context \<Rightarrow> bool" where
  "ctx_sim dp k0 outs c \<longleftrightarrow> (\<exists>p. dp_sends dp (ac_msg c) outs k0 p \<and> pend (modified_attrs c) p (current_key c))"

lemma ATTR_BITMAP_CLEAR_idem: "\<not> ATTR_BITMAP_TEST M a \<Longrightarrow> ATTR_BITMAP_CLEAR M a = M"
proof (rule bit_word_eqI)
  fix n assume "\<not> ATTR_BITMAP_TEST M a" "n < LENGTH(64)"
  then show "bit (ATTR_BITMAP_CLEAR M a) n = bit M n"
    by (auto simp: ATTR_BITMAP_TEST_bit ATTR_BITMAP_CLEAR_def bit_and_iff bit_not_iff bit_exp_iff)
qed

lemma ATTR_BITMAP_SET_CLEAR: "ATTR_BITMAP_TEST M a \<Longrightarrow> ATTR_BITMAP_SET (ATTR_BITMAP_CLEAR M a) a = M"
proof (rule bit_word_eqI)
  fix n assume "ATTR_BITMAP_TEST M a" "n < LENGTH(64)"
  then show "bit (ATTR_BITMAP_SET (ATTR_BITMAP_CLEAR M a) a) n = bit M n"
    by (auto simp: ATTR_BITMAP_TEST_bit ATTR_BITMAP_CLEAR_def ATTR_BITMAP_SET_def bit_and_iff bit_or_iff bit_not_iff bit_exp_iff)
qed

text \<open>The context after the field code of \<open>a\<close>, seen as if the bit were cleared at once.\<close>

lemma commit_field_sim:
  assumes "datapath_ok dp" "dp_sends dp (ac_msg c) outs k0 p" "pend M p (current_key c)"
    and "\<not> ATTR_BITMAP_TEST (modified_attrs c) OVS_KEY_ATTR_VLAN"
    and "ATTR_BITMAP_TEST M a \<longleftrightarrow> ATTR_BITMAP_TEST (modified_attrs c) a" "\<not> ATTR_BITMAP_TEST M OVS_KEY_ATTR_VLAN"
  shows "\<exists>p'. dp_sends dp (ac_msg (commit_field a c)) outs k0 p' \<and> pend (ATTR_BITMAP_CLEAR M a) p' (current_key c)"
proof (cases "ATTR_BITMAP_TEST (modified_attrs c) a")
  case True
  let ?k = "current_key c"
  have a: "a \<noteq> OVS_KEY_ATTR_VLAN" using True assms(4) by auto
  have wf: "key_wf p" "key_wf ?k" using assms(3) by (auto simp: pend_def)
  have "dp_action dp (NlaNest OVS_ACTION_ATTR_SET [Nla (of_nat (attr_code a)) (key_get a ?k)]) p = ([], sync_attr M ?k a p)"
    using assms(1,5) True wf by (simp add: ovs_action_defs datapath_ok_def sync_attr_def length_key_get del: attr_code.simps)
  then have "dp_sends dp (NlaNestStart OVS_ACTION_ATTR_SET # [NlaPut (of_nat (attr_code a)) (key_get a ?k)] @ [NlaNestEnd]) []
      p (sync_attr M ?k a p)"
    using dp_sends_nest [OF nl_emits_put] by fastforce
  then have "dp_sends dp (ac_msg (commit_field a c)) outs k0 (sync_attr M ?k a p)"
    using dp_sends_append [OF assms(2)] True
    by (fastforce simp: commit_field_def Let_def nla_put_def nla_nest_start_def nla_nest_end_def)
  then show ?thesis using pend_sync [OF assms(3) a] by blast
next
  case False
  then show ?thesis using assms ATTR_BITMAP_CLEAR_idem [of M a] by (auto simp: commit_field_def)
qed

lemma commit_field_sel [simp]:
  "current_key (commit_field a c) = current_key c" "modified_attrs (commit_field a c) = modified_attrs c"
  by (simp_all add: commit_field_def Let_def)

lemma commit_fields_sim:
  assumes "datapath_ok dp" "distinct as" "dp_sends dp (ac_msg c) outs k0 p" "pend M p (current_key c)"
    and "\<not> ATTR_BITMAP_TEST (modified_attrs c) OVS_KEY_ATTR_VLAN" "\<not> ATTR_BITMAP_TEST M OVS_KEY_ATTR_VLAN"
    and "\<forall>a \<in> set as. ATTR_BITMAP_TEST M a \<longleftrightarrow> ATTR_BITMAP_TEST (modified_attrs c) a"
  shows "\<exists>p'. dp_sends dp (ac_msg (fold commit_field as c)) outs k0 p' \<and>
    pend (fold (\<lambda>a M. ATTR_BITMAP_CLEAR M a) as M) p' (current_key c)"
  using assms(2-)
proof (induction as arbitrary: c p M)
  case (Cons a as)
  obtain p' where "dp_sends dp (ac_msg (commit_field a c)) outs k0 p'" "pend (ATTR_BITMAP_CLEAR M a) p' (current_key c)"
    using commit_field_sim [OF assms(1) Cons.prems(2-4)] Cons.prems(5,6) by auto
  then show ?case using Cons.IH [of "commit_field a c" p' "ATTR_BITMAP_CLEAR M a"] Cons.prems by auto
qed auto

lemma clear_all: "(\<forall>a. ATTR_BITMAP_TEST M a \<longrightarrow> False) \<Longrightarrow> pend M p c \<Longrightarrow> pend 0 p c"
  by (auto simp: pend_def)

lemma commit_vlan_sim:
  assumes "datapath_ok dp" "ctx_sim dp k0 outs c"
  shows "ctx_sim dp k0 outs (commit_vlan c) \<and> \<not> ATTR_BITMAP_TEST (modified_attrs (commit_vlan c)) OVS_KEY_ATTR_VLAN"
proof (cases "ATTR_BITMAP_TEST (modified_attrs c) OVS_KEY_ATTR_VLAN")
  case True
  let ?k = "current_key c" and ?M = "modified_attrs c"
  obtain p where p: "dp_sends dp (ac_msg c) outs k0 p" "pend ?M p ?k" using assms(2) by (auto simp: ctx_sim_def)
  let ?q = "p\<lparr>populated := ATTR_BITMAP_CLEAR (populated p) OVS_KEY_ATTR_VLAN\<rparr>"
  let ?r = "?q\<lparr>pk_vlan := pk_vlan ?k, populated := ATTR_BITMAP_SET (populated ?q) OVS_KEY_ATTR_VLAN\<rparr>"
  have pop: "dp_sends dp [NlaPut OVS_ACTION_ATTR_POP_VLAN []] [] p ?q"
    using dp_sends_put [of dp OVS_ACTION_ATTR_POP_VLAN "[]" p "[]" ?q] assms(1) by (simp add: ovs_action_defs datapath_ok_def)
  have push: "dp_sends dp [NlaPut OVS_ACTION_ATTR_PUSH_VLAN (ovs_action_push_vlan (htons ETH_P_8021Q) (pk_vlan ?k))] [] ?q ?r"
    using dp_sends_put [of dp OVS_ACTION_ATTR_PUSH_VLAN _ ?q "[]" ?r] assms(1) by (simp add: ovs_action_defs datapath_ok_def)
  show ?thesis
  proof (cases "ATTR_BITMAP_TEST (populated ?k) OVS_KEY_ATTR_VLAN")
    case pv: True
    have "populated ?r = populated ?k" using p(2) ATTR_BITMAP_SET_CLEAR [OF pv] by (simp add: pend_def)
    then have "pend (ATTR_BITMAP_CLEAR ?M OVS_KEY_ATTR_VLAN) ?r ?k" using p(2) by (simp add: pend_def key_wf_def)
    moreover have "dp_sends dp (ac_msg (commit_vlan c)) outs k0 ?r"
      using dp_sends_append [OF p(1) dp_sends_append [OF pop push]] True pv
      by (simp add: commit_vlan_def Let_def nla_put_def nla_put_flag_def)
    ultimately show ?thesis using True by (auto simp: ctx_sim_def commit_vlan_def Let_def)
  next
    case False
    then have "populated ?q = populated ?k" using p(2) ATTR_BITMAP_CLEAR_idem [OF False] by (simp add: pend_def)
    then have "pend (ATTR_BITMAP_CLEAR ?M OVS_KEY_ATTR_VLAN) ?q ?k" using p(2) False by (simp add: pend_def key_wf_def)
    moreover have "dp_sends dp (ac_msg (commit_vlan c)) outs k0 ?q"
      using dp_sends_append [OF p(1) pop] True False
      by (simp add: commit_vlan_def Let_def nla_put_def nla_put_flag_def)
    ultimately show ?thesis using True by (auto simp: ctx_sim_def commit_vlan_def Let_def)
  qed
qed (use assms in \<open>simp add: commit_vlan_def\<close>)

lemma commit_vlan_key [simp]: "current_key (commit_vlan c) = current_key c"
  by (simp add: commit_vlan_def Let_def)

lemma commit_key [simp]: "current_key (commit_set_field_actions c) = current_key c"
proof -
  have "current_key (fold commit_field as c) = current_key c" for as c
    by (induction as arbitrary: c) simp_all
  then show ?thesis by (simp add: commit_set_field_actions_def)
qed

lemma fold_clear: "ATTR_BITMAP_TEST (fold (\<lambda>a M. ATTR_BITMAP_CLEAR M a) as M) b \<longleftrightarrow> ATTR_BITMAP_TEST M b \<and> b \<notin> set as"
  by (induction as arbitrary: M) auto

lemma commit_sim:
  assumes "datapath_ok dp" "ctx_sim dp k0 outs c"
  obtains p where "dp_sends dp (ac_msg (commit_set_field_actions c)) outs k0 p"
    "modified_attrs (commit_set_field_actions c) = 0" "pend 0 p (current_key c)"
proof (cases "modified_attrs c = 0")
  case True
  then show ?thesis using that assms(2) by (auto simp: ctx_sim_def commit_set_field_actions_def)
next
  case False
  let ?c = "commit_vlan c"
  obtain p where "dp_sends dp (ac_msg ?c) outs k0 p" "pend (modified_attrs ?c) p (current_key c)"
    and v: "\<not> ATTR_BITMAP_TEST (modified_attrs ?c) OVS_KEY_ATTR_VLAN"
    using commit_vlan_sim [OF assms] by (auto simp: ctx_sim_def)
  then obtain p' where "dp_sends dp (ac_msg (fold commit_field OVS_KEY_FIELDS ?c)) outs k0 p'"
    "pend (fold (\<lambda>a M. ATTR_BITMAP_CLEAR M a) OVS_KEY_FIELDS (modified_attrs ?c)) p' (current_key c)"
    using commit_fields_sim [OF assms(1) distinct_OVS_KEY_FIELDS, of ?c outs k0 p "modified_attrs ?c"] by auto
  moreover have "pend 0 p' (current_key c)" by (rule clear_all [OF _ calculation(2)]) (simp add: fold_clear)
  ultimately show ?thesis using that [of p'] False by (simp add: commit_set_field_actions_def)
qed

text \<open>After the commit an output sends the translated key.\<close>

lemma out_sim:
  assumes "datapath_ok dp" "ctx_sim dp k0 outs c"
    and "ac_msg d = ac_msg (commit_set_field_actions c) @ cs" "modified_attrs d = modified_attrs (commit_set_field_actions c)"
    and "current_key d = current_key c" "\<And>p. wire p = wire (current_key c) \<Longrightarrow> dp_sends dp cs o' p p"
  shows "ctx_sim dp k0 (outs @ o') d"
proof -
  obtain p where "dp_sends dp (ac_msg (commit_set_field_actions c)) outs k0 p"
    "modified_attrs (commit_set_field_actions c) = 0" "pend 0 p (current_key c)"
    using commit_sim [OF assms(1,2)] .
  then show ?thesis using assms(3-6) pend_wire dp_sends_append unfolding ctx_sim_def by metis
qed

subsection \<open>The setters only defer\<close>

lemma drop_splice: "off + length d \<le> n \<Longrightarrow> n \<le> length x \<Longrightarrow> drop n (splice off d x) = drop n x"
  by (simp add: splice_def)

lemma pend_writes:
  "pend M p k \<Longrightarrow> length a = 6 \<Longrightarrow> pend (ATTR_BITMAP_SET M OVS_KEY_ATTR_ETHERNET) p (k\<lparr>eth_dst := splice 0 a (eth_dst k)\<rparr>)"
  "pend M p k \<Longrightarrow> length a = 6 \<Longrightarrow> pend (ATTR_BITMAP_SET M OVS_KEY_ATTR_ETHERNET) p (k\<lparr>eth_src := splice 0 a (eth_src k)\<rparr>)"
  "pend M p k \<Longrightarrow> pend (ATTR_BITMAP_SET M OVS_KEY_ATTR_ETHERNET) p
     (k\<lparr>eth_dst := splice 0 (le_bytes 2 h) (splice 2 (le_bytes 4 l) (eth_dst k))\<rparr>)"
  "pend M p k \<Longrightarrow> pend (ATTR_BITMAP_SET M OVS_KEY_ATTR_ETHERNET) p
     (k\<lparr>eth_src := splice 0 (le_bytes 2 h) (splice 2 (le_bytes 4 l) (eth_src k))\<rparr>)"
  "pend M p k \<Longrightarrow> off + length x \<le> 12 \<Longrightarrow> pend (ATTR_BITMAP_SET M OVS_KEY_ATTR_IPV4) p (put_net off x k)"
  "pend M p k \<Longrightarrow> off < 12 \<Longrightarrow> pend (ATTR_BITMAP_SET M OVS_KEY_ATTR_IPV4) p (upd_net_byte off f k)"
  "pend M p k \<Longrightarrow> off + length x \<le> 40 \<Longrightarrow> pend (ATTR_BITMAP_SET M OVS_KEY_ATTR_IPV6) p (put_net off x k)"
  "pend M p k \<Longrightarrow> off < 40 \<Longrightarrow> pend (ATTR_BITMAP_SET M OVS_KEY_ATTR_IPV6) p (upd_net_byte off f k)"
  "pend M p k \<Longrightarrow> off + length x \<le> 4 \<Longrightarrow> pend (ATTR_BITMAP_SET M OVS_KEY_ATTR_TCP) p (put_tp off x k)"
  "pend M p k \<Longrightarrow> off + length x \<le> 4 \<Longrightarrow> pend (ATTR_BITMAP_SET M OVS_KEY_ATTR_UDP) p (put_tp off x k)"
  unfolding pend_def put_net_def put_tp_def upd_net_byte_def key_wf_def by (auto simp: drop_splice)

lemma SET_CLEAR_VLAN: "ATTR_BITMAP_CLEAR (ATTR_BITMAP_SET M a) a = ATTR_BITMAP_CLEAR M a"
  "ATTR_BITMAP_CLEAR (ATTR_BITMAP_CLEAR M a) a = ATTR_BITMAP_CLEAR M a"
proof -
  show "ATTR_BITMAP_CLEAR (ATTR_BITMAP_CLEAR M a) a = ATTR_BITMAP_CLEAR M a" by (rule ATTR_BITMAP_CLEAR_idem) simp
  show "ATTR_BITMAP_CLEAR (ATTR_BITMAP_SET M a) a = ATTR_BITMAP_CLEAR M a"
    by (rule bit_word_eqI) (auto simp: ATTR_BITMAP_SET_def ATTR_BITMAP_CLEAR_def bit_and_iff bit_or_iff bit_not_iff)
qed

lemma pend_vlan:
  "pend M p k \<Longrightarrow> ATTR_BITMAP_CLEAR P OVS_KEY_ATTR_VLAN = ATTR_BITMAP_CLEAR (populated k) OVS_KEY_ATTR_VLAN \<Longrightarrow>
    pend (ATTR_BITMAP_SET M OVS_KEY_ATTR_VLAN) p (k\<lparr>populated := P, pk_vlan := v\<rparr>)"
  unfolding pend_def key_wf_def by auto

lemma set_attr_sim:
  assumes "ctx_sim dp k0 outs c" "\<And>M p k. pend M p k \<Longrightarrow> pend (ATTR_BITMAP_SET M a) p (f k)"
  shows "ctx_sim dp k0 outs (set_attr a f c)"
  using assms by (auto simp: ctx_sim_def set_attr_def)

lemma set_tci_sim:
  assumes "ctx_sim dp k0 outs c"
  shows "ctx_sim dp k0 outs (set_tci f c)"
proof -
  obtain p where p: "dp_sends dp (ac_msg c) outs k0 p" "pend (modified_attrs c) p (current_key c)"
    using assms by (auto simp: ctx_sim_def)
  have "pend (ATTR_BITMAP_SET (modified_attrs c) OVS_KEY_ATTR_VLAN) p (current_key (set_tci f c))"
    using pend_vlan [OF p(2), of "populated (current_key c)"]
      pend_vlan [OF p(2), of "ATTR_BITMAP_SET (populated (current_key c)) OVS_KEY_ATTR_VLAN"]
    by (simp add: set_tci_def Let_def SET_CLEAR_VLAN)
  then show ?thesis using p(1) by (auto simp: ctx_sim_def set_tci_def Let_def split: prod.splits)
qed

lemma push_pop_sim:
  assumes "ctx_sim dp k0 outs c"
  shows "ctx_sim dp k0 outs (action_push_vlan c)" "ctx_sim dp k0 outs (action_pop_vlan c)"
proof -
  obtain p where p: "dp_sends dp (ac_msg c) outs k0 p" "pend (modified_attrs c) p (current_key c)"
    using assms by (auto simp: ctx_sim_def)
  let ?k = "current_key c"
  show "ctx_sim dp k0 outs (action_push_vlan c)"
    using p pend_vlan [OF p(2), of "ATTR_BITMAP_SET (populated ?k) OVS_KEY_ATTR_VLAN"]
    by (auto simp: ctx_sim_def action_push_vlan_def SET_CLEAR_VLAN)
  show "ctx_sim dp k0 outs (action_pop_vlan c)"
    using p pend_vlan [OF p(2), of "ATTR_BITMAP_CLEAR (populated ?k) OVS_KEY_ATTR_VLAN" "pk_vlan ?k"]
    by (auto simp: ctx_sim_def action_pop_vlan_def set_attr_def SET_CLEAR_VLAN)
qed

lemma priority_sim: "ctx_sim dp k0 outs c \<Longrightarrow> ctx_sim dp k0 outs (action_set_priority c v)"
  unfolding ctx_sim_def action_set_priority_def pend_def key_wf_def by auto

lemma dp_sends_userspace: "nl_emits [NlaPut OVS_USERSPACE_ATTR_PID (le_bytes 4 n), NlaPut OVS_USERSPACE_ATTR_USERDATA d] (userspace_attrs d n)"
  using nl_emits_append [OF nl_emits_put nl_emits_put] by (fastforce simp: userspace_attrs_def)

lemma output_sends: "wire p = wire k \<Longrightarrow> dp_sends dp [NlaPut OVS_ACTION_ATTR_OUTPUT (le_bytes 4 n)] [DpPort n (wire k)] p p"
  using dp_sends_put [of dp OVS_ACTION_ATTR_OUTPUT "le_bytes 4 n" p "[DpPort n p]" p] by (simp add: ovs_action_defs)

lemma userspace_sends:
  "wire p = wire k \<Longrightarrow> dp_sends dp [NlaNestStart OVS_ACTION_ATTR_USERSPACE,
    NlaPut OVS_USERSPACE_ATTR_PID (le_bytes 4 n), NlaPut OVS_USERSPACE_ATTR_USERDATA d, NlaNestEnd]
    [DpUserspace (userspace_attrs d n) (wire k)] p p"
  using dp_sends_nest [OF dp_sends_userspace, of dp OVS_ACTION_ATTR_USERSPACE d n p "[DpUserspace (userspace_attrs d n) p]" p]
  by (simp add: ovs_action_defs)

lemma sample_emits:
  "nl_emits ([NlaPut OVS_SAMPLE_ATTR_PROBABILITY (le_bytes 4 q)] @ (NlaNestStart OVS_SAMPLE_ATTR_ACTIONS #
      (NlaNestStart OVS_ACTION_ATTR_USERSPACE # [NlaPut OVS_USERSPACE_ATTR_PID (le_bytes 4 n), NlaPut OVS_USERSPACE_ATTR_USERDATA d] @
      [NlaNestEnd]) @ [NlaNestEnd]))
    ([Nla OVS_SAMPLE_ATTR_PROBABILITY (le_bytes 4 q)] @
     [NlaNest OVS_SAMPLE_ATTR_ACTIONS [NlaNest OVS_ACTION_ATTR_USERSPACE (userspace_attrs d n)]])"
  by (intro nl_emits_append nl_emits_put nl_emits_nest dp_sends_userspace)

lemma sample_sends:
  assumes "wire p = wire k"
  shows "dp_sends dp ([NlaNestStart OVS_ACTION_ATTR_SAMPLE, NlaPut OVS_SAMPLE_ATTR_PROBABILITY (le_bytes 4 q),
      NlaNestStart OVS_SAMPLE_ATTR_ACTIONS, NlaNestStart OVS_ACTION_ATTR_USERSPACE, NlaPut OVS_USERSPACE_ATTR_PID (le_bytes 4 n),
      NlaPut OVS_USERSPACE_ATTR_USERDATA d, NlaNestEnd, NlaNestEnd, NlaNestEnd])
    [DpSample [Nla OVS_SAMPLE_ATTR_PROBABILITY (le_bytes 4 q),
      NlaNest OVS_SAMPLE_ATTR_ACTIONS [NlaNest OVS_ACTION_ATTR_USERSPACE (userspace_attrs d n)]] (wire k)] p p"
  using dp_sends_nest [OF sample_emits [of q n d], where dp = dp and t = OVS_ACTION_ATTR_SAMPLE and p = p and p' = p and o' = "[DpSample [Nla OVS_SAMPLE_ATTR_PROBABILITY (le_bytes 4 q),
      NlaNest OVS_SAMPLE_ATTR_ACTIONS [NlaNest OVS_ACTION_ATTR_USERSPACE (userspace_attrs d n)]] p]"] assms
  by (simp add: ovs_action_defs)

lemma action_step_sim:
  assumes "datapath_ok dp" "ctx_sim dp k0 outs c" "action_op_ok op" "\<not> action_raw op"
  shows "ctx_sim dp k0 (outs @ action_sends op (current_key c)) (action_step op c)"
proof (cases op)
  case (Output x)
  show ?thesis unfolding Output
    by (rule out_sim [OF assms(1,2)]) (auto simp: action_output_def Let_def nla_put_u32_def nla_put_def output_sends)
next
  case OutputLocal
  show ?thesis unfolding OutputLocal
    by (rule out_sim [OF assms(1,2)]) (auto simp: action_output_local_def Let_def nla_put_u32_def nla_put_def output_sends)
next
  case OutputInPort
  show ?thesis unfolding OutputInPort
    by (rule out_sim [OF assms(1,2)]) (auto simp: action_output_in_port_def Let_def nla_put_u32_def nla_put_def output_sends)
next
  case (Userspace d n)
  show ?thesis unfolding Userspace
    by (rule out_sim [OF assms(1,2) _ _ _ userspace_sends, of _ n d, unfolded action_sends.simps [symmetric]])
      (simp_all add: action_userspace_def Let_def nla_put_u32_def nla_put_def nla_nest_start_def nla_nest_end_def)
next
  case (Sample d n q)
  show ?thesis unfolding Sample
    by (rule out_sim [OF assms(1,2) _ _ _ sample_sends, of _ q n d, unfolded action_sends.simps [symmetric]])
      (simp_all add: action_sample_to_userspace_def Let_def nla_put_u32_def nla_put_def nla_nest_start_def nla_nest_end_def)
qed (use assms in \<open>auto simp: action_set_defs action_set_vlan_vid_def action_set_vlan_pcp_def push_pop_sim [unfolded action_pop_vlan_def]
    intro!: set_attr_sim pend_writes set_tci_sim priority_sim\<close>)


lemma actions_sim:
  assumes "datapath_ok dp" "ctx_sim dp k0 outs c" "list_all (\<lambda>op. action_op_ok op \<and> \<not> action_raw op) ops"
  shows "ctx_sim dp k0 (outs @ actions_send ops c) (fold action_step ops c)"
  using assms(2,3)
proof (induction ops arbitrary: outs c)
  case (Cons op ops)
  have "ctx_sim dp k0 (outs @ action_sends op (current_key c)) (action_step op c)"
    using action_step_sim [OF assms(1)] Cons.prems by simp
  from Cons.IH [OF this] show ?case using Cons.prems by simp
qed simp

lemma ctx_sim_init: "key_wf k \<Longrightarrow> ctx_sim dp k [] (action_context_init k msk [])"
  using dp_sends_Nil [of dp k] by (auto simp: ctx_sim_def action_context_init_def pend_def)

text \<open>
  C31: deferring the set-field actions is correct. For every sequence of actions (the two raw tag
  actions apart, which do not track the key), the kernel actions written to the message are well
  nested, and executing them on the packet sends, in order, exactly the packets that the sequence
  sends when every set-field action takes effect at once: each output carries the key as it is
  at that point, tags included.
\<close>

theorem actions_execute_in_order:
  assumes "datapath_ok dp" "key_wf k" "list_all (\<lambda>op. action_op_ok op \<and> \<not> action_raw op) ops"
  shows "\<exists>as. nl_tree (ac_msg (fold action_step ops (action_context_init k msk []))) = Some as \<and>
    map wire_out (fst (dp_exec dp as k)) = actions_send ops (action_context_init k msk [])"
proof -
  have "ctx_sim dp k ([] @ actions_send ops (action_context_init k msk [])) (fold action_step ops (action_context_init k msk []))"
    using actions_sim [OF assms(1) ctx_sim_init assms(3)] assms(2) by blast
  then show ?thesis unfolding ctx_sim_def dp_sends_def using nl_emits_tree by fastforce
qed

definition key_datapath :: datapath where
  "key_datapath = \<lparr>dp_set = (\<lambda>t d k. case find (\<lambda>a. attr_code a = t) OVS_KEY_FIELDS of Some a \<Rightarrow> key_put a d k | None \<Rightarrow> k),
     dp_push_vlan = (\<lambda>d k. k\<lparr>pk_vlan := of_le (drop 2 d), populated := ATTR_BITMAP_SET (populated k) OVS_KEY_ATTR_VLAN\<rparr>),
     dp_pop_vlan = (\<lambda>k. k\<lparr>populated := ATTR_BITMAP_CLEAR (populated k) OVS_KEY_ATTR_VLAN\<rparr>)\<rparr>"

lemma key_datapath_ok: "datapath_ok key_datapath"
proof -
  have "find (\<lambda>b. attr_code b = attr_code a) OVS_KEY_FIELDS = Some a" for a
    by (cases a) (simp_all add: OVS_KEY_FIELDS_def)
  then show ?thesis by (simp add: datapath_ok_def key_datapath_def ovs_action_push_vlan_def)
qed

theorem actions_execute_in_order_witness:
  "\<exists>as. nl_tree (ac_msg (fold action_step demo_ops (action_context_init demo_key None []))) = Some as \<and>
    map wire_out (fst (dp_exec key_datapath as demo_key)) = actions_send demo_ops (action_context_init demo_key None []) \<and>
    length (actions_send demo_ops (action_context_init demo_key None [])) = 2"
proof -
  have "list_all (\<lambda>op. action_op_ok op \<and> \<not> action_raw op) demo_ops"
    "length (actions_send demo_ops (action_context_init demo_key None [])) = 2" by code_simp+
  then show ?thesis using actions_execute_in_order [OF key_datapath_ok demo_key_ok(1)] by blast
qed

end
