(* ===== verification/Tcam.thy ===== *)
theory Tcam
  imports Prelude
begin

text \<open>
  The software TCAM of \<open>modules/tcam\<close> (\<open>tcam.c\<close>): a classifier that finds the highest-priority
  entry whose masked key equals the masked lookup key. Entries with the same mask share a shard, a
  chained hash table with a bloom filter. The murmur hash, the bloom filter and the BigHash table
  are external and are the fields of the environment \<open>tcam_env\<close>; what the code relies on is
  collected in \<open>env_ok\<close>. Keys and masks are lists of the 32-bit words the C code casts them
  to. A chain of entries linked by \<open>next\<close> is a list; an entry and a shard keep their address
  as identity. \<open>None\<close> is an assertion failure or a NULL dereference.
\<close>

subsection \<open>External code\<close>

record ('b, 'h) tcam_env =
  murmur_round :: "u32 \<Rightarrow> u32 \<Rightarrow> u32"
  murmur_finish :: "u32 \<Rightarrow> u32 \<Rightarrow> u32"
  bloom_filter_create :: "u32 \<Rightarrow> 'b"
  bloom_filter_add :: "'b \<Rightarrow> u32 \<Rightarrow> 'b"
  bloom_filter_remove :: "'b \<Rightarrow> u32 \<Rightarrow> 'b"
  bloom_filter_lookup :: "'b \<Rightarrow> u32 \<Rightarrow> bool"
  bighash_create :: 'h
  bighash_insert :: "'h \<Rightarrow> u64 \<Rightarrow> u32 \<Rightarrow> 'h"
  bighash_remove :: "'h \<Rightarrow> u64 \<Rightarrow> 'h"
  bighash_chain :: "'h \<Rightarrow> u32 \<Rightarrow> u64 list"

text \<open>
  \<open>bloom_rep\<close> relates a filter to the multiset of hashes added and not removed, \<open>bighash_rep\<close> a
  table to the set of its entries with their hashes. A filter has no false negatives; the chain of
  a hash holds exactly the entries inserted under it.
\<close>

definition env_ok ::
  "('b, 'h) tcam_env \<Rightarrow> ('b \<Rightarrow> u32 multiset \<Rightarrow> bool) \<Rightarrow> ('h \<Rightarrow> (u64 \<times> u32) set \<Rightarrow> bool) \<Rightarrow> bool" where
  "env_ok E bloom_rep bighash_rep \<longleftrightarrow>
     (\<forall>n. bloom_rep (bloom_filter_create E n) {#}) \<and>
     (\<forall>b M h. bloom_rep b M \<longrightarrow> bloom_rep (bloom_filter_add E b h) (add_mset h M)) \<and>
     (\<forall>b M h. bloom_rep b M \<longrightarrow> h \<in># M \<longrightarrow> bloom_rep (bloom_filter_remove E b h) (M - {#h#})) \<and>
     (\<forall>b M h. bloom_rep b M \<longrightarrow> h \<in># M \<longrightarrow> bloom_filter_lookup E b h) \<and>
     bighash_rep (bighash_create E) {} \<and>
     (\<forall>t S a h. bighash_rep t S \<longrightarrow> a \<notin> fst ` S \<longrightarrow> bighash_rep (bighash_insert E t a h) (insert (a, h) S)) \<and>
     (\<forall>t S a h. bighash_rep t S \<longrightarrow> (a, h) \<in> S \<longrightarrow> bighash_rep (bighash_remove E t a) (S - {(a, h)})) \<and>
     (\<forall>t S h. bighash_rep t S \<longrightarrow> set (bighash_chain E t h) = {a. (a, h) \<in> S})"

subsection \<open>Data\<close>

type_synonym words = "u32 list"

record tcam_entry =
  te_addr :: u64
  te_hash :: u32
  te_priority :: u16
  te_key :: words
  te_mask :: words

record 'b tcam_shard =
  sh_addr :: u64
  sh_mask :: words
  sh_count :: u32
  sh_buckets_size :: u32
  sh_buckets :: "tcam_entry list list"
  sh_bloom :: 'b

record ('b, 'h) tcam =
  shard_hashtable :: 'h
  shard_list :: "'b tcam_shard list"
  key_size :: u16
  tcam_salt :: u32

definition TCAM_INITIAL_ENTRY_BUCKETS :: u32 where
  "TCAM_INITIAL_ENTRY_BUCKETS = 16"

definition TCAM_BLOOM_BITS_PER_ENTRY :: u32 where
  "TCAM_BLOOM_BITS_PER_ENTRY = 8"

subsection \<open>Words of a key\<close>

definition key_words :: "('b, 'h) tcam \<Rightarrow> nat" where
  "key_words t = unat (key_size t) div 4"

fun memcmp_masked :: "nat \<Rightarrow> words \<Rightarrow> words \<Rightarrow> words \<Rightarrow> bool" where
  "memcmp_masked (Suc n) (a # as) (b # bs) (m # ms) = ((a XOR b) AND m \<noteq> 0 \<or> memcmp_masked n as bs ms)"
| "memcmp_masked _ _ _ _ = False"

definition memor :: "words \<Rightarrow> words \<Rightarrow> words" where
  "memor dst src = map2 (OR) dst src"

fun hash_loop :: "('b, 'h) tcam_env \<Rightarrow> u32 \<Rightarrow> u32 \<Rightarrow> words \<Rightarrow> words \<Rightarrow> u32" where
  "hash_loop E state i (k # ks) (m # ms) =
     hash_loop E (if m \<noteq> 0 then murmur_round E state ((k AND m) XOR i) else state) (i + 1) ks ms"
| "hash_loop E state i _ _ = state"

definition hash_key :: "('b, 'h) tcam_env \<Rightarrow> ('b, 'h) tcam \<Rightarrow> words \<Rightarrow> words \<Rightarrow> u32" where
  "hash_key E t key msk =
     murmur_finish E (hash_loop E (tcam_salt t) 0 (take (key_words t) key) (take (key_words t) msk)) (ucast (key_size t))"

subsection \<open>Shards\<close>

definition tcam_create :: "('b, 'h) tcam_env \<Rightarrow> u16 \<Rightarrow> u32 \<Rightarrow> ('b, 'h) tcam option" where
  "tcam_create E ksz slt =
     (if unat ksz mod 4 = 0
      then Some \<lparr>shard_hashtable = bighash_create E, shard_list = [], key_size = ksz, tcam_salt = slt\<rparr>
      else None)"

definition shard_at :: "('b, 'h) tcam \<Rightarrow> u64 \<Rightarrow> 'b tcam_shard option" where
  "shard_at t a = find (\<lambda>s. sh_addr s = a) (shard_list t)"

fun find_shard_loop :: "('b, 'h) tcam \<Rightarrow> words \<Rightarrow> u64 list \<Rightarrow> 'b tcam_shard option" where
  "find_shard_loop t msk [] = None"
| "find_shard_loop t msk (a # as) =
     (case shard_at t a of
        Some s \<Rightarrow> if sh_mask s = msk then Some s else find_shard_loop t msk as
      | None \<Rightarrow> find_shard_loop t msk as)"

definition tcam_find_shard :: "('b, 'h) tcam_env \<Rightarrow> ('b, 'h) tcam \<Rightarrow> words \<Rightarrow> 'b tcam_shard option" where
  "tcam_find_shard E t msk = find_shard_loop t msk (bighash_chain E (shard_hashtable t) (hash_key E t msk msk))"

definition tcam_shard_create ::
  "('b, 'h) tcam_env \<Rightarrow> ('b, 'h) tcam \<Rightarrow> u64 \<Rightarrow> words \<Rightarrow> 'b tcam_shard \<times> ('b, 'h) tcam" where
  "tcam_shard_create E t addr msk =
     (let s = \<lparr>sh_addr = addr, sh_mask = msk, sh_count = 0, sh_buckets_size = TCAM_INITIAL_ENTRY_BUCKETS,
               sh_buckets = replicate (unat TCAM_INITIAL_ENTRY_BUCKETS) [],
               sh_bloom = bloom_filter_create E (TCAM_INITIAL_ENTRY_BUCKETS * TCAM_BLOOM_BITS_PER_ENTRY)\<rparr>
      in (s, t\<lparr>shard_hashtable := bighash_insert E (shard_hashtable t) addr (hash_key E t msk msk),
               shard_list := shard_list t @ [s]\<rparr>))"

text \<open>Write a shard back through its address.\<close>

definition put_shard :: "'b tcam_shard \<Rightarrow> ('b, 'h) tcam \<Rightarrow> ('b, 'h) tcam" where
  "put_shard s t = t\<lparr>shard_list := map (\<lambda>s'. if sh_addr s' = sh_addr s then s else s') (shard_list t)\<rparr>"

definition tcam_shard_destroy ::
  "('b, 'h) tcam_env \<Rightarrow> ('b, 'h) tcam \<Rightarrow> 'b tcam_shard \<Rightarrow> ('b, 'h) tcam option" where
  "tcam_shard_destroy E t s =
     (if sh_count s = 0
      then Some (t\<lparr>shard_hashtable := bighash_remove E (shard_hashtable t) (sh_addr s),
                   shard_list := filter (\<lambda>s'. sh_addr s' \<noteq> sh_addr s) (shard_list t)\<rparr>)
      else None)"

text \<open>
  One bucket of \<open>tcam_shard_grow\<close>: the entries move, in order, to the tail of the low or the high
  list, and into the new bloom filter.
\<close>

fun grow_bucket :: "('b, 'h) tcam_env \<Rightarrow> u32 \<Rightarrow> tcam_entry list \<Rightarrow> tcam_entry list \<Rightarrow> tcam_entry list \<Rightarrow> 'b
    \<Rightarrow> tcam_entry list \<times> tcam_entry list \<times> 'b" where
  "grow_bucket E bt [] lo hi bf = (lo, hi, bf)"
| "grow_bucket E bt (e # es) lo hi bf =
     (if te_hash e AND bt \<noteq> 0
      then grow_bucket E bt es lo (hi @ [e]) (bloom_filter_add E bf (te_hash e))
      else grow_bucket E bt es (lo @ [e]) hi (bloom_filter_add E bf (te_hash e)))"

fun grow_loop :: "('b, 'h) tcam_env \<Rightarrow> u32 \<Rightarrow> tcam_entry list list \<Rightarrow> 'b
    \<Rightarrow> tcam_entry list list \<times> tcam_entry list list \<times> 'b" where
  "grow_loop E bt [] bf = ([], [], bf)"
| "grow_loop E bt (c # cs) bf =
     (case grow_bucket E bt c [] [] bf of (lo, hi, bf1) \<Rightarrow>
        (case grow_loop E bt cs bf1 of (los, his, bf2) \<Rightarrow> (lo # los, hi # his, bf2)))"

definition tcam_shard_grow :: "('b, 'h) tcam_env \<Rightarrow> 'b tcam_shard \<Rightarrow> 'b tcam_shard" where
  "tcam_shard_grow E s =
     (let new_buckets_size = sh_buckets_size s * 2;
          bf = bloom_filter_create E (new_buckets_size * TCAM_BLOOM_BITS_PER_ENTRY)
      in case grow_loop E (sh_buckets_size s) (sh_buckets s) bf of (los, his, bf') \<Rightarrow>
           s\<lparr>sh_buckets_size := new_buckets_size, sh_buckets := los @ his, sh_bloom := bf'\<rparr>)"

subsection \<open>Operations\<close>

definition bucket_of :: "'b tcam_shard \<Rightarrow> u32 \<Rightarrow> nat" where
  "bucket_of s hash = unat (hash AND (sh_buckets_size s - 1))"

fun insert_by_priority :: "tcam_entry \<Rightarrow> tcam_entry list \<Rightarrow> tcam_entry list" where
  "insert_by_priority e [] = [e]"
| "insert_by_priority e (x # xs) = (if te_priority e < te_priority x then x # insert_by_priority e xs else e # x # xs)"

text \<open>
  \<open>eaddr\<close> is the address of the caller's entry, \<open>saddr\<close> the one a new shard gets. The load
  factor 0.5 is compared in \<open>float\<close>, which is exact up to \<open>2^24\<close> entries.
\<close>

definition shard_insert :: "('b, 'h) tcam_env \<Rightarrow> 'b tcam_shard \<Rightarrow> tcam_entry \<Rightarrow> 'b tcam_shard" where
  "shard_insert E s e =
     (let i = bucket_of s (te_hash e);
          s' = s\<lparr>sh_buckets := (sh_buckets s)[i := insert_by_priority e (sh_buckets s ! i)],
                 sh_count := sh_count s + 1,
                 sh_bloom := bloom_filter_add E (sh_bloom s) (te_hash e)\<rparr>
      in if 2 * unat (sh_count s') > unat (sh_buckets_size s') then tcam_shard_grow E s' else s')"

definition tcam_insert ::
  "('b, 'h) tcam_env \<Rightarrow> ('b, 'h) tcam \<Rightarrow> u64 \<Rightarrow> u64 \<Rightarrow> words \<Rightarrow> words \<Rightarrow> u16 \<Rightarrow> ('b, 'h) tcam" where
  "tcam_insert E t eaddr saddr key msk priority =
     (let (s, t1) = (case tcam_find_shard E t msk of Some s \<Rightarrow> (s, t) | None \<Rightarrow> tcam_shard_create E t saddr msk);
          e = \<lparr>te_addr = eaddr, te_hash = hash_key E t key msk, te_priority = priority, te_key = key, te_mask = sh_mask s\<rparr>
      in put_shard (shard_insert E s e) t1)"

text \<open>The unlinking loop: running past the end of the chain dereferences \<open>NULL\<close>.\<close>

fun chain_remove :: "u64 \<Rightarrow> tcam_entry list \<Rightarrow> tcam_entry list option" where
  "chain_remove a [] = None"
| "chain_remove a (e # es) = (if te_addr e = a then Some es else map_option (Cons e) (chain_remove a es))"

definition tcam_remove :: "('b, 'h) tcam_env \<Rightarrow> ('b, 'h) tcam \<Rightarrow> tcam_entry \<Rightarrow> ('b, 'h) tcam option" where
  "tcam_remove E t e =
     do {
       s \<leftarrow> tcam_find_shard E t (te_mask e);
       let i = bucket_of s (hash_key E t (te_key e) (te_mask e));
       chain \<leftarrow> chain_remove (te_addr e) (sh_buckets s ! i);
       let s' = s\<lparr>sh_buckets := (sh_buckets s)[i := chain], sh_count := sh_count s - 1,
                  sh_bloom := bloom_filter_remove E (sh_bloom s) (te_hash e)\<rparr>;
       if sh_count s' = 0 then tcam_shard_destroy E t s' else Some (put_shard s' t)
     }"

text \<open>The search of a chain: stops at the first entry of lower priority than the best so far.\<close>

fun chain_match :: "nat \<Rightarrow> u32 \<Rightarrow> words \<Rightarrow> words \<Rightarrow> u16 \<Rightarrow> tcam_entry list \<Rightarrow> tcam_entry option" where
  "chain_match n hash key msk cur_priority [] = None"
| "chain_match n hash key msk cur_priority (e # es) =
     (if te_priority e \<ge> cur_priority
      then if te_hash e = hash \<and> \<not> memcmp_masked n key (te_key e) msk then Some e
           else chain_match n hash key msk cur_priority es
      else None)"

fun match_loop :: "('b, 'h) tcam_env \<Rightarrow> ('b, 'h) tcam \<Rightarrow> words \<Rightarrow> 'b tcam_shard list
    \<Rightarrow> tcam_entry option \<Rightarrow> u16 \<Rightarrow> words option \<Rightarrow> tcam_entry option \<times> words option" where
  "match_loop E t key [] found cur_priority msk = (found, msk)"
| "match_loop E t key (s # ss) found cur_priority msk =
     (let hash = hash_key E t key (sh_mask s);
          msk' = map_option (\<lambda>m. memor m (sh_mask s)) msk
      in if \<not> bloom_filter_lookup E (sh_bloom s) hash then match_loop E t key ss found cur_priority msk'
         else (case chain_match (key_words t) hash key (sh_mask s) cur_priority (sh_buckets s ! bucket_of s hash) of
                 Some e \<Rightarrow> match_loop E t key ss (Some e) (te_priority e) msk'
               | None \<Rightarrow> match_loop E t key ss found cur_priority msk'))"

definition tcam_match_and_mask ::
  "('b, 'h) tcam_env \<Rightarrow> ('b, 'h) tcam \<Rightarrow> words \<Rightarrow> words option \<Rightarrow> tcam_entry option \<times> words option" where
  "tcam_match_and_mask E t key msk = match_loop E t key (shard_list t) None 0 msk"

definition tcam_match :: "('b, 'h) tcam_env \<Rightarrow> ('b, 'h) tcam \<Rightarrow> words \<Rightarrow> tcam_entry option" where
  "tcam_match E t key = fst (tcam_match_and_mask E t key None)"

subsection \<open>What is relied on of the external code\<close>

lemma env_okD:
  assumes "env_ok E br hr"
  shows env_bloom_create: "br (bloom_filter_create E m) {#}"
    and env_bloom_add: "br b M \<Longrightarrow> br (bloom_filter_add E b h) (add_mset h M)"
    and env_bloom_remove: "br b M \<Longrightarrow> h \<in># M \<Longrightarrow> br (bloom_filter_remove E b h) (M - {#h#})"
    and env_bloom_lookup: "br b M \<Longrightarrow> h \<in># M \<Longrightarrow> bloom_filter_lookup E b h"
    and env_bighash_create: "hr (bighash_create E) {}"
    and env_bighash_insert: "hr t S \<Longrightarrow> a \<notin> fst ` S \<Longrightarrow> hr (bighash_insert E t a h) (insert (a, h) S)"
    and env_bighash_remove: "hr t S \<Longrightarrow> (a, h) \<in> S \<Longrightarrow> hr (bighash_remove E t a) (S - {(a, h)})"
    and env_bighash_chain: "hr t S \<Longrightarrow> set (bighash_chain E t h) = {a. (a, h) \<in> S}"
  using assms unfolding env_ok_def by (elim conjE; elim allE; metis)+

subsection \<open>Masked keys\<close>

definition masked :: "words \<Rightarrow> words \<Rightarrow> words" where
  "masked k m = map2 (AND) k m"

lemma masked_simps [simp]: "masked [] m = []" "masked k [] = []" "masked (a # k) (b # m) = (a AND b) # masked k m"
  by (simp_all add: masked_def)

lemma word_and_eq_iff_xor: "(a XOR b) AND m = 0 \<longleftrightarrow> a AND m = (b AND m :: 'a::len word)"
  by (auto simp: bit_eq_iff bit_and_iff bit_xor_iff)

lemma memcmp_masked_iff:
  "length a = n \<Longrightarrow> length b = n \<Longrightarrow> length m = n \<Longrightarrow> memcmp_masked n a b m \<longleftrightarrow> masked a m \<noteq> masked b m"
proof (induction n arbitrary: a b m)
  case (Suc n)
  then obtain a0 a' b0 b' m0 m' where "a = a0 # a'" "b = b0 # b'" "m = m0 # m'"
    by (metis length_Suc_conv)
  then show ?case using Suc by (simp add: word_and_eq_iff_xor)
qed simp

lemma hash_loop_masked: "masked k m = masked k' m \<Longrightarrow> length k = length m \<Longrightarrow> length k' = length m \<Longrightarrow>
    hash_loop E st i k m = hash_loop E st i k' m"
proof (induction m arbitrary: k k' st i)
  case (Cons m0 m)
  then obtain k0 k1 k0' k1' where k: "k = k0 # k1" "k' = k0' # k1'" by (metis length_Suc_conv list.size(4))
  have eq: "k0 AND m0 = k0' AND m0" "masked k1 m = masked k1' m" "length k1 = length m" "length k1' = length m"
    using Cons.prems k by simp_all
  show ?case unfolding k hash_loop.simps eq(1) by (rule Cons.IH [OF eq(2-4)])
qed simp

lemma hash_key_masked:
  "masked k m = masked k' m \<Longrightarrow> length k = key_words t \<Longrightarrow> length k' = key_words t \<Longrightarrow> length m = key_words t \<Longrightarrow>
     hash_key E t k m = hash_key E t k' m"
  unfolding hash_key_def using hash_loop_masked [of k m k' E "tcam_salt t" 0] by simp

lemma hash_key_upd [simp]:
  "hash_key E (t\<lparr>shard_list := x\<rparr>) = hash_key E t" "hash_key E (t\<lparr>shard_hashtable := y\<rparr>) = hash_key E t"
  "key_words (t\<lparr>shard_list := x\<rparr>) = key_words t" "key_words (t\<lparr>shard_hashtable := y\<rparr>) = key_words t"
  "hash_key E (put_shard s t) = hash_key E t" "key_words (put_shard s t) = key_words t"
  by (auto simp: fun_eq_iff hash_key_def key_words_def put_shard_def)

definition matches :: "words \<Rightarrow> tcam_entry \<Rightarrow> bool" where
  "matches key e \<longleftrightarrow> masked key (te_mask e) = masked (te_key e) (te_mask e)"

subsection \<open>Shard invariant\<close>

definition entry_ok :: "(words \<Rightarrow> words \<Rightarrow> u32) \<Rightarrow> nat \<Rightarrow> words \<Rightarrow> tcam_entry \<Rightarrow> bool" where
  "entry_ok hk n msk e \<longleftrightarrow> te_mask e = msk \<and> length (te_key e) = n \<and> te_hash e = hk (te_key e) msk"

definition by_priority :: "tcam_entry list \<Rightarrow> bool" where
  "by_priority c \<longleftrightarrow> sorted_wrt (\<lambda>x y. te_priority y \<le> te_priority x) c"

definition buckets_ok :: "nat \<Rightarrow> tcam_entry list list \<Rightarrow> bool" where
  "buckets_ok k cs \<longleftrightarrow> length cs = 2 ^ k \<and>
     (\<forall>i<length cs. by_priority (cs ! i) \<and> (\<forall>e \<in> set (cs ! i). unat (te_hash e AND mask k) = i))"

definition shard_inv ::
  "('b \<Rightarrow> u32 multiset \<Rightarrow> bool) \<Rightarrow> (words \<Rightarrow> words \<Rightarrow> u32) \<Rightarrow> nat \<Rightarrow> 'b tcam_shard \<Rightarrow> bool" where
  "shard_inv br hk n s \<longleftrightarrow>
     (\<exists>k. 4 \<le> k \<and> k \<le> 31 \<and> sh_buckets_size s = 2 ^ k \<and> buckets_ok k (sh_buckets s)) \<and>
     (\<forall>e \<in> set (concat (sh_buckets s)). entry_ok hk n (sh_mask s) e) \<and> length (sh_mask s) = n \<and>
     br (sh_bloom s) (image_mset te_hash (mset (concat (sh_buckets s)))) \<and>
     unat (sh_count s) = length (concat (sh_buckets s)) \<and>
     2 * unat (sh_count s) \<le> unat (sh_buckets_size s)"

lemma unat_pow2: "k < 32 \<Longrightarrow> unat (2 ^ k :: u32) = 2 ^ k"
  using unat_of_nat_id [of "2 ^ k", where 'a = 32] power_strict_increasing [of k 32 "2 :: nat"] by simp

lemma bucket_of_mask: "sh_buckets_size s = 2 ^ k \<Longrightarrow> bucket_of s h = unat (h AND mask k)"
  by (simp add: bucket_of_def mask_eq_exp_minus_1)

lemma unat_and_mask_less: "unat (h AND mask k :: u32) < 2 ^ k"
  by (metis take_bit_eq_mask take_bit_nat_less_exp unsigned_take_bit_eq)

text \<open>Every entry of a shard is in the bucket of its hash.\<close>

lemma shard_bucket:
  assumes "shard_inv br hk n s" "e \<in> set (concat (sh_buckets s))"
  shows "e \<in> set (sh_buckets s ! bucket_of s (te_hash e))"
proof -
  obtain k where k: "sh_buckets_size s = 2 ^ k" "buckets_ok k (sh_buckets s)" using assms(1) by (auto simp: shard_inv_def)
  obtain i where i: "i < length (sh_buckets s)" "e \<in> set (sh_buckets s ! i)"
    using assms(2) by (auto simp: in_set_conv_nth [of _ "sh_buckets s"])
  then have "unat (te_hash e AND mask k) = i" using k(2) by (simp add: buckets_ok_def)
  then show ?thesis using i(2) bucket_of_mask [OF k(1)] by simp
qed

lemma shard_bucket_less: "shard_inv br hk n s \<Longrightarrow> bucket_of s h < length (sh_buckets s)"
  by (auto simp: shard_inv_def buckets_ok_def bucket_of_mask unat_and_mask_less)

subsection \<open>Searching a chain\<close>

lemma chain_match_Some:
  assumes "chain_match n h key msk p c = Some e"
  shows "e \<in> set c \<and> te_hash e = h \<and> \<not> memcmp_masked n key (te_key e) msk \<and> p \<le> te_priority e"
  using assms by (induction c) (auto split: if_splits)

lemma chain_match_best:
  assumes "by_priority c" "e' \<in> set c" "te_hash e' = h" "\<not> memcmp_masked n key (te_key e') msk"
  shows "case chain_match n h key msk p c of None \<Rightarrow> te_priority e' < p | Some e \<Rightarrow> te_priority e' \<le> te_priority e"
  using assms
proof (induction c)
  case (Cons x c)
  then have IH: "e' \<in> set c \<Longrightarrow> case chain_match n h key msk p c of None \<Rightarrow> te_priority e' < p
      | Some e \<Rightarrow> te_priority e' \<le> te_priority e" and le: "te_priority e' \<le> te_priority x"
    by (auto simp: by_priority_def)
  then show ?case using Cons.prems by (auto simp: not_le split: option.splits)
qed simp

subsection \<open>Searching the shards\<close>

definition shard_entries :: "'b tcam_shard list \<Rightarrow> tcam_entry list" where
  "shard_entries ss = concat (map (\<lambda>s. concat (sh_buckets s)) ss)"

lemma shard_entries_simps [simp]:
  "shard_entries [] = []" "shard_entries (s # ss) = concat (sh_buckets s) @ shard_entries ss"
  "shard_entries (ss @ ss') = shard_entries ss @ shard_entries ss'"
  by (simp_all add: shard_entries_def)

definition shard_match :: "('b, 'h) tcam_env \<Rightarrow> ('b, 'h) tcam \<Rightarrow> words \<Rightarrow> u16 \<Rightarrow> 'b tcam_shard \<Rightarrow> tcam_entry option" where
  "shard_match E t key p s =
     (let hash = hash_key E t key (sh_mask s)
      in if \<not> bloom_filter_lookup E (sh_bloom s) hash then None
         else chain_match (key_words t) hash key (sh_mask s) p (sh_buckets s ! bucket_of s hash))"

lemma match_loop_Cons:
  "match_loop E t key (s # ss) found p msk =
     (case shard_match E t key p s of
        Some e \<Rightarrow> match_loop E t key ss (Some e) (te_priority e) (map_option (\<lambda>m. memor m (sh_mask s)) msk)
      | None \<Rightarrow> match_loop E t key ss found p (map_option (\<lambda>m. memor m (sh_mask s)) msk))"
  by (simp add: Let_def shard_match_def)

lemma entry_matches:
  assumes inv: "shard_inv br (hash_key E t) (key_words t) s" and e: "e \<in> set (concat (sh_buckets s))"
    and key: "length key = key_words t"
  shows "matches key e \<longleftrightarrow> \<not> memcmp_masked (key_words t) key (te_key e) (sh_mask s)"
    and "matches key e \<Longrightarrow> te_hash e = hash_key E t key (sh_mask s)"
proof -
  have e': "te_mask e = sh_mask s" "length (te_key e) = key_words t" "te_hash e = hash_key E t (te_key e) (sh_mask s)"
    "length (sh_mask s) = key_words t"
    using inv e by (auto simp: shard_inv_def entry_ok_def)
  show "matches key e \<longleftrightarrow> \<not> memcmp_masked (key_words t) key (te_key e) (sh_mask s)"
    using e' key by (simp add: matches_def memcmp_masked_iff)
  assume "matches key e"
  then show "te_hash e = hash_key E t key (sh_mask s)"
    using e' key hash_key_masked [of key "sh_mask s" "te_key e" t E] by (simp add: matches_def)
qed

lemma shard_match_Some:
  assumes "shard_inv br (hash_key E t) (key_words t) s" "length key = key_words t" "shard_match E t key p s = Some e"
  shows "e \<in> set (concat (sh_buckets s)) \<and> matches key e \<and> p \<le> te_priority e"
proof -
  let ?h = "hash_key E t key (sh_mask s)"
  have c: "chain_match (key_words t) ?h key (sh_mask s) p (sh_buckets s ! bucket_of s ?h) = Some e"
    using assms(3) by (simp add: shard_match_def Let_def split: if_splits)
  note m = chain_match_Some [OF c]
  have "bucket_of s ?h < length (sh_buckets s)" using assms(1) by (rule shard_bucket_less)
  then have "e \<in> set (concat (sh_buckets s))" using m by auto
  then show ?thesis using m entry_matches(1) [OF assms(1) _ assms(2)] by blast
qed

lemma shard_match_best:
  assumes env: "env_ok E br hr" and inv: "shard_inv br (hash_key E t) (key_words t) s" and key: "length key = key_words t"
    and e': "e' \<in> set (concat (sh_buckets s))" "matches key e'"
  shows "case shard_match E t key p s of None \<Rightarrow> te_priority e' < p | Some e \<Rightarrow> te_priority e' \<le> te_priority e"
proof -
  let ?h = "hash_key E t key (sh_mask s)" and ?c = "sh_buckets s ! bucket_of s (hash_key E t key (sh_mask s))"
  have h: "te_hash e' = ?h" by (rule entry_matches(2) [OF inv e'(1) key e'(2)])
  have "te_hash e' \<in># image_mset te_hash (mset (concat (sh_buckets s)))"
    using e'(1) by (simp only: set_image_mset set_mset_mset) (rule imageI)
  then have "?h \<in># image_mset te_hash (mset (concat (sh_buckets s)))" by (simp only: h)
  moreover have "br (sh_bloom s) (image_mset te_hash (mset (concat (sh_buckets s))))" using inv by (simp add: shard_inv_def)
  ultimately have "bloom_filter_lookup E (sh_bloom s) ?h" by (intro env_bloom_lookup [OF env])
  moreover have "by_priority ?c"
    using inv shard_bucket_less [OF inv] by (auto simp: shard_inv_def buckets_ok_def)
  moreover have "e' \<in> set ?c" using shard_bucket [OF inv e'(1)] h by simp
  moreover have "\<not> memcmp_masked (key_words t) key (te_key e') (sh_mask s)"
    using entry_matches(1) [OF inv e'(1) key] e'(2) by simp
  ultimately show ?thesis
    using chain_match_best [of ?c e' ?h "key_words t" key "sh_mask s" p] h by (simp add: shard_match_def Let_def)
qed

definition best_of :: "words \<Rightarrow> tcam_entry set \<Rightarrow> tcam_entry option \<Rightarrow> bool" where
  "best_of key A r \<longleftrightarrow> (case r of None \<Rightarrow> \<forall>e \<in> A. \<not> matches key e
     | Some e \<Rightarrow> e \<in> A \<and> matches key e \<and> (\<forall>e' \<in> A. matches key e' \<longrightarrow> te_priority e' \<le> te_priority e))"

lemma best_of_shard:
  assumes env: "env_ok E br hr" and inv: "shard_inv br (hash_key E t) (key_words t) s" and key: "length key = key_words t"
    and best: "best_of key A found" and p: "p = (case found of None \<Rightarrow> 0 | Some e \<Rightarrow> te_priority e)"
  shows "best_of key (set (concat (sh_buckets s)) \<union> A) (case shard_match E t key p s of None \<Rightarrow> found | Some e \<Rightarrow> Some e)"
proof (cases "shard_match E t key p s")
  case None
  then have less: "te_priority e' < p" if "e' \<in> set (concat (sh_buckets s))" "matches key e'" for e'
    using shard_match_best [OF env inv key that, of p] by simp
  have "\<not> matches key e'" if "x \<in> set (sh_buckets s)" "e' \<in> set x" "found = None" for e' x
    using less [of e'] p that by (auto simp: word_not_simps(1))
  moreover have "te_priority e' \<le> p" if "x \<in> set (sh_buckets s)" "e' \<in> set x" "matches key e'" for e' x
    using less [of e'] that by (intro less_imp_le) auto
  ultimately show ?thesis
    using None best p by (auto simp: best_of_def split: option.splits)
next
  case (Some e)
  have e: "e \<in> set (concat (sh_buckets s))" "matches key e" "p \<le> te_priority e"
    using shard_match_Some [OF inv key Some] by auto
  have "te_priority e' \<le> te_priority e" if "e' \<in> set (concat (sh_buckets s))" "matches key e'" for e'
    using shard_match_best [OF env inv key that, of p] Some by simp
  moreover have "te_priority e' \<le> te_priority e" if "e' \<in> A" "matches key e'" for e'
    using best p e(3) that by (auto simp: best_of_def split: option.splits intro: order_trans)
  ultimately show ?thesis using e Some by (auto simp: best_of_def)
qed

lemma match_loop_best:
  assumes "env_ok E br hr" "\<forall>s \<in> set ss. shard_inv br (hash_key E t) (key_words t) s" "length key = key_words t"
    "best_of key A found" "p = (case found of None \<Rightarrow> 0 | Some e \<Rightarrow> te_priority e)"
  shows "best_of key (set (shard_entries ss) \<union> A) (fst (match_loop E t key ss found p msk))"
  using assms(2,4,5)
proof (induction ss arbitrary: A found p msk)
  case (Cons s ss)
  let ?f = "case shard_match E t key p s of None \<Rightarrow> found | Some e \<Rightarrow> Some e"
  let ?p = "case ?f of None \<Rightarrow> 0 | Some e \<Rightarrow> te_priority e" and ?m = "map_option (\<lambda>m. memor m (sh_mask s)) msk"
  have "best_of key (set (concat (sh_buckets s)) \<union> A) ?f"
    using Cons.prems by (intro best_of_shard [OF assms(1) _ assms(3)]) simp_all
  then have "best_of key (set (shard_entries ss) \<union> (set (concat (sh_buckets s)) \<union> A)) (fst (match_loop E t key ss ?f ?p ?m))"
    using Cons.prems by (intro Cons.IH) simp_all
  moreover have "match_loop E t key (s # ss) found p msk = match_loop E t key ss ?f ?p ?m"
    using Cons.prems(3) by (simp only: match_loop_Cons split: option.split) simp
  moreover have "set (shard_entries (s # ss)) \<union> A = set (shard_entries ss) \<union> (set (concat (sh_buckets s)) \<union> A)" by auto
  ultimately show ?case by simp
qed simp

subsection \<open>Growing a shard\<close>

lemma grow_bucket_eq:
  "grow_bucket E bt es lo hi bf =
     (lo @ filter (\<lambda>e. te_hash e AND bt = 0) es, hi @ filter (\<lambda>e. te_hash e AND bt \<noteq> 0) es,
      fold (\<lambda>e b. bloom_filter_add E b (te_hash e)) es bf)"
  by (induction es arbitrary: lo hi bf) simp_all

lemma grow_loop_eq:
  "grow_loop E bt cs bf =
     (map (filter (\<lambda>e. te_hash e AND bt = 0)) cs, map (filter (\<lambda>e. te_hash e AND bt \<noteq> 0)) cs,
      fold (\<lambda>e b. bloom_filter_add E b (te_hash e)) (concat cs) bf)"
  by (induction cs arbitrary: bf) (simp_all add: grow_bucket_eq)

lemma bloom_fold:
  assumes "env_ok E br hr" "br bf M"
  shows "br (fold (\<lambda>e b. bloom_filter_add E b (te_hash e)) es bf) (M + image_mset te_hash (mset es))"
  using assms(2)
proof (induction es arbitrary: bf M)
  case (Cons e es)
  then have "br (bloom_filter_add E bf (te_hash e)) (add_mset (te_hash e) M)" by (intro env_bloom_add [OF assms(1)])
  from Cons.IH [OF this] show ?case by simp
qed simp

lemma mset_split_buckets:
  "mset (concat (map (filter (\<lambda>e. \<not> P e)) cs @ map (filter P) cs)) = mset (concat cs)"
proof (induction cs)
  case (Cons c cs)
  have "mset (filter (\<lambda>e. \<not> P e) c) + mset (filter P c) = mset c" by (simp add: multiset_partition [symmetric] add.commute)
  then show ?case using Cons by (simp add: ac_simps)
qed simp

lemma unat_and_mask_Suc:
  "unat (h AND mask (Suc k) :: u32) = (if bit h k then 2 ^ k + unat (h AND mask k) else unat (h AND mask k))"
proof -
  have u: "unat (h AND mask j :: u32) = take_bit j (unat h)" for j
    by (simp add: take_bit_eq_mask [symmetric] unsigned_take_bit_eq)
  have b: "bit h k = bit (unat h) k"
    using bit_imp_le_length [of h k] by (auto simp: bit_unsigned_iff)
  show ?thesis unfolding u b by (simp add: take_bit_Suc_from_most)
qed

lemma by_priority_filter: "by_priority c \<Longrightarrow> by_priority (filter P c)"
  by (simp add: by_priority_def sorted_wrt_filter)

lemma buckets_ok_grow:
  assumes "buckets_ok k cs"
  shows "buckets_ok (Suc k) (map (filter (\<lambda>e. te_hash e AND 2 ^ k = 0)) cs @ map (filter (\<lambda>e. te_hash e AND 2 ^ k \<noteq> 0)) cs)"
    (is "buckets_ok _ ?cs")
proof -
  have len: "length cs = 2 ^ k" using assms by (simp add: buckets_ok_def)
  have "by_priority (?cs ! i) \<and> (\<forall>e \<in> set (?cs ! i). unat (te_hash e AND mask (Suc k)) = i)" if "i < length ?cs" for i
  proof (cases "i < 2 ^ k")
    case True
    then show ?thesis using assms len
      by (auto simp: buckets_ok_def nth_append by_priority_filter unat_and_mask_Suc and_exp_eq_0_iff_not_bit)
  next
    case False
    then have "i - 2 ^ k < length cs" using that len by simp
    then show ?thesis using assms len False
      by (auto simp: buckets_ok_def nth_append by_priority_filter unat_and_mask_Suc and_exp_eq_0_iff_not_bit)
  qed
  then show ?thesis by (simp add: buckets_ok_def len)
qed

lemma shard_grow_inv:
  assumes env: "env_ok E br hr"
    and k: "4 \<le> k" "k \<le> 30" "sh_buckets_size s = 2 ^ k" "buckets_ok k (sh_buckets s)"
    and es: "\<forall>e \<in> set (concat (sh_buckets s)). entry_ok hk n (sh_mask s) e" "length (sh_mask s) = n"
    and c: "unat (sh_count s) = length (concat (sh_buckets s))" "unat (sh_count s) \<le> 2 ^ k"
  shows "shard_inv br hk n (tcam_shard_grow E s) \<and> sh_addr (tcam_shard_grow E s) = sh_addr s \<and>
    sh_mask (tcam_shard_grow E s) = sh_mask s \<and>
    mset (concat (sh_buckets (tcam_shard_grow E s))) = mset (concat (sh_buckets s))"
proof -
  let ?cs = "map (filter (\<lambda>e. te_hash e AND 2 ^ k = 0)) (sh_buckets s) @
    map (filter (\<lambda>e. te_hash e AND 2 ^ k \<noteq> 0)) (sh_buckets s)"
  let ?bf = "fold (\<lambda>e b. bloom_filter_add E b (te_hash e)) (concat (sh_buckets s))
    (bloom_filter_create E (sh_buckets_size s * 2 * TCAM_BLOOM_BITS_PER_ENTRY))"
  have g: "tcam_shard_grow E s = s\<lparr>sh_buckets_size := 2 ^ Suc k, sh_buckets := ?cs, sh_bloom := ?bf\<rparr>"
    using k(3) by (simp add: tcam_shard_grow_def Let_def grow_loop_eq mult.commute)
  have m: "mset (concat ?cs) = mset (concat (sh_buckets s))"
    using mset_split_buckets [of "\<lambda>e. te_hash e AND 2 ^ k \<noteq> 0" "sh_buckets s"] by (simp only: not_not)
  have "br ?bf (image_mset te_hash (mset (concat ?cs)))"
    using bloom_fold [OF env env_bloom_create [OF env], where es = "concat (sh_buckets s)"] by (simp only: m add_0)
  moreover have "unat (2 ^ Suc k :: u32) = 2 ^ Suc k" using k(2) by (intro unat_pow2) simp
  moreover have "length (concat ?cs) = length (concat (sh_buckets s))" "set (concat ?cs) = set (concat (sh_buckets s))"
    using m mset_eq_length mset_eq_setD by blast+
  moreover have "4 \<le> Suc k" "Suc k \<le> 31" "2 * unat (sh_count s) \<le> 2 ^ Suc k" using k c(2) by simp_all
  ultimately have "shard_inv br hk n (tcam_shard_grow E s)"
    unfolding shard_inv_def g using es c buckets_ok_grow [OF k(4)]
    by (intro conjI exI [of _ "Suc k"]) (simp_all del: concat_append map_append power_Suc)
  then show ?thesis using m g by simp
qed

subsection \<open>Insertion into and removal from a shard\<close>

lemma mset_insert_by_priority [simp]: "mset (insert_by_priority e c) = add_mset e (mset c)"
  by (induction c) simp_all

lemma set_insert_by_priority [simp]: "set (insert_by_priority e c) = insert e (set c)"
  by (induction c) auto

lemma by_priority_insert: "by_priority c \<Longrightarrow> by_priority (insert_by_priority e c)"
  by (induction c) (auto simp: by_priority_def intro: order_trans)

lemma mset_concat_update:
  "i < length cs \<Longrightarrow> mset (concat (cs[i := c])) + mset (cs ! i) = mset (concat cs) + mset c"
proof (induction cs arbitrary: i)
  case (Cons c0 cs)
  then show ?case by (cases i) (auto simp: ac_simps)
qed simp

lemma buckets_ok_update:
  assumes "buckets_ok k cs" "i < 2 ^ k" "by_priority c" "\<forall>e \<in> set c. unat (te_hash e AND mask k) = i"
  shows "buckets_ok k (cs[i := c])"
  using assms by (auto simp: buckets_ok_def nth_list_update)

lemma shard_insert_inv:
  assumes env: "env_ok E br hr" and inv: "shard_inv br hk n s" and e: "entry_ok hk n (sh_mask s) e"
    and small: "unat (sh_count s) < 2 ^ 30"
  shows "shard_inv br hk n (shard_insert E s e) \<and> sh_addr (shard_insert E s e) = sh_addr s \<and>
    sh_mask (shard_insert E s e) = sh_mask s \<and>
    mset (concat (sh_buckets (shard_insert E s e))) = add_mset e (mset (concat (sh_buckets s)))"
proof -
  obtain k where k: "4 \<le> k" "k \<le> 31" "sh_buckets_size s = 2 ^ k" "buckets_ok k (sh_buckets s)"
    using inv by (auto simp: shard_inv_def)
  let ?i = "unat (te_hash e AND mask k)"
  let ?cs = "(sh_buckets s)[?i := insert_by_priority e (sh_buckets s ! ?i)]"
  define s' where "s' = s\<lparr>sh_buckets := ?cs, sh_count := sh_count s + 1,
    sh_bloom := bloom_filter_add E (sh_bloom s) (te_hash e)\<rparr>"
  have ins: "shard_insert E s e = (if 2 * unat (sh_count s') > unat (sh_buckets_size s') then tcam_shard_grow E s' else s')"
    unfolding shard_insert_def bucket_of_mask [OF k(3)] s'_def Let_def by simp
  have i: "?i < length (sh_buckets s)" "?i < 2 ^ k" using k(4) by (auto simp: buckets_ok_def unat_and_mask_less)
  have m: "mset (concat ?cs) = add_mset e (mset (concat (sh_buckets s)))"
    using mset_concat_update [OF i(1), of "insert_by_priority e (sh_buckets s ! ?i)"] by simp
  have c: "unat (sh_count s + 1) = length (concat ?cs)"
    using mset_eq_length [of "concat ?cs" "e # concat (sh_buckets s)"] m inv small
      unat_add_of_nat [of "sh_count s" 1] by (simp add: shard_inv_def del: length_concat)
  have ok: "buckets_ok k ?cs"
    using k(4) i by (intro buckets_ok_update) (auto simp: buckets_ok_def intro: by_priority_insert)
  have es: "\<forall>e' \<in> set (concat ?cs). entry_ok hk n (sh_mask s) e'"
    using e inv mset_eq_setD [of "concat ?cs" "e # concat (sh_buckets s)"] m by (auto simp: shard_inv_def)
  have bl: "br (bloom_filter_add E (sh_bloom s) (te_hash e)) (image_mset te_hash (mset (concat ?cs)))"
    using env_bloom_add [OF env, of "sh_bloom s"] inv unfolding m by (simp add: shard_inv_def)
  have p: "unat (2 ^ k :: u32) = 2 ^ k" using k(2) by (simp add: unat_pow2)
  have cnt: "unat (sh_count s + 1) = unat (sh_count s) + 1" "2 * unat (sh_count s) \<le> 2 ^ k"
    using small unat_add_of_nat [of "sh_count s" 1] inv k(3) p by (simp_all add: shard_inv_def)
  show ?thesis
  proof (cases "2 * unat (sh_count s + 1) > 2 ^ k")
    case True
    then have "(2 :: nat) ^ k < 2 ^ 31" using cnt(1) small by simp
    then have "k \<le> 30" using power_less_imp_less_exp [of "2 :: nat" k 31] by simp
    moreover have "(2 :: nat) ^ 4 \<le> 2 ^ k" using k(1) by (intro power_increasing) simp_all
    then have "unat (sh_count s + 1) \<le> 2 ^ k" using cnt by simp
    ultimately have "shard_inv br hk n (tcam_shard_grow E s') \<and> sh_addr (tcam_shard_grow E s') = sh_addr s' \<and>
      sh_mask (tcam_shard_grow E s') = sh_mask s' \<and>
      mset (concat (sh_buckets (tcam_shard_grow E s'))) = mset (concat (sh_buckets s'))"
      using k ok es c inv by (intro shard_grow_inv [OF env]) (simp_all add: s'_def shard_inv_def)
    then show ?thesis using ins True k(3) p m by (simp add: s'_def)
  next
    case False
    then have "shard_inv br hk n s'"
      unfolding shard_inv_def using k ok es bl c inv p by (auto simp: s'_def shard_inv_def)
    then show ?thesis using ins False k(3) p m by (simp add: s'_def)
  qed
qed

lemma chain_remove_ok:
  assumes "distinct (map te_addr c)" "e \<in> set c"
  obtains c' where "chain_remove (te_addr e) c = Some c'" "mset c = add_mset e (mset c')"
    "by_priority c \<longrightarrow> by_priority c'" "set c' \<subseteq> set c"
  using assms
proof (induction c arbitrary: thesis)
  case (Cons x c)
  show ?case
  proof (cases "te_addr x = te_addr e")
    case True
    then have "x = e" using Cons.prems(2,3) by (auto simp: rev_image_eqI)
    then show ?thesis using Cons.prems(1) [of c] by (auto simp: by_priority_def)
  next
    case False
    then have "distinct (map te_addr c)" "e \<in> set c" using Cons.prems(2,3) by auto
    then obtain c' where c': "chain_remove (te_addr e) c = Some c'" "mset c = add_mset e (mset c')"
      "by_priority c \<longrightarrow> by_priority c'" "set c' \<subseteq> set c"
      using Cons.IH by blast
    then show ?thesis using False Cons.prems(1) [of "x # c'"] by (auto simp: by_priority_def)
  qed
qed simp

subsection \<open>Invariant of a TCAM\<close>

definition tcam_entries :: "('b, 'h) tcam \<Rightarrow> tcam_entry list" where
  "tcam_entries t = shard_entries (shard_list t)"

definition shard_index :: "('b, 'h) tcam_env \<Rightarrow> ('b, 'h) tcam \<Rightarrow> (u64 \<times> u32) set" where
  "shard_index E t = (\<lambda>s. (sh_addr s, hash_key E t (sh_mask s) (sh_mask s))) ` set (shard_list t)"

definition tcam_inv ::
  "('b, 'h) tcam_env \<Rightarrow> ('b \<Rightarrow> u32 multiset \<Rightarrow> bool) \<Rightarrow> ('h \<Rightarrow> (u64 \<times> u32) set \<Rightarrow> bool) \<Rightarrow> ('b, 'h) tcam \<Rightarrow> bool" where
  "tcam_inv E br hr t \<longleftrightarrow> env_ok E br hr \<and>
     distinct (map sh_addr (shard_list t)) \<and> distinct (map sh_mask (shard_list t)) \<and>
     (\<forall>s \<in> set (shard_list t). shard_inv br (hash_key E t) (key_words t) s) \<and>
     hr (shard_hashtable t) (shard_index E t) \<and> distinct (map te_addr (tcam_entries t))"

lemma find_distinct: "distinct (map f xs) \<Longrightarrow> x \<in> set xs \<Longrightarrow> find (\<lambda>y. f y = f x) xs = Some x"
  by (induction xs) (auto simp: rev_image_eqI)

lemma shard_at_eq:
  "distinct (map sh_addr (shard_list t)) \<Longrightarrow> s \<in> set (shard_list t) \<Longrightarrow> shard_at t (sh_addr s) = Some s"
  unfolding shard_at_def by (rule find_distinct)

lemma shard_at_Some: "shard_at t a = Some s \<Longrightarrow> s \<in> set (shard_list t) \<and> sh_addr s = a"
  by (auto simp: shard_at_def find_Some_iff)

lemma find_shard_loop_Some:
  "find_shard_loop t msk as = Some s \<Longrightarrow> s \<in> set (shard_list t) \<and> sh_mask s = msk"
  by (induction as) (auto split: option.splits if_splits dest: shard_at_Some)

lemma find_shard_loop_None:
  "find_shard_loop t msk as = None \<Longrightarrow> a \<in> set as \<Longrightarrow> shard_at t a = Some s \<Longrightarrow> sh_mask s \<noteq> msk"
  by (induction as) (auto split: option.splits if_splits)

lemma tcam_find_shard_Some:
  "tcam_find_shard E t msk = Some s \<Longrightarrow> s \<in> set (shard_list t) \<and> sh_mask s = msk"
  unfolding tcam_find_shard_def by (rule find_shard_loop_Some)

lemma tcam_find_shard_None:
  assumes inv: "tcam_inv E br hr t" and none: "tcam_find_shard E t msk = None" and s: "s \<in> set (shard_list t)"
  shows "sh_mask s \<noteq> msk"
proof
  assume m: "sh_mask s = msk"
  have "env_ok E br hr" "hr (shard_hashtable t) (shard_index E t)" using inv by (auto simp: tcam_inv_def)
  then have "sh_addr s \<in> set (bighash_chain E (shard_hashtable t) (hash_key E t msk msk))"
    using env_bighash_chain [of E br hr] s m by (auto simp: shard_index_def image_iff)
  moreover have "shard_at t (sh_addr s) = Some s" using inv s by (intro shard_at_eq) (auto simp: tcam_inv_def)
  ultimately show False using find_shard_loop_None none m unfolding tcam_find_shard_def by blast
qed

lemma put_shard_split:
  assumes "shard_list t = xs @ s # ys" "distinct (map sh_addr (shard_list t))" "sh_addr s' = sh_addr s"
  shows "shard_list (put_shard s' t) = xs @ s' # ys"
proof -
  have "map (\<lambda>s''. if sh_addr s'' = sh_addr s' then s' else s'') zs = zs" if "sh_addr s \<notin> sh_addr ` set zs" for zs
    using that assms(3) by (intro map_idI) (auto simp: rev_image_eqI)
  then show ?thesis using assms by (simp add: put_shard_def)
qed

lemma tcam_inv_put_shard:
  assumes inv: "tcam_inv E br hr t" and s: "s \<in> set (shard_list t)"
    and s': "shard_inv br (hash_key E t) (key_words t) s'" "sh_addr s' = sh_addr s" "sh_mask s' = sh_mask s"
    and m: "mset (tcam_entries t) + mset (concat (sh_buckets s')) = mset L + mset (concat (sh_buckets s))"
    and d: "distinct (map te_addr L)"
  shows "tcam_inv E br hr (put_shard s' t)" "mset (tcam_entries (put_shard s' t)) = mset L"
proof -
  obtain xs ys where xy: "shard_list t = xs @ s # ys" using s by (meson split_list)
  have da: "distinct (map sh_addr (shard_list t))" using inv by (simp add: tcam_inv_def)
  have l: "shard_list (put_shard s' t) = xs @ s' # ys" by (rule put_shard_split [OF xy da s'(2)])
  show M: "mset (tcam_entries (put_shard s' t)) = mset L"
    using m by (simp add: tcam_entries_def l xy ac_simps)
  have "shard_index E (put_shard s' t) = shard_index E t"
    using s' by (simp add: shard_index_def l xy)
  moreover have "shard_hashtable (put_shard s' t) = shard_hashtable t" by (simp add: put_shard_def)
  moreover have "distinct (map te_addr (tcam_entries (put_shard s' t)))"
    using d mset_eq_imp_distinct_iff [of "map te_addr L"] M by (metis mset_map)
  ultimately show "tcam_inv E br hr (put_shard s' t)"
    using inv s' xy by (auto simp: tcam_inv_def l)
qed

lemma tcam_create_inv:
  assumes "env_ok E br hr" "tcam_create E ksz slt = Some t"
  shows "tcam_inv E br hr t" "tcam_entries t = []" "key_words t = unat ksz div 4"
  using assms env_bighash_create [OF assms(1)]
  by (auto simp: tcam_create_def tcam_inv_def shard_index_def tcam_entries_def key_words_def split: if_splits)

lemma shard_create_inv:
  assumes inv: "tcam_inv E br hr t" and new: "\<forall>s \<in> set (shard_list t). sh_mask s \<noteq> msk \<and> sh_addr s \<noteq> addr"
    and len: "length msk = key_words t" and c: "tcam_shard_create E t addr msk = (s, t')"
  shows "tcam_inv E br hr t'" "s \<in> set (shard_list t')" "sh_mask s = msk" "sh_count s = 0"
    "mset (tcam_entries t') = mset (tcam_entries t)" "hash_key E t' = hash_key E t" "key_words t' = key_words t"
proof -
  have env: "env_ok E br hr" using inv by (simp add: tcam_inv_def)
  have s: "sh_mask s = msk" "sh_addr s = addr" "sh_count s = 0" "sh_buckets s = replicate 16 []" "sh_buckets_size s = 2 ^ 4"
    "sh_bloom s = bloom_filter_create E (TCAM_INITIAL_ENTRY_BUCKETS * TCAM_BLOOM_BITS_PER_ENTRY)"
    and t': "t' = t\<lparr>shard_hashtable := bighash_insert E (shard_hashtable t) addr (hash_key E t msk msk),
      shard_list := shard_list t @ [s]\<rparr>"
    using c by (auto simp: tcam_shard_create_def Let_def TCAM_INITIAL_ENTRY_BUCKETS_def)
  have b: "concat (sh_buckets s) = []" unfolding s by simp
  have "buckets_ok 4 (sh_buckets s)" unfolding s by (simp add: buckets_ok_def by_priority_def)
  then have si: "shard_inv br (hash_key E t) (key_words t) s"
    unfolding shard_inv_def b using s len env_bloom_create [OF env] by (auto intro!: exI [of _ 4])
  have "addr \<notin> fst ` shard_index E t" using new by (auto simp: shard_index_def)
  then have "hr (bighash_insert E (shard_hashtable t) addr (hash_key E t msk msk)) (insert (addr, hash_key E t msk msk) (shard_index E t))"
    using inv by (intro env_bighash_insert [OF env]) (auto simp: tcam_inv_def)
  moreover have "insert (addr, hash_key E t msk msk) (shard_index E t) = shard_index E t'"
    unfolding t' shard_index_def using s by simp
  ultimately show "tcam_inv E br hr t'"
    using inv new si s(1,2) unfolding tcam_inv_def t' by (auto simp: tcam_entries_def b simp del: concat_eq_Nil_conv)
  show "s \<in> set (shard_list t')" "mset (tcam_entries t') = mset (tcam_entries t)" "hash_key E t' = hash_key E t"
    "key_words t' = key_words t"
    unfolding t' by (simp_all add: tcam_entries_def b)
qed (use c in \<open>auto simp: tcam_shard_create_def Let_def\<close>)


lemma tcam_insert_inv:
  assumes inv: "tcam_inv E br hr t" and len: "length key = key_words t" "length msk = key_words t"
    and fresh: "eaddr \<notin> te_addr ` set (tcam_entries t)" "saddr \<notin> sh_addr ` set (shard_list t)"
    and small: "length (tcam_entries t) < 2 ^ 30"
  shows "tcam_inv E br hr (tcam_insert E t eaddr saddr key msk p)"
    "mset (tcam_entries (tcam_insert E t eaddr saddr key msk p)) = add_mset
       \<lparr>te_addr = eaddr, te_hash = hash_key E t key msk, te_priority = p, te_key = key, te_mask = msk\<rparr> (mset (tcam_entries t))"
    "key_words (tcam_insert E t eaddr saddr key msk p) = key_words t"
    "hash_key E (tcam_insert E t eaddr saddr key msk p) = hash_key E t"
proof -
  let ?e = "\<lparr>te_addr = eaddr, te_hash = hash_key E t key msk, te_priority = p, te_key = key, te_mask = msk\<rparr>"
  obtain s t1 where st: "(case tcam_find_shard E t msk of Some s \<Rightarrow> (s, t) | None \<Rightarrow> tcam_shard_create E t saddr msk) = (s, t1)"
    by fastforce
  have "tcam_inv E br hr t1 \<and> s \<in> set (shard_list t1) \<and> sh_mask s = msk \<and>
      mset (tcam_entries t1) = mset (tcam_entries t) \<and> hash_key E t1 = hash_key E t \<and> key_words t1 = key_words t"
  proof (cases "tcam_find_shard E t msk")
    case None
    then have c: "tcam_shard_create E t saddr msk = (s, t1)" using st by simp
    have new: "\<forall>s \<in> set (shard_list t). sh_mask s \<noteq> msk \<and> sh_addr s \<noteq> saddr"
      using tcam_find_shard_None [OF inv None] fresh(2) by auto
    show ?thesis
      by (intro conjI shard_create_inv [OF inv new len(2) c])
  next
    case (Some s')
    then show ?thesis using st inv tcam_find_shard_Some [OF Some] by simp
  qed
  then have t1: "tcam_inv E br hr t1" "s \<in> set (shard_list t1)" "sh_mask s = msk" "mset (tcam_entries t1) = mset (tcam_entries t)"
    "hash_key E t1 = hash_key E t" "key_words t1 = key_words t" by simp_all
  have ins: "tcam_insert E t eaddr saddr key msk p = put_shard (shard_insert E s ?e) t1"
    using st t1(3) by (simp add: tcam_insert_def)
  have env: "env_ok E br hr" and si: "shard_inv br (hash_key E t1) (key_words t1) s" using t1(1,2) by (auto simp: tcam_inv_def)
  have sub: "mset (concat (sh_buckets s)) \<subseteq># mset (tcam_entries t1)"
    using split_list [OF t1(2)] by (auto simp: tcam_entries_def)
  then have "length (concat (sh_buckets s)) < 2 ^ 30"
    using size_mset_mono [OF sub] t1(4) small mset_eq_length [OF t1(4)] by simp
  then have "unat (sh_count s) < 2 ^ 30" using si by (simp add: shard_inv_def)
  then have si': "shard_inv br (hash_key E t1) (key_words t1) (shard_insert E s ?e)" "sh_addr (shard_insert E s ?e) = sh_addr s"
    "sh_mask (shard_insert E s ?e) = sh_mask s"
    "mset (concat (sh_buckets (shard_insert E s ?e))) = add_mset ?e (mset (concat (sh_buckets s)))"
    using shard_insert_inv [OF env si, of ?e] len t1(3,5,6) by (simp_all add: entry_ok_def)
  have "distinct (map te_addr (tcam_entries t))" using inv by (simp add: tcam_inv_def)
  then have d: "distinct (map te_addr (?e # tcam_entries t))"
    using fresh(1) by simp
  note put = tcam_inv_put_shard [OF t1(1,2) si'(1,2,3) _ d]
  show "tcam_inv E br hr (tcam_insert E t eaddr saddr key msk p)"
    "mset (tcam_entries (tcam_insert E t eaddr saddr key msk p)) = add_mset ?e (mset (tcam_entries t))"
    unfolding ins using put si'(4) t1(4) by simp_all
  show "key_words (tcam_insert E t eaddr saddr key msk p) = key_words t"
    "hash_key E (tcam_insert E t eaddr saddr key msk p) = hash_key E t"
    unfolding ins using t1(5,6) by simp_all
qed

lemma tcam_entry_shard:
  assumes inv: "tcam_inv E br hr t" and e: "e \<in> set (tcam_entries t)"
  obtains s where "tcam_find_shard E t (te_mask e) = Some s" "s \<in> set (shard_list t)" "e \<in> set (concat (sh_buckets s))"
proof -
  obtain s where s: "s \<in> set (shard_list t)" "e \<in> set (concat (sh_buckets s))"
    using e by (auto simp: tcam_entries_def shard_entries_def)
  then have "te_mask e = sh_mask s" using inv by (auto simp: tcam_inv_def shard_inv_def entry_ok_def)
  have "inj_on sh_mask (set (shard_list t))" using inv by (simp add: tcam_inv_def distinct_map)
  have "tcam_find_shard E t (sh_mask s) \<noteq> None" using tcam_find_shard_None [OF inv _ s(1)] by blast
  then obtain s' where s': "tcam_find_shard E t (sh_mask s) = Some s'" by blast
  have "s' = s" using tcam_find_shard_Some [OF s'] s(1) \<open>inj_on _ _\<close> by (blast dest: inj_onD)
  then have "tcam_find_shard E t (te_mask e) = Some s" using s' \<open>te_mask e = _\<close> by simp
  then show thesis using that s by blast
qed

lemma shard_remove_inv:
  assumes env: "env_ok E br hr" and inv: "shard_inv br hk n s" and e: "e \<in> set (concat (sh_buckets s))"
    and d: "distinct (map te_addr (concat (sh_buckets s)))"
  obtains chain s' where "chain_remove (te_addr e) (sh_buckets s ! bucket_of s (te_hash e)) = Some chain"
    "s' = s\<lparr>sh_buckets := (sh_buckets s)[bucket_of s (te_hash e) := chain], sh_count := sh_count s - 1,
       sh_bloom := bloom_filter_remove E (sh_bloom s) (te_hash e)\<rparr>"
    "shard_inv br hk n s'" "mset (concat (sh_buckets s)) = add_mset e (mset (concat (sh_buckets s')))"
proof -
  let ?i = "bucket_of s (te_hash e)"
  have i: "?i < length (sh_buckets s)" using inv by (rule shard_bucket_less)
  have ei: "e \<in> set (sh_buckets s ! ?i)" by (rule shard_bucket [OF inv e])
  have "distinct (map te_addr (sh_buckets s ! ?i))"
    using d i by (metis distinct_concat_iff map_concat length_map nth_map nth_mem)
  then obtain c where c: "chain_remove (te_addr e) (sh_buckets s ! ?i) = Some c" "mset (sh_buckets s ! ?i) = add_mset e (mset c)"
    "by_priority (sh_buckets s ! ?i) \<longrightarrow> by_priority c" "set c \<subseteq> set (sh_buckets s ! ?i)"
    using ei by (rule chain_remove_ok)
  let ?cs = "(sh_buckets s)[?i := c]"
  have m: "mset (concat (sh_buckets s)) = add_mset e (mset (concat ?cs))"
    using mset_concat_update [OF i, of c] c(2) by simp
  obtain k where k: "4 \<le> k" "k \<le> 31" "sh_buckets_size s = 2 ^ k" "buckets_ok k (sh_buckets s)"
    using inv by (auto simp: shard_inv_def)
  have ok: "buckets_ok k ?cs"
    using k(4) i c(3,4) by (intro buckets_ok_update) (auto simp: buckets_ok_def)
  have len: "length (concat (sh_buckets s)) = Suc (length (concat ?cs))"
    using mset_eq_length [of "concat (sh_buckets s)" "e # concat ?cs"] m by (simp del: length_concat)
  have cnt: "unat (sh_count s) = length (concat (sh_buckets s))" using inv by (simp add: shard_inv_def)
  then have cnt': "unat (sh_count s - 1) = length (concat ?cs)"
    using len by (subst unat_dec) (simp_all del: length_concat)
  have "te_hash e \<in># image_mset te_hash (mset (concat (sh_buckets s)))" using m by simp
  then have bl: "br (bloom_filter_remove E (sh_bloom s) (te_hash e)) (image_mset te_hash (mset (concat ?cs)))"
    using env_bloom_remove [OF env, of "sh_bloom s" "image_mset te_hash (mset (concat (sh_buckets s)))" "te_hash e"] inv m
    by (simp add: shard_inv_def)
  have sub: "set (concat ?cs) \<subseteq> set (concat (sh_buckets s))"
    using m by (metis set_mset_add_mset_insert set_mset_mset subset_insertI)
  have es: "\<forall>e \<in> set (concat (sh_buckets s)). entry_ok hk n (sh_mask s) e" "length (sh_mask s) = n"
    "2 * unat (sh_count s) \<le> unat (sh_buckets_size s)"
    using inv by (simp_all add: shard_inv_def)
  let ?s = "s\<lparr>sh_buckets := ?cs, sh_count := sh_count s - 1, sh_bloom := bloom_filter_remove E (sh_bloom s) (te_hash e)\<rparr>"
  have "shard_inv br hk n ?s"
    unfolding shard_inv_def
  proof (intro conjI exI [of _ k])
    show "\<forall>e' \<in> set (concat (sh_buckets ?s)). entry_ok hk n (sh_mask ?s) e'" using es(1) sub by auto
    show "2 * unat (sh_count ?s) \<le> unat (sh_buckets_size ?s)" using es(3) cnt cnt' len by simp
  qed (use k ok bl es(2) cnt' in simp_all)
  then show thesis using that [OF c(1) refl] m by simp
qed

lemma filter_addr_neq: "a \<notin> sh_addr ` set zs \<Longrightarrow> filter (\<lambda>s. sh_addr s \<noteq> a) zs = zs"
  by (auto simp: filter_id_conv)

lemma shard_destroy_inv:
  assumes inv: "tcam_inv E br hr t" and s: "s \<in> set (shard_list t)" "sh_addr s' = sh_addr s" "sh_count s' = 0"
    and e: "mset (concat (sh_buckets s)) = {#e#}"
  obtains t' where "tcam_shard_destroy E t s' = Some t'" "tcam_inv E br hr t'"
    "mset (tcam_entries t) = add_mset e (mset (tcam_entries t'))" "key_words t' = key_words t" "hash_key E t' = hash_key E t"
proof -
  obtain xs ys where xy: "shard_list t = xs @ s # ys" using s by (meson split_list)
  have env: "env_ok E br hr" and da: "distinct (map sh_addr (shard_list t))" using inv by (auto simp: tcam_inv_def)
  let ?t = "t\<lparr>shard_hashtable := bighash_remove E (shard_hashtable t) (sh_addr s'), shard_list := xs @ ys\<rparr>"
  have f: "filter (\<lambda>s''. sh_addr s'' \<noteq> sh_addr s') (shard_list t) = xs @ ys"
    using da xy s(2) by (simp add: filter_addr_neq)
  then have d: "tcam_shard_destroy E t s' = Some ?t" using s(3) by (simp add: tcam_shard_destroy_def)
  let ?h = "hash_key E t (sh_mask s) (sh_mask s)"
  have "hr (bighash_remove E (shard_hashtable t) (sh_addr s)) (shard_index E t - {(sh_addr s, ?h)})"
    using inv s(1) by (intro env_bighash_remove [OF env]) (auto simp: tcam_inv_def shard_index_def)
  moreover have "shard_index E t - {(sh_addr s, ?h)} = shard_index E ?t"
    using da xy by (auto simp: shard_index_def image_iff)
  moreover have "mset (tcam_entries t) = add_mset e (mset (tcam_entries ?t))"
    using xy e by (simp add: tcam_entries_def)
  moreover have "distinct (map te_addr (tcam_entries ?t))"
    using inv xy by (auto simp: tcam_inv_def tcam_entries_def)
  ultimately show thesis
    using inv xy s(2) by (intro that [OF d]) (auto simp: tcam_inv_def)
qed

lemma tcam_remove_inv:
  assumes inv: "tcam_inv E br hr t" and e: "e \<in> set (tcam_entries t)"
  obtains t' where "tcam_remove E t e = Some t'" "tcam_inv E br hr t'"
    "mset (tcam_entries t) = add_mset e (mset (tcam_entries t'))" "key_words t' = key_words t" "hash_key E t' = hash_key E t"
proof -
  obtain s where s: "tcam_find_shard E t (te_mask e) = Some s" "s \<in> set (shard_list t)" "e \<in> set (concat (sh_buckets s))"
    by (rule tcam_entry_shard [OF inv e])
  have env: "env_ok E br hr" and si: "shard_inv br (hash_key E t) (key_words t) s"
    and dt: "distinct (map te_addr (tcam_entries t))" using inv s(2) by (auto simp: tcam_inv_def)
  have h: "hash_key E t (te_key e) (te_mask e) = te_hash e"
    using si s(3) by (auto simp: shard_inv_def entry_ok_def)
  have sub: "mset (concat (sh_buckets s)) \<subseteq># mset (tcam_entries t)"
    using split_list [OF s(2)] by (auto simp: tcam_entries_def)
  have ds: "distinct (map te_addr (concat (sh_buckets s)))"
    using dt split_list [OF s(2)] by (auto simp: tcam_entries_def)
  obtain chain s' where s': "chain_remove (te_addr e) (sh_buckets s ! bucket_of s (te_hash e)) = Some chain"
    "s' = s\<lparr>sh_buckets := (sh_buckets s)[bucket_of s (te_hash e) := chain], sh_count := sh_count s - 1,
       sh_bloom := bloom_filter_remove E (sh_bloom s) (te_hash e)\<rparr>"
    "shard_inv br (hash_key E t) (key_words t) s'" "mset (concat (sh_buckets s)) = add_mset e (mset (concat (sh_buckets s')))"
    by (rule shard_remove_inv [OF env si s(3) ds])
  have r: "tcam_remove E t e = (if sh_count s' = 0 then tcam_shard_destroy E t s' else Some (put_shard s' t))"
    using s(1) s'(1) h by (simp add: tcam_remove_def s'(2))
  have a: "sh_addr s' = sh_addr s" "sh_mask s' = sh_mask s" by (simp_all add: s'(2))
  show thesis
  proof (cases "sh_count s' = 0")
    case True
    then have "mset (concat (sh_buckets s)) = {#e#}" using s'(3,4) by (simp add: shard_inv_def)
    then show thesis
    proof (rule shard_destroy_inv [OF inv s(2) a(1) True])
      fix t' assume "tcam_shard_destroy E t s' = Some t'" "tcam_inv E br hr t'"
        "mset (tcam_entries t) = add_mset e (mset (tcam_entries t'))" "key_words t' = key_words t"
        "hash_key E t' = hash_key E t"
      then show thesis using r True by (intro that [of t']) simp_all
    qed
  next
    case False
    obtain L where L: "mset (tcam_entries t) = mset (e # L)"
      using sub s'(4) by (metis mset.simps(2) mset_subset_eq_insertD ex_mset insert_DiffM s(3) set_mset_mset mset_subset_eqD)
    then have "distinct (map te_addr (e # L))"
      using dt mset_eq_imp_distinct_iff [of "map te_addr (e # L)" "map te_addr (tcam_entries t)"] by simp
    then have "tcam_inv E br hr (put_shard s' t)" "mset (tcam_entries (put_shard s' t)) = mset L"
      using tcam_inv_put_shard [OF inv s(2) s'(3) a, of L] L s'(4) by auto
    then show thesis using False r L by (intro that [of "put_shard s' t"]) simp_all
  qed
qed

subsection \<open>The mask a lookup returns\<close>

lemma memcmp_masked_cong:
  "masked k m = masked k' m \<Longrightarrow> length k = length m \<Longrightarrow> length k' = length m \<Longrightarrow>
     memcmp_masked n k x m = memcmp_masked n k' x m"
proof (induction n k x m arbitrary: k' rule: memcmp_masked.induct)
  case (1 n a as b bs m ms)
  then obtain a' as' where k': "k' = a' # as'" by (cases k') auto
  then have "a AND m = a' AND m" "masked as ms = masked as' ms" using 1 by simp_all
  then have "(a XOR b) AND m = 0 \<longleftrightarrow> (a' XOR b) AND m = 0" by (simp only: word_and_eq_iff_xor)
  then show ?case using 1 k' by simp
qed (auto simp: length_Suc_conv)

lemma chain_match_cong:
  "masked k m = masked k' m \<Longrightarrow> length k = length m \<Longrightarrow> length k' = length m \<Longrightarrow>
     chain_match n h k m p c = chain_match n h k' m p c"
  by (induction c) (simp_all add: memcmp_masked_cong [of k m k'])

lemma match_loop_cong:
  assumes "\<forall>s \<in> set ss. masked k (sh_mask s) = masked k' (sh_mask s) \<and> length (sh_mask s) = key_words t"
    "length k = key_words t" "length k' = key_words t"
  shows "fst (match_loop E t k ss found p msk) = fst (match_loop E t k' ss found p msk')"
  using assms(1)
proof (induction ss arbitrary: found p msk msk')
  case (Cons s ss)
  then have s: "masked k (sh_mask s) = masked k' (sh_mask s)" "length (sh_mask s) = key_words t" by simp_all
  have "shard_match E t k p s = shard_match E t k' p s"
    using hash_key_masked [OF s(1) assms(2,3) s(2), of E] chain_match_cong [OF s(1)] assms(2,3) s(2)
    by (simp add: shard_match_def Let_def)
  moreover have "fst (match_loop E t k ss found' p' m) = fst (match_loop E t k' ss found' p' m')" for found' p' m m'
    using Cons by simp
  ultimately show ?case by (simp add: match_loop_Cons del: match_loop.simps(2) split: option.split)
qed simp

lemma match_loop_mask:
  "snd (match_loop E t k ss found p msk) = map_option (\<lambda>m. foldl memor m (map sh_mask ss)) msk"
proof (induction ss arbitrary: found p msk)
  case (Cons s ss)
  then show ?case
    by (simp add: match_loop_Cons option.map_comp comp_def del: match_loop.simps(2) split: option.split)
qed (simp add: option.map_ident)

text \<open>\<open>m\<close> covers \<open>s\<close>: every bit of \<open>s\<close> is set in \<open>m\<close>.\<close>

definition covers :: "words \<Rightarrow> words \<Rightarrow> bool" where
  "covers m s \<longleftrightarrow> length m = length s \<and> (\<forall>i<length s. (m ! i) AND (s ! i) = s ! i)"

lemma masked_covers:
  assumes "covers m s" "masked k m = masked k' m" "length k = length s" "length k' = length s"
  shows "masked k s = masked k' s"
proof (rule nth_equalityI)
  show "length (masked k s) = length (masked k' s)" using assms by (simp add: masked_def)
next
  fix i assume "i < length (masked k s)"
  then have i: "i < length s" using assms(3) by (simp add: masked_def)
  have m: "m ! i AND s ! i = s ! i" "length m = length s" using assms(1) i by (simp_all add: covers_def)
  have "masked k m ! i = masked k' m ! i" using assms(2) by simp
  then have "k ! i AND m ! i = k' ! i AND m ! i" using i m assms(3,4) by (simp add: masked_def)
  then have "(k ! i AND m ! i) AND s ! i = (k' ! i AND m ! i) AND s ! i" by simp
  then have "k ! i AND s ! i = k' ! i AND s ! i" using m(1) by (simp only: and.assoc)
  then show "masked k s ! i = masked k' s ! i" using i assms(3,4) by (simp add: masked_def)
qed

lemma word_or_and_absorb: "(a OR b) AND b = b" "(a OR b) AND a = (a :: 'a::len word)"
  by (auto intro!: bit_word_eqI simp: bit_and_iff bit_or_iff)

lemma covers_memor: "length m = length s \<Longrightarrow> covers (memor m s) s" "length m = length s \<Longrightarrow> covers (memor m s) m"
  by (simp_all add: covers_def memor_def word_or_and_absorb)

lemma covers_trans: "covers a b \<Longrightarrow> covers b c \<Longrightarrow> covers a c"
proof -
  assume ab: "covers a b" and bc: "covers b c"
  have "a ! i AND c ! i = c ! i" if "i < length c" for i
  proof -
    have "a ! i AND b ! i = b ! i" "b ! i AND c ! i = c ! i" using ab bc that by (simp_all add: covers_def)
    then show ?thesis using and.assoc [of "a ! i" "b ! i" "c ! i"] by simp
  qed
  then show ?thesis using ab bc by (simp add: covers_def)
qed

lemma covers_refl: "covers m m"
  by (simp add: covers_def)

lemma foldl_memor_covers:
  assumes "\<forall>s \<in> set ss. length s = length m"
  shows "covers (foldl memor m ss) m \<and> (\<forall>s \<in> set ss. covers (foldl memor m ss) s)"
  using assms
proof (induction ss arbitrary: m)
  case (Cons s ss)
  then have "\<forall>s' \<in> set ss. length s' = length (memor m s)" by (simp add: memor_def)
  then have "covers (foldl memor (memor m s) ss) (memor m s)" "\<forall>s' \<in> set ss. covers (foldl memor (memor m s) ss) s'"
    using Cons.IH by blast+
  then show ?case using covers_memor [of m s] Cons.prems by (auto intro: covers_trans)
qed (simp add: covers_refl)

lemma tcam_inv_mask_length: "tcam_inv E br hr t \<Longrightarrow> s \<in> set (shard_list t) \<Longrightarrow> length (sh_mask s) = key_words t"
  by (simp add: tcam_inv_def shard_inv_def)

lemma tcam_mask_covers:
  assumes "tcam_inv E br hr t" "length m = key_words t" "tcam_match_and_mask E t k (Some m) = (r, Some m')"
  shows "covers m' m" "s \<in> set (shard_list t) \<Longrightarrow> covers m' (sh_mask s)" "length m' = key_words t"
proof -
  have m': "m' = foldl memor m (map sh_mask (shard_list t))"
    using assms(3) match_loop_mask [of E t k "shard_list t" None 0 "Some m"] by (simp add: tcam_match_and_mask_def)
  have "\<forall>s \<in> set (map sh_mask (shard_list t)). length s = length m"
    using assms(2) tcam_inv_mask_length [OF assms(1)] by simp
  note c = foldl_memor_covers [OF this, folded m']
  show "covers m' m" using c by simp
  then show "length m' = key_words t" using assms(2) by (simp add: covers_def)
  show "covers m' (sh_mask s)" if "s \<in> set (shard_list t)" using c that by simp
qed

lemma tcam_mask_sound:
  assumes inv: "tcam_inv E br hr t" and len: "length k = key_words t" "length k' = key_words t" "length m = key_words t"
    and r: "tcam_match_and_mask E t k (Some m) = (r, Some m')" and eq: "masked k m' = masked k' m'"
  shows "fst (tcam_match_and_mask E t k' msk) = r"
proof -
  have "\<forall>s \<in> set (shard_list t). masked k (sh_mask s) = masked k' (sh_mask s) \<and> length (sh_mask s) = key_words t"
  proof
    fix s assume s: "s \<in> set (shard_list t)"
    then have l: "length (sh_mask s) = key_words t" by (rule tcam_inv_mask_length [OF inv])
    have "masked k (sh_mask s) = masked k' (sh_mask s)"
      using len l by (intro masked_covers [OF tcam_mask_covers(2) [OF inv len(3) r s] eq]) simp_all
    then show "masked k (sh_mask s) = masked k' (sh_mask s) \<and> length (sh_mask s) = key_words t" using l by simp
  qed
  from match_loop_cong [OF this len(1,2), of E None 0 "Some m" msk] show ?thesis
    using r by (simp add: tcam_match_and_mask_def)
qed

lemma tcam_match_and_mask_best:
  assumes "tcam_inv E br hr t" "length key = key_words t"
  shows "best_of key (set (tcam_entries t)) (fst (tcam_match_and_mask E t key msk))"
proof -
  have "best_of key {} None" by (simp add: best_of_def)
  from match_loop_best [OF _ _ assms(2) this, of E br hr "shard_list t" 0 msk] show ?thesis
    using assms(1) by (simp add: tcam_match_and_mask_def tcam_entries_def tcam_inv_def)
qed

subsection \<open>The classifier interface\<close>

text \<open>
  What the flow tables of the pipelines and the kernel-flow cache use: entries are inserted and
  removed one at a time, and a lookup gives an entry of highest priority among the matching ones.
\<close>

locale classifier =
  fixes inv :: "'t \<Rightarrow> bool" and entries :: "'t \<Rightarrow> 'e multiset" and key_ok :: "'t \<Rightarrow> 'k \<Rightarrow> bool"
    and matching :: "'k \<Rightarrow> 'e \<Rightarrow> bool" and prio :: "'e \<Rightarrow> 'p::linorder"
    and lookup :: "'t \<Rightarrow> 'k \<Rightarrow> 'e option"
    and ins :: "'t \<Rightarrow> 'i \<Rightarrow> 't" and entry_of :: "'t \<Rightarrow> 'i \<Rightarrow> 'e" and ins_ok :: "'t \<Rightarrow> 'i \<Rightarrow> bool"
    and rm :: "'t \<Rightarrow> 'e \<Rightarrow> 't option"
  assumes lookup_best: "inv t \<Longrightarrow> key_ok t k \<Longrightarrow>
      (case lookup t k of None \<Rightarrow> \<forall>e \<in># entries t. \<not> matching k e
       | Some e \<Rightarrow> e \<in># entries t \<and> matching k e \<and> (\<forall>e' \<in># entries t. matching k e' \<longrightarrow> prio e' \<le> prio e))"
    and ins_law: "inv t \<Longrightarrow> ins_ok t i \<Longrightarrow> inv (ins t i) \<and> entries (ins t i) = add_mset (entry_of t i) (entries t) \<and>
      (\<forall>k. key_ok t k \<longrightarrow> key_ok (ins t i) k)"
    and rm_law: "inv t \<Longrightarrow> e \<in># entries t \<Longrightarrow>
      \<exists>t'. rm t e = Some t' \<and> inv t' \<and> entries t = add_mset e (entries t') \<and> (\<forall>k. key_ok t k \<longrightarrow> key_ok t' k)"
begin

lemma lookup_inserted:
  assumes "inv t" "ins_ok t i" "key_ok t k" "matching k (entry_of t i)"
    "\<forall>e \<in># entries t. matching k e \<longrightarrow> prio e < prio (entry_of t i)"
  shows "lookup (ins t i) k = Some (entry_of t i)"
proof -
  have i: "inv (ins t i)" "entries (ins t i) = add_mset (entry_of t i) (entries t)" "key_ok (ins t i) k"
    using ins_law [OF assms(1,2)] assms(3) by blast+
  note b = lookup_best [OF i(1,3)]
  then obtain e where e: "lookup (ins t i) k = Some e" using assms(4) i(2) by (cases "lookup (ins t i) k") auto
  then have "prio (entry_of t i) \<le> prio e" "e \<in># add_mset (entry_of t i) (entries t)" "matching k e"
    using b i(2) assms(4) by auto
  then show ?thesis using e assms(5) by (auto simp: leD)
qed

lemma lookup_prio_unique:
  assumes "inv t" "inv t'" "entries t = entries t'" "key_ok t k" "key_ok t' k"
  shows "map_option prio (lookup t k) = map_option prio (lookup t' k)"
  using lookup_best [OF assms(1,4)] lookup_best [OF assms(2,5)] assms(3)
  by (cases "lookup t k"; cases "lookup t' k") (auto intro: antisym)

lemma insert_remove_lookup:
  assumes "inv t" "ins_ok t i" "key_ok t k"
  obtains t' where "rm (ins t i) (entry_of t i) = Some t'" "inv t'" "entries t' = entries t"
    "map_option prio (lookup t' k) = map_option prio (lookup t k)"
proof -
  have i: "inv (ins t i)" "entries (ins t i) = add_mset (entry_of t i) (entries t)" "key_ok (ins t i) k"
    using ins_law [OF assms(1,2)] assms(3) by blast+
  then obtain t' where t': "rm (ins t i) (entry_of t i) = Some t'" "inv t'"
    "entries (ins t i) = add_mset (entry_of t i) (entries t')" "key_ok t' k"
    using rm_law [OF i(1), of "entry_of t i"] by auto
  then have "entries t' = entries t" using i(2) by simp
  then show thesis using that t' lookup_prio_unique [OF t'(2) assms(1) _ t'(4) assms(3)] by blast
qed

end

text \<open>An insertion request: entry address, shard address, key, mask and priority.\<close>

type_synonym tcam_request = "u64 \<times> u64 \<times> words \<times> words \<times> u16"

definition tcam_ins :: "('b, 'h) tcam_env \<Rightarrow> ('b, 'h) tcam \<Rightarrow> tcam_request \<Rightarrow> ('b, 'h) tcam" where
  "tcam_ins E t = (\<lambda>(eaddr, saddr, key, msk, p). tcam_insert E t eaddr saddr key msk p)"

definition tcam_new :: "('b, 'h) tcam_env \<Rightarrow> ('b, 'h) tcam \<Rightarrow> tcam_request \<Rightarrow> tcam_entry" where
  "tcam_new E t = (\<lambda>(eaddr, saddr, key, msk, p).
     \<lparr>te_addr = eaddr, te_hash = hash_key E t key msk, te_priority = p, te_key = key, te_mask = msk\<rparr>)"

text \<open>A request is acceptable if the lengths are right, the addresses fresh and the table below \<open>2^30\<close> entries.\<close>

definition tcam_ins_ok :: "('b, 'h) tcam \<Rightarrow> tcam_request \<Rightarrow> bool" where
  "tcam_ins_ok t = (\<lambda>(eaddr, saddr, key, msk, p). length key = key_words t \<and> length msk = key_words t \<and>
     eaddr \<notin> te_addr ` set (tcam_entries t) \<and> saddr \<notin> sh_addr ` set (shard_list t) \<and> length (tcam_entries t) < 2 ^ 30)"

interpretation tc: classifier "tcam_inv E br hr" "\<lambda>t. mset (tcam_entries t)" "\<lambda>t k. length k = key_words t"
    matches te_priority "tcam_match E" "tcam_ins E" "tcam_new E" tcam_ins_ok "tcam_remove E" for E br hr
proof unfold_locales
  show "case tcam_match E t k of None \<Rightarrow> \<forall>e \<in># mset (tcam_entries t). \<not> matches k e
      | Some e \<Rightarrow> e \<in># mset (tcam_entries t) \<and> matches k e \<and>
        (\<forall>e' \<in># mset (tcam_entries t). matches k e' \<longrightarrow> te_priority e' \<le> te_priority e)"
    if "tcam_inv E br hr t" "length k = key_words t" for t k
    using tcam_match_and_mask_best [OF that, of None] by (auto simp: tcam_match_def best_of_def split: option.splits)
  show "tcam_inv E br hr (tcam_ins E t i) \<and>
      mset (tcam_entries (tcam_ins E t i)) = add_mset (tcam_new E t i) (mset (tcam_entries t)) \<and>
      (\<forall>k. length k = key_words t \<longrightarrow> length k = key_words (tcam_ins E t i))"
    if "tcam_inv E br hr t" "tcam_ins_ok t i" for t i
  proof -
    obtain eaddr saddr key msk p where i: "i = (eaddr, saddr, key, msk, p)" by (cases i)
    have ok: "length key = key_words t" "length msk = key_words t" "eaddr \<notin> te_addr ` set (tcam_entries t)"
      "saddr \<notin> sh_addr ` set (shard_list t)" "length (tcam_entries t) < 2 ^ 30"
      using that(2) by (simp_all add: tcam_ins_ok_def i)
    show ?thesis
      using tcam_insert_inv [OF that(1) ok, of p] by (simp add: tcam_ins_def tcam_new_def i)
  qed
  show "\<exists>t'. tcam_remove E t e = Some t' \<and> tcam_inv E br hr t' \<and>
      mset (tcam_entries t) = add_mset e (mset (tcam_entries t')) \<and> (\<forall>k. length k = key_words t \<longrightarrow> length k = key_words t')"
    if "tcam_inv E br hr t" "e \<in># mset (tcam_entries t)" for t e
  proof -
    have "e \<in> set (tcam_entries t)" using that(2) by simp
    from tcam_remove_inv [OF that(1) this] show ?thesis by (metis (no_types))
  qed
qed

subsection \<open>A concrete environment\<close>

text \<open>
  A bloom filter that keeps the list of its hashes and a hash table that keeps the list of its
  entries: the relied-on behaviour of the external code is satisfiable.
\<close>

definition list_env :: "(u32 list, (u64 \<times> u32) list) tcam_env" where
  "list_env = \<lparr>murmur_round = (\<lambda>s x. s * 31 + x), murmur_finish = (\<lambda>s n. s XOR n),
     bloom_filter_create = (\<lambda>_. []), bloom_filter_add = (\<lambda>b h. h # b), bloom_filter_remove = (\<lambda>b h. remove1 h b),
     bloom_filter_lookup = (\<lambda>b h. h \<in> set b),
     bighash_create = [], bighash_insert = (\<lambda>t a h. (a, h) # t), bighash_remove = (\<lambda>t a. filter (\<lambda>e. fst e \<noteq> a) t),
     bighash_chain = (\<lambda>t h. map fst (filter (\<lambda>e. snd e = h) t))\<rparr>"

definition list_bloom_rep :: "u32 list \<Rightarrow> u32 multiset \<Rightarrow> bool" where
  "list_bloom_rep b M \<longleftrightarrow> mset b = M"

definition list_hash_rep :: "(u64 \<times> u32) list \<Rightarrow> (u64 \<times> u32) set \<Rightarrow> bool" where
  "list_hash_rep t S \<longleftrightarrow> set t = S \<and> distinct (map fst t)"

lemma list_env_ok: "env_ok list_env list_bloom_rep list_hash_rep"
proof -
  have "set (filter (\<lambda>e. fst e \<noteq> a) t) = set t - {(a, h)}" if "distinct (map fst t)" "(a, h) \<in> set t"
    for t :: "(u64 \<times> u32) list" and a h
    using that by (auto dest: eq_key_imp_eq_value)
  then show ?thesis
    by (auto simp: env_ok_def list_env_def list_bloom_rep_def list_hash_rep_def
        distinct_map_filter image_iff)
qed

text \<open>A TCAM with one-word keys after two insertions, used by the witnesses below.\<close>

definition demo0 :: "(u32 list, (u64 \<times> u32) list) tcam" where
  "demo0 = \<lparr>shard_hashtable = [], shard_list = [], key_size = 4, tcam_salt = 7\<rparr>"

definition demo1 :: "(u32 list, (u64 \<times> u32) list) tcam" where
  "demo1 = tcam_insert list_env demo0 1 100 [0x10] [0xf0] 5"

definition demo2 :: "(u32 list, (u64 \<times> u32) list) tcam" where
  "demo2 = tcam_insert list_env demo1 2 101 [0x12] [0xff] 9"

lemma demo0_inv: "tcam_inv list_env list_bloom_rep list_hash_rep demo0"
  using tcam_create_inv(1) [OF list_env_ok, of 4 7 demo0] by (simp add: demo0_def tcam_create_def list_env_def)

lemma demo0_sel [simp]: "key_words demo0 = 1" "tcam_entries demo0 = []" "shard_list demo0 = []"
  by (simp_all add: demo0_def key_words_def tcam_entries_def)

lemma demo1_inv: "tcam_inv list_env list_bloom_rep list_hash_rep demo1" "key_words demo1 = 1"
  "mset (tcam_entries demo1) = {# \<lparr>te_addr = 1, te_hash = hash_key list_env demo0 [0x10] [0xf0], te_priority = 5,
     te_key = [0x10], te_mask = [0xf0]\<rparr> #}"
  unfolding demo1_def
  using tcam_insert_inv [OF demo0_inv, of "[0x10]" "[0xf0]" 1 100 5] by simp_all

lemma demo1_shards: "sh_addr ` set (shard_list demo1) = {100}"
  by (code_simp)

lemma demo2_inv: "tcam_inv list_env list_bloom_rep list_hash_rep demo2" "key_words demo2 = 1"
  "mset (tcam_entries demo2) = add_mset \<lparr>te_addr = 2, te_hash = hash_key list_env demo1 [0x12] [0xff], te_priority = 9,
     te_key = [0x12], te_mask = [0xff]\<rparr> (mset (tcam_entries demo1))"
proof -
  have "te_addr ` set (tcam_entries demo1) = {1}"
    using arg_cong [OF demo1_inv(3), of "\<lambda>M. te_addr ` set_mset M"] by simp
  moreover have "length (tcam_entries demo1) = 1"
    using arg_cong [OF demo1_inv(3), of size] by simp
  ultimately show "tcam_inv list_env list_bloom_rep list_hash_rep demo2" "key_words demo2 = 1"
    "mset (tcam_entries demo2) = add_mset \<lparr>te_addr = 2, te_hash = hash_key list_env demo1 [0x12] [0xff], te_priority = 9,
     te_key = [0x12], te_mask = [0xff]\<rparr> (mset (tcam_entries demo1))"
    unfolding demo2_def
    using tcam_insert_inv [OF demo1_inv(1), of "[0x12]" "[0xff]" 2 101 9] demo1_inv(2) demo1_shards by simp_all
qed

subsection \<open>Properties\<close>

text \<open>
  C25: a lookup returns an entry of the table that matches the key and has the highest priority
  among all matching entries, and returns none exactly when no entry matches; this holds for any
  hash function and any bloom filter without false negatives.
\<close>

theorem tcam_match_highest_priority:
  assumes "tcam_inv E br hr t" and "length key = key_words t"
  shows "case tcam_match E t key of
      None \<Rightarrow> \<forall>e \<in> set (tcam_entries t). \<not> matches key e
    | Some e \<Rightarrow> e \<in> set (tcam_entries t) \<and> matches key e \<and>
        (\<forall>e' \<in> set (tcam_entries t). matches key e' \<longrightarrow> te_priority e' \<le> te_priority e)"
  using tc.lookup_best [OF assms] by (auto split: option.splits)

theorem tcam_match_highest_priority_witness:
  "case tcam_match list_env demo2 [0x12] of None \<Rightarrow> False
     | Some e \<Rightarrow> te_priority e = 9 \<and> e \<in> set (tcam_entries demo2) \<and> matches [0x12] e"
proof -
  have "length [0x12 :: u32] = key_words demo2" by (simp add: demo2_inv(2))
  note m = tcam_match_highest_priority [OF demo2_inv(1) this]
  moreover have "map_option te_priority (tcam_match list_env demo2 [0x12]) = Some 9" by code_simp
  ultimately show ?thesis by (auto split: option.splits)
qed

text \<open>
  C26: the mask that \<open>tcam_match_and_mask\<close> accumulates is sound: it contains the caller's mask, and
  every key that agrees with the looked-up key on it gives the same result. This is what allows
  a cached flow to stand for all packets under its mask.
\<close>

theorem tcam_mask_determines_result:
  assumes "tcam_inv E br hr t" and "length key = key_words t" "length key' = key_words t" "length m = key_words t"
    and "tcam_match_and_mask E t key (Some m) = (r, Some m')" and "masked key m' = masked key' m'"
  shows "fst (tcam_match_and_mask E t key' msk) = r \<and> covers m' m"
  using tcam_mask_sound [OF assms] tcam_mask_covers(1) [OF assms(1,4,5)] by blast

theorem tcam_mask_determines_result_witness:
  "fst (tcam_match_and_mask list_env demo2 [0x3312] None) = fst (tcam_match_and_mask list_env demo2 [0x12] (Some [0]))"
proof -
  have e: "tcam_match_and_mask list_env demo2 [0x12] (Some [0]) =
      (fst (tcam_match_and_mask list_env demo2 [0x12] (Some [0])), Some [0xff])"
    by code_simp
  show ?thesis
    using tcam_mask_determines_result [OF demo2_inv(1) _ _ _ e, of "[0x3312]" None] demo2_inv(2) by simp
qed

text \<open>
  C27: an insertion adds exactly the new entry and keeps the invariant (every entry in the bucket
  of its hash, chains in descending priority, counts, bloom filter and shard index up to date),
  growing the shard if need be, and removing the entry again gives back the same entries and, for
  every key, a result of the same priority as before.
\<close>

theorem tcam_insert_remove:
  assumes "tcam_inv E br hr t" and "tcam_ins_ok t (eaddr, saddr, key, msk, p)" and "length k = key_words t"
  shows "tcam_inv E br hr (tcam_insert E t eaddr saddr key msk p) \<and>
    mset (tcam_entries (tcam_insert E t eaddr saddr key msk p)) =
      add_mset (tcam_new E t (eaddr, saddr, key, msk, p)) (mset (tcam_entries t)) \<and>
    (\<exists>t'. tcam_remove E (tcam_insert E t eaddr saddr key msk p) (tcam_new E t (eaddr, saddr, key, msk, p)) = Some t' \<and>
       tcam_inv E br hr t' \<and> mset (tcam_entries t') = mset (tcam_entries t) \<and>
       map_option te_priority (tcam_match E t' k) = map_option te_priority (tcam_match E t k))"
proof -
  have i: "tcam_ins E t (eaddr, saddr, key, msk, p) = tcam_insert E t eaddr saddr key msk p" by (simp add: tcam_ins_def)
  obtain t' where "tcam_remove E (tcam_insert E t eaddr saddr key msk p) (tcam_new E t (eaddr, saddr, key, msk, p)) = Some t'"
    "tcam_inv E br hr t'" "mset (tcam_entries t') = mset (tcam_entries t)"
    "map_option te_priority (tcam_match E t' k) = map_option te_priority (tcam_match E t k)"
    by (rule tc.insert_remove_lookup [OF assms, unfolded i])
  then show ?thesis
    using tc.ins_law [OF assms(1,2)] unfolding i by blast
qed

theorem tcam_insert_remove_witness:
  "\<exists>t'. tcam_remove list_env demo1 (tcam_new list_env demo0 (1, 100, [0x10], [0xf0], 5)) = Some t' \<and>
    mset (tcam_entries t') = {#}"
  using tcam_insert_remove [OF demo0_inv, of 1 100 "[0x10]" "[0xf0]" 5 "[0]"]
  by (auto simp: tcam_ins_ok_def demo1_def)

text \<open>
  C28: an inserted entry that beats all other matching entries is found by the next lookup, so a
  newly added higher-priority flow takes effect at once.
\<close>

theorem tcam_lookup_inserted:
  assumes "tcam_inv E br hr t" and "tcam_ins_ok t (eaddr, saddr, key, msk, p)" and "length k = key_words t"
    and "matches k (tcam_new E t (eaddr, saddr, key, msk, p))"
    and "\<forall>e \<in> set (tcam_entries t). matches k e \<longrightarrow> te_priority e < p"
  shows "tcam_match E (tcam_insert E t eaddr saddr key msk p) k = Some (tcam_new E t (eaddr, saddr, key, msk, p))"
  using tc.lookup_inserted [OF assms(1,2,3,4)] assms(5) by (simp add: tcam_ins_def tcam_new_def)

theorem tcam_lookup_inserted_witness:
  "tcam_match list_env demo1 [0x1f] = Some (tcam_new list_env demo0 (1, 100, [0x10], [0xf0], 5))"
  unfolding demo1_def
  by (rule tcam_lookup_inserted [OF demo0_inv]) (simp_all add: tcam_ins_ok_def matches_def tcam_new_def)

end
