(* ===== verification/Cfr.thy ===== *)
theory Cfr
  imports Action Tcam
begin

text \<open>
  The canonical flow representation of the standard pipeline (\<open>pipeline_standard/module/src/cfr.c\<close>
  and \<open>cfr.h\<close>): the fields of a packet that flow entries match on, as a structure of 72 bytes
  that the tcam sees as 18 words. A parsed key and an OpenFlow match are both translated to it.
\<close>

subsection \<open>The structure\<close>

record pipeline_standard_cfr =
  cfr_in_port :: u32
  dl_dst :: bytes
  dl_src :: bytes
  dl_type :: u16
  dl_vlan :: u16
  nw_tos :: u8
  nw_proto :: u8
  cfr_pad :: u16
  nw_src :: u32
  nw_dst :: u32
  tp_src :: u16
  tp_dst :: u16
  ipv6_src :: bytes
  ipv6_dst :: bytes
  cfr_pad2 :: u32

definition cfr_zero :: pipeline_standard_cfr where
  "cfr_zero = \<lparr>cfr_in_port = 0, dl_dst = replicate 6 0, dl_src = replicate 6 0, dl_type = 0, dl_vlan = 0, nw_tos = 0,
     nw_proto = 0, cfr_pad = 0, nw_src = 0, nw_dst = 0, tp_src = 0, tp_dst = 0, ipv6_src = replicate 16 0,
     ipv6_dst = replicate 16 0, cfr_pad2 = 0\<rparr>"

definition cfr_wf :: "pipeline_standard_cfr \<Rightarrow> bool" where
  "cfr_wf c \<longleftrightarrow> length (dl_dst c) = 6 \<and> length (dl_src c) = 6 \<and> length (ipv6_src c) = 16 \<and> length (ipv6_dst c) = 16"

text \<open>The bytes in memory, and the words of the tcam.\<close>

definition cfr_bytes :: "pipeline_standard_cfr \<Rightarrow> bytes" where
  "cfr_bytes c = le_bytes 4 (cfr_in_port c) @ dl_dst c @ dl_src c @ le_bytes 2 (dl_type c) @ le_bytes 2 (dl_vlan c) @
     le_bytes 1 (nw_tos c) @ le_bytes 1 (nw_proto c) @ le_bytes 2 (cfr_pad c) @ le_bytes 4 (nw_src c) @ le_bytes 4 (nw_dst c) @
     le_bytes 2 (tp_src c) @ le_bytes 2 (tp_dst c) @ ipv6_src c @ ipv6_dst c @ le_bytes 4 (cfr_pad2 c)"

definition cfr_of_bytes :: "bytes \<Rightarrow> pipeline_standard_cfr" where
  "cfr_of_bytes bs = \<lparr>cfr_in_port = of_le (slice 0 4 bs), dl_dst = slice 4 6 bs, dl_src = slice 10 6 bs,
     dl_type = of_le (slice 16 2 bs), dl_vlan = of_le (slice 18 2 bs), nw_tos = of_le (slice 20 1 bs),
     nw_proto = of_le (slice 21 1 bs), cfr_pad = of_le (slice 22 2 bs), nw_src = of_le (slice 24 4 bs),
     nw_dst = of_le (slice 28 4 bs), tp_src = of_le (slice 32 2 bs), tp_dst = of_le (slice 34 2 bs),
     ipv6_src = slice 36 16 bs, ipv6_dst = slice 52 16 bs, cfr_pad2 = of_le (slice 68 4 bs)\<rparr>"

fun words_of :: "bytes \<Rightarrow> words" where
  "words_of (a # b # c # d # bs) = of_le [a, b, c, d] # words_of bs"
| "words_of bs = []"

definition bytes_of :: "words \<Rightarrow> bytes" where
  "bytes_of ws = concat (map (le_bytes 4) ws)"

definition cfr_words :: "pipeline_standard_cfr \<Rightarrow> words" where
  "cfr_words c = words_of (cfr_bytes c)"

definition cfr_of_words :: "words \<Rightarrow> pipeline_standard_cfr" where
  "cfr_of_words ws = cfr_of_bytes (bytes_of ws)"

subsection \<open>From a parsed key\<close>

definition cfr_dl_type :: "ind_ovs_parsed_key \<Rightarrow> u16" where
  "cfr_dl_type pkey =
     (if ATTR_BITMAP_TEST (populated pkey) OVS_KEY_ATTR_ETHERTYPE
      then if ntohs (pk_ethertype pkey) \<le> OF_DL_TYPE_NOT_ETH_TYPE then htons OF_DL_TYPE_NOT_ETH_TYPE else pk_ethertype pkey
      else htons OF_DL_TYPE_NOT_ETH_TYPE)"

definition cfr_set_nw :: "ind_ovs_parsed_key \<Rightarrow> pipeline_standard_cfr \<Rightarrow> pipeline_standard_cfr" where
  "cfr_set_nw pkey cfr =
     (if ATTR_BITMAP_TEST (populated pkey) OVS_KEY_ATTR_IPV4
      then cfr\<lparr>nw_tos := of_le (slice 9 1 (pk_net pkey)), nw_proto := of_le (slice 8 1 (pk_net pkey)),
             nw_src := of_le (slice 0 4 (pk_net pkey)), nw_dst := of_le (slice 4 4 (pk_net pkey))\<rparr>
      else if ATTR_BITMAP_TEST (populated pkey) OVS_KEY_ATTR_IPV6
      then cfr\<lparr>nw_tos := of_le (slice 37 1 (pk_net pkey)), nw_proto := of_le (slice 36 1 (pk_net pkey)),
             ipv6_src := slice 0 16 (pk_net pkey), ipv6_dst := slice 16 16 (pk_net pkey), nw_src := 0, nw_dst := 0\<rparr>
      else if ATTR_BITMAP_TEST (populated pkey) OVS_KEY_ATTR_ARP
      then cfr\<lparr>nw_tos := 0, nw_proto := ucast (ntohs (of_le (slice 8 2 (pk_tp pkey))) AND 0xff :: u16),
             nw_src := of_le (slice 0 4 (pk_tp pkey)), nw_dst := of_le (slice 4 4 (pk_tp pkey))\<rparr>
      else cfr\<lparr>nw_tos := 0, nw_proto := 0, nw_src := 0, nw_dst := 0\<rparr>)"

text \<open>\<open>icmp_type << 8\<close>, stored to a \<open>uint16_t\<close>.\<close>

definition shift8 :: "u8 \<Rightarrow> u16" where
  "shift8 b = push_bit 8 (ucast b)"

definition cfr_set_tp :: "ind_ovs_parsed_key \<Rightarrow> pipeline_standard_cfr \<Rightarrow> pipeline_standard_cfr" where
  "cfr_set_tp pkey cfr =
     (if ATTR_BITMAP_TEST (populated pkey) OVS_KEY_ATTR_TCP
      then cfr\<lparr>tp_src := of_le (slice 0 2 (pk_tp pkey)), tp_dst := of_le (slice 2 2 (pk_tp pkey))\<rparr>
      else if ATTR_BITMAP_TEST (populated pkey) OVS_KEY_ATTR_UDP
      then cfr\<lparr>tp_src := of_le (slice 0 2 (pk_tp pkey)), tp_dst := of_le (slice 2 2 (pk_tp pkey))\<rparr>
      else if ATTR_BITMAP_TEST (populated pkey) OVS_KEY_ATTR_ICMP
      then cfr\<lparr>tp_src := shift8 (pk_tp pkey ! 0), tp_dst := shift8 (pk_tp pkey ! 1)\<rparr>
      else if ATTR_BITMAP_TEST (populated pkey) OVS_KEY_ATTR_ICMPV6
      then cfr\<lparr>tp_src := shift8 (pk_tp pkey ! 0), tp_dst := shift8 (pk_tp pkey ! 1)\<rparr>
      else cfr\<lparr>tp_src := 0, tp_dst := 0\<rparr>)"

text \<open>Every member is written: the result does not depend on what the structure held before.\<close>

definition pipeline_standard_key_to_cfr :: "ind_ovs_parsed_key \<Rightarrow> pipeline_standard_cfr \<Rightarrow> pipeline_standard_cfr" where
  "pipeline_standard_key_to_cfr pkey cfr =
     (let cfr = cfr\<lparr>cfr_in_port := (if pk_in_port pkey = OVSP_LOCAL then OF_PORT_DEST_LOCAL else pk_in_port pkey),
            dl_dst := eth_dst pkey, dl_src := eth_src pkey, dl_type := cfr_dl_type pkey,
            dl_vlan := (if ATTR_BITMAP_TEST (populated pkey) OVS_KEY_ATTR_VLAN then pk_vlan pkey OR htons VLAN_CFI_BIT else 0),
            ipv6_src := replicate 16 0, ipv6_dst := replicate 16 0\<rparr>;
          cfr = cfr_set_nw pkey cfr;
          cfr = cfr_set_tp pkey cfr
      in cfr\<lparr>cfr_pad := 0, cfr_pad2 := 0\<rparr>)"

subsection \<open>From an OpenFlow match\<close>

text \<open>The members of LOCI's \<open>of_match_fields_t\<close> that the translation reads; all in host byte order.\<close>

record of_match_fields =
  mf_in_port :: u32
  mf_eth_dst :: bytes
  mf_eth_src :: bytes
  mf_eth_type :: u16
  mf_vlan_vid :: u16
  mf_vlan_pcp :: u8
  mf_ip_proto :: u8
  mf_ip_dscp :: u8
  mf_ip_ecn :: u8
  mf_ipv4_src :: u32
  mf_ipv4_dst :: u32
  mf_tcp_src :: u16
  mf_tcp_dst :: u16
  mf_udp_src :: u16
  mf_udp_dst :: u16
  mf_icmpv4_type :: u8
  mf_icmpv4_code :: u8
  mf_icmpv6_type :: u8
  mf_icmpv6_code :: u8
  mf_ipv6_src :: bytes
  mf_ipv6_dst :: bytes
  mf_arp_op :: u16
  mf_arp_spa :: u32
  mf_arp_tpa :: u32

datatype of_version = OF_VERSION_1_0 | OF_VERSION_1_1 | OF_VERSION_1_2 | OF_VERSION_1_3

primrec of_version_code :: "of_version \<Rightarrow> nat" where
  "of_version_code OF_VERSION_1_0 = 1"
| "of_version_code OF_VERSION_1_1 = 2"
| "of_version_code OF_VERSION_1_2 = 3"
| "of_version_code OF_VERSION_1_3 = 4"

record of_match =
  match_version :: of_version
  match_fields :: of_match_fields
  match_masks :: of_match_fields

definition VLAN_TCI_WITH_CFI :: "u16 \<Rightarrow> u16 \<Rightarrow> u16" where
  "VLAN_TCI_WITH_CFI vid pcp = push_bit 13 (pcp AND 7) OR (vid AND 0x1fff)"

definition ETH_P_IP :: u16 where "ETH_P_IP = 0x0800"
definition ETH_P_IPV6 :: u16 where "ETH_P_IPV6 = 0x86dd"
definition ETH_P_ARP :: u16 where "ETH_P_ARP = 0x0806"
definition IPPROTO_ICMP :: u8 where "IPPROTO_ICMP = 1"
definition IPPROTO_TCP :: u8 where "IPPROTO_TCP = 6"
definition IPPROTO_UDP :: u8 where "IPPROTO_UDP = 17"
definition IPPROTO_ICMPV6 :: u8 where "IPPROTO_ICMPV6 = 58"

text \<open>The VLAN word of the fields and of the masks.\<close>

definition match_vlan :: "of_match \<Rightarrow> u16 \<times> u16" where
  "match_vlan match =
     (let f = match_fields match; m = match_masks match
      in if match_version match = OF_VERSION_1_0
         then if mf_vlan_vid m = 0 then (0, 0)
              else if mf_vlan_vid f = - 1 then (0, 0xffff)
              else (htons (VLAN_CFI_BIT OR VLAN_TCI (mf_vlan_vid f) (ucast (mf_vlan_pcp f))),
                    htons (VLAN_CFI_BIT OR VLAN_TCI (mf_vlan_vid m) (ucast (mf_vlan_pcp m))))
         else if match_version match = OF_VERSION_1_1 then (0, 0)
         else (htons (VLAN_TCI_WITH_CFI (mf_vlan_vid f) (ucast (mf_vlan_pcp f))),
               htons (VLAN_TCI_WITH_CFI (mf_vlan_vid m) (ucast (mf_vlan_pcp m)))))"

text \<open>The members every OpenFlow version fills from the fields \<open>x\<close> (of the match or of its masks).\<close>

definition cfr_base :: "of_match_fields \<Rightarrow> u16 \<Rightarrow> pipeline_standard_cfr" where
  "cfr_base x vlan = cfr_zero\<lparr>cfr_in_port := mf_in_port x, dl_dst := mf_eth_dst x, dl_src := mf_eth_src x,
     dl_type := htons (mf_eth_type x), dl_vlan := vlan\<rparr>"

text \<open>Below OpenFlow 1.2 the remaining fields do not depend on the types.\<close>

definition cfr_rest_10 :: "of_match_fields \<Rightarrow> pipeline_standard_cfr \<Rightarrow> pipeline_standard_cfr" where
  "cfr_rest_10 x cfr = cfr\<lparr>nw_proto := mf_ip_proto x, nw_tos := mf_ip_dscp x AND 0xfc,
     nw_src := htonl (mf_ipv4_src x), nw_dst := htonl (mf_ipv4_dst x),
     tp_src := htons (mf_tcp_src x), tp_dst := htons (mf_tcp_dst x)\<rparr>"

definition cfr_ip_tos :: "of_match_fields \<Rightarrow> u8" where
  "cfr_ip_tos x = push_bit 2 (mf_ip_dscp x AND 0x3f) OR (mf_ip_ecn x AND 3)"

definition cfr_transport :: "u8 \<Rightarrow> of_match_fields \<Rightarrow> pipeline_standard_cfr \<Rightarrow> pipeline_standard_cfr" where
  "cfr_transport proto x cfr =
     (if proto = IPPROTO_TCP then cfr\<lparr>tp_src := htons (mf_tcp_src x), tp_dst := htons (mf_tcp_dst x)\<rparr>
      else if proto = IPPROTO_UDP then cfr\<lparr>tp_src := htons (mf_udp_src x), tp_dst := htons (mf_udp_dst x)\<rparr>
      else if proto = IPPROTO_ICMP
      then cfr\<lparr>tp_src := htons (ucast (mf_icmpv4_type x)), tp_dst := htons (ucast (mf_icmpv4_code x))\<rparr>
      else if proto = IPPROTO_ICMPV6
      then cfr\<lparr>tp_src := htons (ucast (mf_icmpv6_type x)), tp_dst := htons (ucast (mf_icmpv6_code x))\<rparr>
      else cfr)"

text \<open>From OpenFlow 1.2 on: \<open>f\<close> are the fields, whose types decide, \<open>x\<close> the fields or masks that are copied.\<close>

definition cfr_rest_12 :: "of_match_fields \<Rightarrow> of_match_fields \<Rightarrow> pipeline_standard_cfr \<Rightarrow> pipeline_standard_cfr" where
  "cfr_rest_12 f x cfr =
     (if mf_eth_type f = ETH_P_IP \<or> mf_eth_type f = ETH_P_IPV6
      then
        (let cfr = cfr\<lparr>nw_proto := mf_ip_proto x, nw_tos := cfr_ip_tos x\<rparr>;
             cfr = (if mf_eth_type f = ETH_P_IP
                then cfr\<lparr>nw_src := htonl (mf_ipv4_src x), nw_dst := htonl (mf_ipv4_dst x)\<rparr>
                else cfr\<lparr>ipv6_src := mf_ipv6_src x, ipv6_dst := mf_ipv6_dst x\<rparr>)
         in cfr_transport (mf_ip_proto f) x cfr)
      else if mf_eth_type f = ETH_P_ARP
      then cfr\<lparr>nw_proto := ucast (mf_arp_op x AND 0xff), nw_src := htonl (mf_arp_spa x), nw_dst := htonl (mf_arp_tpa x)\<rparr>
      else cfr)"

text \<open>The normalising loop: the bytewise conjunction of the two structures.\<close>

definition bytes_and :: "bytes \<Rightarrow> bytes \<Rightarrow> bytes" where
  "bytes_and = map2 (AND)"

definition cfr_and :: "pipeline_standard_cfr \<Rightarrow> pipeline_standard_cfr \<Rightarrow> pipeline_standard_cfr" where
  "cfr_and f m = cfr_of_bytes (bytes_and (cfr_bytes f) (cfr_bytes m))"

definition pipeline_standard_match_to_cfr :: "of_match \<Rightarrow> pipeline_standard_cfr \<times> pipeline_standard_cfr" where
  "pipeline_standard_match_to_cfr match =
     (let f = match_fields match; m = match_masks match; (fv, mv) = match_vlan match;
          rest = (if of_version_code (match_version match) < of_version_code OF_VERSION_1_2 then cfr_rest_10 else cfr_rest_12 f);
          fields = rest f (cfr_base f fv);
          masks = rest m (cfr_base m mv)
      in (cfr_and fields masks, masks))"

subsection \<open>Bytes, words and masks\<close>

lemma words_of_bytes_of [simp]: "words_of (bytes_of ws) = ws"
proof (induction ws)
  case (Cons w ws)
  have "le_bytes 4 w = [le_bytes 4 w ! 0, le_bytes 4 w ! 1, le_bytes 4 w ! 2, le_bytes 4 w ! 3]"
    by (rule nth_equalityI) (auto simp: numeral_eq_Suc less_Suc_eq)
  then obtain a b c d where w: "le_bytes 4 w = [a, b, c, d]" by metis
  then have "of_le [a, b, c, d] = w" using of_le_le_bytes [of 4 w] by simp
  then show ?case using Cons w by (simp add: bytes_of_def)
qed (simp add: bytes_of_def)

lemma bytes_of_words_of: "4 dvd length bs \<Longrightarrow> bytes_of (words_of bs) = bs"
proof (induction bs rule: words_of.induct)
  case (1 a b c d bs)
  have "le_bytes 4 (of_le [a, b, c, d] :: u32) = [a, b, c, d]" by (rule le_bytes_of_le) simp_all
  moreover have "4 dvd length bs" using 1(2) by simp presburger
  ultimately show ?case using 1(1) by (simp add: bytes_of_def)
qed (auto simp: bytes_of_def numeral_eq_Suc dvd_def, presburger+)

lemma length_words_of: "length (words_of bs) = length bs div 4"
  by (induction bs rule: words_of.induct) auto

lemma length_bytes_of [simp]: "length (bytes_of ws) = 4 * length ws"
  by (induction ws) (simp_all add: bytes_of_def)

lemma of_le_and: "length x = length y \<Longrightarrow> of_le (bytes_and x y) = of_le x AND (of_le y :: 'a::len word)"
  by (rule bit_word_eqI) (auto simp: bit_of_le bit_and_iff bytes_and_def)

lemma masked_words_of:
  "length x = length y \<Longrightarrow> masked (words_of x) (words_of y) = words_of (bytes_and x y)"
proof (induction x arbitrary: y rule: words_of.induct)
  case (1 a b c d bs)
  then obtain a' b' c' d' bs' where y: "y = a' # b' # c' # d' # bs'" 
    by (auto simp: Suc_length_conv length_Suc_conv)
  have "masked (words_of bs) (words_of bs') = words_of (bytes_and bs bs')" using 1 y by simp
  moreover have "of_le [a, b, c, d] AND of_le [a', b', c', d'] = (of_le (bytes_and [a, b, c, d] [a', b', c', d']) :: u32)"
    using of_le_and [of "[a, b, c, d]" "[a', b', c', d']", symmetric] by simp
  ultimately show ?case unfolding y words_of.simps masked_simps by (simp add: bytes_and_def del: of_le.simps)
qed (auto simp: Suc_length_conv length_Suc_conv bytes_and_def)

lemma words_of_inj: "4 dvd length x \<Longrightarrow> 4 dvd length y \<Longrightarrow> words_of x = words_of y \<longleftrightarrow> x = y"
  by (metis bytes_of_words_of)

lemma length_bytes_and [simp]: "length x = length y \<Longrightarrow> length (bytes_and x y) = length y"
  by (simp add: bytes_and_def)

lemma bytes_agree_and:
  "length x = length m \<Longrightarrow> length y = length m \<Longrightarrow> bytes_agree m x y \<longleftrightarrow> bytes_and x m = bytes_and y m"
  by (auto simp: bytes_agree_nth bytes_and_def list_eq_iff_nth_eq)

lemma bytes_and_append:
  "length x = length m \<Longrightarrow> bytes_and (x @ x') (m @ m') = bytes_and x m @ bytes_and x' m'"
  by (simp add: bytes_and_def)

lemma bytes_agree_append:
  assumes "length x = length m" "length y = length m" "length x' = length m'" "length y' = length m'"
  shows "bytes_agree (m @ m') (x @ x') (y @ y') \<longleftrightarrow> bytes_agree m x y \<and> bytes_agree m' x' y'"
  using assms by (simp add: bytes_agree_and bytes_and_append)

lemma ucast_and: "(ucast (x AND y) :: 'b::len word) = ucast x AND ucast y" for x y :: "'a::len word"
  by (rule bit_word_eqI) (auto simp: bit_simps)

lemma bytes_and_le: "bytes_and (le_bytes n x) (le_bytes n m) = le_bytes n (x AND m)"
  by (rule nth_equalityI) (simp_all add: bytes_and_def nth_le_bytes ucast_and)

lemma le_bytes_inj: "LENGTH('a) \<le> 8 * n \<Longrightarrow> le_bytes n w = le_bytes n v \<longleftrightarrow> w = v" for w v :: "'a::len word"
  using of_le_le_bytes [where 'a = 'a] by metis

lemma bytes_agree_le: "LENGTH('a) \<le> 8 * n \<Longrightarrow> bytes_agree (le_bytes n m) (le_bytes n x) (le_bytes n y) \<longleftrightarrow> word_agree m x y"
  for m x y :: "'a::len word"
  by (simp add: bytes_agree_and bytes_and_le le_bytes_inj word_agree_def)

lemma length_cfr_bytes [simp]: "cfr_wf c \<Longrightarrow> length (cfr_bytes c) = 72"
  by (simp add: cfr_bytes_def cfr_wf_def)

lemma length_cfr_words [simp]: "cfr_wf c \<Longrightarrow> length (cfr_words c) = 18"
  by (simp add: cfr_words_def length_words_of)

lemma cfr_of_bytes_wf [simp]: "length bs = 72 \<Longrightarrow> cfr_wf (cfr_of_bytes bs)"
  by (simp add: cfr_of_bytes_def cfr_wf_def)

lemma take_slice: "take n bs = slice 0 n bs"
  by (simp add: slice_def)

lemma drop_slice: "length bs = m + n \<Longrightarrow> drop m bs = slice m n bs"
  by (simp add: slice_def)

lemma slice_slice: "slice a n bs @ slice (a + n) k bs = slice a (n + k) bs"
  by (simp add: slice_def take_add) (metis add.commute)

lemma cfr_bytes_of_bytes: "length bs = 72 \<Longrightarrow> cfr_bytes (cfr_of_bytes bs) = bs"
proof -
  assume l: "length bs = 72"
  have "cfr_bytes (cfr_of_bytes bs) = slice 0 4 bs @ slice 4 6 bs @ slice 10 6 bs @ slice 16 2 bs @ slice 18 2 bs @ slice 20 1 bs @
      slice 21 1 bs @ slice 22 2 bs @ slice 24 4 bs @ slice 28 4 bs @ slice 32 2 bs @ slice 34 2 bs @ slice 36 16 bs @
      slice 52 16 bs @ slice 68 4 bs"
    using l by (simp add: cfr_bytes_def cfr_of_bytes_def del: One_nat_def)
  also have "\<dots> = slice 0 72 bs"
    using slice_slice [of 0 4 bs 68] slice_slice [of 4 6 bs 62] slice_slice [of 10 6 bs 56] slice_slice [of 16 2 bs 54]
      slice_slice [of 18 2 bs 52] slice_slice [of 20 1 bs 51] slice_slice [of 21 1 bs 50] slice_slice [of 22 2 bs 48]
      slice_slice [of 24 4 bs 44] slice_slice [of 28 4 bs 40] slice_slice [of 32 2 bs 38] slice_slice [of 34 2 bs 36]
      slice_slice [of 36 16 bs 20] slice_slice [of 52 16 bs 4] by simp
  finally show ?thesis using l by (simp add: slice_def)
qed

lemma slice_append:
  "length x = a \<Longrightarrow> slice a n (x @ y) = take n y" "a + n \<le> length x \<Longrightarrow> slice a n (x @ y) = slice a n x"
  by (simp_all add: slice_def)

lemma slice_skip: "length x \<le> a \<Longrightarrow> slice a n (x @ y) = slice (a - length x) n y"
  by (simp add: slice_def)

lemma cfr_of_bytes_of_cfr: "cfr_wf c \<Longrightarrow> cfr_of_bytes (cfr_bytes c) = c"
  by (simp add: cfr_of_bytes_def cfr_bytes_def cfr_wf_def slice_skip) (simp add: slice_def)

lemma cfr_words_inverse [simp]: "cfr_wf c \<Longrightarrow> cfr_of_words (cfr_words c) = c"
  by (simp add: cfr_of_words_def cfr_words_def bytes_of_words_of cfr_of_bytes_of_cfr)

lemma cfr_of_words_inverse: "length ws = 18 \<Longrightarrow> cfr_words (cfr_of_words ws) = ws"
  by (simp add: cfr_of_words_def cfr_words_def cfr_bytes_of_bytes)

subsection \<open>Agreement under a mask\<close>

definition cfr_agree :: "pipeline_standard_cfr \<Rightarrow> pipeline_standard_cfr \<Rightarrow> pipeline_standard_cfr \<Rightarrow> bool" where
  "cfr_agree m c d \<longleftrightarrow> word_agree (cfr_in_port m) (cfr_in_port c) (cfr_in_port d) \<and> bytes_agree (dl_dst m) (dl_dst c) (dl_dst d) \<and>
     bytes_agree (dl_src m) (dl_src c) (dl_src d) \<and> word_agree (dl_type m) (dl_type c) (dl_type d) \<and>
     word_agree (dl_vlan m) (dl_vlan c) (dl_vlan d) \<and> word_agree (nw_tos m) (nw_tos c) (nw_tos d) \<and>
     word_agree (nw_proto m) (nw_proto c) (nw_proto d) \<and> word_agree (cfr_pad m) (cfr_pad c) (cfr_pad d) \<and>
     word_agree (nw_src m) (nw_src c) (nw_src d) \<and> word_agree (nw_dst m) (nw_dst c) (nw_dst d) \<and>
     word_agree (tp_src m) (tp_src c) (tp_src d) \<and> word_agree (tp_dst m) (tp_dst c) (tp_dst d) \<and>
     bytes_agree (ipv6_src m) (ipv6_src c) (ipv6_src d) \<and> bytes_agree (ipv6_dst m) (ipv6_dst c) (ipv6_dst d) \<and>
     word_agree (cfr_pad2 m) (cfr_pad2 c) (cfr_pad2 d)"

lemma cfr_agree_words:
  assumes "cfr_wf m" "cfr_wf c" "cfr_wf d"
  shows "masked (cfr_words c) (cfr_words m) = masked (cfr_words d) (cfr_words m) \<longleftrightarrow> cfr_agree m c d"
proof -
  have "masked (cfr_words c) (cfr_words m) = masked (cfr_words d) (cfr_words m) \<longleftrightarrow>
      bytes_agree (cfr_bytes m) (cfr_bytes c) (cfr_bytes d)"
    using assms by (simp add: cfr_words_def masked_words_of words_of_inj bytes_agree_and)
  also have "\<dots> \<longleftrightarrow> cfr_agree m c d"
    using assms by (simp add: cfr_bytes_def cfr_wf_def bytes_agree_append bytes_agree_le cfr_agree_def del: One_nat_def)
  finally show ?thesis .
qed

subsection \<open>Properties of the translation\<close>

definition mf_wf :: "of_match_fields \<Rightarrow> bool" where
  "mf_wf x \<longleftrightarrow> length (mf_eth_dst x) = 6 \<and> length (mf_eth_src x) = 6 \<and> length (mf_ipv6_src x) = 16 \<and> length (mf_ipv6_dst x) = 16"

lemma cfr_rest_wf:
  "mf_wf x \<Longrightarrow> cfr_wf (cfr_base x v)"
  "cfr_wf c \<Longrightarrow> cfr_wf (cfr_rest_10 x c)"
  "mf_wf x \<Longrightarrow> cfr_wf c \<Longrightarrow> cfr_wf (cfr_rest_12 f x c)"
  by (simp_all add: mf_wf_def cfr_wf_def cfr_base_def cfr_zero_def cfr_rest_10_def cfr_rest_12_def cfr_transport_def Let_def)

lemma match_to_cfr_eq:
  assumes "mf_wf (match_fields m)" "mf_wf (match_masks m)"
  obtains f k where "pipeline_standard_match_to_cfr m = (cfr_and f k, k)" "cfr_wf f" "cfr_wf k"
proof -
  obtain fv mv where v: "match_vlan m = (fv, mv)" by fastforce
  let ?r = "if of_version_code (match_version m) < of_version_code OF_VERSION_1_2 then cfr_rest_10 else cfr_rest_12 (match_fields m)"
  have "cfr_wf (?r x (cfr_base x w))" if "mf_wf x" for x w using that cfr_rest_wf by simp
  then show thesis
    using assms v by (intro that [of "?r (match_fields m) (cfr_base (match_fields m) fv)" "?r (match_masks m) (cfr_base (match_masks m) mv)"])
      (simp_all only: pipeline_standard_match_to_cfr_def Let_def prod.case)
qed

lemma cfr_and_words:
  assumes "cfr_wf f" "cfr_wf m"
  shows "cfr_wf (cfr_and f m)" "cfr_words (cfr_and f m) = masked (cfr_words f) (cfr_words m)"
proof -
  have "length (bytes_and (cfr_bytes f) (cfr_bytes m)) = 72" using assms by simp
  then show "cfr_wf (cfr_and f m)" "cfr_words (cfr_and f m) = masked (cfr_words f) (cfr_words m)"
    using assms by (simp_all add: cfr_and_def cfr_words_def cfr_bytes_of_bytes masked_words_of)
qed

lemma masked_idem [simp]: "masked (masked k m) m = masked k m"
  by (rule nth_equalityI) (simp_all add: masked_def and.assoc)

text \<open>
  C32: OpenFlow matches are normalised: in the entry that \<open>pipeline_standard_match_to_cfr\<close> gives,
  every bit outside of the mask is zero, on all 18 words the tcam compares, as \<open>cfr.h\<close> requires of
  the wildcarded fields.
\<close>

theorem match_to_cfr_normalised:
  assumes "mf_wf (match_fields m)" "mf_wf (match_masks m)" "pipeline_standard_match_to_cfr m = (f, k)"
  shows "cfr_wf f \<and> cfr_wf k \<and> masked (cfr_words f) (cfr_words k) = cfr_words f"
  using match_to_cfr_eq [OF assms(1,2)] cfr_and_words assms(3) by (metis masked_idem prod.inject)

definition mf_zero :: of_match_fields where
  "mf_zero = \<lparr>mf_in_port = 0, mf_eth_dst = replicate 6 0, mf_eth_src = replicate 6 0, mf_eth_type = 0, mf_vlan_vid = 0,
     mf_vlan_pcp = 0, mf_ip_proto = 0, mf_ip_dscp = 0, mf_ip_ecn = 0, mf_ipv4_src = 0, mf_ipv4_dst = 0, mf_tcp_src = 0,
     mf_tcp_dst = 0, mf_udp_src = 0, mf_udp_dst = 0, mf_icmpv4_type = 0, mf_icmpv4_code = 0, mf_icmpv6_type = 0,
     mf_icmpv6_code = 0, mf_ipv6_src = replicate 16 0, mf_ipv6_dst = replicate 16 0, mf_arp_op = 0, mf_arp_spa = 0, mf_arp_tpa = 0\<rparr>"

text \<open>IPv4 packets to 10.0.0.0/8 on VLAN 100.\<close>

definition demo_match :: of_match where
  "demo_match = \<lparr>match_version = OF_VERSION_1_3,
     match_fields = mf_zero\<lparr>mf_eth_type := ETH_P_IP, mf_ipv4_dst := 0x0a0b0c0d, mf_vlan_vid := 0x1064\<rparr>,
     match_masks = mf_zero\<lparr>mf_eth_type := 0xffff, mf_ipv4_dst := 0xff000000, mf_vlan_vid := 0x1fff\<rparr>\<rparr>"

lemma demo_match_wf: "mf_wf (match_fields demo_match)" "mf_wf (match_masks demo_match)"
  by (simp_all add: demo_match_def mf_wf_def mf_zero_def)

theorem match_to_cfr_normalised_witness:
  "\<exists>f k. pipeline_standard_match_to_cfr demo_match = (f, k) \<and> masked (cfr_words f) (cfr_words k) = cfr_words f \<and>
    nw_dst f = htonl 0x0a000000"
proof -
  obtain f k where fk: "pipeline_standard_match_to_cfr demo_match = (f, k)" by fastforce
  have "nw_dst (fst (pipeline_standard_match_to_cfr demo_match)) = htonl 0x0a000000" by code_simp
  then show ?thesis using match_to_cfr_normalised [OF demo_match_wf fk] fk by simp
qed

subsection \<open>Tags\<close>

text \<open>What the tag of a packet shows to a match: the VID with the bit that says the tag is present, and the PCP.\<close>

definition key_vid :: "ind_ovs_parsed_key \<Rightarrow> u16" where
  "key_vid k = (if ATTR_BITMAP_TEST (populated k) OVS_KEY_ATTR_VLAN then VLAN_VID (ntohs (pk_vlan k)) OR VLAN_CFI_BIT else 0)"

definition key_pcp :: "ind_ovs_parsed_key \<Rightarrow> u16" where
  "key_pcp k = (if ATTR_BITMAP_TEST (populated k) OVS_KEY_ATTR_VLAN then VLAN_PCP (ntohs (pk_vlan k)) else 0)"

definition vlan_matches :: "of_match \<Rightarrow> ind_ovs_parsed_key \<Rightarrow> bool" where
  "vlan_matches m k =
     (let f = match_fields m; w = match_masks m;
          pcp = (key_pcp k AND ucast (mf_vlan_pcp w) = (ucast (mf_vlan_pcp f) AND 7) AND ucast (mf_vlan_pcp w))
      in if match_version m = OF_VERSION_1_0
         then mf_vlan_vid w = 0 \<or>
           (if mf_vlan_vid f = - 1 then \<not> ATTR_BITMAP_TEST (populated k) OVS_KEY_ATTR_VLAN
            else ATTR_BITMAP_TEST (populated k) OVS_KEY_ATTR_VLAN \<and>
              VLAN_VID (key_vid k) AND mf_vlan_vid w = VLAN_VID (mf_vlan_vid f) AND mf_vlan_vid w \<and> pcp)
         else match_version m = OF_VERSION_1_1 \<or>
           key_vid k AND mf_vlan_vid w = (mf_vlan_vid f AND 0x1fff) AND mf_vlan_vid w \<and> pcp)"

lemma tci_eq_iff: "a = b \<longleftrightarrow> a AND 0x1fff = b AND 0x1fff \<and> drop_bit 13 a = drop_bit 13 b" for a b :: u16
proof
  assume r: "a AND 0x1fff = b AND 0x1fff \<and> drop_bit 13 a = drop_bit 13 b"
  have m: "(0x1fff :: u16) = mask 13" by (simp add: mask_eq_exp_minus_1)
  show "a = b"
  proof (rule bit_word_eqI)
    fix n assume "n < LENGTH(16)"
    show "bit a n = bit b n"
    proof (cases "n < 13")
      case True
      have "bit (a AND mask 13) n = bit (b AND mask 13) n" using r m by simp
      then show ?thesis using True by (simp add: bit_simps)
    next
      case False
      have "bit (drop_bit 13 a) (n - 13) = bit (drop_bit 13 b) (n - 13)" using r by simp
      then show ?thesis using False by (simp add: bit_simps)
    qed
  qed
qed simp

lemma bswap16_inj: "bswap16 a = bswap16 b \<longleftrightarrow> a = b"
  using bswap16_bswap16 by metis

lemma CFI_parts:
  "VLAN_TCI_WITH_CFI v p AND 0x1fff = v AND 0x1fff" "drop_bit 13 (VLAN_TCI_WITH_CFI v p) = p AND 7"
proof -
  have m: "(0x1fff :: u16) = mask 13" "(7 :: u16) = mask 3" by (simp_all add: mask_eq_exp_minus_1)
  show "VLAN_TCI_WITH_CFI v p AND 0x1fff = v AND 0x1fff" unfolding VLAN_TCI_WITH_CFI_def m
    by (rule bit_word_eqI) (auto simp: bit_simps)
  show "drop_bit 13 (VLAN_TCI_WITH_CFI v p) = p AND 7" unfolding VLAN_TCI_WITH_CFI_def m
    by (rule bit_word_eqI) (auto simp: bit_simps)
qed

lemma CFI_masked_parts:
  "(VLAN_TCI_WITH_CFI a p AND VLAN_TCI_WITH_CFI m q) AND 0x1fff = (a AND 0x1fff) AND m"
  "drop_bit 13 (VLAN_TCI_WITH_CFI a p AND VLAN_TCI_WITH_CFI m q) = (p AND 7) AND q"
proof -
  have d: "(x AND y) AND n = (x AND n) AND (y AND n)" "(x AND n) AND (y AND n) = (x AND n) AND y" for x y n :: u16
    by (rule bit_word_eqI, auto simp: bit_simps)+
  show "(VLAN_TCI_WITH_CFI a p AND VLAN_TCI_WITH_CFI m q) AND 0x1fff = (a AND 0x1fff) AND m"
    unfolding d(1) [of "VLAN_TCI_WITH_CFI a p"] CFI_parts d(2) ..
  show "drop_bit 13 (VLAN_TCI_WITH_CFI a p AND VLAN_TCI_WITH_CFI m q) = (p AND 7) AND q"
    unfolding drop_bit_and CFI_parts d(2) ..
qed

lemma CFI_masked_eq:
  "VLAN_TCI_WITH_CFI a p AND VLAN_TCI_WITH_CFI m q = VLAN_TCI_WITH_CFI b r AND VLAN_TCI_WITH_CFI m q \<longleftrightarrow>
     (a AND 0x1fff) AND m = (b AND 0x1fff) AND m \<and> (p AND 7) AND q = (r AND 7) AND q"
  by (subst tci_eq_iff) (simp only: CFI_masked_parts)

lemma TCI_CFI: "VLAN_CFI_BIT OR VLAN_TCI v p = VLAN_TCI_WITH_CFI (VLAN_VID v OR VLAN_CFI_BIT) p"
proof -
  have "(VLAN_VID v OR VLAN_CFI_BIT) AND 0x1fff = (v AND 0xfff) OR VLAN_CFI_BIT"
    by (simp add: VLAN_VID_def VLAN_CFI_BIT_def bit.conj_disj_distrib2 and.assoc)
  then show ?thesis by (simp add: VLAN_TCI_def VLAN_TCI_WITH_CFI_def or.assoc or.left_commute or.commute)
qed

lemma PCP_7: "VLAN_PCP t AND 7 = VLAN_PCP t"
proof -
  have m: "(7 :: u16) = mask 3" by (simp add: mask_eq_exp_minus_1)
  show ?thesis unfolding VLAN_PCP_def m by (rule bit_word_eqI) (auto simp: bit_simps dest: bit_imp_le_length)
qed

lemma VID_CFI_13: "(VLAN_VID t OR VLAN_CFI_BIT) AND 0x1fff = VLAN_VID t OR VLAN_CFI_BIT"
  by (simp add: VLAN_VID_def VLAN_CFI_BIT_def bit.conj_disj_distrib2 and.assoc)

lemma tagged_tci: "t OR VLAN_CFI_BIT = VLAN_TCI_WITH_CFI (VLAN_VID t OR VLAN_CFI_BIT) (VLAN_PCP t)"
proof (subst tci_eq_iff, intro conjI)
  have m: "(0x1fff :: u16) = mask 13" "(0xfff :: u16) = mask 12" by (simp_all add: mask_eq_exp_minus_1)
  have "(t OR VLAN_CFI_BIT) AND 0x1fff = VLAN_VID t OR VLAN_CFI_BIT"
    unfolding VLAN_VID_def VLAN_CFI_BIT_def m
    by (rule bit_word_eqI) (unfold bit_or_iff bit_and_iff bit_mask_iff bit_push_bit_iff bit_1_iff, auto)
  then show "(t OR VLAN_CFI_BIT) AND 0x1fff = VLAN_TCI_WITH_CFI (VLAN_VID t OR VLAN_CFI_BIT) (VLAN_PCP t) AND 0x1fff"
    by (simp only: CFI_parts VID_CFI_13)
  show "drop_bit 13 (t OR VLAN_CFI_BIT) = drop_bit 13 (VLAN_TCI_WITH_CFI (VLAN_VID t OR VLAN_CFI_BIT) (VLAN_PCP t))"
    unfolding CFI_parts PCP_7 by (simp add: VLAN_PCP_def VLAN_CFI_BIT_def drop_bit_or)
qed

lemma key_dl_vlan:
  "dl_vlan (pipeline_standard_key_to_cfr k c) = htons (VLAN_TCI_WITH_CFI (key_vid k) (key_pcp k))"
proof -
  have "pk_vlan k OR htons VLAN_CFI_BIT = htons (ntohs (pk_vlan k) OR VLAN_CFI_BIT)" by (simp add: bswap16_or)
  also have "\<dots> = htons (VLAN_TCI_WITH_CFI (VLAN_VID (ntohs (pk_vlan k)) OR VLAN_CFI_BIT) (VLAN_PCP (ntohs (pk_vlan k))))"
    by (simp only: tagged_tci [of "ntohs (pk_vlan k)"])
  finally have t: "pk_vlan k OR htons VLAN_CFI_BIT = \<dots>" .
  have "htons (VLAN_TCI_WITH_CFI 0 0) = 0" by (simp add: VLAN_TCI_WITH_CFI_def bswap16_eq)
  moreover have "dl_vlan (pipeline_standard_key_to_cfr k c) =
      (if ATTR_BITMAP_TEST (populated k) OVS_KEY_ATTR_VLAN then pk_vlan k OR htons VLAN_CFI_BIT else 0)"
    by (simp add: pipeline_standard_key_to_cfr_def Let_def cfr_set_nw_def cfr_set_tp_def)
  ultimately show ?thesis unfolding t key_vid_def key_pcp_def by simp
qed

lemma key_tag_parts: "key_vid k AND 0x1fff = key_vid k" "key_pcp k AND 7 = key_pcp k"
  using VID_CFI_13 PCP_7 by (simp_all only: key_vid_def key_pcp_def split: if_split) simp_all

lemma vlan_word_agree:
  "word_agree (htons (VLAN_TCI_WITH_CFI m q)) (dl_vlan (pipeline_standard_key_to_cfr k c)) (htons (VLAN_TCI_WITH_CFI b r)) \<longleftrightarrow>
     key_vid k AND m = (b AND 0x1fff) AND m \<and> key_pcp k AND q = (r AND 7) AND q"
  unfolding word_agree_def key_dl_vlan bswap16_and [symmetric] bswap16_inj CFI_masked_eq key_tag_parts ..

lemma VID_CFI [simp]: "VLAN_VID (VLAN_VID v OR VLAN_CFI_BIT) = VLAN_VID v" "VLAN_VID VLAN_CFI_BIT = 0" "VLAN_VID (VLAN_VID v) = VLAN_VID v"
  by (simp_all add: VLAN_VID_def VLAN_CFI_BIT_def bit.conj_disj_distrib2 and.assoc)

lemma VID_and: "VLAN_VID (a AND b) = VLAN_VID a AND b" "VLAN_VID (a OR b) = VLAN_VID a OR VLAN_VID b"
  by (simp_all add: VLAN_VID_def bit.conj_disj_distrib2 and.assoc and.commute and.left_commute)

lemma VID_CFI_eq:
  "(VLAN_VID a OR VLAN_CFI_BIT) AND (VLAN_VID w OR VLAN_CFI_BIT) = (VLAN_VID b OR VLAN_CFI_BIT) AND (VLAN_VID w OR VLAN_CFI_BIT) \<longleftrightarrow>
     VLAN_VID a AND w = VLAN_VID b AND w" (is "?l \<longleftrightarrow> ?r")
proof
  assume ?l
  then have "VLAN_VID ((VLAN_VID a OR VLAN_CFI_BIT) AND (VLAN_VID w OR VLAN_CFI_BIT)) =
      VLAN_VID ((VLAN_VID b OR VLAN_CFI_BIT) AND (VLAN_VID w OR VLAN_CFI_BIT))" by (rule arg_cong)
  then have e: "VLAN_VID a AND (VLAN_VID w OR VLAN_CFI_BIT) = VLAN_VID b AND (VLAN_VID w OR VLAN_CFI_BIT)" by (simp only: VID_and VID_CFI or.right_neutral)
  have "VLAN_VID x AND (VLAN_VID w OR VLAN_CFI_BIT) = VLAN_VID x AND w" for x
    unfolding VLAN_VID_def VLAN_CFI_BIT_def
    by (simp add: bit.conj_disj_distrib and.assoc and.left_commute and.commute)
  then show ?r using e by simp
next
  assume ?r
  moreover have "(VLAN_VID x OR VLAN_CFI_BIT) AND (VLAN_VID w OR VLAN_CFI_BIT) = (VLAN_VID (VLAN_VID x AND w)) OR VLAN_CFI_BIT" for x
    unfolding VLAN_VID_def by (rule bit_word_eqI) (auto simp: bit_simps)
  ultimately show ?l by simp
qed

lemma CFI_not_zero: "0 \<noteq> (VLAN_VID b OR VLAN_CFI_BIT) AND (VLAN_VID w OR VLAN_CFI_BIT)"
proof -
  have "bit ((VLAN_VID b OR VLAN_CFI_BIT) AND (VLAN_VID w OR VLAN_CFI_BIT)) 12"
    by (simp add: VLAN_CFI_BIT_def bit_simps)
  then show ?thesis by auto
qed


subsection \<open>From a mask of the structure to a mask of the key\<close>

text \<open>
  \<open>translate_cfr_mask\<close> of \<open>pipeline_standard.c\<close>, with its macros \<open>MASK\<close> (a bytewise \<open>memor\<close>) and
  \<open>MASK_EXACT\<close> on the members of the key's two unions.
\<close>

definition bytes_or :: "bytes \<Rightarrow> bytes \<Rightarrow> bytes" where
  "bytes_or = map2 (OR)"

definition memor_at :: "nat \<Rightarrow> bytes \<Rightarrow> bytes \<Rightarrow> bytes" where
  "memor_at off d bs = splice off (bytes_or (slice off (length d) bs) d) bs"

definition mask_net :: "nat \<Rightarrow> bytes \<Rightarrow> ind_ovs_parsed_key \<Rightarrow> ind_ovs_parsed_key" where
  "mask_net off d m = m\<lparr>pk_net := memor_at off d (pk_net m)\<rparr>"

definition mask_tp :: "nat \<Rightarrow> bytes \<Rightarrow> ind_ovs_parsed_key \<Rightarrow> ind_ovs_parsed_key" where
  "mask_tp off d m = m\<lparr>pk_tp := memor_at off d (pk_tp m)\<rparr>"

definition mask_exact_net :: "nat \<Rightarrow> nat \<Rightarrow> bool \<Rightarrow> ind_ovs_parsed_key \<Rightarrow> ind_ovs_parsed_key" where
  "mask_exact_net off n b m = (if b then put_net off (replicate n 0xff) m else m)"

definition mask_exact_tp :: "nat \<Rightarrow> nat \<Rightarrow> bool \<Rightarrow> ind_ovs_parsed_key \<Rightarrow> ind_ovs_parsed_key" where
  "mask_exact_tp off n b m = (if b then put_tp off (replicate n 0xff) m else m)"

definition translate_mask_l2 :: "pipeline_standard_cfr \<Rightarrow> ind_ovs_parsed_key \<Rightarrow> ind_ovs_parsed_key" where
  "translate_mask_l2 cm m = m\<lparr>
     pk_in_port := (if cfr_in_port cm \<noteq> 0 then - 1 else pk_in_port m),
     eth_dst := memor_at 0 (dl_dst cm) (eth_dst m), eth_src := memor_at 0 (dl_src cm) (eth_src m),
     pk_ethertype := (if dl_type cm \<noteq> 0 then - 1 else pk_ethertype m), pk_vlan := pk_vlan m OR dl_vlan cm\<rparr>"

definition translate_mask_l3 :: "pipeline_standard_cfr \<Rightarrow> pipeline_standard_cfr \<Rightarrow> ind_ovs_parsed_key \<Rightarrow> ind_ovs_parsed_key" where
  "translate_mask_l3 cfr cm m =
     (if dl_type cfr = htons ETH_P_IP
      then mask_net 4 (le_bytes 4 (nw_dst cm)) (mask_net 0 (le_bytes 4 (nw_src cm))
             (mask_exact_net 8 1 (nw_proto cm \<noteq> 0) (mask_net 9 (le_bytes 1 (nw_tos cm)) m)))
      else if dl_type cfr = htons ETH_P_IPV6
      then mask_net 16 (ipv6_dst cm) (mask_net 0 (ipv6_src cm)
             (mask_exact_net 36 1 (nw_proto cm \<noteq> 0) (mask_net 37 (le_bytes 1 (nw_tos cm)) m)))
      else if dl_type cfr = htons ETH_P_ARP
      then mask_tp 4 (le_bytes 4 (nw_dst cm)) (mask_tp 0 (le_bytes 4 (nw_src cm)) (mask_exact_tp 8 2 (nw_proto cm \<noteq> 0) m))
      else m)"

definition translate_mask_l4 :: "pipeline_standard_cfr \<Rightarrow> pipeline_standard_cfr \<Rightarrow> ind_ovs_parsed_key \<Rightarrow> ind_ovs_parsed_key" where
  "translate_mask_l4 cfr cm m =
     (if nw_proto cfr = IPPROTO_TCP then mask_tp 2 (le_bytes 2 (tp_dst cm)) (mask_tp 0 (le_bytes 2 (tp_src cm)) m)
      else if nw_proto cfr = IPPROTO_UDP then mask_tp 2 (le_bytes 2 (tp_dst cm)) (mask_tp 0 (le_bytes 2 (tp_src cm)) m)
      else if nw_proto cfr = IPPROTO_ICMP then mask_exact_tp 1 1 (tp_dst cm \<noteq> 0) (mask_exact_tp 0 1 (tp_src cm \<noteq> 0) m)
      else if nw_proto cfr = IPPROTO_ICMPV6 then mask_exact_tp 1 1 (tp_dst cm \<noteq> 0) (mask_exact_tp 0 1 (tp_src cm \<noteq> 0) m)
      else m)"

definition translate_cfr_mask :: "ind_ovs_parsed_key \<Rightarrow> pipeline_standard_cfr \<Rightarrow> pipeline_standard_cfr \<Rightarrow> ind_ovs_parsed_key" where
  "translate_cfr_mask m cfr cm = translate_mask_l4 cfr cm (translate_mask_l3 cfr cm (translate_mask_l2 cm m))"

subsection \<open>The translated mask is sound\<close>

lemma length_memor_at [simp]: "off + length d \<le> length bs \<Longrightarrow> length (memor_at off d bs) = length bs"
  by (simp add: memor_at_def bytes_or_def)

lemma nth_memor_at:
  "off + length d \<le> length bs \<Longrightarrow> i < length bs \<Longrightarrow>
    memor_at off d bs ! i = (if off \<le> i \<and> i < off + length d then bs ! i OR d ! (i - off) else bs ! i)"
  by (auto simp: memor_at_def bytes_or_def nth_splice slice_def)

lemma and_or_eq: "a AND (m OR n) = b AND (m OR n) \<longleftrightarrow> a AND m = b AND m \<and> a AND n = (b AND n :: 'a::len word)"
  by (auto simp: bit_eq_iff bit_simps)

lemma all_shift: "(\<forall>i<n. P (off + i) i) \<longleftrightarrow> (\<forall>i. off \<le> i \<and> i < off + n \<longrightarrow> P i (i - off))" for off n :: nat
proof
  assume a: "\<forall>i<n. P (off + i) i"
  show "\<forall>i. off \<le> i \<and> i < off + n \<longrightarrow> P i (i - off)"
  proof (intro allI impI)
    fix i assume "off \<le> i \<and> i < off + n"
    moreover from this have "i - off < n" by arith
    ultimately show "P i (i - off)" using a [rule_format, of "i - off"] by simp
  qed
next
  assume a: "\<forall>i. off \<le> i \<and> i < off + n \<longrightarrow> P i (i - off)"
  show "\<forall>i<n. P (off + i) i" using a [rule_format, of "off + _"] by simp
qed

lemma bytes_agree_memor:
  assumes "length x = length m" "length y = length m" "off + length d \<le> length m"
  shows "bytes_agree (memor_at off d m) x y \<longleftrightarrow>
    bytes_agree m x y \<and> bytes_agree d (slice off (length d) x) (slice off (length d) y)" (is "?l \<longleftrightarrow> ?r1 \<and> ?r2")
proof -
  have d: "?r2 \<longleftrightarrow> (\<forall>i. off \<le> i \<and> i < off + length d \<longrightarrow> x ! i AND d ! (i - off) = y ! i AND d ! (i - off))"
    using assms by (simp add: bytes_agree_nth slice_def all_shift [where P = "\<lambda>j i. x ! j AND d ! i = y ! j AND d ! i", symmetric])
  show ?thesis unfolding d using assms by (auto simp: bytes_agree_nth nth_memor_at and_or_eq split: if_splits)
qed

lemma bytes_agree_exact:
  assumes "length x = length m" "length y = length m" "off + n \<le> length m"
  shows "bytes_agree (splice off (replicate n 0xff) m) x y \<longleftrightarrow>
    (\<forall>i<length m. \<not> (off \<le> i \<and> i < off + n) \<longrightarrow> x ! i AND m ! i = y ! i AND m ! i) \<and> slice off n x = slice off n y"
proof -
  have "(0xff :: u8) = - 1" by simp
  then have ff: "z AND 0xff = z" for z :: u8 by (simp only: and.right_neutral)
  have s: "slice off n x = slice off n y \<longleftrightarrow> (\<forall>i. off \<le> i \<and> i < off + n \<longrightarrow> x ! i = y ! i)"
    using assms by (simp add: list_eq_iff_nth_eq slice_def all_shift [where P = "\<lambda>j i. x ! j = y ! j", symmetric])
  have "splice off (replicate n 0xff) m ! i = (if off \<le> i \<and> i < off + n then 0xff else m ! i)" if "i < length m" for i
    using assms that by (auto simp: nth_splice)
  then show ?thesis unfolding s bytes_agree_nth using assms ff by auto
qed

lemma bytes_agree_exactD:
  assumes "bytes_agree (splice off (replicate n 0xff) m) x y" "length x = length m" "length y = length m" "off + n \<le> length m"
  shows "bytes_agree m x y" "slice off n x = slice off n y"
proof -
  have e: "\<forall>i<length m. \<not> (off \<le> i \<and> i < off + n) \<longrightarrow> x ! i AND m ! i = y ! i AND m ! i" "slice off n x = slice off n y"
    using assms by (simp_all add: bytes_agree_exact)
  then show "slice off n x = slice off n y" by simp
  have "x ! i = y ! i" if "off \<le> i" "i < off + n" for i
  proof -
    have "slice off n x ! (i - off) = slice off n y ! (i - off)" using e(2) by simp
    then show ?thesis using that assms(2-4) by (simp add: slice_def)
  qed
  then show "bytes_agree m x y" using e(1) assms(2-4) by (auto simp: bytes_agree_nth)
qed

lemma word_agree_slice:
  assumes "bytes_agree (le_bytes n w) (slice off n x) (slice off n y)" "off + n \<le> length x" "length y = length x"
    and "LENGTH('a) = 8 * n"
  shows "word_agree (w :: 'a::len word) (of_le (slice off n x)) (of_le (slice off n y))"
proof -
  have "le_bytes n (of_le (slice off n z) :: 'a word) = slice off n z" if "length z = length x" for z
    using assms(2,4) that by (intro le_bytes_of_le) simp_all
  then have "bytes_agree (le_bytes n w) (le_bytes n (of_le (slice off n x) :: 'a word)) (le_bytes n (of_le (slice off n y) :: 'a word))"
    using assms(1,3) by simp
  then show ?thesis using assms(4) by (subst (asm) bytes_agree_le) simp_all
qed

lemma mask_wf_simps [simp]:
  "key_wf m \<Longrightarrow> off + length d \<le> 40 \<Longrightarrow> key_wf (mask_net off d m)"
  "key_wf m \<Longrightarrow> off + length d \<le> 24 \<Longrightarrow> key_wf (mask_tp off d m)"
  "key_wf m \<Longrightarrow> off + n \<le> 40 \<Longrightarrow> key_wf (mask_exact_net off n b m)"
  "key_wf m \<Longrightarrow> off + n \<le> 24 \<Longrightarrow> key_wf (mask_exact_tp off n b m)"
  "key_wf m \<Longrightarrow> cfr_wf cm \<Longrightarrow> key_wf (translate_mask_l2 cm m)"
  by (simp_all add: key_wf_def cfr_wf_def mask_net_def mask_tp_def mask_exact_net_def mask_exact_tp_def put_net_def put_tp_def
      translate_mask_l2_def)

lemma key_agree_net: "key_agree (mask_net off d m) k k' \<longleftrightarrow>
    key_agree m k k' \<and> bytes_agree d (slice off (length d) (pk_net k)) (slice off (length d) (pk_net k'))"
  if "key_wf m" "key_wf k" "key_wf k'" "off + length d \<le> 40"
  using that by (auto simp: key_agree_def mask_net_def key_wf_def bytes_agree_memor)

lemma key_agree_tp: "key_agree (mask_tp off d m) k k' \<longleftrightarrow>
    key_agree m k k' \<and> bytes_agree d (slice off (length d) (pk_tp k)) (slice off (length d) (pk_tp k'))"
  if "key_wf m" "key_wf k" "key_wf k'" "off + length d \<le> 24"
  using that by (auto simp: key_agree_def mask_tp_def key_wf_def bytes_agree_memor)

lemma key_agree_exact_net: "key_agree (mask_exact_net off n b m) k k' \<Longrightarrow>
    key_agree m k k' \<and> (b \<longrightarrow> slice off n (pk_net k) = slice off n (pk_net k'))"
  if "key_wf m" "key_wf k" "key_wf k'" "off + n \<le> 40"
  using that bytes_agree_exactD [of off n "pk_net m" "pk_net k" "pk_net k'"]
  by (cases b) (auto simp: key_agree_def mask_exact_net_def key_wf_def put_net_def)

lemma key_agree_exact_tp: "key_agree (mask_exact_tp off n b m) k k' \<Longrightarrow>
    key_agree m k k' \<and> (b \<longrightarrow> slice off n (pk_tp k) = slice off n (pk_tp k'))"
  if "key_wf m" "key_wf k" "key_wf k'" "off + n \<le> 24"
  using that bytes_agree_exactD [of off n "pk_tp m" "pk_tp k" "pk_tp k'"]
  by (cases b) (auto simp: key_agree_def mask_exact_tp_def key_wf_def put_tp_def)

lemma slice_all: "length x = n \<Longrightarrow> slice 0 n x = x"
  by (simp add: slice_def)

lemma word_agree_or: "word_agree (m OR n) x y \<longleftrightarrow> word_agree m x y \<and> word_agree n x y"
  by (simp add: word_agree_def and_or_eq)

lemma key_agree_l2:
  assumes "key_agree (translate_mask_l2 cm m) k k'" "key_wf m" "key_wf k" "key_wf k'" "cfr_wf cm"
  shows "key_agree m k k' \<and> (cfr_in_port cm \<noteq> 0 \<longrightarrow> pk_in_port k = pk_in_port k') \<and> bytes_agree (dl_dst cm) (eth_dst k) (eth_dst k') \<and>
    bytes_agree (dl_src cm) (eth_src k) (eth_src k') \<and> (dl_type cm \<noteq> 0 \<longrightarrow> pk_ethertype k = pk_ethertype k') \<and>
    word_agree (dl_vlan cm) (pk_vlan k) (pk_vlan k')"
proof -
  have "length (eth_dst k) = 6" "length (eth_dst k') = 6" "length (eth_dst m) = 6" "length (eth_src k) = 6"
    "length (eth_src k') = 6" "length (eth_src m) = 6" "length (dl_dst cm) = 6" "length (dl_src cm) = 6"
    using assms(2-5) by (simp_all add: key_wf_def cfr_wf_def)
  then show ?thesis using assms(1)
    by (auto simp: key_agree_def translate_mask_l2_def bytes_agree_memor slice_all word_agree_or word_agree_full split: if_splits)
qed

text \<open>
  The keys the kernel sends are consistent: the attribute of a network protocol comes with its
  Ethernet type, that of a transport protocol with its protocol number.
\<close>

definition key_consistent :: "ind_ovs_parsed_key \<Rightarrow> bool" where
  "key_consistent k \<longleftrightarrow>
     (ATTR_BITMAP_TEST (populated k) OVS_KEY_ATTR_IPV4 \<longrightarrow> cfr_dl_type k = htons ETH_P_IP) \<and>
     (ATTR_BITMAP_TEST (populated k) OVS_KEY_ATTR_IPV6 \<longrightarrow> cfr_dl_type k = htons ETH_P_IPV6) \<and>
     (ATTR_BITMAP_TEST (populated k) OVS_KEY_ATTR_ARP \<longrightarrow> cfr_dl_type k = htons ETH_P_ARP) \<and>
     (ATTR_BITMAP_TEST (populated k) OVS_KEY_ATTR_TCP \<longrightarrow> nw_proto (cfr_set_nw k cfr_zero) = IPPROTO_TCP) \<and>
     (ATTR_BITMAP_TEST (populated k) OVS_KEY_ATTR_UDP \<longrightarrow> nw_proto (cfr_set_nw k cfr_zero) = IPPROTO_UDP) \<and>
     (ATTR_BITMAP_TEST (populated k) OVS_KEY_ATTR_ICMP \<longrightarrow> nw_proto (cfr_set_nw k cfr_zero) = IPPROTO_ICMP) \<and>
     (ATTR_BITMAP_TEST (populated k) OVS_KEY_ATTR_ICMPV6 \<longrightarrow> nw_proto (cfr_set_nw k cfr_zero) = IPPROTO_ICMPV6)"

lemma ETH_P_distinct:
  "htons ETH_P_IPV6 \<noteq> htons ETH_P_IP" "htons ETH_P_ARP \<noteq> htons ETH_P_IP" "htons ETH_P_ARP \<noteq> htons ETH_P_IPV6"
  by (simp_all add: bswap16_inj ETH_P_IP_def ETH_P_IPV6_def ETH_P_ARP_def)

lemma IPPROTO_distinct:
  "IPPROTO_UDP \<noteq> IPPROTO_TCP" "IPPROTO_ICMP \<noteq> IPPROTO_TCP" "IPPROTO_ICMPV6 \<noteq> IPPROTO_TCP" "IPPROTO_ICMP \<noteq> IPPROTO_UDP"
  "IPPROTO_ICMPV6 \<noteq> IPPROTO_UDP" "IPPROTO_ICMPV6 \<noteq> IPPROTO_ICMP"
  by (simp_all add: IPPROTO_TCP_def IPPROTO_UDP_def IPPROTO_ICMP_def IPPROTO_ICMPV6_def)

text \<open>What the parts of the translated mask say of two keys that agree on it.\<close>

definition ipv4_agree :: "pipeline_standard_cfr \<Rightarrow> ind_ovs_parsed_key \<Rightarrow> ind_ovs_parsed_key \<Rightarrow> bool" where
  "ipv4_agree cm k k' \<longleftrightarrow> word_agree (nw_tos cm) (of_le (slice 9 1 (pk_net k))) (of_le (slice 9 1 (pk_net k'))) \<and>
     (nw_proto cm \<noteq> 0 \<longrightarrow> slice 8 1 (pk_net k) = slice 8 1 (pk_net k')) \<and>
     word_agree (nw_src cm) (of_le (slice 0 4 (pk_net k))) (of_le (slice 0 4 (pk_net k'))) \<and>
     word_agree (nw_dst cm) (of_le (slice 4 4 (pk_net k))) (of_le (slice 4 4 (pk_net k')))"

definition ipv6_agree :: "pipeline_standard_cfr \<Rightarrow> ind_ovs_parsed_key \<Rightarrow> ind_ovs_parsed_key \<Rightarrow> bool" where
  "ipv6_agree cm k k' \<longleftrightarrow> word_agree (nw_tos cm) (of_le (slice 37 1 (pk_net k))) (of_le (slice 37 1 (pk_net k'))) \<and>
     (nw_proto cm \<noteq> 0 \<longrightarrow> slice 36 1 (pk_net k) = slice 36 1 (pk_net k')) \<and>
     bytes_agree (ipv6_src cm) (slice 0 16 (pk_net k)) (slice 0 16 (pk_net k')) \<and>
     bytes_agree (ipv6_dst cm) (slice 16 16 (pk_net k)) (slice 16 16 (pk_net k'))"

definition arp_agree :: "pipeline_standard_cfr \<Rightarrow> ind_ovs_parsed_key \<Rightarrow> ind_ovs_parsed_key \<Rightarrow> bool" where
  "arp_agree cm k k' \<longleftrightarrow> (nw_proto cm \<noteq> 0 \<longrightarrow> slice 8 2 (pk_tp k) = slice 8 2 (pk_tp k')) \<and>
     word_agree (nw_src cm) (of_le (slice 0 4 (pk_tp k))) (of_le (slice 0 4 (pk_tp k'))) \<and>
     word_agree (nw_dst cm) (of_le (slice 4 4 (pk_tp k))) (of_le (slice 4 4 (pk_tp k')))"

lemma key_agree_l3:
  assumes a: "key_agree (translate_mask_l3 c cm m) k k'" and wf: "key_wf m" "key_wf k" "key_wf k'" "cfr_wf cm"
  shows "key_agree m k k' \<and> (dl_type c = htons ETH_P_IP \<longrightarrow> ipv4_agree cm k k') \<and>
    (dl_type c = htons ETH_P_IPV6 \<longrightarrow> ipv6_agree cm k k') \<and> (dl_type c = htons ETH_P_ARP \<longrightarrow> arp_agree cm k k')"
proof -
  have l: "length (pk_net k) = 40" "length (pk_net k') = 40" "length (pk_tp k) = 24" "length (pk_tp k') = 24"
    "length (ipv6_src cm) = 16" "length (ipv6_dst cm) = 16" using wf by (simp_all add: key_wf_def cfr_wf_def)
  note w = word_agree_slice [where 'a = 8 and n = 1] word_agree_slice [where 'a = 32 and n = 4]
  note s = key_agree_net key_agree_tp
  have "key_agree m k k' \<and> ipv4_agree cm k k'" if "dl_type c = htons ETH_P_IP"
    using a that wf l key_agree_exact_net [of "mask_net 9 (le_bytes 1 (nw_tos cm)) m" k k' 8 1 "nw_proto cm \<noteq> 0"]
    by (auto simp: translate_mask_l3_def s w ipv4_agree_def simp del: One_nat_def)
  moreover have "key_agree m k k' \<and> ipv6_agree cm k k'" if "dl_type c = htons ETH_P_IPV6"
    using a that wf l ETH_P_distinct key_agree_exact_net [of "mask_net 37 (le_bytes 1 (nw_tos cm)) m" k k' 36 1 "nw_proto cm \<noteq> 0"]
    by (auto simp: translate_mask_l3_def s w ipv6_agree_def simp del: One_nat_def)
  moreover have "key_agree m k k' \<and> arp_agree cm k k'" if "dl_type c = htons ETH_P_ARP"
    using a that wf l ETH_P_distinct key_agree_exact_tp [of m k k' 8 2 "nw_proto cm \<noteq> 0"]
    by (auto simp: translate_mask_l3_def s w arp_agree_def)
  ultimately show ?thesis using a ETH_P_distinct by (auto simp: translate_mask_l3_def split: if_splits)
qed

definition ports_agree :: "pipeline_standard_cfr \<Rightarrow> ind_ovs_parsed_key \<Rightarrow> ind_ovs_parsed_key \<Rightarrow> bool" where
  "ports_agree cm k k' \<longleftrightarrow> word_agree (tp_src cm) (of_le (slice 0 2 (pk_tp k))) (of_le (slice 0 2 (pk_tp k'))) \<and>
     word_agree (tp_dst cm) (of_le (slice 2 2 (pk_tp k))) (of_le (slice 2 2 (pk_tp k')))"

definition icmp_agree :: "pipeline_standard_cfr \<Rightarrow> ind_ovs_parsed_key \<Rightarrow> ind_ovs_parsed_key \<Rightarrow> bool" where
  "icmp_agree cm k k' \<longleftrightarrow> (tp_src cm \<noteq> 0 \<longrightarrow> pk_tp k ! 0 = pk_tp k' ! 0) \<and> (tp_dst cm \<noteq> 0 \<longrightarrow> pk_tp k ! 1 = pk_tp k' ! 1)"

lemma slice_1_eq: "slice n 1 x = slice n 1 y \<Longrightarrow> n < length x \<Longrightarrow> n < length y \<Longrightarrow> x ! n = y ! n"
  by (metis slice_def hd_take hd_drop_conv_nth zero_less_one)

lemma key_agree_l4:
  assumes a: "key_agree (translate_mask_l4 c cm m) k k'" and wf: "key_wf m" "key_wf k" "key_wf k'"
  shows "key_agree m k k' \<and> (nw_proto c = IPPROTO_TCP \<or> nw_proto c = IPPROTO_UDP \<longrightarrow> ports_agree cm k k') \<and>
    (nw_proto c = IPPROTO_ICMP \<or> nw_proto c = IPPROTO_ICMPV6 \<longrightarrow> icmp_agree cm k k')"
proof -
  have l: "length (pk_tp k) = 24" "length (pk_tp k') = 24" using wf by (simp_all add: key_wf_def)
  have "key_agree m k k' \<and> ports_agree cm k k'" if "nw_proto c = IPPROTO_TCP \<or> nw_proto c = IPPROTO_UDP"
    using a that wf l word_agree_slice [where 'a = 16 and n = 2] IPPROTO_distinct
    by (auto simp: translate_mask_l4_def key_agree_tp ports_agree_def)
  moreover have "key_agree m k k' \<and> icmp_agree cm k k'" if "nw_proto c = IPPROTO_ICMP \<or> nw_proto c = IPPROTO_ICMPV6"
    using a that wf l IPPROTO_distinct key_agree_exact_tp [of m k k' 0 1 "tp_src cm \<noteq> 0"] slice_1_eq [of _ "pk_tp k" "pk_tp k'"]
      key_agree_exact_tp [of "mask_exact_tp 0 1 (tp_src cm \<noteq> 0) m" k k' 1 1 "tp_dst cm \<noteq> 0"]
    by (auto simp: translate_mask_l4_def icmp_agree_def simp del: One_nat_def)
  ultimately show ?thesis using a IPPROTO_distinct by (auto simp: translate_mask_l4_def split: if_splits)
qed

lemma translate_mask_l3_wf: "key_wf m \<Longrightarrow> cfr_wf cm \<Longrightarrow> key_wf (translate_mask_l3 c cm m)"
  by (simp add: translate_mask_l3_def cfr_wf_def)

lemma translate_mask_l4_wf: "key_wf m \<Longrightarrow> key_wf (translate_mask_l4 c cm m)"
  by (simp add: translate_mask_l4_def)

lemma translate_cfr_mask_wf: "key_wf m \<Longrightarrow> cfr_wf cm \<Longrightarrow> key_wf (translate_cfr_mask m c cm)"
  by (simp add: translate_cfr_mask_def translate_mask_l3_wf translate_mask_l4_wf)

lemma key_to_cfr_sel:
  "cfr_in_port (pipeline_standard_key_to_cfr k c) = (if pk_in_port k = OVSP_LOCAL then OF_PORT_DEST_LOCAL else pk_in_port k)"
  "dl_dst (pipeline_standard_key_to_cfr k c) = eth_dst k" "dl_src (pipeline_standard_key_to_cfr k c) = eth_src k"
  "dl_type (pipeline_standard_key_to_cfr k c) = cfr_dl_type k"
  "dl_vlan (pipeline_standard_key_to_cfr k c) = (if ATTR_BITMAP_TEST (populated k) OVS_KEY_ATTR_VLAN then pk_vlan k OR htons VLAN_CFI_BIT else 0)"
  "nw_tos (pipeline_standard_key_to_cfr k c) = nw_tos (cfr_set_nw k cfr_zero)"
  "nw_proto (pipeline_standard_key_to_cfr k c) = nw_proto (cfr_set_nw k cfr_zero)"
  "nw_src (pipeline_standard_key_to_cfr k c) = nw_src (cfr_set_nw k cfr_zero)"
  "nw_dst (pipeline_standard_key_to_cfr k c) = nw_dst (cfr_set_nw k cfr_zero)"
  "ipv6_src (pipeline_standard_key_to_cfr k c) = ipv6_src (cfr_set_nw k cfr_zero)"
  "ipv6_dst (pipeline_standard_key_to_cfr k c) = ipv6_dst (cfr_set_nw k cfr_zero)"
  "tp_src (pipeline_standard_key_to_cfr k c) = tp_src (cfr_set_tp k cfr_zero)"
  "tp_dst (pipeline_standard_key_to_cfr k c) = tp_dst (cfr_set_tp k cfr_zero)"
  "cfr_pad (pipeline_standard_key_to_cfr k c) = 0" "cfr_pad2 (pipeline_standard_key_to_cfr k c) = 0"
  by (simp_all add: pipeline_standard_key_to_cfr_def Let_def cfr_set_nw_def cfr_set_tp_def cfr_zero_def)

lemma key_to_cfr_wf: "key_wf k \<Longrightarrow> cfr_wf (pipeline_standard_key_to_cfr k c)"
  by (simp add: cfr_wf_def key_to_cfr_sel) (simp add: key_wf_def cfr_set_nw_def cfr_zero_def)

text \<open>The network fields of two keys with the same attributes that agree on the translated mask.\<close>

lemma cfr_nw_agree:
  assumes p: "populated k = populated k'" and c: "key_consistent k"
    and "cfr_dl_type k = htons ETH_P_IP \<Longrightarrow> ipv4_agree cm k k'"
    and "cfr_dl_type k = htons ETH_P_IPV6 \<Longrightarrow> ipv6_agree cm k k'"
    and "cfr_dl_type k = htons ETH_P_ARP \<Longrightarrow> arp_agree cm k k'"
  defines "c \<equiv> cfr_set_nw k cfr_zero" and "d \<equiv> cfr_set_nw k' cfr_zero"
  shows "word_agree (nw_tos cm) (nw_tos c) (nw_tos d) \<and> word_agree (nw_proto cm) (nw_proto c) (nw_proto d) \<and>
    word_agree (nw_src cm) (nw_src c) (nw_src d) \<and> word_agree (nw_dst cm) (nw_dst c) (nw_dst d) \<and>
    bytes_agree (ipv6_src cm) (ipv6_src c) (ipv6_src d) \<and> bytes_agree (ipv6_dst cm) (ipv6_dst c) (ipv6_dst d)"
proof -
  have z: "word_agree 0 x y" for x y :: u8 by (simp add: word_agree_def)
  have pr: "word_agree (nw_proto cm) x y" if "nw_proto cm \<noteq> 0 \<longrightarrow> x = y" for x y
    using that z by (cases "nw_proto cm = 0") auto
  consider (ip) "ATTR_BITMAP_TEST (populated k) OVS_KEY_ATTR_IPV4"
    | (ipv6) "\<not> ATTR_BITMAP_TEST (populated k) OVS_KEY_ATTR_IPV4" "ATTR_BITMAP_TEST (populated k) OVS_KEY_ATTR_IPV6"
    | (arp) "\<not> ATTR_BITMAP_TEST (populated k) OVS_KEY_ATTR_IPV4" "\<not> ATTR_BITMAP_TEST (populated k) OVS_KEY_ATTR_IPV6"
      "ATTR_BITMAP_TEST (populated k) OVS_KEY_ATTR_ARP"
    | (none) "\<not> ATTR_BITMAP_TEST (populated k) OVS_KEY_ATTR_IPV4" "\<not> ATTR_BITMAP_TEST (populated k) OVS_KEY_ATTR_IPV6"
      "\<not> ATTR_BITMAP_TEST (populated k) OVS_KEY_ATTR_ARP" by blast
  then show ?thesis
  proof cases
    case ip
    then have "ipv4_agree cm k k'" using c assms(3) by (simp add: key_consistent_def)
    then show ?thesis using ip p by (auto simp: c_def d_def cfr_set_nw_def ipv4_agree_def intro!: pr)
  next
    case ipv6
    then have "ipv6_agree cm k k'" using c assms(4) by (simp add: key_consistent_def)
    then show ?thesis using ipv6 p by (auto simp: c_def d_def cfr_set_nw_def ipv6_agree_def intro!: pr)
  next
    case arp
    then have "arp_agree cm k k'" using c assms(5) by (simp add: key_consistent_def)
    then show ?thesis using arp p by (auto simp: c_def d_def cfr_set_nw_def arp_agree_def intro!: pr)
  next
    case none
    then show ?thesis using p by (simp add: c_def d_def cfr_set_nw_def)
  qed
qed

lemma cfr_tp_agree:
  assumes p: "populated k = populated k'" and c: "key_consistent k"
    and "nw_proto (cfr_set_nw k cfr_zero) = IPPROTO_TCP \<or> nw_proto (cfr_set_nw k cfr_zero) = IPPROTO_UDP \<Longrightarrow> ports_agree cm k k'"
    and "nw_proto (cfr_set_nw k cfr_zero) = IPPROTO_ICMP \<or> nw_proto (cfr_set_nw k cfr_zero) = IPPROTO_ICMPV6 \<Longrightarrow> icmp_agree cm k k'"
  shows "word_agree (tp_src cm) (tp_src (cfr_set_tp k cfr_zero)) (tp_src (cfr_set_tp k' cfr_zero)) \<and>
    word_agree (tp_dst cm) (tp_dst (cfr_set_tp k cfr_zero)) (tp_dst (cfr_set_tp k' cfr_zero))"
proof -
  have z: "word_agree 0 x y" for x y :: u16 by (simp add: word_agree_def)
  have e: "word_agree m x y" if "m \<noteq> 0 \<longrightarrow> x = y" for m x y :: u16 using that z by (cases "m = 0") auto
  have "ports_agree cm k k'" if "ATTR_BITMAP_TEST (populated k) OVS_KEY_ATTR_TCP \<or> ATTR_BITMAP_TEST (populated k) OVS_KEY_ATTR_UDP"
    using that c assms(3) by (auto simp: key_consistent_def)
  moreover have "icmp_agree cm k k'" if "ATTR_BITMAP_TEST (populated k) OVS_KEY_ATTR_ICMP \<or> ATTR_BITMAP_TEST (populated k) OVS_KEY_ATTR_ICMPV6"
    using that c assms(4) by (auto simp: key_consistent_def)
  ultimately show ?thesis using p by (auto simp: cfr_set_tp_def ports_agree_def icmp_agree_def shift8_def intro!: e)
qed

lemma key_to_cfr_agree:
  assumes a: "key_agree (translate_cfr_mask m c cm) k k'" and wf: "key_wf m" "key_wf k" "key_wf k'" "cfr_wf cm"
    and c: "key_consistent k" "dl_type c = cfr_dl_type k" "nw_proto c = nw_proto (cfr_set_nw k cfr_zero)"
  shows "key_agree m k k'" "cfr_agree cm (pipeline_standard_key_to_cfr k c0) (pipeline_standard_key_to_cfr k' c1)"
proof -
  let ?m2 = "translate_mask_l2 cm m" let ?m3 = "translate_mask_l3 c cm ?m2"
  have w: "key_wf ?m2" "key_wf ?m3" using wf by (simp_all add: translate_mask_l3_wf)
  have l4: "key_agree ?m3 k k' \<and> (nw_proto c = IPPROTO_TCP \<or> nw_proto c = IPPROTO_UDP \<longrightarrow> ports_agree cm k k') \<and>
      (nw_proto c = IPPROTO_ICMP \<or> nw_proto c = IPPROTO_ICMPV6 \<longrightarrow> icmp_agree cm k k')"
    using key_agree_l4 [OF _ w(2) wf(2,3)] a by (simp add: translate_cfr_mask_def)
  have l3: "key_agree ?m2 k k' \<and> (dl_type c = htons ETH_P_IP \<longrightarrow> ipv4_agree cm k k') \<and>
      (dl_type c = htons ETH_P_IPV6 \<longrightarrow> ipv6_agree cm k k') \<and> (dl_type c = htons ETH_P_ARP \<longrightarrow> arp_agree cm k k')"
    by (rule key_agree_l3 [OF conjunct1 [OF l4] w(1) wf(2-4)])
  have l2: "key_agree m k k' \<and> (cfr_in_port cm \<noteq> 0 \<longrightarrow> pk_in_port k = pk_in_port k') \<and> bytes_agree (dl_dst cm) (eth_dst k) (eth_dst k') \<and>
      bytes_agree (dl_src cm) (eth_src k) (eth_src k') \<and> (dl_type cm \<noteq> 0 \<longrightarrow> pk_ethertype k = pk_ethertype k') \<and>
      word_agree (dl_vlan cm) (pk_vlan k) (pk_vlan k')" 
    by (rule key_agree_l2 [OF conjunct1 [OF l3] wf])
  then show "key_agree m k k'" by simp
  have p: "populated k = populated k'" using l2 by (simp add: key_agree_def)
  have e: "word_agree u x y" if "u \<noteq> 0 \<longrightarrow> x = y" for u x y :: "'a::len word"
    using that by (cases "u = 0") (auto simp: word_agree_def)
  let ?port = "\<lambda>k. if pk_in_port k = OVSP_LOCAL then OF_PORT_DEST_LOCAL else pk_in_port k"
  have port: "word_agree (cfr_in_port cm) (?port k) (?port k')" using l2 by (intro e) simp
  have ety: "word_agree (dl_type cm) (cfr_dl_type k) (cfr_dl_type k')" using l2 p by (intro e) (simp add: cfr_dl_type_def)
  have vlan: "word_agree (dl_vlan cm) (pk_vlan k OR v) (pk_vlan k' OR v)" for v
    using l2 word_agree_bitwise [of "dl_vlan cm" "pk_vlan k" "pk_vlan k'" "- 1" v] by simp
  have nw: "word_agree (nw_tos cm) (nw_tos (cfr_set_nw k cfr_zero)) (nw_tos (cfr_set_nw k' cfr_zero)) \<and>
      word_agree (nw_proto cm) (nw_proto (cfr_set_nw k cfr_zero)) (nw_proto (cfr_set_nw k' cfr_zero)) \<and>
      word_agree (nw_src cm) (nw_src (cfr_set_nw k cfr_zero)) (nw_src (cfr_set_nw k' cfr_zero)) \<and>
      word_agree (nw_dst cm) (nw_dst (cfr_set_nw k cfr_zero)) (nw_dst (cfr_set_nw k' cfr_zero)) \<and>
      bytes_agree (ipv6_src cm) (ipv6_src (cfr_set_nw k cfr_zero)) (ipv6_src (cfr_set_nw k' cfr_zero)) \<and>
      bytes_agree (ipv6_dst cm) (ipv6_dst (cfr_set_nw k cfr_zero)) (ipv6_dst (cfr_set_nw k' cfr_zero))"
    by (rule cfr_nw_agree [OF p c(1)]) (use l3 c(2) in simp_all)
  have tp: "word_agree (tp_src cm) (tp_src (cfr_set_tp k cfr_zero)) (tp_src (cfr_set_tp k' cfr_zero)) \<and>
      word_agree (tp_dst cm) (tp_dst (cfr_set_tp k cfr_zero)) (tp_dst (cfr_set_tp k' cfr_zero))"
    by (rule cfr_tp_agree [OF p c(1)]) (use l4 c(3) in auto)
  show "cfr_agree cm (pipeline_standard_key_to_cfr k c0) (pipeline_standard_key_to_cfr k' c1)"
    unfolding cfr_agree_def key_to_cfr_sel using port ety vlan nw tp l2 p by simp
qed

end
