(* ===== verification/Std_Action.thy ===== *)
theory Std_Action
  imports Cfr Xbuf Stats
begin

text \<open>
  The actions and groups of the standard pipeline (\<open>pipeline_standard/module/src/action.c\<close>,
  \<open>action.h\<close>, \<open>group.c\<close> and \<open>group.h\<close>): OpenFlow actions are translated once, when a flow or
  group is added, into attributes of an xbuf, and those into kernel actions for every packet. A group is
  known to a flow by its address; the heap of groups is a map from addresses. The recursion
  between actions and groups is bounded by a number of nested groups: \<open>None\<close> is a memory error, a failed
  assertion, or a nesting deeper than the bound.
\<close>

subsection \<open>The internal actions\<close>

datatype ind_ovs_action = IND_OVS_ACTION_OUTPUT | IND_OVS_ACTION_CONTROLLER | IND_OVS_ACTION_LOCAL | IND_OVS_ACTION_IN_PORT
  | IND_OVS_ACTION_SET_ETH_DST | IND_OVS_ACTION_SET_ETH_SRC | IND_OVS_ACTION_SET_IPV4_DST | IND_OVS_ACTION_SET_IPV4_SRC
  | IND_OVS_ACTION_SET_IP_DSCP | IND_OVS_ACTION_SET_IP_ECN | IND_OVS_ACTION_SET_TCP_DST | IND_OVS_ACTION_SET_TCP_SRC
  | IND_OVS_ACTION_SET_UDP_DST | IND_OVS_ACTION_SET_UDP_SRC | IND_OVS_ACTION_SET_TP_DST | IND_OVS_ACTION_SET_TP_SRC
  | IND_OVS_ACTION_SET_VLAN_VID | IND_OVS_ACTION_SET_VLAN_PCP | IND_OVS_ACTION_POP_VLAN | IND_OVS_ACTION_PUSH_VLAN
  | IND_OVS_ACTION_DEC_NW_TTL | IND_OVS_ACTION_SET_NW_TTL | IND_OVS_ACTION_SET_IPV6_DST | IND_OVS_ACTION_SET_IPV6_SRC
  | IND_OVS_ACTION_SET_IPV6_FLABEL | IND_OVS_ACTION_SET_PRIORITY | IND_OVS_ACTION_GROUP

text \<open>The enumerators in order: the type of an attribute is the position.\<close>

definition ind_ovs_actions :: "ind_ovs_action list" where
  "ind_ovs_actions = [IND_OVS_ACTION_OUTPUT, IND_OVS_ACTION_CONTROLLER, IND_OVS_ACTION_LOCAL, IND_OVS_ACTION_IN_PORT,
     IND_OVS_ACTION_SET_ETH_DST, IND_OVS_ACTION_SET_ETH_SRC, IND_OVS_ACTION_SET_IPV4_DST, IND_OVS_ACTION_SET_IPV4_SRC,
     IND_OVS_ACTION_SET_IP_DSCP, IND_OVS_ACTION_SET_IP_ECN, IND_OVS_ACTION_SET_TCP_DST, IND_OVS_ACTION_SET_TCP_SRC,
     IND_OVS_ACTION_SET_UDP_DST, IND_OVS_ACTION_SET_UDP_SRC, IND_OVS_ACTION_SET_TP_DST, IND_OVS_ACTION_SET_TP_SRC,
     IND_OVS_ACTION_SET_VLAN_VID, IND_OVS_ACTION_SET_VLAN_PCP, IND_OVS_ACTION_POP_VLAN, IND_OVS_ACTION_PUSH_VLAN,
     IND_OVS_ACTION_DEC_NW_TTL, IND_OVS_ACTION_SET_NW_TTL, IND_OVS_ACTION_SET_IPV6_DST, IND_OVS_ACTION_SET_IPV6_SRC,
     IND_OVS_ACTION_SET_IPV6_FLABEL, IND_OVS_ACTION_SET_PRIORITY, IND_OVS_ACTION_GROUP]"

definition ind_ovs_action_of :: "u16 \<Rightarrow> ind_ovs_action option" where
  "ind_ovs_action_of t = (if unat t < length ind_ovs_actions then Some (ind_ovs_actions ! unat t) else None)"

fun position :: "'a \<Rightarrow> 'a list \<Rightarrow> nat" where
  "position a [] = 0"
| "position a (x # xs) = (if x = a then 0 else Suc (position a xs))"

definition ind_ovs_action_code :: "ind_ovs_action \<Rightarrow> u16" where
  "ind_ovs_action_code a = of_nat (position a ind_ovs_actions)"

lemma ind_ovs_action_of_code [simp]: "ind_ovs_action_of (ind_ovs_action_code a) = Some a"
  by (cases a) (simp_all add: ind_ovs_action_of_def ind_ovs_action_code_def ind_ovs_actions_def)

subsection \<open>Groups\<close>

record group_bucket =
  gb_actions :: xbuf
  gb_stats_handle :: u32

record group_value =
  num_buckets :: u16
  gv_buckets :: "group_bucket list"

record group =
  group_id :: u32
  group_type :: u8
  group_value :: group_value

definition OF_GROUP_TYPE_ALL :: u8 where "OF_GROUP_TYPE_ALL = 0"
definition OF_GROUP_TYPE_SELECT :: u8 where "OF_GROUP_TYPE_SELECT = 1"
definition OF_GROUP_TYPE_INDIRECT :: u8 where "OF_GROUP_TYPE_INDIRECT = 2"
definition OF_GROUP_TYPE_FF :: u8 where "OF_GROUP_TYPE_FF = 3"

text \<open>
  What translation reads: the contents of fresh memory, the heap of groups, and the netlink
  port of the packet-in socket.
\<close>

record std_env =
  se_junk :: "nat \<Rightarrow> u8"
  se_groups :: "u64 \<Rightarrow> group option"
  se_netlink_port :: u32

definition pipeline_add_stats :: "(nat \<Rightarrow> u8) \<Rightarrow> xbuf \<Rightarrow> u32 \<Rightarrow> xbuf option" where
  "pipeline_add_stats junk stats slot = xbuf_append junk stats (le_bytes 4 slot)"

subsection \<open>Translation of a packet's actions\<close>

text \<open>\<open>*XBUF_PAYLOAD(attr, type)\<close>.\<close>

definition payload8 :: "attr \<Rightarrow> u8 option" where "payload8 a = map_option of_le (xbuf_payload_check a 1)"
definition payload16 :: "attr \<Rightarrow> u16 option" where "payload16 a = map_option of_le (xbuf_payload_check a 2)"
definition payload32 :: "attr \<Rightarrow> u32 option" where "payload32 a = map_option of_le (xbuf_payload_check a 4)"
definition payload64 :: "attr \<Rightarrow> u64 option" where "payload64 a = map_option of_le (xbuf_payload_check a 8)"

text \<open>One of the two halves of \<open>DEC_NW_TTL\<close>; the flag says whether the loop goes on.\<close>

definition dec_ttl :: "ovs_key_attr \<Rightarrow> nat \<Rightarrow> action_context \<Rightarrow> bool \<times> action_context" where
  "dec_ttl a off ctx =
     (if ATTR_BITMAP_TEST (populated (current_key ctx)) a
      then
        (let ctx = ctx\<lparr>modified_attrs := ATTR_BITMAP_SET (modified_attrs ctx) a\<rparr>;
             ttl = pk_net (current_key ctx) ! off
         in if ttl = 0 then (False, ctx)
            else (let ctx = ctx\<lparr>current_key := put_net off [ttl - 1] (current_key ctx)\<rparr> in (ttl - 1 \<noteq> 0, ctx)))
      else (True, ctx))"

definition dec_nw_ttl :: "action_context \<Rightarrow> bool \<times> action_context" where
  "dec_nw_ttl ctx =
     (let (go, ctx) = dec_ttl OVS_KEY_ATTR_IPV4 10 ctx
      in if go then dec_ttl OVS_KEY_ATTR_IPV6 38 ctx else (False, ctx))"

text \<open>A case of the switch that goes on to the next attribute.\<close>

abbreviation next_attr :: "action_context \<Rightarrow> xbuf \<Rightarrow> (bool \<times> action_context \<times> xbuf) option" where
  "next_attr ctx stats \<equiv> Some (True, ctx, stats)"

text \<open>The body of the loop; \<open>pg\<close> is \<open>process_group\<close>.\<close>

definition translate_set_field :: "action_context \<Rightarrow> attr \<Rightarrow> ind_ovs_action \<Rightarrow> (bool \<times> action_context) option" where
  "translate_set_field ctx a act =
     (case act of
        IND_OVS_ACTION_SET_ETH_DST \<Rightarrow> do { d \<leftarrow> xbuf_payload_check a 6; Some (True, action_set_eth_dst ctx d) }
      | IND_OVS_ACTION_SET_ETH_SRC \<Rightarrow> do { d \<leftarrow> xbuf_payload_check a 6; Some (True, action_set_eth_src ctx d) }
      | IND_OVS_ACTION_SET_VLAN_VID \<Rightarrow> do { v \<leftarrow> payload16 a; Some (True, action_set_vlan_vid ctx v) }
      | IND_OVS_ACTION_SET_VLAN_PCP \<Rightarrow> do { v \<leftarrow> payload8 a; Some (True, action_set_vlan_pcp ctx v) }
      | IND_OVS_ACTION_POP_VLAN \<Rightarrow> Some (True, action_pop_vlan ctx)
      | IND_OVS_ACTION_PUSH_VLAN \<Rightarrow> Some (True, action_push_vlan ctx)
      | IND_OVS_ACTION_SET_IPV4_DST \<Rightarrow> do { v \<leftarrow> payload32 a; Some (True, action_set_ipv4_dst ctx v) }
      | IND_OVS_ACTION_SET_IPV4_SRC \<Rightarrow> do { v \<leftarrow> payload32 a; Some (True, action_set_ipv4_src ctx v) }
      | IND_OVS_ACTION_SET_IPV6_DST \<Rightarrow> do { d \<leftarrow> xbuf_payload_check a 16; Some (True, action_set_ipv6_dst ctx d) }
      | IND_OVS_ACTION_SET_IPV6_SRC \<Rightarrow> do { d \<leftarrow> xbuf_payload_check a 16; Some (True, action_set_ipv6_src ctx d) }
      | IND_OVS_ACTION_SET_IPV6_FLABEL \<Rightarrow> do { v \<leftarrow> payload32 a; Some (True, action_set_ipv6_flabel ctx v) }
      | IND_OVS_ACTION_SET_IP_DSCP \<Rightarrow> do { v \<leftarrow> payload8 a; Some (True, action_set_ipv6_dscp (action_set_ipv4_dscp ctx v) v) }
      | IND_OVS_ACTION_SET_IP_ECN \<Rightarrow> do { v \<leftarrow> payload8 a; Some (True, action_set_ipv6_ecn (action_set_ipv4_ecn ctx v) v) }
      | IND_OVS_ACTION_DEC_NW_TTL \<Rightarrow> Some (dec_nw_ttl ctx)
      | IND_OVS_ACTION_SET_NW_TTL \<Rightarrow> do { v \<leftarrow> payload8 a; Some (True, action_set_ipv6_ttl (action_set_ipv4_ttl ctx v) v) }
      | IND_OVS_ACTION_SET_TCP_DST \<Rightarrow> do { v \<leftarrow> payload16 a; Some (True, action_set_tcp_dst ctx v) }
      | IND_OVS_ACTION_SET_TCP_SRC \<Rightarrow> do { v \<leftarrow> payload16 a; Some (True, action_set_tcp_src ctx v) }
      | IND_OVS_ACTION_SET_UDP_DST \<Rightarrow> do { v \<leftarrow> payload16 a; Some (True, action_set_udp_dst ctx v) }
      | IND_OVS_ACTION_SET_UDP_SRC \<Rightarrow> do { v \<leftarrow> payload16 a; Some (True, action_set_udp_src ctx v) }
      | IND_OVS_ACTION_SET_TP_DST \<Rightarrow> do { v \<leftarrow> payload16 a; Some (True, action_set_udp_dst (action_set_tcp_dst ctx v) v) }
      | IND_OVS_ACTION_SET_TP_SRC \<Rightarrow> do { v \<leftarrow> payload16 a; Some (True, action_set_udp_src (action_set_tcp_src ctx v) v) }
      | IND_OVS_ACTION_SET_PRIORITY \<Rightarrow> do { v \<leftarrow> payload32 a; Some (True, action_set_priority ctx v) }
      | _ \<Rightarrow> Some (True, ctx))"

definition translate_attr ::
  "std_env \<Rightarrow> (action_context \<Rightarrow> u64 \<Rightarrow> xbuf \<Rightarrow> (action_context \<times> xbuf) option) \<Rightarrow> action_context \<Rightarrow> attr \<Rightarrow> xbuf
    \<Rightarrow> (bool \<times> action_context \<times> xbuf) option" where
  "translate_attr E pg ctx a stats =
     (case ind_ovs_action_of (fst a) of
        None \<Rightarrow> next_attr ctx stats
      | Some act \<Rightarrow>
          (case act of
             IND_OVS_ACTION_CONTROLLER \<Rightarrow>
               do { d \<leftarrow> xbuf_payload_check a 8; next_attr (action_userspace ctx d (se_netlink_port E)) stats }
           | IND_OVS_ACTION_OUTPUT \<Rightarrow> do { p \<leftarrow> payload32 a; next_attr (action_output ctx p) stats }
           | IND_OVS_ACTION_LOCAL \<Rightarrow> next_attr (action_output_local ctx) stats
           | IND_OVS_ACTION_IN_PORT \<Rightarrow> next_attr (action_output_in_port ctx) stats
           | IND_OVS_ACTION_GROUP \<Rightarrow>
               do { g \<leftarrow> payload64 a; (ctx, stats) \<leftarrow> pg ctx g stats; next_attr ctx stats }
           | _ \<Rightarrow> do { (go, ctx) \<leftarrow> translate_set_field ctx a act; Some (go, ctx, stats) }))"

fun translate_loop ::
  "std_env \<Rightarrow> (action_context \<Rightarrow> u64 \<Rightarrow> xbuf \<Rightarrow> (action_context \<times> xbuf) option) \<Rightarrow> action_context \<Rightarrow> attr list \<Rightarrow> xbuf
    \<Rightarrow> (action_context \<times> xbuf) option" where
  "translate_loop E pg ctx [] stats = Some (ctx, stats)"
| "translate_loop E pg ctx (a # as) stats =
     do {
       (go, ctx, stats) \<leftarrow> translate_attr E pg ctx a stats;
       if go then translate_loop E pg ctx as stats else Some (ctx, stats)
     }"

type_synonym translator = "action_context \<Rightarrow> xbuf \<Rightarrow> xbuf \<Rightarrow> (action_context \<times> xbuf) option"

definition process_group_bucket ::
  "std_env \<Rightarrow> translator \<Rightarrow> action_context \<Rightarrow> group_bucket \<Rightarrow> xbuf \<Rightarrow> (action_context \<times> xbuf) option" where
  "process_group_bucket E tr ctx b stats =
     do {
       (ctx, stats) \<leftarrow> tr ctx (gb_actions b) stats;
       stats \<leftarrow> pipeline_add_stats (se_junk E) stats (gb_stats_handle b);
       Some (ctx, stats)
     }"

fun process_buckets ::
  "std_env \<Rightarrow> translator \<Rightarrow> action_context \<Rightarrow> group_bucket list \<Rightarrow> xbuf \<Rightarrow> (action_context \<times> xbuf) option" where
  "process_buckets E tr ctx [] stats = Some (ctx, stats)"
| "process_buckets E tr ctx (b # bs) stats =
     do { (ctx, stats) \<leftarrow> process_group_bucket E tr ctx b stats; process_buckets E tr ctx bs stats }"

definition bucket_at :: "group_value \<Rightarrow> nat \<Rightarrow> group_bucket option" where
  "bucket_at v i = (if i < length (gv_buckets v) then Some (gv_buckets v ! i) else None)"

definition process_group ::
  "std_env \<Rightarrow> translator \<Rightarrow> u32 \<Rightarrow> action_context \<Rightarrow> u64 \<Rightarrow> xbuf \<Rightarrow> (action_context \<times> xbuf) option" where
  "process_group E tr hash ctx ptr stats =
     do {
       g \<leftarrow> se_groups E ptr;
       let v = group_value g;
       if num_buckets v = 0 then Some (ctx, stats)
       else if group_type g = OF_GROUP_TYPE_SELECT
       then do { b \<leftarrow> bucket_at v (unat hash mod unat (num_buckets v)); process_group_bucket E tr ctx b stats }
       else if group_type g = OF_GROUP_TYPE_INDIRECT
       then do { b \<leftarrow> bucket_at v 0; process_group_bucket E tr ctx b stats }
       else if group_type g = OF_GROUP_TYPE_ALL
       then if unat (num_buckets v) \<le> length (gv_buckets v)
            then process_buckets E tr ctx (take (unat (num_buckets v)) (gv_buckets v)) stats else None
       else if group_type g = OF_GROUP_TYPE_FF
       then do { b \<leftarrow> bucket_at v 0; process_group_bucket E tr ctx b stats }
       else Some (ctx, stats)
     }"

primrec pipeline_standard_translate_actions :: "nat \<Rightarrow> std_env \<Rightarrow> u32 \<Rightarrow> translator" where
  "pipeline_standard_translate_actions 0 E hash ctx x stats = None"
| "pipeline_standard_translate_actions (Suc n) E hash ctx x stats =
     do {
       as \<leftarrow> xbuf_foreach2 x;
       translate_loop E (process_group E (pipeline_standard_translate_actions n E hash) hash) ctx as stats
     }"

subsection \<open>Translation of OpenFlow actions\<close>

text \<open>
  The actions and set-field values as LOCI decodes them. Acquiring and releasing a group and the
  other calls into the Indigo core are external: the core's lookup of a group is the parameter
  \<open>acq\<close>, and the calls are recorded in order.
\<close>

datatype of_oxm = OF_OXM_VLAN_VID u16 | OF_OXM_VLAN_PCP u8 | OF_OXM_ETH_SRC mac | OF_OXM_ETH_DST mac | OF_OXM_IPV4_SRC u32
  | OF_OXM_IPV4_DST u32 | OF_OXM_IP_DSCP u8 | OF_OXM_IP_ECN u8 | OF_OXM_IPV6_SRC bytes | OF_OXM_IPV6_DST bytes
  | OF_OXM_IPV6_FLABEL u32 | OF_OXM_TCP_SRC u16 | OF_OXM_TCP_DST u16 | OF_OXM_UDP_SRC u16 | OF_OXM_UDP_DST u16 | OF_OXM_other

datatype of_action = OF_ACTION_OUTPUT u32 | OF_ACTION_SET_FIELD of_oxm | OF_ACTION_SET_DL_DST mac | OF_ACTION_SET_DL_SRC mac
  | OF_ACTION_SET_NW_DST u32 | OF_ACTION_SET_NW_SRC u32 | OF_ACTION_SET_NW_TOS u8 | OF_ACTION_SET_TP_DST u16
  | OF_ACTION_SET_TP_SRC u16 | OF_ACTION_SET_VLAN_VID u16 | OF_ACTION_SET_VLAN_PCP u8 | OF_ACTION_POP_VLAN | OF_ACTION_STRIP_VLAN
  | OF_ACTION_PUSH_VLAN u16 | OF_ACTION_DEC_NW_TTL | OF_ACTION_NICIRA_DEC_TTL | OF_ACTION_SET_NW_TTL u8 | OF_ACTION_SET_QUEUE u32
  | OF_ACTION_GROUP u32 | OF_ACTION_other

datatype core_call = GroupAcquire u32 | GroupRelease u32 | DeferRevalidation u32

definition OF_PORT_DEST_CONTROLLER :: u32 where "OF_PORT_DEST_CONTROLLER = 0xfffffffd"
definition OF_PORT_DEST_ALL :: u32 where "OF_PORT_DEST_ALL = 0xfffffffc"
definition OF_PORT_DEST_FLOOD :: u32 where "OF_PORT_DEST_FLOOD = 0xfffffffb"
definition OF_PORT_DEST_NORMAL :: u32 where "OF_PORT_DEST_NORMAL = 0xfffffffa"
definition OF_PORT_DEST_USE_TABLE :: u32 where "OF_PORT_DEST_USE_TABLE = 0xfffffff9"
definition OF_PORT_DEST_IN_PORT :: u32 where "OF_PORT_DEST_IN_PORT = 0xfffffff8"
definition OF_PORT_DEST_WILDCARD :: u32 where "OF_PORT_DEST_WILDCARD = 0xffffffff"
definition OF_PACKET_IN_REASON_NO_MATCH :: u8 where "OF_PACKET_IN_REASON_NO_MATCH = 0"
definition OF_PACKET_IN_REASON_ACTION :: u8 where "OF_PACKET_IN_REASON_ACTION = 1"
definition IPV6_FLABEL_MASK :: u32 where "IPV6_FLABEL_MASK = 0x000fffff"

definition IVS_PKTIN_USERDATA :: "u8 \<Rightarrow> u64 \<Rightarrow> u64" where
  "IVS_PKTIN_USERDATA reason metadata = ucast reason OR push_bit 8 metadata"

abbreviation act_attr :: "ind_ovs_action \<Rightarrow> bytes \<Rightarrow> error + attr" where
  "act_attr a d \<equiv> Inr (ind_ovs_action_code a, d)"

definition output_attr :: "bool \<Rightarrow> u32 \<Rightarrow> error + attr" where
  "output_attr table_miss port_no =
     (if port_no = OF_PORT_DEST_CONTROLLER
      then act_attr IND_OVS_ACTION_CONTROLLER (le_bytes 8 (IVS_PKTIN_USERDATA
             (if table_miss then OF_PACKET_IN_REASON_NO_MATCH else OF_PACKET_IN_REASON_ACTION) 0))
      else if port_no = OF_PORT_DEST_ALL \<or> port_no = OF_PORT_DEST_WILDCARD \<or> port_no = OF_PORT_DEST_FLOOD \<or>
        port_no = OF_PORT_DEST_USE_TABLE then Inl ERROR_BAD_ACTION
      else if port_no = OF_PORT_DEST_LOCAL then act_attr IND_OVS_ACTION_LOCAL []
      else if port_no = OF_PORT_DEST_IN_PORT then act_attr IND_OVS_ACTION_IN_PORT []
      else if port_no = OF_PORT_DEST_NORMAL then Inl ERROR_BAD_ACTION
      else act_attr IND_OVS_ACTION_OUTPUT (le_bytes 4 port_no))"

primrec set_field_attr :: "of_oxm \<Rightarrow> error + attr" where
  "set_field_attr (OF_OXM_VLAN_VID v) = act_attr IND_OVS_ACTION_SET_VLAN_VID (le_bytes 2 v)"
| "set_field_attr (OF_OXM_VLAN_PCP v) = act_attr IND_OVS_ACTION_SET_VLAN_PCP (le_bytes 1 v)"
| "set_field_attr (OF_OXM_ETH_SRC a) = act_attr IND_OVS_ACTION_SET_ETH_SRC a"
| "set_field_attr (OF_OXM_ETH_DST a) = act_attr IND_OVS_ACTION_SET_ETH_DST a"
| "set_field_attr (OF_OXM_IPV4_SRC v) = act_attr IND_OVS_ACTION_SET_IPV4_SRC (le_bytes 4 v)"
| "set_field_attr (OF_OXM_IPV4_DST v) = act_attr IND_OVS_ACTION_SET_IPV4_DST (le_bytes 4 v)"
| "set_field_attr (OF_OXM_IP_DSCP v) =
     (if v > drop_bit 2 IP_DSCP_MASK then Inl ERROR_BAD_ACTION else act_attr IND_OVS_ACTION_SET_IP_DSCP (le_bytes 1 (push_bit 2 v)))"
| "set_field_attr (OF_OXM_IP_ECN v) =
     (if v > IP_ECN_MASK then Inl ERROR_BAD_ACTION else act_attr IND_OVS_ACTION_SET_IP_ECN (le_bytes 1 v))"
| "set_field_attr (OF_OXM_IPV6_SRC a) = act_attr IND_OVS_ACTION_SET_IPV6_SRC a"
| "set_field_attr (OF_OXM_IPV6_DST a) = act_attr IND_OVS_ACTION_SET_IPV6_DST a"
| "set_field_attr (OF_OXM_IPV6_FLABEL v) =
     (if v > IPV6_FLABEL_MASK then Inl ERROR_BAD_ACTION else act_attr IND_OVS_ACTION_SET_IPV6_FLABEL (le_bytes 4 v))"
| "set_field_attr (OF_OXM_TCP_SRC v) = act_attr IND_OVS_ACTION_SET_TCP_SRC (le_bytes 2 v)"
| "set_field_attr (OF_OXM_TCP_DST v) = act_attr IND_OVS_ACTION_SET_TCP_DST (le_bytes 2 v)"
| "set_field_attr (OF_OXM_UDP_SRC v) = act_attr IND_OVS_ACTION_SET_UDP_SRC (le_bytes 2 v)"
| "set_field_attr (OF_OXM_UDP_DST v) = act_attr IND_OVS_ACTION_SET_UDP_DST (le_bytes 2 v)"
| "set_field_attr OF_OXM_other = Inl ERROR_BAD_ACTION"

text \<open>One round of the loop: the attribute to append, or the error.\<close>

primrec of_action_attr :: "(u32 \<Rightarrow> u64 option) \<Rightarrow> bool \<Rightarrow> of_action \<Rightarrow> error + attr" where
  "of_action_attr acq table_miss (OF_ACTION_OUTPUT p) = output_attr table_miss p"
| "of_action_attr acq table_miss (OF_ACTION_SET_FIELD oxm) = set_field_attr oxm"
| "of_action_attr acq table_miss (OF_ACTION_SET_DL_DST a) = act_attr IND_OVS_ACTION_SET_ETH_DST a"
| "of_action_attr acq table_miss (OF_ACTION_SET_DL_SRC a) = act_attr IND_OVS_ACTION_SET_ETH_SRC a"
| "of_action_attr acq table_miss (OF_ACTION_SET_NW_DST v) = act_attr IND_OVS_ACTION_SET_IPV4_DST (le_bytes 4 v)"
| "of_action_attr acq table_miss (OF_ACTION_SET_NW_SRC v) = act_attr IND_OVS_ACTION_SET_IPV4_SRC (le_bytes 4 v)"
| "of_action_attr acq table_miss (OF_ACTION_SET_NW_TOS v) = act_attr IND_OVS_ACTION_SET_IP_DSCP (le_bytes 1 v)"
| "of_action_attr acq table_miss (OF_ACTION_SET_TP_DST v) = act_attr IND_OVS_ACTION_SET_TP_DST (le_bytes 2 v)"
| "of_action_attr acq table_miss (OF_ACTION_SET_TP_SRC v) = act_attr IND_OVS_ACTION_SET_TP_SRC (le_bytes 2 v)"
| "of_action_attr acq table_miss (OF_ACTION_SET_VLAN_VID v) = act_attr IND_OVS_ACTION_SET_VLAN_VID (le_bytes 2 v)"
| "of_action_attr acq table_miss (OF_ACTION_SET_VLAN_PCP v) = act_attr IND_OVS_ACTION_SET_VLAN_PCP (le_bytes 1 v)"
| "of_action_attr acq table_miss OF_ACTION_POP_VLAN = act_attr IND_OVS_ACTION_POP_VLAN []"
| "of_action_attr acq table_miss OF_ACTION_STRIP_VLAN = act_attr IND_OVS_ACTION_POP_VLAN []"
| "of_action_attr acq table_miss (OF_ACTION_PUSH_VLAN eth_type) =
     (if eth_type \<noteq> ETH_P_8021Q then Inl ERROR_BAD_ACTION else act_attr IND_OVS_ACTION_PUSH_VLAN (le_bytes 2 eth_type))"
| "of_action_attr acq table_miss OF_ACTION_DEC_NW_TTL = act_attr IND_OVS_ACTION_DEC_NW_TTL []"
| "of_action_attr acq table_miss OF_ACTION_NICIRA_DEC_TTL = act_attr IND_OVS_ACTION_DEC_NW_TTL []"
| "of_action_attr acq table_miss (OF_ACTION_SET_NW_TTL v) = act_attr IND_OVS_ACTION_SET_NW_TTL (le_bytes 1 v)"
| "of_action_attr acq table_miss (OF_ACTION_SET_QUEUE v) = act_attr IND_OVS_ACTION_SET_PRIORITY (le_bytes 4 v)"
| "of_action_attr acq table_miss (OF_ACTION_GROUP gid) =
     (case acq gid of None \<Rightarrow> Inl ERROR_BAD_ACTION | Some ptr \<Rightarrow> act_attr IND_OVS_ACTION_GROUP (le_bytes 8 ptr))"
| "of_action_attr acq table_miss OF_ACTION_other = Inl ERROR_BAD_ACTION"

text \<open>The calls into the core that the round makes: a successful acquisition takes a reference.\<close>

fun of_action_calls :: "(u32 \<Rightarrow> u64 option) \<Rightarrow> of_action \<Rightarrow> core_call list" where
  "of_action_calls acq (OF_ACTION_GROUP gid) = (if acq gid = None then [] else [GroupAcquire gid])"
| "of_action_calls acq _ = []"

fun pipeline_standard_translate_openflow_actions ::
  "(nat \<Rightarrow> u8) \<Rightarrow> (u32 \<Rightarrow> u64 option) \<Rightarrow> bool \<Rightarrow> of_action list \<Rightarrow> xbuf \<Rightarrow> core_call list
    \<Rightarrow> (error \<times> xbuf \<times> core_call list) option" where
  "pipeline_standard_translate_openflow_actions junk acq table_miss [] x log = Some (ERROR_NONE, x, log)"
| "pipeline_standard_translate_openflow_actions junk acq table_miss (a # as) x log =
     (case of_action_attr acq table_miss a of
        Inl err \<Rightarrow> Some (err, x, log)
      | Inr (t, d) \<Rightarrow>
          do {
            x \<leftarrow> xbuf_append_attr junk x t d;
            pipeline_standard_translate_openflow_actions junk acq table_miss as x (log @ of_action_calls acq a)
          })"

subsection \<open>Release\<close>

fun cleanup_attrs :: "(u64 \<Rightarrow> group option) \<Rightarrow> attr list \<Rightarrow> core_call list \<Rightarrow> core_call list option" where
  "cleanup_attrs groups [] log = Some log"
| "cleanup_attrs groups (a # as) log =
     (if ind_ovs_action_of (fst a) = Some IND_OVS_ACTION_GROUP
      then do {
        ptr \<leftarrow> payload64 a;
        g \<leftarrow> groups ptr;
        cleanup_attrs groups as (log @ [GroupRelease (group_id g)])
      }
      else cleanup_attrs groups as log)"

definition pipeline_standard_cleanup_actions ::
  "(u64 \<Rightarrow> group option) \<Rightarrow> xbuf \<Rightarrow> core_call list \<Rightarrow> (xbuf \<times> core_call list) option" where
  "pipeline_standard_cleanup_actions groups x log =
     do { as \<leftarrow> xbuf_foreach2 x; log \<leftarrow> cleanup_attrs groups as log; Some (xbuf_cleanup x, log) }"

subsection \<open>Group entries\<close>

text \<open>The state the group operations work on: the counters, the calls to the core and the heap of groups.\<close>

record std_state =
  st_stats :: stats_module
  st_log :: "core_call list"
  st_groups :: "u64 \<Rightarrow> group option"

record of_bucket =
  ofb_weight :: u16
  ofb_actions :: "of_action list"

text \<open>The body of the bucket loop: the new bucket and whether the loop goes on.\<close>

definition parse_bucket ::
  "(nat \<Rightarrow> u8) \<Rightarrow> (u32 \<Rightarrow> u64 option) \<Rightarrow> u8 \<Rightarrow> of_bucket \<Rightarrow> u16 \<Rightarrow> std_state \<Rightarrow> (error \<times> group_bucket \<times> std_state) option" where
  "parse_bucket junk acq gtype ob num st =
     do {
       x \<leftarrow> xbuf_init junk;
       (slot, stats) \<leftarrow> stats_alloc (st_stats st);
       let st = st\<lparr>st_stats := stats\<rparr>;
       let b = \<lparr>gb_actions = x, gb_stats_handle = slot\<rparr>;
       if ofb_weight ob > 0 \<and> gtype \<noteq> OF_GROUP_TYPE_SELECT then Some (ERROR_COMPAT, b, st)
       else if ofb_weight ob = 0 \<and> gtype = OF_GROUP_TYPE_SELECT then Some (ERROR_COMPAT, b, st)
       else if gtype = OF_GROUP_TYPE_INDIRECT \<and> num > 1 then Some (ERROR_COMPAT, b, st)
       else do {
         (err, x, log) \<leftarrow> pipeline_standard_translate_openflow_actions junk acq False (ofb_actions ob) x (st_log st);
         let st = st\<lparr>st_log := log\<rparr>;
         Some (err, b\<lparr>gb_actions := (if failed err then x else xbuf_compact junk x)\<rparr>, st)
       }
     }"

fun parse_buckets ::
  "(nat \<Rightarrow> u8) \<Rightarrow> (u32 \<Rightarrow> u64 option) \<Rightarrow> u8 \<Rightarrow> of_bucket list \<Rightarrow> group_value \<Rightarrow> std_state
    \<Rightarrow> (error \<times> group_value \<times> std_state) option" where
  "parse_buckets junk acq gtype [] v st = Some (ERROR_NONE, v, st)"
| "parse_buckets junk acq gtype (ob # obs) v st =
     do {
       (err, b, st) \<leftarrow> parse_bucket junk acq gtype ob (num_buckets v + 1) st;
       let v = v\<lparr>num_buckets := num_buckets v + 1, gv_buckets := gv_buckets v @ [b]\<rparr>;
       if failed err then Some (err, v, st) else parse_buckets junk acq gtype obs v st
     }"

fun cleanup_buckets :: "group_bucket list \<Rightarrow> std_state \<Rightarrow> std_state option" where
  "cleanup_buckets [] st = Some st"
| "cleanup_buckets (b # bs) st =
     do {
       (x, log) \<leftarrow> pipeline_standard_cleanup_actions (st_groups st) (gb_actions b) (st_log st);
       stats \<leftarrow> stats_free (st_stats st) (gb_stats_handle b);
       cleanup_buckets bs (st\<lparr>st_log := log, st_stats := stats\<rparr>)
     }"

definition cleanup_group_value :: "group_value \<Rightarrow> std_state \<Rightarrow> std_state option" where
  "cleanup_group_value v st =
     (if unat (num_buckets v) \<le> length (gv_buckets v)
      then cleanup_buckets (take (unat (num_buckets v)) (gv_buckets v)) st else None)"

definition parse_group_value ::
  "(nat \<Rightarrow> u8) \<Rightarrow> (u32 \<Rightarrow> u64 option) \<Rightarrow> u8 \<Rightarrow> of_bucket list \<Rightarrow> std_state \<Rightarrow> (error \<times> group_value \<times> std_state) option" where
  "parse_group_value junk acq gtype obs st =
     do {
       (err, v, st) \<leftarrow> parse_buckets junk acq gtype obs \<lparr>num_buckets = 0, gv_buckets = []\<rparr> st;
       if failed err then do { st \<leftarrow> cleanup_group_value v st; Some (err, v, st) } else Some (err, v, st)
     }"

text \<open>The address of a new group comes from the allocator.\<close>

definition group_create ::
  "(nat \<Rightarrow> u8) \<Rightarrow> (u32 \<Rightarrow> u64 option) \<Rightarrow> u64 \<Rightarrow> u32 \<Rightarrow> u8 \<Rightarrow> of_bucket list \<Rightarrow> std_state \<Rightarrow> (error \<times> std_state) option" where
  "group_create junk acq addr gid gtype obs st =
     do {
       (rv, v, st) \<leftarrow> parse_group_value junk acq gtype obs st;
       if failed rv then Some (rv, st)
       else Some (ERROR_NONE, st\<lparr>st_groups := (st_groups st)(addr \<mapsto> \<lparr>group_id = gid, group_type = gtype, group_value = v\<rparr>)\<rparr>)
     }"

definition group_modify ::
  "(nat \<Rightarrow> u8) \<Rightarrow> (u32 \<Rightarrow> u64 option) \<Rightarrow> u32 \<Rightarrow> u64 \<Rightarrow> of_bucket list \<Rightarrow> std_state \<Rightarrow> (error \<times> std_state) option" where
  "group_modify junk acq cxn_id addr obs st =
     do {
       g \<leftarrow> st_groups st addr;
       (rv, v, st) \<leftarrow> parse_group_value junk acq (group_type g) obs st;
       if failed rv then Some (rv, st)
       else do {
         st \<leftarrow> cleanup_group_value (group_value g) st;
         let st = st\<lparr>st_groups := (st_groups st)(addr \<mapsto> g\<lparr>group_value := v\<rparr>)\<rparr>;
         Some (ERROR_NONE, st\<lparr>st_log := st_log st @ [DeferRevalidation cxn_id]\<rparr>)
       }
     }"

definition group_delete :: "u64 \<Rightarrow> std_state \<Rightarrow> (error \<times> std_state) option" where
  "group_delete addr st =
     do {
       g \<leftarrow> st_groups st addr;
       st \<leftarrow> cleanup_group_value (group_value g) st;
       Some (ERROR_NONE, st\<lparr>st_groups := (st_groups st)(addr := None)\<rparr>)
     }"

text \<open>The counters of the buckets, in order, and their sums.\<close>

definition group_stats_get :: "u64 \<Rightarrow> std_state \<Rightarrow> (error \<times> stats list \<times> u64 \<times> u64) option" where
  "group_stats_get addr st =
     do {
       g \<leftarrow> st_groups st addr;
       let cs = map (\<lambda>b. stats_get (st_stats st) (gb_stats_handle b))
         (take (unat (num_buckets (group_value g))) (gv_buckets (group_value g)));
       Some (ERROR_NONE, cs, foldl (\<lambda>t c. t + packets c) 0 cs, foldl (\<lambda>t c. t + bytes_cnt c) 0 cs)
     }"

subsection \<open>OpenFlow actions in a buffer\<close>

primrec of_oxm_ok :: "of_oxm \<Rightarrow> bool" where
  "of_oxm_ok (OF_OXM_VLAN_VID v) \<longleftrightarrow> True"
| "of_oxm_ok (OF_OXM_VLAN_PCP v) \<longleftrightarrow> True"
| "of_oxm_ok (OF_OXM_ETH_SRC a) \<longleftrightarrow> length a = 6"
| "of_oxm_ok (OF_OXM_ETH_DST a) \<longleftrightarrow> length a = 6"
| "of_oxm_ok (OF_OXM_IPV4_SRC v) \<longleftrightarrow> True"
| "of_oxm_ok (OF_OXM_IPV4_DST v) \<longleftrightarrow> True"
| "of_oxm_ok (OF_OXM_IP_DSCP v) \<longleftrightarrow> True"
| "of_oxm_ok (OF_OXM_IP_ECN v) \<longleftrightarrow> True"
| "of_oxm_ok (OF_OXM_IPV6_SRC a) \<longleftrightarrow> length a = 16"
| "of_oxm_ok (OF_OXM_IPV6_DST a) \<longleftrightarrow> length a = 16"
| "of_oxm_ok (OF_OXM_IPV6_FLABEL v) \<longleftrightarrow> True"
| "of_oxm_ok (OF_OXM_TCP_SRC v) \<longleftrightarrow> True"
| "of_oxm_ok (OF_OXM_TCP_DST v) \<longleftrightarrow> True"
| "of_oxm_ok (OF_OXM_UDP_SRC v) \<longleftrightarrow> True"
| "of_oxm_ok (OF_OXM_UDP_DST v) \<longleftrightarrow> True"
| "of_oxm_ok OF_OXM_other \<longleftrightarrow> True"

fun of_action_ok :: "of_action \<Rightarrow> bool" where
  "of_action_ok (OF_ACTION_SET_FIELD oxm) \<longleftrightarrow> of_oxm_ok oxm"
| "of_action_ok (OF_ACTION_SET_DL_DST a) \<longleftrightarrow> length a = 6"
| "of_action_ok (OF_ACTION_SET_DL_SRC a) \<longleftrightarrow> length a = 6"
| "of_action_ok _ \<longleftrightarrow> True"

text \<open>The size of the payload that the packet code expects of each action.\<close>

primrec action_size :: "ind_ovs_action \<Rightarrow> nat" where
  "action_size IND_OVS_ACTION_OUTPUT = 4"
| "action_size IND_OVS_ACTION_CONTROLLER = 8"
| "action_size IND_OVS_ACTION_LOCAL = 0"
| "action_size IND_OVS_ACTION_IN_PORT = 0"
| "action_size IND_OVS_ACTION_SET_ETH_DST = 6"
| "action_size IND_OVS_ACTION_SET_ETH_SRC = 6"
| "action_size IND_OVS_ACTION_SET_IPV4_DST = 4"
| "action_size IND_OVS_ACTION_SET_IPV4_SRC = 4"
| "action_size IND_OVS_ACTION_SET_IP_DSCP = 1"
| "action_size IND_OVS_ACTION_SET_IP_ECN = 1"
| "action_size IND_OVS_ACTION_SET_TCP_DST = 2"
| "action_size IND_OVS_ACTION_SET_TCP_SRC = 2"
| "action_size IND_OVS_ACTION_SET_UDP_DST = 2"
| "action_size IND_OVS_ACTION_SET_UDP_SRC = 2"
| "action_size IND_OVS_ACTION_SET_TP_DST = 2"
| "action_size IND_OVS_ACTION_SET_TP_SRC = 2"
| "action_size IND_OVS_ACTION_SET_VLAN_VID = 2"
| "action_size IND_OVS_ACTION_SET_VLAN_PCP = 1"
| "action_size IND_OVS_ACTION_POP_VLAN = 0"
| "action_size IND_OVS_ACTION_PUSH_VLAN = 2"
| "action_size IND_OVS_ACTION_DEC_NW_TTL = 0"
| "action_size IND_OVS_ACTION_SET_NW_TTL = 1"
| "action_size IND_OVS_ACTION_SET_IPV6_DST = 16"
| "action_size IND_OVS_ACTION_SET_IPV6_SRC = 16"
| "action_size IND_OVS_ACTION_SET_IPV6_FLABEL = 4"
| "action_size IND_OVS_ACTION_SET_PRIORITY = 4"
| "action_size IND_OVS_ACTION_GROUP = 8"

definition action_attr_ok :: "attr \<Rightarrow> bool" where
  "action_attr_ok a \<longleftrightarrow> (\<exists>b. ind_ovs_action_of (fst a) = Some b \<and> length (snd a) = action_size b)"

lemma act_ok: "length d = action_size b \<Longrightarrow> action_attr_ok (ind_ovs_action_code b, d)"
  by (simp add: action_attr_ok_def)

lemma action_size_le: "action_size b \<le> 16"
  by (cases b) simp_all

lemma output_attr_ok: "output_attr tm p = Inr a \<Longrightarrow> action_attr_ok a"
  by (auto simp: output_attr_def act_ok split: if_splits)

lemma set_field_attr_ok: "of_oxm_ok oxm \<Longrightarrow> set_field_attr oxm = Inr a \<Longrightarrow> action_attr_ok a"
  by (cases oxm) (auto simp: act_ok split: if_splits)

lemma of_action_attr_ok: "of_action_ok b \<Longrightarrow> of_action_attr acq tm b = Inr a \<Longrightarrow> action_attr_ok a"
  by (cases b) (auto simp: act_ok output_attr_ok set_field_attr_ok split: if_splits option.splits)

lemma of_action_attr_error: "of_action_attr acq tm b = Inl e \<Longrightarrow> e = ERROR_BAD_ACTION"
proof -
  have "output_attr tm p = Inl e \<Longrightarrow> e = ERROR_BAD_ACTION" for p by (auto simp: output_attr_def split: if_splits)
  moreover have "set_field_attr oxm = Inl e \<Longrightarrow> e = ERROR_BAD_ACTION" for oxm by (cases oxm) (auto split: if_splits)
  ultimately show "of_action_attr acq tm b = Inl e \<Longrightarrow> e = ERROR_BAD_ACTION"
    by (cases b) (auto split: if_splits option.splits)
qed

lemma action_attr_small:
  assumes "action_attr_ok a"
  shows "attr_ok a" "length (attr_bytes a) \<le> 20"
proof -
  have l: "length (snd a) \<le> 16" using assms action_size_le by (auto simp: action_attr_ok_def)
  then show "attr_ok a" by (simp add: attr_ok_def NLA_HDRLEN_def)
  have "NLA_ALIGN (length (snd a)) \<le> 16" unfolding NLA_ALIGN_def using l by presburger
  then show "length (attr_bytes a) \<le> 20" using l by (simp add: attr_bytes_def)
qed

text \<open>The actions up to the first that is refused, and their attributes.\<close>

definition accepted :: "(u32 \<Rightarrow> u64 option) \<Rightarrow> bool \<Rightarrow> of_action list \<Rightarrow> of_action list" where
  "accepted acq tm as = takeWhile (\<lambda>a. case of_action_attr acq tm a of Inr _ \<Rightarrow> True | Inl _ \<Rightarrow> False) as"

definition action_attrs :: "(u32 \<Rightarrow> u64 option) \<Rightarrow> bool \<Rightarrow> of_action list \<Rightarrow> attr list" where
  "action_attrs acq tm as = concat (map (\<lambda>a. case of_action_attr acq tm a of Inr x \<Rightarrow> [x] | Inl _ \<Rightarrow> []) (accepted acq tm as))"

lemma action_attrs_ok: "list_all of_action_ok as \<Longrightarrow> list_all action_attr_ok (action_attrs acq tm as)"
  by (induction as) (auto simp: action_attrs_def accepted_def of_action_attr_ok split: sum.splits)

lemma translate_openflow_ok:
  assumes "xb_holds x bs" "list_all of_action_ok as" "unat (xb_length x) + 20 * length as \<le> 2 ^ 31"
  shows "\<exists>x'. pipeline_standard_translate_openflow_actions junk acq tm as x log =
      Some (if accepted acq tm as = as then ERROR_NONE else ERROR_BAD_ACTION, x', log @ concat (map (of_action_calls acq) (accepted acq tm as))) \<and>
    xb_holds x' (bs @ action_attrs acq tm as) \<and> unat (xb_length x') \<le> unat (xb_length x) + 20 * length as"
  using assms
proof (induction as arbitrary: x bs log)
  case Nil
  then show ?case by (simp add: accepted_def action_attrs_def)
next
  case (Cons a as)
  show ?case
  proof (cases "of_action_attr acq tm a")
    case (Inl e)
    then show ?thesis using Cons.prems of_action_attr_error [OF Inl] by (simp add: accepted_def action_attrs_def)
  next
    case (Inr y)
    obtain t d where y: "y = (t, d)" by (cases y)
    have ok: "action_attr_ok (t, d)" using of_action_attr_ok [OF _ Inr] y Cons.prems(2) by simp
    note small = action_attr_small [OF ok]
    obtain x1 where x1: "xbuf_append_attr junk x t d = Some x1" "xb_holds x1 (bs @ [(t, d)])"
      "unat (xb_length x1) = unat (xb_length x) + length (attr_bytes (t, d))"
      using xb_holds_append_attr [OF Cons.prems(1) small(1)] Cons.prems(3) small(2) by auto
    then have "unat (xb_length x1) + 20 * length as \<le> 2 ^ 31" using Cons.prems(3) small(2) by simp
    with Cons.IH [OF x1(2), of "log @ of_action_calls acq a"] Cons.prems(2)
    obtain x' where "pipeline_standard_translate_openflow_actions junk acq tm as x1 (log @ of_action_calls acq a) =
        Some (if accepted acq tm as = as then ERROR_NONE else ERROR_BAD_ACTION, x',
          (log @ of_action_calls acq a) @ concat (map (of_action_calls acq) (accepted acq tm as)))"
      "xb_holds x' ((bs @ [(t, d)]) @ action_attrs acq tm as)" "unat (xb_length x') \<le> unat (xb_length x1) + 20 * length as" by auto
    then show ?thesis using Inr y x1 small(2) by (simp add: accepted_def action_attrs_def)
  qed
qed

subsection \<open>References to groups\<close>

text \<open>
  The number of references to a group that a sequence of calls takes, less those it gives back; the
  groups that a list of attributes refers to.
\<close>

definition ref_count :: "core_call list \<Rightarrow> u32 \<Rightarrow> int" where
  "ref_count log gid = int (count_list log (GroupAcquire gid)) - int (count_list log (GroupRelease gid))"

definition attr_ref :: "(u64 \<Rightarrow> group option) \<Rightarrow> attr \<Rightarrow> u32 option" where
  "attr_ref groups a = do { ptr \<leftarrow> payload64 a; g \<leftarrow> groups ptr; Some (group_id g) }"

definition is_group_attr :: "attr \<Rightarrow> bool" where
  "is_group_attr a \<longleftrightarrow> ind_ovs_action_of (fst a) = Some IND_OVS_ACTION_GROUP"

definition resolved :: "(u64 \<Rightarrow> group option) \<Rightarrow> attr \<Rightarrow> bool" where
  "resolved groups a \<longleftrightarrow> is_group_attr a \<longrightarrow> attr_ref groups a \<noteq> None"

definition attr_refs :: "(u64 \<Rightarrow> group option) \<Rightarrow> attr list \<Rightarrow> u32 list" where
  "attr_refs groups as = List.map_filter (attr_ref groups) (filter is_group_attr as)"

lemma ref_count_append [simp]: "ref_count (a @ b) gid = ref_count a gid + ref_count b gid"
  by (simp add: ref_count_def)

lemma ref_count_Nil [simp]: "ref_count [] gid = 0"
  by (simp add: ref_count_def)

lemma ref_count_acquire [simp]: "ref_count (map GroupAcquire gs) gid = int (count_list gs gid)"
  by (induction gs) (auto simp: ref_count_def)

lemma ref_count_release [simp]: "ref_count (map GroupRelease gs) gid = - int (count_list gs gid)"
  by (induction gs) (auto simp: ref_count_def)

lemma attr_refs_simps [simp]:
  "attr_refs groups [] = []"
  "attr_refs groups (a # as) = (if is_group_attr a then (case attr_ref groups a of None \<Rightarrow> [] | Some r \<Rightarrow> [r]) else []) @ attr_refs groups as"
  by (simp_all add: attr_refs_def List.map_filter_def split: option.splits)

lemma cleanup_attrs_ok:
  "list_all (resolved groups) as \<Longrightarrow> cleanup_attrs groups as log = Some (log @ map GroupRelease (attr_refs groups as))"
  by (induction as arbitrary: log)
    (auto simp: resolved_def attr_ref_def is_group_attr_def split: Option.bind_splits option.splits)

text \<open>The core finds the group that the identifier names.\<close>

definition core_ok :: "(u32 \<Rightarrow> u64 option) \<Rightarrow> (u64 \<Rightarrow> group option) \<Rightarrow> bool" where
  "core_ok acq groups \<longleftrightarrow> (\<forall>gid ptr. acq gid = Some ptr \<longrightarrow> (\<exists>g. groups ptr = Some g \<and> group_id g = gid))"

lemma action_code_eq [simp]: "ind_ovs_action_code a = ind_ovs_action_code b \<longleftrightarrow> a = b"
  using ind_ovs_action_of_code by (metis option.inject)

lemma group_attr_ref [simp]:
  "attr_ref groups (ind_ovs_action_code IND_OVS_ACTION_GROUP, le_bytes 8 (ptr :: u64)) = map_option group_id (groups ptr)"
  by (simp add: attr_ref_def payload64_def xbuf_payload_check_def map_conv_bind_option split: Option.bind_splits)

lemma is_group_code [simp]: "is_group_attr (ind_ovs_action_code a, d) \<longleftrightarrow> a = IND_OVS_ACTION_GROUP"
  by (simp add: is_group_attr_def)

lemma non_group_attr:
  assumes "of_action_attr acq tm b = Inr a" "\<And>gid. b \<noteq> OF_ACTION_GROUP gid"
  shows "\<not> is_group_attr a" "of_action_calls acq b = []"
proof -
  have "output_attr tm p = Inr a \<Longrightarrow> \<not> is_group_attr a" for p by (auto simp: output_attr_def split: if_splits)
  moreover have "set_field_attr oxm = Inr a \<Longrightarrow> \<not> is_group_attr a" for oxm by (cases oxm) (auto split: if_splits)
  ultimately show "\<not> is_group_attr a" "of_action_calls acq b = []" using assms by (cases b; auto split: if_splits)+
qed

lemma of_action_refs:
  assumes "core_ok acq groups" "of_action_attr acq tm b = Inr a"
  shows "resolved groups a" "of_action_calls acq b = map GroupAcquire (attr_refs groups [a])"
proof -
  have "resolved groups a \<and> of_action_calls acq b = map GroupAcquire (attr_refs groups [a])"
  proof (cases "\<exists>gid. b = OF_ACTION_GROUP gid")
    case True
    then show ?thesis using assms by (fastforce simp: core_ok_def resolved_def split: option.splits)
  next
    case False
    then show ?thesis using non_group_attr [OF assms(2)] by (simp add: resolved_def)
  qed
  then show "resolved groups a" "of_action_calls acq b = map GroupAcquire (attr_refs groups [a])" by auto
qed

lemma attr_refs_Cons: "attr_refs groups (a # as) = attr_refs groups [a] @ attr_refs groups as"
  by simp

lemma action_attrs_refs:
  assumes "core_ok acq groups"
  shows "list_all (resolved groups) (action_attrs acq tm as)"
    "concat (map (of_action_calls acq) (accepted acq tm as)) = map GroupAcquire (attr_refs groups (action_attrs acq tm as))"
proof -
  have c: "accepted acq tm (b # bs) = (case of_action_attr acq tm b of Inr _ \<Rightarrow> b # accepted acq tm bs | Inl _ \<Rightarrow> [])"
    "action_attrs acq tm (b # bs) = (case of_action_attr acq tm b of Inr a \<Rightarrow> a # action_attrs acq tm bs | Inl _ \<Rightarrow> [])" for b bs
    by (simp_all add: accepted_def action_attrs_def split: sum.splits)
  show "list_all (resolved groups) (action_attrs acq tm as)"
    by (induction as) (simp_all add: c of_action_refs(1) [OF assms] action_attrs_def accepted_def split: sum.splits)
  show "concat (map (of_action_calls acq) (accepted acq tm as)) = map GroupAcquire (attr_refs groups (action_attrs acq tm as))"
  proof (induction as)
    case (Cons b bs)
    show ?case
    proof (cases "of_action_attr acq tm b")
      case (Inr a)
      have "attr_refs groups (a # action_attrs acq tm bs) = attr_refs groups [a] @ attr_refs groups (action_attrs acq tm bs)"
        by (rule attr_refs_Cons)
      then show ?thesis using Cons of_action_refs(2) [OF assms Inr] Inr by (simp only: c sum.case list.map concat.simps map_append)
    qed (simp add: c)
  qed (simp add: accepted_def action_attrs_def)
qed

subsection \<open>Buckets own a counter and references\<close>

definition bucket_ok :: "(u64 \<Rightarrow> group option) \<Rightarrow> group_bucket \<Rightarrow> bool" where
  "bucket_ok groups b \<longleftrightarrow> (case xbuf_foreach2 (gb_actions b) of None \<Rightarrow> False | Some as \<Rightarrow> list_all action_attr_ok as \<and> list_all (resolved groups) as)"

definition bucket_refs :: "(u64 \<Rightarrow> group option) \<Rightarrow> group_bucket \<Rightarrow> u32 list" where
  "bucket_refs groups b = (case xbuf_foreach2 (gb_actions b) of None \<Rightarrow> [] | Some as \<Rightarrow> attr_refs groups as)"

definition value_slots :: "group_value \<Rightarrow> u32 list" where
  "value_slots v = map gb_stats_handle (gv_buckets v)"

definition value_refs :: "(u64 \<Rightarrow> group option) \<Rightarrow> group_value \<Rightarrow> u32 list" where
  "value_refs groups v = concat (map (bucket_refs groups) (gv_buckets v))"

definition value_ok :: "(u64 \<Rightarrow> group option) \<Rightarrow> group_value \<Rightarrow> bool" where
  "value_ok groups v \<longleftrightarrow> list_all (bucket_ok groups) (gv_buckets v) \<and> distinct (value_slots v) \<and>
     unat (num_buckets v) = length (gv_buckets v)"

lemma cleanup_buckets_ok:
  assumes "stats_inv (st_stats st) A" "list_all (bucket_ok (st_groups st)) bs" "distinct (map gb_stats_handle bs)"
    "set (map gb_stats_handle bs) \<subseteq> A"
  shows "\<exists>st'. cleanup_buckets bs st = Some st' \<and> st_groups st' = st_groups st \<and>
    st_log st' = st_log st @ map GroupRelease (concat (map (bucket_refs (st_groups st)) bs)) \<and>
    stats_inv (st_stats st') (A - set (map gb_stats_handle bs))"
  using assms
proof (induction bs arbitrary: st A)
  case (Cons b bs)
  obtain as where as: "xbuf_foreach2 (gb_actions b) = Some as" "list_all (resolved (st_groups st)) as"
    using Cons.prems(2) by (auto simp: bucket_ok_def split: option.splits)
  have mem: "gb_stats_handle b \<in> A" using Cons.prems by simp
  obtain stats where s: "stats_free (st_stats st) (gb_stats_handle b) = Some stats" "stats_inv stats (A - {gb_stats_handle b})"
    by (rule stats_free_ok [OF Cons.prems(1) mem])
  let ?st = "st\<lparr>st_log := st_log st @ map GroupRelease (attr_refs (st_groups st) as), st_stats := stats\<rparr>"
  have "cleanup_buckets (b # bs) st = cleanup_buckets bs ?st"
    using as s cleanup_attrs_ok [OF as(2)] by (simp add: pipeline_standard_cleanup_actions_def)
  moreover have "set (map gb_stats_handle bs) \<subseteq> A - {gb_stats_handle b}" using Cons.prems by (auto simp: image_iff)
  moreover have "A - set (map gb_stats_handle (b # bs)) = A - {gb_stats_handle b} - set (map gb_stats_handle bs)" by auto
  ultimately show ?case
    using Cons.IH [of ?st "A - {gb_stats_handle b}"] Cons.prems(2,3) s(2) as by (simp add: bucket_refs_def)
qed simp

lemma cleanup_group_value_ok:
  assumes "stats_inv (st_stats st) A" "value_ok (st_groups st) v" "set (value_slots v) \<subseteq> A"
  obtains st' where "cleanup_group_value v st = Some st'" "st_groups st' = st_groups st"
    "st_log st' = st_log st @ map GroupRelease (value_refs (st_groups st) v)"
    "stats_inv (st_stats st') (A - set (value_slots v))"
  using cleanup_buckets_ok [OF assms(1), of "gv_buckets v"] assms(2,3)
  by (auto simp: value_ok_def value_slots_def value_refs_def cleanup_group_value_def)

lemma xb_holds_compact: "xb_holds x as \<Longrightarrow> xb_holds (xbuf_compact junk x) as"
proof -
  have "xb_wf x \<Longrightarrow> xb_wf (xbuf_compact junk x) \<and> contents (xbuf_compact junk x) = contents x"
    by (simp add: xb_wf_def contents_def xbuf_compact_def aim_realloc_def word_le_nat_alt)
  then show "xb_holds x as \<Longrightarrow> xb_holds (xbuf_compact junk x) as" by (simp add: xb_holds_def)
qed

text \<open>What the parser answers for a bucket and for a list of buckets.\<close>

definition bucket_error :: "(u32 \<Rightarrow> u64 option) \<Rightarrow> u8 \<Rightarrow> u16 \<Rightarrow> of_bucket \<Rightarrow> error" where
  "bucket_error acq gtype num ob =
     (if (ofb_weight ob > 0) \<noteq> (gtype = OF_GROUP_TYPE_SELECT) \<or> gtype = OF_GROUP_TYPE_INDIRECT \<and> num > 1 then ERROR_COMPAT
      else if accepted acq False (ofb_actions ob) = ofb_actions ob then ERROR_NONE else ERROR_BAD_ACTION)"

fun buckets_error :: "(u32 \<Rightarrow> u64 option) \<Rightarrow> u8 \<Rightarrow> u16 \<Rightarrow> of_bucket list \<Rightarrow> error" where
  "buckets_error acq gtype n [] = ERROR_NONE"
| "buckets_error acq gtype n (ob # obs) =
     (let e = bucket_error acq gtype (n + 1) ob in if failed e then e else buckets_error acq gtype (n + 1) obs)"

definition of_bucket_ok :: "of_bucket \<Rightarrow> bool" where
  "of_bucket_ok ob \<longleftrightarrow> list_all of_action_ok (ofb_actions ob) \<and> 20 * length (ofb_actions ob) \<le> 2 ^ 31"

lemma bucket_ok_holds:
  assumes "xb_holds (gb_actions b) as" "list_all action_attr_ok as" "list_all (resolved groups) as"
  shows "bucket_ok groups b" "bucket_refs groups b = attr_refs groups as"
  using assms xb_holds_foreach [OF assms(1)] by (simp_all add: bucket_ok_def bucket_refs_def)

lemma parse_bucket_ok:
  assumes "core_ok acq (st_groups st)" "stats_inv (st_stats st) A" "card A < MAX_STATS" "of_bucket_ok ob"
  obtains b st' where "parse_bucket junk acq gtype ob num st = Some (bucket_error acq gtype num ob, b, st')"
    "bucket_ok (st_groups st) b" "gb_stats_handle b \<notin> A" "stats_inv (st_stats st') (insert (gb_stats_handle b) A)"
    "st_log st' = st_log st @ map GroupAcquire (bucket_refs (st_groups st) b)" "st_groups st' = st_groups st"
proof -
  obtain x where x: "xbuf_init junk = Some x" "xb_holds x []" "xb_length x = 0" by (rule xbuf_init_holds)
  obtain slot stats where s: "stats_alloc (st_stats st) = Some (slot, stats)" "slot \<notin> A" "stats_inv stats (insert slot A)"
    by (rule stats_alloc_ok [OF assms(2,3)])
  let ?as = "ofb_actions ob" and ?b = "\<lambda>x. \<lparr>gb_actions = x, gb_stats_handle = slot\<rparr>"
  show thesis
  proof (cases "bucket_error acq gtype num ob = ERROR_COMPAT")
    case True
    then have "parse_bucket junk acq gtype ob num st = Some (bucket_error acq gtype num ob, ?b x, st\<lparr>st_stats := stats\<rparr>)"
      using x s by (auto simp: parse_bucket_def bucket_error_def Let_def word_neq_0_conv split: if_splits)
    then show thesis
      using bucket_ok_holds [of "?b x" "[]"] x s by (intro that [of "?b x" "st\<lparr>st_stats := stats\<rparr>"]) simp_all
  next
    case False
    let ?atts = "action_attrs acq False ?as"
    obtain x' where x': "pipeline_standard_translate_openflow_actions junk acq False ?as x (st_log st) =
        Some (if accepted acq False ?as = ?as then ERROR_NONE else ERROR_BAD_ACTION, x',
          st_log st @ concat (map (of_action_calls acq) (accepted acq False ?as)))" "xb_holds x' ?atts"
      using translate_openflow_ok [OF x(2), of ?as junk acq False "st_log st"] assms(4) x(3) by (auto simp: of_bucket_ok_def)
    define y where "y = (if failed (bucket_error acq gtype num ob) then x' else xbuf_compact junk x')"
    have y: "xb_holds y ?atts" using x'(2) xb_holds_compact by (simp add: y_def)
    note refs = action_attrs_refs [OF assms(1), of False ?as]
    have ok: "bucket_ok (st_groups st) (?b y)" "bucket_refs (st_groups st) (?b y) = attr_refs (st_groups st) ?atts"
      using bucket_ok_holds [of "?b y" ?atts "st_groups st"] y refs(1) action_attrs_ok assms(4) by (auto simp: of_bucket_ok_def)
    have "parse_bucket junk acq gtype ob num st = Some (bucket_error acq gtype num ob, ?b y,
        st\<lparr>st_stats := stats, st_log := st_log st @ map GroupAcquire (attr_refs (st_groups st) ?atts)\<rparr>)"
      using x s x'(1) False refs(2) by (auto simp: parse_bucket_def bucket_error_def y_def Let_def word_neq_0_conv split: if_splits)
    from that [OF this] ok s show thesis by simp
  qed
qed

lemma parse_buckets_ok:
  assumes "core_ok acq (st_groups st)" "stats_inv (st_stats st) A" "card A + length obs \<le> MAX_STATS"
    "list_all of_bucket_ok obs" "value_ok (st_groups st) v" "set (value_slots v) \<subseteq> A" "unat (num_buckets v) + length obs < 2 ^ 16"
  shows "\<exists>v' st' bs. parse_buckets junk acq gtype obs v st = Some (buckets_error acq gtype (num_buckets v) obs, v', st') \<and>
    gv_buckets v' = gv_buckets v @ bs \<and> value_ok (st_groups st) v' \<and> set (map gb_stats_handle bs) \<inter> A = {} \<and>
    stats_inv (st_stats st') (A \<union> set (map gb_stats_handle bs)) \<and> st_groups st' = st_groups st \<and>
    st_log st' = st_log st @ map GroupAcquire (concat (map (bucket_refs (st_groups st)) bs)) \<and>
    (\<not> failed (buckets_error acq gtype (num_buckets v) obs) \<longrightarrow> length bs = length obs)"
  using assms
proof (induction obs arbitrary: v st A)
  case Nil
  then show ?case by (intro exI [of _ v] exI [of _ st] exI [of _ "[]"]) simp
next
  case (Cons ob obs)
  let ?G = "st_groups st" and ?e = "bucket_error acq gtype (num_buckets v + 1) ob"
  obtain b st1 where b: "parse_bucket junk acq gtype ob (num_buckets v + 1) st = Some (?e, b, st1)"
    "bucket_ok ?G b" "gb_stats_handle b \<notin> A" "stats_inv (st_stats st1) (insert (gb_stats_handle b) A)"
    "st_log st1 = st_log st @ map GroupAcquire (bucket_refs ?G b)" "st_groups st1 = ?G"
    using parse_bucket_ok [OF Cons.prems(1,2), of ob junk gtype "num_buckets v + 1"] Cons.prems(3,4) by auto
  define w where "w = v\<lparr>num_buckets := num_buckets v + 1, gv_buckets := gv_buckets v @ [b]\<rparr>"
  have n: "unat (num_buckets v + 1) = Suc (unat (num_buckets v))"
    using Cons.prems(7) by (simp add: unat_word_ariths)
  have w: "value_ok ?G w" "set (value_slots w) \<subseteq> insert (gb_stats_handle b) A"
    using Cons.prems(5,6) b(2,3) n by (auto simp: w_def value_ok_def value_slots_def)
  have r: "parse_buckets junk acq gtype (ob # obs) v st =
      (if failed ?e then Some (?e, w, st1) else parse_buckets junk acq gtype obs w st1)" using b(1) by (simp add: w_def)
  show ?case
  proof (cases "failed ?e")
    case True
    then show ?thesis using r w b by (intro exI [of _ w] exI [of _ st1] exI [of _ "[b]"]) (auto simp: w_def)
  next
    case False
    have "card (insert (gb_stats_handle b) A) = Suc (card A)" using b(3) stats_inv_finite [OF Cons.prems(2)] by simp
    then obtain v' st' bs where v': "parse_buckets junk acq gtype obs w st1 = Some (buckets_error acq gtype (num_buckets w) obs, v', st')"
      "gv_buckets v' = gv_buckets w @ bs" "value_ok ?G v'" "set (map gb_stats_handle bs) \<inter> insert (gb_stats_handle b) A = {}"
      "stats_inv (st_stats st') (insert (gb_stats_handle b) A \<union> set (map gb_stats_handle bs))" "st_groups st' = ?G"
      "st_log st' = st_log st1 @ map GroupAcquire (concat (map (bucket_refs ?G) bs))"
      "\<not> failed (buckets_error acq gtype (num_buckets w) obs) \<longrightarrow> length bs = length obs"
      using Cons.IH [of st1 "insert (gb_stats_handle b) A" w] Cons.prems(1,3,4,7) b w n by (auto simp: w_def)
    have "num_buckets w = num_buckets v + 1" "gv_buckets w = gv_buckets v @ [b]" by (simp_all add: w_def)
    then show ?thesis using r v' b False by (intro exI [of _ v'] exI [of _ st'] exI [of _ "b # bs"]) (auto simp: Let_def)
  qed
qed

text \<open>
  Parsing the buckets of a group always answers; when it refuses them, what it took is given back,
  and otherwise the new value owns fresh counters and the references that were taken.
\<close>

lemma parse_group_value_ok:
  assumes "core_ok acq (st_groups st)" "stats_inv (st_stats st) A" "card A + length obs \<le> MAX_STATS"
    "list_all of_bucket_ok obs" "length obs < 2 ^ 16"
  obtains v st' where "parse_group_value junk acq gtype obs st = Some (buckets_error acq gtype 0 obs, v, st')"
    "st_groups st' = st_groups st"
    "failed (buckets_error acq gtype 0 obs) \<Longrightarrow> stats_inv (st_stats st') A \<and> ref_count (st_log st') = ref_count (st_log st)"
    "\<not> failed (buckets_error acq gtype 0 obs) \<Longrightarrow> value_ok (st_groups st) v \<and> set (value_slots v) \<inter> A = {} \<and>
       length (gv_buckets v) = length obs \<and> stats_inv (st_stats st') (A \<union> set (value_slots v)) \<and>
       st_log st' = st_log st @ map GroupAcquire (value_refs (st_groups st) v)"
proof -
  let ?e = "buckets_error acq gtype 0 obs"
  obtain v st1 bs where v: "parse_buckets junk acq gtype obs \<lparr>num_buckets = 0, gv_buckets = []\<rparr> st = Some (?e, v, st1)"
    "gv_buckets v = bs" "value_ok (st_groups st) v" "set (map gb_stats_handle bs) \<inter> A = {}"
    "stats_inv (st_stats st1) (A \<union> set (map gb_stats_handle bs))" "st_groups st1 = st_groups st"
    "st_log st1 = st_log st @ map GroupAcquire (concat (map (bucket_refs (st_groups st)) bs))" "\<not> failed ?e \<longrightarrow> length bs = length obs"
    using parse_buckets_ok [OF assms(1-4), of "\<lparr>num_buckets = 0, gv_buckets = []\<rparr>" junk gtype] assms(5)
    by (auto simp: value_ok_def value_slots_def)
  show thesis
  proof (cases "failed ?e")
    case False
    then show ?thesis using v by (intro that [of v st1]) (auto simp: parse_group_value_def value_slots_def value_refs_def)
  next
    case True
    obtain st2 where st2: "cleanup_group_value v st1 = Some st2" "st_groups st2 = st_groups st1"
      "st_log st2 = st_log st1 @ map GroupRelease (value_refs (st_groups st1) v)"
      "stats_inv (st_stats st2) (A \<union> set (map gb_stats_handle bs) - set (value_slots v))"
      by (rule cleanup_group_value_ok [OF v(5), of v]) (use v in \<open>auto simp: value_slots_def\<close>)
    have "A \<union> set (map gb_stats_handle bs) - set (value_slots v) = A" using v(2,4) by (auto simp: value_slots_def)
    moreover have "ref_count (st_log st2) = ref_count (st_log st)"
      by (rule ext) (simp add: st2(3) v(2,6,7) value_refs_def)
    ultimately show ?thesis using True v(1,6) st2(1,2,4) by (intro that [of v st2]) (auto simp: parse_group_value_def)
  qed
qed

subsection \<open>Properties of groups\<close>

lemma attr_ref_mono: "attr_ref groups a = Some r \<Longrightarrow> groups addr = None \<Longrightarrow> attr_ref (groups(addr \<mapsto> g)) a = Some r"
  by (auto simp: attr_ref_def split: Option.bind_splits)

lemma attr_refs_mono:
  assumes "list_all (resolved groups) as" "groups addr = None"
  shows "list_all (resolved (groups(addr \<mapsto> g))) as" "attr_refs (groups(addr \<mapsto> g)) as = attr_refs groups as"
  using assms by (induction as) (auto simp: resolved_def attr_ref_mono simp del: fun_upd_apply)

lemma value_heap_mono:
  assumes "value_ok groups v" "groups addr = None"
  shows "value_ok (groups(addr \<mapsto> g)) v" "value_refs (groups(addr \<mapsto> g)) v = value_refs groups v"
proof -
  have "bucket_ok (groups(addr \<mapsto> g)) b \<and> bucket_refs (groups(addr \<mapsto> g)) b = bucket_refs groups b" if "bucket_ok groups b" for b
    using that attr_refs_mono [where groups = groups and addr = addr] assms(2) by (auto simp: bucket_ok_def bucket_refs_def simp del: fun_upd_apply split: option.splits)
  then show "value_ok (groups(addr \<mapsto> g)) v" "value_refs (groups(addr \<mapsto> g)) v = value_refs groups v"
    using assms(1) by (auto simp: value_ok_def value_refs_def list_all_iff simp del: fun_upd_apply intro!: arg_cong [where f = concat])
qed


definition demo_group :: group where
  "demo_group = \<lparr>group_id = 7, group_type = OF_GROUP_TYPE_INDIRECT, group_value = \<lparr>num_buckets = 0, gv_buckets = []\<rparr>\<rparr>"

definition demo_acq :: "u32 \<Rightarrow> u64 option" where
  "demo_acq gid = (if gid = 7 then Some 0x1000 else None)"

definition demo_groups :: "u64 \<Rightarrow> group option" where
  "demo_groups = [0x1000 \<mapsto> demo_group]"

lemma demo_core_ok: "core_ok demo_acq demo_groups"
  by (simp add: core_ok_def demo_acq_def demo_groups_def demo_group_def)

lemma empty_xbuf_holds: "xb_holds \<lparr>xb_data = replicate 64 9, xb_length = 0, xb_allocated = 64\<rparr> []"
  by (simp add: xb_holds_def xb_wf_def contents_def)


text \<open>
  C35: When a group is refused, for whatever bucket and reason, the switch is as it was before: the
  same counters are free, the references taken on other groups are given back, and no group is
  added.
\<close>

theorem group_create_refused:
  assumes "core_ok acq (st_groups st)" "stats_inv (st_stats st) A" "card A + length obs \<le> MAX_STATS"
    "list_all of_bucket_ok obs" "length obs < 2 ^ 16" "failed (buckets_error acq gtype 0 obs)"
  shows "\<exists>st'. group_create junk acq addr gid gtype obs st = Some (buckets_error acq gtype 0 obs, st') \<and>
    stats_inv (st_stats st') A \<and> ref_count (st_log st') = ref_count (st_log st) \<and> st_groups st' = st_groups st"
proof -
  obtain v st' where "parse_group_value junk acq gtype obs st = Some (buckets_error acq gtype 0 obs, v, st')"
    "st_groups st' = st_groups st" "stats_inv (st_stats st') A" "ref_count (st_log st') = ref_count (st_log st)"
    using parse_group_value_ok [OF assms(1-5), of junk gtype] assms(6) by metis
  then show ?thesis using assms(6) by (simp add: group_create_def)
qed

definition demo_std_state :: std_state where
  "demo_std_state = \<lparr>st_stats = stats_module_init, st_log = [], st_groups = demo_groups\<rparr>"

definition demo_buckets :: "of_bucket list" where
  "demo_buckets = [\<lparr>ofb_weight = 0, ofb_actions = [OF_ACTION_GROUP 7, OF_ACTION_DEC_NW_TTL]\<rparr>, \<lparr>ofb_weight = 0, ofb_actions = [OF_ACTION_OUTPUT 2]\<rparr>]"

lemma demo_std_ok: "core_ok demo_acq (st_groups demo_std_state)" "stats_inv (st_stats demo_std_state) {}"
  "card ({} :: u32 set) + length demo_buckets \<le> MAX_STATS" "list_all of_bucket_ok demo_buckets" "length demo_buckets < 2 ^ 16"
proof -
  show "core_ok demo_acq (st_groups demo_std_state)" using demo_core_ok by (simp add: demo_std_state_def)
  show "stats_inv (st_stats demo_std_state) {}" using stats_init_inv by (simp add: demo_std_state_def)
qed (simp_all add: demo_buckets_def of_bucket_ok_def MAX_STATS_def)

theorem group_create_refused_witness:
  "\<exists>st'. group_create (\<lambda>_. 0) demo_acq 0x2000 8 OF_GROUP_TYPE_INDIRECT demo_buckets demo_std_state = Some (ERROR_COMPAT, st') \<and>
    stats_inv (st_stats st') {} \<and> ref_count (st_log st') = ref_count (st_log demo_std_state) \<and> st_groups st' = st_groups demo_std_state"
proof -
  have "buckets_error demo_acq OF_GROUP_TYPE_INDIRECT 0 demo_buckets = ERROR_COMPAT" by code_simp
  then show ?thesis using group_create_refused [OF demo_std_ok, of OF_GROUP_TYPE_INDIRECT "\<lambda>_. 0" "0x2000" 8] by simp
qed

text \<open>
  C36: A group that is created and then deleted leaves nothing behind: the counters it used are free
  again, every reference it took is released, and the heap is as before.
\<close>

theorem group_create_delete:
  assumes "core_ok acq (st_groups st)" "stats_inv (st_stats st) A" "card A + length obs \<le> MAX_STATS"
    "list_all of_bucket_ok obs" "length obs < 2 ^ 16" "\<not> failed (buckets_error acq gtype 0 obs)" "st_groups st addr = None"
  shows "\<exists>st1 st2. group_create junk acq addr gid gtype obs st = Some (ERROR_NONE, st1) \<and>
    (\<exists>v. st_groups st1 addr = Some \<lparr>group_id = gid, group_type = gtype, group_value = v\<rparr> \<and> length (gv_buckets v) = length obs) \<and>
    group_delete addr st1 = Some (ERROR_NONE, st2) \<and>
    stats_inv (st_stats st2) A \<and> ref_count (st_log st2) = ref_count (st_log st) \<and> st_groups st2 = st_groups st"
proof -
  obtain v st0 where v: "parse_group_value junk acq gtype obs st = Some (buckets_error acq gtype 0 obs, v, st0)"
    "st_groups st0 = st_groups st" "value_ok (st_groups st) v" "set (value_slots v) \<inter> A = {}" "length (gv_buckets v) = length obs"
    "stats_inv (st_stats st0) (A \<union> set (value_slots v))" "st_log st0 = st_log st @ map GroupAcquire (value_refs (st_groups st) v)"
    using parse_group_value_ok [OF assms(1-5), of junk gtype] assms(6) by metis
  have e: "buckets_error acq gtype 0 obs = ERROR_NONE" using assms(6) by (simp add: failed_def)
  let ?g = "\<lparr>group_id = gid, group_type = gtype, group_value = v\<rparr>"
  let ?st1 = "st0\<lparr>st_groups := (st_groups st)(addr \<mapsto> ?g)\<rparr>"
  have ok: "value_ok (st_groups ?st1) v" "value_refs (st_groups ?st1) v = value_refs (st_groups st) v"
    using value_heap_mono [OF v(3) assms(7), of ?g] by simp_all
  obtain st2 where st2: "cleanup_group_value v ?st1 = Some st2" "st_groups st2 = st_groups ?st1"
    "st_log st2 = st_log ?st1 @ map GroupRelease (value_refs (st_groups ?st1) v)"
    "stats_inv (st_stats st2) (A \<union> set (value_slots v) - set (value_slots v))"
    by (rule cleanup_group_value_ok [OF _ ok(1)]) (use v(6) in auto)
  have "A \<union> set (value_slots v) - set (value_slots v) = A" using v(4) by auto
  moreover have "ref_count (st_log st2) = ref_count (st_log st)"
    by (rule ext) (use ok(2) in \<open>simp add: st2(3) v(7) del: fun_upd_apply\<close>)
  moreover have "(st_groups st2)(addr := None) = st_groups st" using st2(2) assms(7) by (simp add: fun_upd_idem)
  ultimately show ?thesis
    using v(1,2,5) e st2 by (auto simp: group_create_def group_delete_def)
qed

theorem group_create_delete_witness:
  "\<exists>st1 st2. group_create (\<lambda>_. 0) demo_acq 0x2000 8 OF_GROUP_TYPE_ALL demo_buckets demo_std_state = Some (ERROR_NONE, st1) \<and>
    (\<exists>v. st_groups st1 0x2000 = Some \<lparr>group_id = 8, group_type = OF_GROUP_TYPE_ALL, group_value = v\<rparr> \<and> length (gv_buckets v) = 2) \<and>
    group_delete 0x2000 st1 = Some (ERROR_NONE, st2) \<and> stats_inv (st_stats st2) {} \<and>
    ref_count (st_log st2) = ref_count (st_log demo_std_state) \<and> st_groups st2 = st_groups demo_std_state"
proof -
  have e: "\<not> failed (buckets_error demo_acq OF_GROUP_TYPE_ALL 0 demo_buckets)" by code_simp
  have a: "st_groups demo_std_state 0x2000 = None" by (simp add: demo_std_state_def demo_groups_def)
  have l: "length demo_buckets = 2" by (simp add: demo_buckets_def)
  show ?thesis using group_create_delete [OF demo_std_ok e a, of "\<lambda>_. 0" 8] unfolding l .
qed

end
