(* ===== verification/Std_Translate.thy ===== *)
theory Std_Translate
  imports Std_Action
begin

text \<open>
  What the translation of a flow's actions for one packet (\<open>pipeline_standard_translate_actions\<close>) guarantees:
  the mask only grows and is sound, with the exception of the decrement of the TTL, which the
  theory isolates; and the recursion through groups terminates when groups do not form a cycle.
\<close>

subsection \<open>Attributes as operations of the action module\<close>

text \<open>The calls that an attribute, other than a group or a decrement of the TTL, makes.\<close>

definition attr_ops :: "std_env \<Rightarrow> attr \<Rightarrow> ind_ovs_action \<Rightarrow> action_op list" where
  "attr_ops E a act =
     (let v8 = of_le (snd a); v16 = of_le (snd a); v32 = of_le (snd a); d = snd a
      in case act of
        IND_OVS_ACTION_OUTPUT \<Rightarrow> [Output v32]
      | IND_OVS_ACTION_CONTROLLER \<Rightarrow> [Userspace d (se_netlink_port E)]
      | IND_OVS_ACTION_LOCAL \<Rightarrow> [OutputLocal]
      | IND_OVS_ACTION_IN_PORT \<Rightarrow> [OutputInPort]
      | IND_OVS_ACTION_SET_ETH_DST \<Rightarrow> [SetEthDst d]
      | IND_OVS_ACTION_SET_ETH_SRC \<Rightarrow> [SetEthSrc d]
      | IND_OVS_ACTION_SET_VLAN_VID \<Rightarrow> [SetVlanVid v16]
      | IND_OVS_ACTION_SET_VLAN_PCP \<Rightarrow> [SetVlanPcp v8]
      | IND_OVS_ACTION_POP_VLAN \<Rightarrow> [PopVlan]
      | IND_OVS_ACTION_PUSH_VLAN \<Rightarrow> [PushVlan]
      | IND_OVS_ACTION_SET_IPV4_DST \<Rightarrow> [SetIpv4Dst v32]
      | IND_OVS_ACTION_SET_IPV4_SRC \<Rightarrow> [SetIpv4Src v32]
      | IND_OVS_ACTION_SET_IPV6_DST \<Rightarrow> [SetIpv6Dst d]
      | IND_OVS_ACTION_SET_IPV6_SRC \<Rightarrow> [SetIpv6Src d]
      | IND_OVS_ACTION_SET_IPV6_FLABEL \<Rightarrow> [SetIpv6Flabel v32]
      | IND_OVS_ACTION_SET_IP_DSCP \<Rightarrow> [SetIpv4Dscp v8, SetIpv6Dscp v8]
      | IND_OVS_ACTION_SET_IP_ECN \<Rightarrow> [SetIpv4Ecn v8, SetIpv6Ecn v8]
      | IND_OVS_ACTION_SET_NW_TTL \<Rightarrow> [SetIpv4Ttl v8, SetIpv6Ttl v8]
      | IND_OVS_ACTION_SET_TCP_DST \<Rightarrow> [SetTcpDst v16]
      | IND_OVS_ACTION_SET_TCP_SRC \<Rightarrow> [SetTcpSrc v16]
      | IND_OVS_ACTION_SET_UDP_DST \<Rightarrow> [SetUdpDst v16]
      | IND_OVS_ACTION_SET_UDP_SRC \<Rightarrow> [SetUdpSrc v16]
      | IND_OVS_ACTION_SET_TP_DST \<Rightarrow> [SetTcpDst v16, SetUdpDst v16]
      | IND_OVS_ACTION_SET_TP_SRC \<Rightarrow> [SetTcpSrc v16, SetUdpSrc v16]
      | IND_OVS_ACTION_SET_PRIORITY \<Rightarrow> [SetPriority v32]
      | _ \<Rightarrow> [])"

lemmas payload_defs = payload8_def payload16_def payload32_def payload64_def xbuf_payload_check_def

lemma translate_attr_ops:
  assumes "ind_ovs_action_of (fst a) = Some act" "act \<noteq> IND_OVS_ACTION_GROUP" "act \<noteq> IND_OVS_ACTION_DEC_NW_TTL"
  shows "\<exists>go. translate_attr E pg ctx a stats =
    (if go then Some (True, fold action_step (attr_ops E a act) ctx, stats) else None) \<and> (go \<longrightarrow> list_all action_op_ok (attr_ops E a act)) \<and>
    (length (snd a) = action_size act \<longrightarrow> go)"
  using assms(2,3)
proof (cases act)
  case IND_OVS_ACTION_POP_VLAN
  then show ?thesis using assms by (intro exI [of _ True]) (simp_all add: translate_attr_def attr_ops_def translate_set_field_def)
next
  case IND_OVS_ACTION_PUSH_VLAN
  then show ?thesis using assms by (intro exI [of _ True]) (simp_all add: translate_attr_def attr_ops_def translate_set_field_def)
next
  case IND_OVS_ACTION_LOCAL
  then show ?thesis using assms by (intro exI [of _ True]) (simp_all add: translate_attr_def attr_ops_def)
next
  case IND_OVS_ACTION_IN_PORT
  then show ?thesis using assms by (intro exI [of _ True]) (simp_all add: translate_attr_def attr_ops_def)
qed (use assms in \<open>intro exI [of _ "length (snd a) = action_size act"], simp add: translate_attr_def attr_ops_def translate_set_field_def payload_defs Let_def del: One_nat_def\<close>)+

lemma translate_attr_go:
  assumes "ind_ovs_action_of (fst a) = Some act" "act \<noteq> IND_OVS_ACTION_GROUP" "act \<noteq> IND_OVS_ACTION_DEC_NW_TTL"
  shows "translate_attr E pg c a s = None \<longleftrightarrow> translate_attr E pg d a s' = None"
  using assms by (cases act) (simp_all add: translate_attr_def translate_set_field_def payload_defs del: One_nat_def)

lemma translate_attr_unknown: "ind_ovs_action_of (fst a) = None \<Longrightarrow> translate_attr E pg ctx a stats = Some (True, ctx, stats)"
  by (simp add: translate_attr_def)

lemma translate_attr_dec:
  "ind_ovs_action_of (fst a) = Some IND_OVS_ACTION_DEC_NW_TTL \<Longrightarrow>
    translate_attr E pg ctx a stats = Some (fst (dec_nw_ttl ctx), snd (dec_nw_ttl ctx), stats)"
  by (simp add: translate_attr_def translate_set_field_def split: prod.split)

lemma translate_attr_group:
  "ind_ovs_action_of (fst a) = Some IND_OVS_ACTION_GROUP \<Longrightarrow>
    translate_attr E pg ctx a stats = do { g \<leftarrow> payload64 a; (ctx, stats) \<leftarrow> pg ctx g stats; Some (True, ctx, stats) }"
  by (simp add: translate_attr_def)

subsection \<open>What a translation keeps\<close>

text \<open>
  A relation between the context before and after that every call of the action module respects, and
  that only depends on the mask and the message, holds for the translation of a flow's actions.
\<close>

definition tr_keeps ::
  "(action_context \<Rightarrow> action_context \<Rightarrow> bool) \<Rightarrow> (action_context \<Rightarrow> 'x \<Rightarrow> xbuf \<Rightarrow> (action_context \<times> xbuf) option) \<Rightarrow> bool" where
  "tr_keeps R tr \<longleftrightarrow> (\<forall>c x s c' s'. tr c x s = Some (c', s') \<longrightarrow> R c c')"

abbreviation tr_grows :: "(action_context \<Rightarrow> 'x \<Rightarrow> xbuf \<Rightarrow> (action_context \<times> xbuf) option) \<Rightarrow> bool" where
  "tr_grows \<equiv> tr_keeps ctx_grows"

lemma tr_keepsD: "tr_keeps R tr \<Longrightarrow> tr c x s = Some (c', s') \<Longrightarrow> R c c'"
  unfolding tr_keeps_def by blast

lemma dec_mask:
  "ac_mask (snd (dec_ttl b off c)) = ac_mask c \<and> ac_msg (snd (dec_ttl b off c)) = ac_msg c"
  "ac_mask (snd (dec_nw_ttl c)) = ac_mask c \<and> ac_msg (snd (dec_nw_ttl c)) = ac_msg c"
proof -
  show *: "ac_mask (snd (dec_ttl b off c)) = ac_mask c \<and> ac_msg (snd (dec_ttl b off c)) = ac_msg c" for b off c by (simp add: dec_ttl_def Let_def)
  show "ac_mask (snd (dec_nw_ttl c)) = ac_mask c \<and> ac_msg (snd (dec_nw_ttl c)) = ac_msg c"
    using * [of OVS_KEY_ATTR_IPV4 10 c] * [of OVS_KEY_ATTR_IPV6 38 "snd (dec_ttl OVS_KEY_ATTR_IPV4 10 c)"]
    by (auto simp: dec_nw_ttl_def split: prod.splits)
qed

text \<open>The buckets of a group that are executed.\<close>

definition group_choice :: "std_env \<Rightarrow> u32 \<Rightarrow> u64 \<Rightarrow> group_bucket list option" where
  "group_choice E hash ptr =
     do {
       g \<leftarrow> se_groups E ptr;
       let v = group_value g;
       let t = group_type g;
       let n = unat (num_buckets v);
       if n = 0 \<or> t \<notin> {OF_GROUP_TYPE_SELECT, OF_GROUP_TYPE_INDIRECT, OF_GROUP_TYPE_ALL, OF_GROUP_TYPE_FF} then Some []
       else if t = OF_GROUP_TYPE_ALL then if n \<le> length (gv_buckets v) then Some (take n (gv_buckets v)) else None
       else map_option (\<lambda>b. [b]) (bucket_at v (if t = OF_GROUP_TYPE_SELECT then unat hash mod n else 0))
     }"

lemma process_buckets_single: "process_buckets E tr c [b] s = process_group_bucket E tr c b s"
  by (cases "process_group_bucket E tr c b s") auto

lemma process_group_choice:
  "process_group E tr hash c ptr s = do { bs \<leftarrow> group_choice E hash ptr; process_buckets E tr c bs s }"
proof (cases "se_groups E ptr")
  case (Some g)
  have d: "OF_GROUP_TYPE_SELECT \<noteq> OF_GROUP_TYPE_ALL" "OF_GROUP_TYPE_INDIRECT \<noteq> OF_GROUP_TYPE_ALL" "OF_GROUP_TYPE_FF \<noteq> OF_GROUP_TYPE_ALL"
    "OF_GROUP_TYPE_INDIRECT \<noteq> OF_GROUP_TYPE_SELECT" "OF_GROUP_TYPE_FF \<noteq> OF_GROUP_TYPE_SELECT"
    by (simp_all add: OF_GROUP_TYPE_SELECT_def OF_GROUP_TYPE_INDIRECT_def OF_GROUP_TYPE_ALL_def OF_GROUP_TYPE_FF_def)
  have b: "(bucket_at v i \<bind> (\<lambda>b. process_group_bucket E tr c b s)) =
      (map_option (\<lambda>b. [b]) (bucket_at v i) \<bind> (\<lambda>bs. process_buckets E tr c bs s))" for v i
    by (cases "bucket_at v i") (simp_all only: process_buckets_single option.map bind.bind_lunit bind.bind_lzero)
  show ?thesis
    unfolding process_group_def group_choice_def Some
    by (simp add: Let_def b unat_eq_zero d d [symmetric] del: process_buckets.simps(2))
qed (simp add: process_group_def group_choice_def)

locale ctx_preorder =
  fixes R :: "action_context \<Rightarrow> action_context \<Rightarrow> bool"
  assumes R_view: "ac_mask d = ac_mask c \<Longrightarrow> ac_msg d = ac_msg c \<Longrightarrow> R c d"
    and R_trans: "R c d \<Longrightarrow> R d e \<Longrightarrow> R c e"
    and R_step: "R c (action_step op c)"
begin

lemma steps_keep: "R c (fold action_step ops c)"
  by (induction ops arbitrary: c) (auto intro: R_view R_trans R_step)

lemma translate_attr_keeps:
  assumes "tr_keeps R pg" "translate_attr E pg c a s = Some (go, c', s')"
  shows "R c c'"
proof (cases "ind_ovs_action_of (fst a)")
  case None
  then show ?thesis using assms(2) translate_attr_unknown R_view by auto
next
  case (Some act)
  consider (group) "act = IND_OVS_ACTION_GROUP" | (dec) "act = IND_OVS_ACTION_DEC_NW_TTL"
    | (ops) "act \<noteq> IND_OVS_ACTION_GROUP" "act \<noteq> IND_OVS_ACTION_DEC_NW_TTL" by blast
  then show ?thesis
  proof cases
    case group
    then show ?thesis
      using assms Some by (auto simp: translate_attr_group dest: tr_keepsD split: Option.bind_splits)
  next
    case dec
    then show ?thesis using assms(2) Some by (auto simp: translate_attr_dec dec_mask intro: R_view)
  next
    case ops
    then show ?thesis
      using assms(2) translate_attr_ops [OF Some, of E pg c s] steps_keep by (auto split: if_splits)
  qed
qed

lemma translate_loop_keeps:
  "tr_keeps R pg \<Longrightarrow> translate_loop E pg c as s = Some (c', s') \<Longrightarrow> R c c'"
proof (induction as arbitrary: c s)
  case (Cons a as)
  from Cons.prems(2) obtain go c1 s1 where a: "translate_attr E pg c a s = Some (go, c1, s1)"
    and r: "if go then translate_loop E pg c1 as s1 = Some (c', s') else c' = c1"
    by (auto split: Option.bind_splits if_splits)
  have "R c1 c'" using r Cons.IH [OF Cons.prems(1), of c1 s1] R_view by (cases go) auto
  then show ?case using translate_attr_keeps [OF Cons.prems(1) a] R_trans by blast
qed (simp add: R_view)

lemma process_buckets_keep:
  "tr_keeps R tr \<Longrightarrow> process_buckets E tr c bs s = Some (c', s') \<Longrightarrow> R c c'"
proof (induction bs arbitrary: c s)
  case (Cons b bs)
  from Cons.prems(2) obtain c1 s1 s2 where "tr c (gb_actions b) s = Some (c1, s1)" "process_buckets E tr c1 bs s2 = Some (c', s')"
    by (auto simp: process_group_bucket_def split: Option.bind_splits)
  then show ?case using Cons.IH [OF Cons.prems(1)] tr_keepsD [OF Cons.prems(1)] R_trans by blast
qed (simp add: R_view)

lemma process_group_keeps: "tr_keeps R tr \<Longrightarrow> tr_keeps R (process_group E tr hash)"
  unfolding tr_keeps_def [of R "process_group E tr hash"] process_group_choice
  by (auto split: Option.bind_splits dest: process_buckets_keep)

lemma translate_actions_keep: "tr_keeps R (pipeline_standard_translate_actions n E hash)"
proof (induction n)
  case (Suc n)
  then show ?case
    using translate_loop_keeps [OF process_group_keeps [OF Suc]] unfolding tr_keeps_def [of R "pipeline_standard_translate_actions (Suc n) E hash"]
    by (auto split: Option.bind_splits)
qed (simp add: tr_keeps_def)

end

interpretation grows: ctx_preorder ctx_grows
  by unfold_locales (auto intro: ctx_grows_eqI ctx_grows_trans action_step_grows)

lemmas steps_grow = grows.steps_keep
lemmas translate_attr_grows = grows.translate_attr_keeps
lemmas translate_loop_grows = grows.translate_loop_keeps
lemmas process_buckets_grows = grows.process_buckets_keep
lemmas process_group_grows = grows.process_group_keeps
lemmas translate_actions_grows = grows.translate_actions_keep

subsection \<open>The mask is sound\<close>

text \<open>
  The decrement of the TTL reads the TTL without adding it to the mask, so the keys have to agree on it
  for another reason.
\<close>

definition attr_safe :: "ind_ovs_parsed_key \<Rightarrow> attr \<Rightarrow> bool" where
  "attr_safe M a \<longleftrightarrow> (ind_ovs_action_of (fst a) = Some IND_OVS_ACTION_DEC_NW_TTL \<longrightarrow> pk_net M ! 10 = 0xff \<and> pk_net M ! 38 = 0xff)"

definition xbuf_safe :: "ind_ovs_parsed_key \<Rightarrow> xbuf \<Rightarrow> bool" where
  "xbuf_safe M x \<longleftrightarrow> (case xbuf_foreach2 x of None \<Rightarrow> True | Some as \<Rightarrow> list_all (attr_safe M) as)"

definition groups_safe :: "ind_ovs_parsed_key \<Rightarrow> (u64 \<Rightarrow> group option) \<Rightarrow> bool" where
  "groups_safe M groups \<longleftrightarrow> (\<forall>ptr g. groups ptr = Some g \<longrightarrow> list_all (\<lambda>b. xbuf_safe M (gb_actions b)) (gv_buckets (group_value g)))"

text \<open>
  A translation that succeeds for one context gives the same for a context that agrees with it under
  a mask that covers the one it accumulates.
\<close>

definition tr_agree ::
  "('x \<Rightarrow> bool) \<Rightarrow> ind_ovs_parsed_key \<Rightarrow> (action_context \<Rightarrow> 'x \<Rightarrow> xbuf \<Rightarrow> (action_context \<times> xbuf) option) \<Rightarrow> bool" where
  "tr_agree P M tr \<longleftrightarrow> (\<forall>c d x s c' s'. P x \<longrightarrow> tr c x s = Some (c', s') \<longrightarrow> ctx_agree M c d \<longrightarrow> ctx_covers M c' \<longrightarrow>
     (\<exists>d'. tr d x s = Some (d', s') \<and> ctx_agree M c' d'))"

lemma tr_agreeD:
  assumes "tr_agree P M tr" "tr c x s = Some (c', s')" "ctx_agree M c d" "ctx_covers M c'" "P x"
  obtains d' where "tr d x s = Some (d', s')" "ctx_agree M c' d'"
  using assms unfolding tr_agree_def by blast

lemma ctx_covers_back:
  assumes "ctx_grows c c'" "ctx_covers M c'" "ctx_agree M c d"
  shows "ctx_covers M c"
  using ctx_agree_mask [OF assms(3)] ctx_grows_covers [OF assms(1,2)] by blast

lemma dec_ttl_agree:
  assumes "ctx_agree M c d" "key_wf M" "pk_net M ! off = 0xff" "off < 40"
  shows "fst (dec_ttl b off c) = fst (dec_ttl b off d)" "ctx_agree M (snd (dec_ttl b off c)) (snd (dec_ttl b off d))"
proof -
  have "(0xff :: u8) = - 1" by simp
  then have ff: "z AND 0xff = z" for z :: u8 by (simp only: and.right_neutral)
  have eq: "pk_net (current_key c) ! off = pk_net (current_key d) ! off"
    using assms by (auto simp: ctx_agree_def key_agree_def bytes_agree_nth key_wf_def ff)
  have "keeps_agree (put_net off [t])" for t using assms(4) by (intro keeps_agree_writes) simp
  then have w: "key_agree M (put_net off [t] (current_key c)) (put_net off [t] (current_key d))"
    "key_wf (put_net off [t] (current_key c))" "key_wf (put_net off [t] (current_key d))" for t
    using assms(1) unfolding keeps_agree_def ctx_agree_def by (blast dest: key_agree_sym [THEN iffD1])+
  show "fst (dec_ttl b off c) = fst (dec_ttl b off d)" "ctx_agree M (snd (dec_ttl b off c)) (snd (dec_ttl b off d))"
    using assms(1) w ctx_agree_populated [OF assms(1)] by (auto simp: dec_ttl_def Let_def eq ctx_agree_def)
qed

lemma dec_nw_ttl_agree:
  assumes "ctx_agree M c d" "key_wf M" "pk_net M ! 10 = 0xff" "pk_net M ! 38 = 0xff"
  shows "fst (dec_nw_ttl c) = fst (dec_nw_ttl d)" "ctx_agree M (snd (dec_nw_ttl c)) (snd (dec_nw_ttl d))"
proof -
  let ?c = "snd (dec_ttl OVS_KEY_ATTR_IPV4 10 c)" and ?d = "snd (dec_ttl OVS_KEY_ATTR_IPV4 10 d)"
  note 1 = dec_ttl_agree [OF assms(1-3), of OVS_KEY_ATTR_IPV4]
  note 2 = dec_ttl_agree [of M ?c ?d 38 OVS_KEY_ATTR_IPV6, OF _ assms(2,4)]
  have "dec_nw_ttl e = (if fst (dec_ttl OVS_KEY_ATTR_IPV4 10 e) then dec_ttl OVS_KEY_ATTR_IPV6 38 (snd (dec_ttl OVS_KEY_ATTR_IPV4 10 e))
      else (False, snd (dec_ttl OVS_KEY_ATTR_IPV4 10 e)))" for e
    by (simp add: dec_nw_ttl_def split: prod.split)
  then show "fst (dec_nw_ttl c) = fst (dec_nw_ttl d)" "ctx_agree M (snd (dec_nw_ttl c)) (snd (dec_nw_ttl d))"
    using 1 2 by auto
qed

lemma translate_attr_agree:
  assumes "tr_agree (\<lambda>_. True) M pg" "attr_safe M a" "key_wf M"
    and "translate_attr E pg c a s = Some (go, c', s')" "ctx_agree M c d" "ctx_covers M c'"
  shows "\<exists>d'. translate_attr E pg d a s = Some (go, d', s') \<and> ctx_agree M c' d'"
proof (cases "ind_ovs_action_of (fst a)")
  case None
  then show ?thesis using assms(4,5) translate_attr_unknown by auto
next
  case (Some act)
  consider (group) "act = IND_OVS_ACTION_GROUP" | (dec) "act = IND_OVS_ACTION_DEC_NW_TTL"
    | (ops) "act \<noteq> IND_OVS_ACTION_GROUP" "act \<noteq> IND_OVS_ACTION_DEC_NW_TTL" by blast
  then show ?thesis
  proof cases
    case group
    then obtain g where "payload64 a = Some g" "pg c g s = Some (c', s')" "go"
      using assms(4) Some by (auto simp: translate_attr_group split: Option.bind_splits)
    then show ?thesis
      using tr_agreeD [OF assms(1) _ assms(5,6)] group Some by (fastforce simp: translate_attr_group)
  next
    case dec
    then have "pk_net M ! 10 = 0xff" "pk_net M ! 38 = 0xff" using assms(2) Some by (auto simp: attr_safe_def)
    with dec_nw_ttl_agree [OF assms(5,3)] show ?thesis using assms(4) dec Some by (auto simp: translate_attr_dec)
  next
    case ops
    obtain goc where goc: "translate_attr E pg c a s = (if goc then Some (True, fold action_step (attr_ops E a act) c, s) else None)"
      "goc \<longrightarrow> list_all action_op_ok (attr_ops E a act)" using translate_attr_ops [OF Some ops] by blast
    obtain god where god: "translate_attr E pg d a s = (if god then Some (True, fold action_step (attr_ops E a act) d, s) else None)"
      using translate_attr_ops [OF Some ops] by blast
    have "goc \<longleftrightarrow> god"
      using translate_attr_go [OF Some ops, of E pg c s d s] goc god by (auto split: if_splits)
    then show ?thesis using goc god assms(4,6) actions_agree [OF assms(5)] by (auto split: if_splits)
  qed
qed

lemma translate_loop_agree:
  assumes "tr_agree (\<lambda>_. True) M pg" "tr_grows pg" "key_wf M"
  shows "list_all (attr_safe M) as \<Longrightarrow> translate_loop E pg c as s = Some (c', s') \<Longrightarrow> ctx_agree M c d \<Longrightarrow> ctx_covers M c' \<Longrightarrow>
    \<exists>d'. translate_loop E pg d as s = Some (d', s') \<and> ctx_agree M c' d'"
proof (induction as arbitrary: c d s)
  case (Cons a as)
  from Cons.prems(2) obtain go c1 s1 where a: "translate_attr E pg c a s = Some (go, c1, s1)"
    and r: "if go then translate_loop E pg c1 as s1 = Some (c', s') else c' = c1 \<and> s' = s1"
    by (auto split: Option.bind_splits if_splits)
  have "ctx_grows c1 c'" using r translate_loop_grows [OF assms(2)] by (cases go) auto
  moreover obtain m where "ac_mask c1 = Some m" "key_wf m"
    by (rule ctx_grows_mask [OF translate_attr_grows [OF assms(2) a] Cons.prems(3)])
  ultimately have "ctx_covers M c1" using ctx_grows_covers Cons.prems(4) by blast
  then obtain d1 where d1: "translate_attr E pg d a s = Some (go, d1, s1)" "ctx_agree M c1 d1"
    using translate_attr_agree [OF assms(1) _ assms(3) a Cons.prems(3)] Cons.prems(1) by auto
  show ?case
  proof (cases go)
    case True
    then show ?thesis using Cons.IH [OF _ _ d1(2) Cons.prems(4)] Cons.prems(1) r d1(1) by auto
  next
    case False
    then show ?thesis using r d1 by auto
  qed
qed simp

lemma process_buckets_agree:
  assumes "tr_agree (xbuf_safe M) M tr" "tr_grows tr"
  shows "list_all (\<lambda>b. xbuf_safe M (gb_actions b)) bs \<Longrightarrow> process_buckets E tr c bs s = Some (c', s') \<Longrightarrow> ctx_agree M c d \<Longrightarrow>
    ctx_covers M c' \<Longrightarrow> \<exists>d'. process_buckets E tr d bs s = Some (d', s') \<and> ctx_agree M c' d'"
proof (induction bs arbitrary: c d s)
  case (Cons b bs)
  from Cons.prems(2) obtain c1 s1 s2 where b: "tr c (gb_actions b) s = Some (c1, s1)"
    "pipeline_add_stats (se_junk E) s1 (gb_stats_handle b) = Some s2" "process_buckets E tr c1 bs s2 = Some (c', s')"
    by (auto simp: process_group_bucket_def split: Option.bind_splits)
  obtain m where "ac_mask c1 = Some m" "key_wf m"
    by (rule ctx_grows_mask [OF tr_keepsD [OF assms(2) b(1)] Cons.prems(3)])
  then have "ctx_covers M c1" using ctx_grows_covers [OF process_buckets_grows [OF assms(2) b(3)] Cons.prems(4)] by simp
  moreover have "xbuf_safe M (gb_actions b)" using Cons.prems(1) by simp
  ultimately obtain d1 where d1: "tr d (gb_actions b) s = Some (d1, s1)" "ctx_agree M c1 d1"
    by (rule tr_agreeD [OF assms(1) b(1) Cons.prems(3)])
  then show ?case using Cons.IH [OF _ b(3) d1(2) Cons.prems(4)] Cons.prems(1) b(2) by (auto simp: process_group_bucket_def)
qed simp

lemma group_choice_safe:
  assumes "groups_safe M (se_groups E)" "group_choice E hash ptr = Some bs"
  shows "list_all (\<lambda>b. xbuf_safe M (gb_actions b)) bs"
proof -
  obtain g where g: "se_groups E ptr = Some g" using assms(2) by (auto simp: group_choice_def split: Option.bind_splits)
  have "set bs \<subseteq> set (gv_buckets (group_value g))"
    using assms(2) g by (auto simp: group_choice_def Let_def bucket_at_def dest: in_set_takeD split: if_splits)
  then show ?thesis using assms(1) g by (auto simp: groups_safe_def list_all_iff)
qed

lemma process_group_agree:
  assumes "tr_agree (xbuf_safe M) M tr" "tr_grows tr" "groups_safe M (se_groups E)"
  shows "tr_agree (\<lambda>_. True) M (process_group E tr hash)"
  unfolding tr_agree_def process_group_choice
  using process_buckets_agree [OF assms(1,2)] group_choice_safe [OF assms(3)] by (auto split: Option.bind_splits)

lemma translate_actions_agree:
  assumes "key_wf M" "groups_safe M (se_groups E)"
  shows "tr_agree (xbuf_safe M) M (pipeline_standard_translate_actions n E hash)"
proof (induction n)
  case (Suc n)
  note pg = process_group_agree [OF Suc translate_actions_grows assms(2)] process_group_grows [OF translate_actions_grows]
  show ?case
    unfolding tr_agree_def using translate_loop_agree [OF pg assms(1)]
    by (auto simp: xbuf_safe_def split: Option.bind_splits)
qed (simp add: tr_agree_def)

text \<open>
  Two IPv4 packets that differ in the TTL only agree under the mask of the first, whose TTL
  expires, and still the actions that decrement the TTL and output treat them differently.
\<close>

definition demo_dec_ttl :: xbuf where
  "demo_dec_ttl = \<lparr>xb_data = attr_bytes (ind_ovs_action_code IND_OVS_ACTION_DEC_NW_TTL, []) @ attr_bytes (ind_ovs_action_code IND_OVS_ACTION_OUTPUT, le_bytes 4 (2 :: u32)),
     xb_length = 12, xb_allocated = 12\<rparr>"

definition demo_std_env :: std_env where
  "demo_std_env = \<lparr>se_junk = (\<lambda>_. 0), se_groups = demo_groups, se_netlink_port = 9\<rparr>"

definition demo_empty :: xbuf where
  "demo_empty = \<lparr>xb_data = [], xb_length = 0, xb_allocated = 0\<rparr>"

lemma demo_dec_ttl_attrs:
  "xbuf_foreach2 demo_dec_ttl = Some [(ind_ovs_action_code IND_OVS_ACTION_DEC_NW_TTL, []), (ind_ovs_action_code IND_OVS_ACTION_OUTPUT, le_bytes 4 (2 :: u32))]"
proof (rule xb_holds_foreach)
  have "length (xb_data demo_dec_ttl) = 12" by code_simp
  then show "xb_holds demo_dec_ttl [(ind_ovs_action_code IND_OVS_ACTION_DEC_NW_TTL, []), (ind_ovs_action_code IND_OVS_ACTION_OUTPUT, le_bytes 4 (2 :: u32))]"
    by (simp add: demo_dec_ttl_def xb_holds_def xb_wf_def contents_def attr_ok_def NLA_HDRLEN_def)
qed

definition demo_run :: "ind_ovs_parsed_key \<Rightarrow> (action_context \<times> xbuf) option" where
  "demo_run k = pipeline_standard_translate_actions 1 demo_std_env 0 (action_context_init k (Some key_zero) []) demo_dec_ttl demo_empty"

lemma demo_run_code [code]:
  "demo_run k = translate_loop demo_std_env (\<lambda>_ _ _. None) (action_context_init k (Some key_zero) [])
     [(ind_ovs_action_code IND_OVS_ACTION_DEC_NW_TTL, []), (ind_ovs_action_code IND_OVS_ACTION_OUTPUT, le_bytes 4 (2 :: u32))] demo_empty"
  by (simp add: demo_run_def demo_dec_ttl_attrs One_nat_def translate_attr_def split: Option.bind_split)

lemma dec_ttl_mask_unsound:
  "\<exists>c M c'. demo_run (put_net 10 [1] demo_key) = Some (c, demo_empty) \<and> ac_mask c = Some M \<and> key_agree M (put_net 10 [1] demo_key) demo_key \<and>
     demo_run demo_key = Some (c', demo_empty) \<and> ac_msg c \<noteq> ac_msg c'"
proof -
  let ?r = "\<lambda>k. fst (the (demo_run k))"
  show ?thesis
    by (rule exI [of _ "?r (put_net 10 [1] demo_key)"], rule exI [of _ "the (ac_mask (?r (put_net 10 [1] demo_key)))"], rule exI [of _ "?r demo_key"]) code_simp
qed

subsection \<open>Translation terminates when groups are nested without cycles\<close>

text \<open>
  Every reference of a group to another decreases a rank. \<open>visits n\<close> bounds the number of buckets that
  actions with nesting \<open>n\<close> can execute, and so the counters they append.
\<close>

definition ref_below :: "(u64 \<Rightarrow> group option) \<Rightarrow> (u64 \<Rightarrow> nat) \<Rightarrow> nat \<Rightarrow> attr \<Rightarrow> bool" where
  "ref_below groups rank r a \<longleftrightarrow> (if is_group_attr a then (case payload64 a of None \<Rightarrow> False | Some p \<Rightarrow> groups p \<noteq> None \<and> rank p < r) else True)"

definition xbuf_below :: "(u64 \<Rightarrow> group option) \<Rightarrow> (u64 \<Rightarrow> nat) \<Rightarrow> nat \<Rightarrow> xbuf \<Rightarrow> bool" where
  "xbuf_below groups rank r x \<longleftrightarrow> (case xbuf_foreach2 x of None \<Rightarrow> False | Some as \<Rightarrow> list_all action_attr_ok as \<and> list_all (ref_below groups rank r) as)"

definition groups_ranked :: "(u64 \<Rightarrow> group option) \<Rightarrow> (u64 \<Rightarrow> nat) \<Rightarrow> bool" where
  "groups_ranked groups rank \<longleftrightarrow> (\<forall>ptr g. groups ptr = Some g \<longrightarrow>
     unat (num_buckets (group_value g)) = length (gv_buckets (group_value g)) \<and>
     list_all (\<lambda>b. xbuf_below groups rank (rank ptr) (gb_actions b)) (gv_buckets (group_value g)))"

primrec visits :: "nat \<Rightarrow> (u64 \<Rightarrow> group option) \<Rightarrow> attr list \<Rightarrow> nat" where
  "visits 0 groups as = 0"
| "visits (Suc n) groups as = sum_list (map (\<lambda>a.
     if is_group_attr a
     then (case payload64 a \<bind> groups of None \<Rightarrow> 0
       | Some g \<Rightarrow> sum_list (map (\<lambda>b. Suc (case xbuf_foreach2 (gb_actions b) of None \<Rightarrow> 0 | Some bs \<Rightarrow> visits n groups bs)) (gv_buckets (group_value g))))
     else 0) as)"

lemma visits_Cons: "visits n groups (a # as) = visits n groups [a] + visits n groups as"
  by (cases n) simp_all

lemma visits_Nil: "visits n groups [] = 0"
  by (cases n) simp_all

text \<open>The outcome: an answer, with at most \<open>4 * v\<close> bytes appended to the counters.\<close>

definition returns_within :: "nat \<Rightarrow> xbuf \<Rightarrow> (action_context \<times> xbuf) option \<Rightarrow> bool" where
  "returns_within v s r \<longleftrightarrow> (\<exists>c' s'. r = Some (c', s') \<and> xb_wf s' \<and> unat (xb_length s') \<le> unat (xb_length s) + 4 * v)"

lemma process_buckets_returns:
  assumes "\<And>b c s. b \<in> set bs \<Longrightarrow> xb_wf s \<Longrightarrow> unat (xb_length s) + 4 * v b \<le> 2 ^ 31 \<Longrightarrow> returns_within (v b) s (tr c (gb_actions b) s)"
  shows "xb_wf s \<Longrightarrow> unat (xb_length s) + 4 * sum_list (map (\<lambda>b. Suc (v b)) bs) \<le> 2 ^ 31 \<Longrightarrow>
    returns_within (sum_list (map (\<lambda>b. Suc (v b)) bs)) s (process_buckets E tr c bs s)"
  using assms
proof (induction bs arbitrary: c s)
  case Nil
  then show ?case by (simp add: returns_within_def)
next
  case (Cons b bs)
  obtain c1 s1 where 1: "tr c (gb_actions b) s = Some (c1, s1)" "xb_wf s1" "unat (xb_length s1) \<le> unat (xb_length s) + 4 * v b"
    using Cons.prems(3) [of b s c] Cons.prems(1,2) by (auto simp: returns_within_def)
  obtain s2 where 2: "pipeline_add_stats (se_junk E) s1 (gb_stats_handle b) = Some s2" "xb_wf s2" "unat (xb_length s2) = unat (xb_length s1) + 4"
    using xbuf_append_ok [OF 1(2), of "le_bytes 4 (gb_stats_handle b)" "se_junk E"] 1(3) Cons.prems(2)
    by (auto simp: pipeline_add_stats_def)
  have "returns_within (sum_list (map (\<lambda>b. Suc (v b)) bs)) s2 (process_buckets E tr c1 bs s2)"
    using Cons.IH [OF 2(2)] Cons.prems(2,3) 1(3) 2(3) by simp
  then show ?case using 1 2 by (auto simp: returns_within_def process_group_bucket_def)
qed

lemma group_choice_sub:
  assumes "groups_ranked (se_groups E) rank" "se_groups E ptr = Some g"
  obtains bs where "group_choice E hash ptr = Some bs" "set bs \<subseteq> set (gv_buckets (group_value g))"
    "\<And>f. sum_list (map f bs) \<le> (sum_list (map f (gv_buckets (group_value g))) :: nat)"
proof (cases "num_buckets (group_value g) = 0")
  case True
  then show thesis using assms(2) by (intro that [of "[]"]) (simp_all add: group_choice_def)
next
  case False
  let ?v = "group_value g"
  have n: "unat (num_buckets ?v) = length (gv_buckets ?v)" using assms by (auto simp: groups_ranked_def)
  have pos: "0 < length (gv_buckets ?v)" using False n unat_eq_zero by (metis gr0I)
  have one: "sum_list (map f [gv_buckets ?v ! i]) \<le> (sum_list (map f (gv_buckets ?v)) :: nat)" if "i < length (gv_buckets ?v)" for f i
    using member_le_sum_list [of "f (gv_buckets ?v ! i)" "map f (gv_buckets ?v)"] that by simp
  let ?i = "if group_type g = OF_GROUP_TYPE_SELECT then unat hash mod length (gv_buckets ?v) else 0"
  have i: "?i < length (gv_buckets ?v)" using pos by simp
  have "group_choice E hash ptr = (if group_type g \<notin> {OF_GROUP_TYPE_SELECT, OF_GROUP_TYPE_INDIRECT, OF_GROUP_TYPE_ALL, OF_GROUP_TYPE_FF} then Some []
      else if group_type g = OF_GROUP_TYPE_ALL then Some (gv_buckets ?v) else Some [gv_buckets ?v ! ?i])"
    unfolding group_choice_def using assms(2) n pos i by (simp add: bucket_at_def Let_def)
  then consider "group_choice E hash ptr = Some []" | "group_choice E hash ptr = Some (gv_buckets ?v)" | "group_choice E hash ptr = Some [gv_buckets ?v ! ?i]"
    by metis
  then show thesis
  proof cases
    case 3
    then show thesis using that [OF 3] one [OF i] i nth_mem by fastforce
  qed (use that in auto)
qed

lemma ref_below_mono: "ref_below G rank r a \<Longrightarrow> r \<le> r' \<Longrightarrow> ref_below G rank r' a"
  by (auto simp: ref_below_def split: if_splits option.splits)

lemma xbuf_below_mono: "xbuf_below G rank r x \<Longrightarrow> r \<le> r' \<Longrightarrow> xbuf_below G rank r' x"
  using ref_below_mono by (auto simp: xbuf_below_def list_all_iff split: option.splits)

lemma translate_attr_returns:
  assumes "action_attr_ok a" "xb_wf s" "unat (xb_length s) + 4 * v \<le> 2 ^ 31"
    and "\<And>p c. is_group_attr a \<Longrightarrow> payload64 a = Some p \<Longrightarrow> returns_within v s (pg c p s)"
  shows "\<exists>go c' s'. translate_attr E pg c a s = Some (go, c', s') \<and> xb_wf s' \<and> unat (xb_length s') \<le> unat (xb_length s) + 4 * v"
proof -
  obtain act where act: "ind_ovs_action_of (fst a) = Some act" "length (snd a) = action_size act"
    using assms(1) by (auto simp: action_attr_ok_def)
  consider (group) "act = IND_OVS_ACTION_GROUP" | (dec) "act = IND_OVS_ACTION_DEC_NW_TTL"
    | (ops) "act \<noteq> IND_OVS_ACTION_GROUP" "act \<noteq> IND_OVS_ACTION_DEC_NW_TTL" by blast
  then show ?thesis
  proof cases
    case group
    then obtain p where "payload64 a = Some p" using act(2) by (simp add: payload_defs)
    then show ?thesis
      using assms(4) [of p c] act group by (auto simp: returns_within_def translate_attr_group is_group_attr_def)
  next
    case dec
    then show ?thesis using act assms(2) by (simp add: translate_attr_dec)
  next
    case ops
    then show ?thesis using translate_attr_ops [OF act(1) ops, of E pg c s] act(2) assms(2) by auto
  qed
qed

lemma translate_loop_returns:
  assumes "\<And>a s c. a \<in> set as \<Longrightarrow> xb_wf s \<Longrightarrow> unat (xb_length s) + 4 * v a \<le> 2 ^ 31 \<Longrightarrow>
    \<exists>go c' s'. translate_attr E pg c a s = Some (go, c', s') \<and> xb_wf s' \<and> unat (xb_length s') \<le> unat (xb_length s) + 4 * v a"
  shows "xb_wf s \<Longrightarrow> unat (xb_length s) + 4 * sum_list (map v as) \<le> 2 ^ 31 \<Longrightarrow>
    returns_within (sum_list (map v as)) s (translate_loop E pg c as s)"
  using assms
proof (induction as arbitrary: c s)
  case Nil
  then show ?case by (simp add: returns_within_def)
next
  case (Cons a as)
  obtain go c1 s1 where 1: "translate_attr E pg c a s = Some (go, c1, s1)" "xb_wf s1" "unat (xb_length s1) \<le> unat (xb_length s) + 4 * v a"
    using Cons.prems(3) [of a s c] Cons.prems(1,2) by auto
  have "returns_within (sum_list (map v as)) s1 (translate_loop E pg c1 as s1)"
    using Cons.IH [OF 1(2)] Cons.prems(2,3) 1(3) by simp
  then show ?case using 1 by (auto simp: returns_within_def)
qed

lemma visits_sum: "visits n groups as = sum_list (map (\<lambda>a. visits n groups [a]) as)"
proof (induction as)
  case (Cons a as)
  then show ?case using visits_Cons [of n groups a as] by simp
qed (simp add: visits_Nil)

lemma visits_group:
  assumes "is_group_attr a" "payload64 a = Some p" "groups p = Some g"
  shows "visits (Suc n) groups [a] =
    sum_list (map (\<lambda>b. Suc (case xbuf_foreach2 (gb_actions b) of None \<Rightarrow> 0 | Some bs \<Rightarrow> visits n groups bs)) (gv_buckets (group_value g)))"
  using assms by simp

lemma process_group_returns:
  assumes "groups_ranked (se_groups E) rank" "se_groups E p = Some g"
    and tr: "\<And>x as s c. xbuf_below (se_groups E) rank (rank p) x \<Longrightarrow> xbuf_foreach2 x = Some as \<Longrightarrow> xb_wf s \<Longrightarrow>
      unat (xb_length s) + 4 * f as \<le> 2 ^ 31 \<Longrightarrow> returns_within (f as) s (tr c x s)"
    and s: "xb_wf s" "unat (xb_length s) + 4 * v \<le> 2 ^ 31"
    and v: "v = sum_list (map (\<lambda>b. Suc (case xbuf_foreach2 (gb_actions b) of None \<Rightarrow> 0 | Some bs \<Rightarrow> f bs)) (gv_buckets (group_value g)))"
  shows "returns_within v s (process_group E tr hash c p s)"
proof -
  let ?w = "\<lambda>b. case xbuf_foreach2 (gb_actions b) of None \<Rightarrow> 0 | Some bs \<Rightarrow> f bs"
  obtain bs where bs: "group_choice E hash p = Some bs" "set bs \<subseteq> set (gv_buckets (group_value g))"
    "sum_list (map (\<lambda>b. Suc (?w b)) bs) \<le> v"
    using group_choice_sub [OF assms(1,2), of hash] unfolding v by metis
  have "returns_within (?w b) s (tr c (gb_actions b) s)" if "b \<in> set bs" "xb_wf s" "unat (xb_length s) + 4 * ?w b \<le> 2 ^ 31" for b c s
  proof -
    have x: "xbuf_below (se_groups E) rank (rank p) (gb_actions b)"
      using assms(1,2) bs(2) that(1) by (auto simp: groups_ranked_def list_all_iff)
    then obtain as where "xbuf_foreach2 (gb_actions b) = Some as" by (auto simp: xbuf_below_def split: option.splits)
    then show ?thesis using tr [OF x] that(2,3) by simp
  qed
  from process_buckets_returns [of bs ?w tr s E c, OF this s(1)] s(2) bs(3)
  have "returns_within (sum_list (map (\<lambda>b. Suc (?w b)) bs)) s (process_buckets E tr c bs s)" by simp
  then show ?thesis using bs(1,3) by (fastforce simp: process_group_choice returns_within_def)
qed

lemma translate_actions_returns:
  assumes "groups_ranked (se_groups E) rank"
  shows "xbuf_below (se_groups E) rank n x \<Longrightarrow> xbuf_foreach2 x = Some as \<Longrightarrow> xb_wf s \<Longrightarrow>
    unat (xb_length s) + 4 * visits n (se_groups E) as \<le> 2 ^ 31 \<Longrightarrow>
    returns_within (visits n (se_groups E) as) s (pipeline_standard_translate_actions (Suc n) E hash c x s)"
proof (induction n arbitrary: x as s c)
  case (0 x as)
  let ?pg = "process_group E (pipeline_standard_translate_actions 0 E hash) hash"
  have "\<exists>go c' s'. translate_attr E ?pg c a s = Some (go, c', s') \<and> xb_wf s' \<and> unat (xb_length s') \<le> unat (xb_length s) + 4 * visits 0 (se_groups E) [a]"
    if "a \<in> set as" "xb_wf s" "unat (xb_length s) + 4 * visits 0 (se_groups E) [a] \<le> 2 ^ 31" for a s c
    using 0(1,2) that by (intro translate_attr_returns)
      (auto simp: xbuf_below_def list_all_iff ref_below_def split: option.splits if_splits)
  from translate_loop_returns [of as "\<lambda>a. visits 0 (se_groups E) [a]", OF this 0(3), of c] 0
  show ?case by (simp add: visits_sum [of 0])
next
  case (Suc n x as)
  let ?tr = "pipeline_standard_translate_actions (Suc n) E hash" and ?G = "se_groups E"
  have att: "\<exists>go c' s'. translate_attr E (process_group E ?tr hash) c a s = Some (go, c', s') \<and> xb_wf s' \<and>
      unat (xb_length s') \<le> unat (xb_length s) + 4 * visits (Suc n) ?G [a]"
    if a: "a \<in> set as" and s: "xb_wf s" "unat (xb_length s) + 4 * visits (Suc n) ?G [a] \<le> 2 ^ 31" for a s c
  proof (rule translate_attr_returns [OF _ s])
    show "action_attr_ok a" using Suc.prems(1,2) a by (simp add: xbuf_below_def list_all_iff)
    fix p c assume g: "is_group_attr a" "payload64 a = Some p"
    have "ref_below ?G rank (Suc n) a" using Suc.prems(1,2) a by (simp add: xbuf_below_def list_all_iff)
    then obtain g where p: "?G p = Some g" "rank p < Suc n" using g by (auto simp: ref_below_def)
    show "returns_within (visits (Suc n) ?G [a]) s (process_group E ?tr hash c p s)"
      by (rule process_group_returns [OF assms p(1) _ s visits_group [of a p ?G g n, OF g p(1)]])
        (rule Suc.IH; use p(2) xbuf_below_mono [where r = "rank p" and r' = n] in simp)
  qed
  from translate_loop_returns [of as "\<lambda>a. visits (Suc n) ?G [a]", OF att Suc.prems(3), of c] Suc.prems(2,4) show ?case
    unfolding visits_sum [of "Suc n" ?G as] pipeline_standard_translate_actions.simps(2) [of "Suc n"] Suc.prems(2) by simp
qed

text \<open>More fuel gives the same answer.\<close>

definition tr_le :: "(action_context \<Rightarrow> 'x \<Rightarrow> xbuf \<Rightarrow> (action_context \<times> xbuf) option) \<Rightarrow> (action_context \<Rightarrow> 'x \<Rightarrow> xbuf \<Rightarrow> (action_context \<times> xbuf) option) \<Rightarrow> bool" where
  "tr_le f g \<longleftrightarrow> (\<forall>c x s r. f c x s = Some r \<longrightarrow> g c x s = Some r)"

lemma process_buckets_le: "tr_le f g \<Longrightarrow> process_buckets E f c bs s = Some r \<Longrightarrow> process_buckets E g c bs s = Some r"
proof (induction bs arbitrary: c s)
  case (Cons b bs)
  obtain c1 s1 s2 where "f c (gb_actions b) s = Some (c1, s1)" "pipeline_add_stats (se_junk E) s1 (gb_stats_handle b) = Some s2"
    "process_buckets E f c1 bs s2 = Some r" using Cons.prems(2) by (auto simp: process_group_bucket_def split: Option.bind_splits)
  then show ?case using Cons.IH [OF Cons.prems(1)] Cons.prems(1) by (auto simp: process_group_bucket_def tr_le_def)
qed simp

lemma process_group_le: "tr_le f g \<Longrightarrow> tr_le (process_group E f hash) (process_group E g hash)"
  using process_buckets_le [of f g E] unfolding tr_le_def [of "process_group E f hash"] process_group_choice
  by (auto split: Option.bind_splits)

lemma translate_attr_le: "tr_le f g \<Longrightarrow> translate_attr E f c a s = Some r \<Longrightarrow> translate_attr E g c a s = Some r"
proof (cases "ind_ovs_action_of (fst a) = Some IND_OVS_ACTION_GROUP")
  case False
  then have "translate_attr E f c a s = translate_attr E g c a s"
    by (auto simp: translate_attr_def split: option.splits ind_ovs_action.splits)
  then show "translate_attr E f c a s = Some r \<Longrightarrow> ?thesis" by simp
qed (auto simp: translate_attr_group tr_le_def split: Option.bind_splits)

lemma translate_loop_le: "tr_le f g \<Longrightarrow> translate_loop E f c as s = Some r \<Longrightarrow> translate_loop E g c as s = Some r"
proof (induction as arbitrary: c s)
  case (Cons a as)
  obtain go c1 s1 where "translate_attr E f c a s = Some (go, c1, s1)" "(if go then translate_loop E f c1 as s1 else Some (c1, s1)) = Some r"
    using Cons.prems(2) by (auto split: Option.bind_splits)
  then show ?case using Cons.IH [OF Cons.prems(1)] translate_attr_le [OF Cons.prems(1)] by (auto split: if_splits)
qed simp

lemma translate_actions_Suc_le: "tr_le (pipeline_standard_translate_actions n E hash) (pipeline_standard_translate_actions (Suc n) E hash)"
proof (induction n)
  case (Suc n)
  have eq: "pipeline_standard_translate_actions (Suc k) E hash c x s =
      (xbuf_foreach2 x \<bind> (\<lambda>as. translate_loop E (process_group E (pipeline_standard_translate_actions k E hash) hash) c as s))" for k c x s
    by simp
  have "pipeline_standard_translate_actions (Suc (Suc n)) E hash c x s = Some r"
    if "pipeline_standard_translate_actions (Suc n) E hash c x s = Some r" for c x s r
    using that translate_loop_le [OF process_group_le [OF Suc]] eq [of n c x s] eq [of "Suc n" c x s]
    by (cases "xbuf_foreach2 x") (simp_all del: pipeline_standard_translate_actions.simps)
  then show ?case unfolding tr_le_def by blast
qed (simp add: tr_le_def)

lemma translate_actions_le:
  assumes "n \<le> m"
  shows "tr_le (pipeline_standard_translate_actions n E hash) (pipeline_standard_translate_actions m E hash)"
  using assms
proof (induction rule: dec_induct)
  case (step m)
  then show ?case using translate_actions_Suc_le [of m E hash] unfolding tr_le_def by blast
qed (simp add: tr_le_def)



end
