(* ===== verification/Pipeline_Standard.thy ===== *)
theory Pipeline_Standard
  imports Std_Translate
begin

text \<open>
  The flow tables of the standard pipeline (\<open>pipeline_standard/module/src/pipeline_standard.c\<close>): the tables,
  their entries, the path of a packet through the tables and the operations the Indigo core calls. Tables hold
  tcam entries; the flow entry that embeds a tcam entry (\<open>container_of\<close>) is found in a heap by
  its address. Addresses of new objects come from the allocator and are parameters, as are the murmur hash, the
  netlink port of the packet-in socket and the callbacks' registration with the core.
\<close>

subsection \<open>State\<close>

definition NUM_TABLES :: nat where "NUM_TABLES = 16"

record ('b, 'h) flowtable =
  ft_tcam :: "('b, 'h) tcam"
  matched_stats_handle :: u32
  missed_stats_handle :: u32
  ft_table_id :: u8

record flowtable_value =
  apply_actions :: xbuf
  write_actions :: xbuf
  fv_metadata :: u64
  fv_metadata_mask :: u64
  meter_id :: u32
  next_table_id :: u8
  clear_actions :: bool

record flowtable_entry =
  fe_tcam_entry :: tcam_entry
  fe_value :: flowtable_value
  fe_stats_handle :: u32
  last_hit_check_packets :: u64
  fe_table_miss :: bool

record ('b, 'h) pipeline_standard =
  ps_core :: std_state
  openflow_version :: int
  flowtables :: "('b, 'h) flowtable option list"
  ps_entries :: "u64 \<Rightarrow> flowtable_entry option"
  pktin_registered :: bool

record ('b, 'h) std_ext =
  ext_tcam :: "('b, 'h) tcam_env"
  ext_murmur_hash :: "bytes \<Rightarrow> u32 \<Rightarrow> u32"
  ext_junk :: "nat \<Rightarrow> u8"
  ext_netlink_port :: u32

definition of_version_int :: "of_version \<Rightarrow> int" where
  "of_version_int v = int (of_version_code v)"

definition flowtable_at :: "('b, 'h) pipeline_standard \<Rightarrow> nat \<Rightarrow> ('b, 'h) flowtable option" where
  "flowtable_at ps i = (if i < length (flowtables ps) then flowtables ps ! i else None)"

definition std_env_of :: "('b, 'h) std_ext \<Rightarrow> ('b, 'h) pipeline_standard \<Rightarrow> std_env" where
  "std_env_of X ps = \<lparr>se_junk = ext_junk X, se_groups = st_groups (ps_core ps), se_netlink_port = ext_netlink_port X\<rparr>"

subsection \<open>Set-up\<close>

text \<open>The loop over the tables: the counters are allocated table by table.\<close>

primrec init_tables :: "('b, 'h) tcam_env \<Rightarrow> u32 \<Rightarrow> nat \<Rightarrow> stats_module \<Rightarrow> (('b, 'h) flowtable option list \<times> stats_module) option" where
  "init_tables E salt 0 stats = Some ([], stats)"
| "init_tables E salt (Suc i) stats =
     do {
       (fts, stats) \<leftarrow> init_tables E salt i stats;
       t \<leftarrow> tcam_create E 72 salt;
       (matched, stats) \<leftarrow> stats_alloc stats;
       (missed, stats) \<leftarrow> stats_alloc stats;
       Some (fts @ [Some \<lparr>ft_tcam = t, matched_stats_handle = matched, missed_stats_handle = missed, ft_table_id = of_nat i\<rparr>], stats)
     }"

definition pipeline_standard_init ::
  "('b, 'h) std_ext \<Rightarrow> u32 \<Rightarrow> string \<Rightarrow> ('b, 'h) pipeline_standard \<Rightarrow> ('b, 'h) pipeline_standard option" where
  "pipeline_standard_init X salt name ps =
     do {
       v \<leftarrow> (if name = ''standard-1.0'' then Some OF_VERSION_1_0 else if name = ''standard-1.3'' then Some OF_VERSION_1_3 else None);
       (fts, stats) \<leftarrow> init_tables (ext_tcam X) salt NUM_TABLES (st_stats (ps_core ps));
       Some (ps\<lparr>openflow_version := of_version_int v, flowtables := fts, ps_core := (ps_core ps)\<lparr>st_stats := stats\<rparr>, pktin_registered := True\<rparr>)
     }"

fun finish_tables :: "('b, 'h) flowtable option list \<Rightarrow> stats_module \<Rightarrow> stats_module option" where
  "finish_tables [] stats = Some stats"
| "finish_tables (None # fts) stats = None"
| "finish_tables (Some ft # fts) stats =
     do {
       stats \<leftarrow> stats_free stats (matched_stats_handle ft);
       stats \<leftarrow> stats_free stats (missed_stats_handle ft);
       finish_tables fts stats
     }"

text \<open>The table pointers are left as they are: they dangle after this.\<close>

definition pipeline_standard_finish :: "('b, 'h) pipeline_standard \<Rightarrow> ('b, 'h) pipeline_standard option" where
  "pipeline_standard_finish ps =
     do {
       stats \<leftarrow> finish_tables (flowtables ps) (st_stats (ps_core ps));
       Some (ps\<lparr>ps_core := (ps_core ps)\<lparr>st_stats := stats\<rparr>, pktin_registered := False\<rparr>)
     }"

subsection \<open>A packet\<close>

text \<open>A copy of \<open>n\<close> bytes of a payload; reading past its end is \<open>None\<close>.\<close>

definition payload_prefix :: "attr \<Rightarrow> nat \<Rightarrow> bytes option" where
  "payload_prefix a n = (if n \<le> length (snd a) then Some (take n (snd a)) else None)"

definition update_cfr_attr :: "pipeline_standard_cfr \<Rightarrow> attr \<Rightarrow> pipeline_standard_cfr option" where
  "update_cfr_attr cfr a =
     (case ind_ovs_action_of (fst a) of
        None \<Rightarrow> Some cfr
      | Some act \<Rightarrow>
          (case act of
             IND_OVS_ACTION_SET_ETH_DST \<Rightarrow> do { d \<leftarrow> payload_prefix a 6; Some (cfr\<lparr>dl_dst := d\<rparr>) }
           | IND_OVS_ACTION_SET_ETH_SRC \<Rightarrow> do { d \<leftarrow> payload_prefix a 6; Some (cfr\<lparr>dl_src := d\<rparr>) }
           | IND_OVS_ACTION_SET_IPV4_DST \<Rightarrow> do { v \<leftarrow> payload32 a; Some (cfr\<lparr>nw_dst := v\<rparr>) }
           | IND_OVS_ACTION_SET_IPV4_SRC \<Rightarrow> do { v \<leftarrow> payload32 a; Some (cfr\<lparr>nw_src := v\<rparr>) }
           | IND_OVS_ACTION_SET_IP_DSCP \<Rightarrow> do { v \<leftarrow> payload8 a; Some (cfr\<lparr>nw_tos := (nw_tos cfr AND NOT IP_DSCP_MASK) OR v\<rparr>) }
           | IND_OVS_ACTION_SET_IP_ECN \<Rightarrow> do { v \<leftarrow> payload8 a; Some (cfr\<lparr>nw_tos := (nw_tos cfr AND NOT IP_ECN_MASK) OR v\<rparr>) }
           | IND_OVS_ACTION_SET_TCP_DST \<Rightarrow> do { v \<leftarrow> payload16 a; Some (cfr\<lparr>tp_dst := v\<rparr>) }
           | IND_OVS_ACTION_SET_UDP_DST \<Rightarrow> do { v \<leftarrow> payload16 a; Some (cfr\<lparr>tp_dst := v\<rparr>) }
           | IND_OVS_ACTION_SET_TP_DST \<Rightarrow> do { v \<leftarrow> payload16 a; Some (cfr\<lparr>tp_dst := v\<rparr>) }
           | IND_OVS_ACTION_SET_TCP_SRC \<Rightarrow> do { v \<leftarrow> payload16 a; Some (cfr\<lparr>tp_src := v\<rparr>) }
           | IND_OVS_ACTION_SET_UDP_SRC \<Rightarrow> do { v \<leftarrow> payload16 a; Some (cfr\<lparr>tp_src := v\<rparr>) }
           | IND_OVS_ACTION_SET_TP_SRC \<Rightarrow> do { v \<leftarrow> payload16 a; Some (cfr\<lparr>tp_src := v\<rparr>) }
           | IND_OVS_ACTION_SET_VLAN_VID \<Rightarrow>
               do { v \<leftarrow> payload16 a; Some (cfr\<lparr>dl_vlan := htons (VLAN_TCI v (VLAN_PCP (ntohs (dl_vlan cfr))) OR VLAN_CFI_BIT)\<rparr>) }
           | IND_OVS_ACTION_SET_VLAN_PCP \<Rightarrow>
               do { v \<leftarrow> payload8 a; Some (cfr\<lparr>dl_vlan := htons (VLAN_TCI (VLAN_VID (ntohs (dl_vlan cfr))) (ucast v) OR VLAN_CFI_BIT)\<rparr>) }
           | IND_OVS_ACTION_SET_IPV6_DST \<Rightarrow> do { d \<leftarrow> payload_prefix a 16; Some (cfr\<lparr>ipv6_dst := d\<rparr>) }
           | IND_OVS_ACTION_SET_IPV6_SRC \<Rightarrow> do { d \<leftarrow> payload_prefix a 16; Some (cfr\<lparr>ipv6_src := d\<rparr>) }
           | _ \<Rightarrow> Some cfr))"

fun update_cfr_loop :: "pipeline_standard_cfr \<Rightarrow> attr list \<Rightarrow> pipeline_standard_cfr option" where
  "update_cfr_loop cfr [] = Some cfr"
| "update_cfr_loop cfr (a # as) = do { cfr \<leftarrow> update_cfr_attr cfr a; update_cfr_loop cfr as }"

definition pipeline_standard_update_cfr :: "pipeline_standard_cfr \<Rightarrow> xbuf \<Rightarrow> pipeline_standard_cfr option" where
  "pipeline_standard_update_cfr cfr actions = do { as \<leftarrow> xbuf_foreach2 actions; update_cfr_loop cfr as }"

text \<open>
  The mask is either the one the action context points to, or, when the context has none, an
  object of its own: no caller passes two different masks.
\<close>

definition mask_upd :: "(ind_ovs_parsed_key \<Rightarrow> ind_ovs_parsed_key) \<Rightarrow> action_context \<times> ind_ovs_parsed_key \<Rightarrow> action_context \<times> ind_ovs_parsed_key" where
  "mask_upd f cm = (case ac_mask (fst cm) of Some m \<Rightarrow> ((fst cm)\<lparr>ac_mask := Some (f m)\<rparr>, snd cm) | None \<Rightarrow> (fst cm, f (snd cm)))"

text \<open>One round of the loop: a miss, a hit, and the lookup. The next table is 255 to stop.\<close>

definition process_miss ::
  "('b, 'h) std_ext \<Rightarrow> ('b, 'h) pipeline_standard \<Rightarrow> ('b, 'h) flowtable \<Rightarrow> action_context \<Rightarrow> xbuf \<Rightarrow> (action_context \<times> xbuf) option" where
  "process_miss X ps ft ctx stats =
     do {
       let ctx = (if openflow_version ps < of_version_int OF_VERSION_1_3
         then action_userspace ctx (le_bytes 8 (IVS_PKTIN_USERDATA OF_PACKET_IN_REASON_NO_MATCH 0)) (ext_netlink_port X)
         else ctx);
       stats \<leftarrow> pipeline_add_stats (ext_junk X) stats (missed_stats_handle ft);
       Some (ctx, stats)
     }"

definition process_hit ::
  "nat \<Rightarrow> ('b, 'h) std_ext \<Rightarrow> ('b, 'h) pipeline_standard \<Rightarrow> u32 \<Rightarrow> ('b, 'h) flowtable \<Rightarrow> flowtable_entry \<Rightarrow> action_context \<Rightarrow> xbuf
    \<Rightarrow> (action_context \<times> xbuf) option" where
  "process_hit depth X ps hash ft e ctx stats =
     do {
       stats \<leftarrow> pipeline_add_stats (ext_junk X) stats (if fe_table_miss e then missed_stats_handle ft else matched_stats_handle ft);
       stats \<leftarrow> pipeline_add_stats (ext_junk X) stats (fe_stats_handle e);
       pipeline_standard_translate_actions depth (std_env_of X ps) hash ctx (apply_actions (fe_value e)) stats
     }"

definition process_table ::
  "nat \<Rightarrow> ('b, 'h) std_ext \<Rightarrow> ('b, 'h) pipeline_standard \<Rightarrow> u32 \<Rightarrow> u8 \<Rightarrow> pipeline_standard_cfr \<Rightarrow> pipeline_standard_cfr \<Rightarrow>
    action_context \<Rightarrow> xbuf \<Rightarrow> (u8 \<times> pipeline_standard_cfr \<times> pipeline_standard_cfr \<times> action_context \<times> xbuf) option" where
  "process_table depth X ps hash table_id cfr cfr_mask ctx stats =
     do {
       ft \<leftarrow> flowtable_at ps (unat table_id);
       let (found, words) = tcam_match_and_mask (ext_tcam X) (ft_tcam ft) (cfr_words cfr) (Some (cfr_words cfr_mask));
       cfr_mask \<leftarrow> map_option cfr_of_words words;
       case found of
         None \<Rightarrow> do { (ctx, stats) \<leftarrow> process_miss X ps ft ctx stats; Some (255, cfr, cfr_mask, ctx, stats) }
       | Some te \<Rightarrow>
           do {
             e \<leftarrow> ps_entries ps (te_addr te);
             (ctx, stats) \<leftarrow> process_hit depth X ps hash ft e ctx stats;
             let next = next_table_id (fe_value e);
             cfr \<leftarrow> (if next \<noteq> 255 then pipeline_standard_update_cfr cfr (apply_actions (fe_value e)) else Some cfr);
             Some (next, cfr, cfr_mask, ctx, stats)
           }
     }"

text \<open>The loop over the tables, for at most \<open>n\<close> rounds.\<close>

primrec process_tables ::
  "nat \<Rightarrow> nat \<Rightarrow> ('b, 'h) std_ext \<Rightarrow> ('b, 'h) pipeline_standard \<Rightarrow> u32 \<Rightarrow> u8 \<Rightarrow> pipeline_standard_cfr \<Rightarrow> pipeline_standard_cfr \<Rightarrow>
    action_context \<Rightarrow> xbuf \<Rightarrow> (pipeline_standard_cfr \<times> pipeline_standard_cfr \<times> action_context \<times> xbuf) option" where
  "process_tables 0 depth X ps hash table_id cfr cfr_mask ctx stats = (if table_id = 255 then Some (cfr, cfr_mask, ctx, stats) else None)"
| "process_tables (Suc n) depth X ps hash table_id cfr cfr_mask ctx stats =
     (if table_id = 255 then Some (cfr, cfr_mask, ctx, stats)
      else do {
        (table_id, cfr, cfr_mask, ctx, stats) \<leftarrow> process_table depth X ps hash table_id cfr cfr_mask ctx stats;
        process_tables n depth X ps hash table_id cfr cfr_mask ctx stats
      })"

definition pipeline_standard_process ::
  "nat \<Rightarrow> nat \<Rightarrow> ('b, 'h) std_ext \<Rightarrow> ('b, 'h) pipeline_standard \<Rightarrow> ind_ovs_parsed_key \<Rightarrow> ind_ovs_parsed_key \<Rightarrow> xbuf \<Rightarrow> action_context
    \<Rightarrow> (error \<times> ind_ovs_parsed_key \<times> xbuf \<times> action_context) option" where
  "pipeline_standard_process rounds depth X ps key msk stats actx =
     do {
       let cfr = pipeline_standard_key_to_cfr key cfr_zero;
       let hash = ext_murmur_hash X (key_get OVS_KEY_ATTR_ETHERNET key) 0;
       let (actx, msk) = mask_upd (mask_attr OVS_KEY_ATTR_ETHERNET) (actx, msk);
       if flowtable_at ps 0 = None then Some (ERROR_NONE, msk, stats, actx)
       else do {
         (cfr, cfr_mask, actx, stats) \<leftarrow> process_tables rounds depth X ps hash 0 cfr cfr_zero actx stats;
         let (actx, msk) = mask_upd (\<lambda>m. translate_cfr_mask m cfr cfr_mask) (actx, msk);
         Some (ERROR_NONE, msk, stats, actx)
       }
     }"

subsection \<open>Flow entries\<close>

text \<open>The parts of a flow-mod message that are read; \<open>fm_match\<close> is \<open>None\<close> when LOCI cannot decode the match.\<close>

datatype of_instruction = OF_INSTRUCTION_APPLY_ACTIONS "of_action list" | OF_INSTRUCTION_WRITE_ACTIONS "of_action list"
  | OF_INSTRUCTION_CLEAR_ACTIONS | OF_INSTRUCTION_GOTO_TABLE u8 | OF_INSTRUCTION_METER u32 | OF_INSTRUCTION_other

record of_flow_mod =
  fm_version :: of_version
  fm_match :: "of_match option"
  fm_priority :: u16
  fm_table_id :: u8
  fm_actions :: "of_action list"
  fm_instructions :: "of_instruction list"

text \<open>One instruction: the error, the value and the calls to the core so far.\<close>

definition parse_instruction ::
  "('b, 'h) std_ext \<Rightarrow> (u32 \<Rightarrow> u64 option) \<Rightarrow> bool \<Rightarrow> u8 \<Rightarrow> of_instruction \<Rightarrow> flowtable_value \<Rightarrow> core_call list
    \<Rightarrow> (error \<times> flowtable_value \<times> core_call list) option" where
  "parse_instruction X acq table_miss table_id inst v log =
     (case inst of
        OF_INSTRUCTION_APPLY_ACTIONS as \<Rightarrow>
          do {
            (err, x, log) \<leftarrow> pipeline_standard_translate_openflow_actions (ext_junk X) acq table_miss as (apply_actions v) log;
            Some (err, v\<lparr>apply_actions := x\<rparr>, log)
          }
      | OF_INSTRUCTION_WRITE_ACTIONS as \<Rightarrow>
          do {
            (err, x, log) \<leftarrow> pipeline_standard_translate_openflow_actions (ext_junk X) acq table_miss as (write_actions v) log;
            Some (err, v\<lparr>write_actions := x\<rparr>, log)
          }
      | OF_INSTRUCTION_CLEAR_ACTIONS \<Rightarrow> Some (ERROR_NONE, v\<lparr>clear_actions := True\<rparr>, log)
      | OF_INSTRUCTION_GOTO_TABLE t \<Rightarrow>
          Some (if t \<le> table_id \<or> NUM_TABLES \<le> unat t then ERROR_RANGE else ERROR_NONE, v\<lparr>next_table_id := t\<rparr>, log)
      | OF_INSTRUCTION_METER m \<Rightarrow> Some (ERROR_NONE, v\<lparr>meter_id := m\<rparr>, log)
      | OF_INSTRUCTION_other \<Rightarrow> Some (ERROR_COMPAT, v, log))"

fun parse_instructions ::
  "('b, 'h) std_ext \<Rightarrow> (u32 \<Rightarrow> u64 option) \<Rightarrow> bool \<Rightarrow> u8 \<Rightarrow> of_instruction list \<Rightarrow> flowtable_value \<Rightarrow> core_call list
    \<Rightarrow> (error \<times> flowtable_value \<times> core_call list) option" where
  "parse_instructions X acq table_miss table_id [] v log = Some (ERROR_NONE, v, log)"
| "parse_instructions X acq table_miss table_id (i # is) v log =
     do {
       (err, v, log) \<leftarrow> parse_instruction X acq table_miss table_id i v log;
       if failed err then Some (err, v, log) else parse_instructions X acq table_miss table_id is v log
     }"

definition cleanup_value :: "(u64 \<Rightarrow> group option) \<Rightarrow> flowtable_value \<Rightarrow> core_call list \<Rightarrow> (flowtable_value \<times> core_call list) option" where
  "cleanup_value groups v log =
     do {
       (x, log) \<leftarrow> pipeline_standard_cleanup_actions groups (apply_actions v) log;
       (y, log) \<leftarrow> pipeline_standard_cleanup_actions groups (write_actions v) log;
       Some (v\<lparr>apply_actions := x, write_actions := y\<rparr>, log)
     }"

text \<open>
  \<open>v\<close> is the memory that the value is parsed into. From version 1.3 on, the table of a goto is
  compared with the table that the message names, which shadows the parameter.
\<close>

definition parse_value ::
  "('b, 'h) std_ext \<Rightarrow> (u32 \<Rightarrow> u64 option) \<Rightarrow> (u64 \<Rightarrow> group option) \<Rightarrow> of_flow_mod \<Rightarrow> bool \<Rightarrow> flowtable_value \<Rightarrow> core_call list
    \<Rightarrow> (error \<times> flowtable_value \<times> core_call list) option" where
  "parse_value X acq groups fm table_miss v log =
     do {
       x \<leftarrow> xbuf_init (ext_junk X);
       y \<leftarrow> xbuf_init (ext_junk X);
       let v = v\<lparr>apply_actions := x, write_actions := y, clear_actions := False, meter_id := - 1, next_table_id := - 1\<rparr>;
       (err, v, log) \<leftarrow>
         (if fm_version fm = OF_VERSION_1_0
          then parse_instruction X acq table_miss 0 (OF_INSTRUCTION_APPLY_ACTIONS (fm_actions fm)) v log
          else parse_instructions X acq table_miss (fm_table_id fm) (fm_instructions fm) v log);
       if failed err then do { (v, log) \<leftarrow> cleanup_value groups v log; Some (err, v, log) }
       else Some (ERROR_NONE, v\<lparr>apply_actions := xbuf_compact (ext_junk X) (apply_actions v),
              write_actions := xbuf_compact (ext_junk X) (write_actions v)\<rparr>, log)
     }"

definition is_table_miss :: "int \<Rightarrow> pipeline_standard_cfr \<Rightarrow> u16 \<Rightarrow> bool" where
  "is_table_miss version msk priority \<longleftrightarrow> version \<ge> of_version_int OF_VERSION_1_3 \<and> priority = 0 \<and> cfr_bytes msk = replicate 72 0"

definition value_zero :: flowtable_value where
  "value_zero = \<lparr>apply_actions = \<lparr>xb_data = [], xb_length = 0, xb_allocated = 0\<rparr>, write_actions = \<lparr>xb_data = [], xb_length = 0, xb_allocated = 0\<rparr>,
     fv_metadata = 0, fv_metadata_mask = 0, meter_id = 0, next_table_id = 0, clear_actions = False\<rparr>"

text \<open>\<open>i\<close> is the table, \<open>eaddr\<close> the address of the new entry and \<open>saddr\<close> of a new shard.\<close>

definition flowtable_entry_create ::
  "('b, 'h) std_ext \<Rightarrow> (u32 \<Rightarrow> u64 option) \<Rightarrow> u64 \<Rightarrow> u64 \<Rightarrow> nat \<Rightarrow> u32 \<Rightarrow> of_flow_mod \<Rightarrow> ('b, 'h) pipeline_standard
    \<Rightarrow> (error \<times> ('b, 'h) pipeline_standard) option" where
  "flowtable_entry_create X acq eaddr saddr i cxn_id fm ps =
     do {
       ft \<leftarrow> flowtable_at ps i;
       case fm_match fm of
         None \<Rightarrow> Some (ERROR_UNKNOWN, ps)
       | Some match \<Rightarrow>
           do {
             let (key, msk) = pipeline_standard_match_to_cfr match;
             let miss = is_table_miss (openflow_version ps) msk (fm_priority fm);
             let core = ps_core ps;
             (rv, v, log) \<leftarrow> parse_value X acq (st_groups core) fm miss value_zero (st_log core);
             if failed rv then Some (rv, ps\<lparr>ps_core := core\<lparr>st_log := log\<rparr>\<rparr>)
             else do {
               let t = tcam_insert (ext_tcam X) (ft_tcam ft) eaddr saddr (cfr_words key) (cfr_words msk) (fm_priority fm);
               te \<leftarrow> find (\<lambda>te. te_addr te = eaddr) (tcam_entries t);
               (slot, stats) \<leftarrow> stats_alloc (st_stats core);
               let e = \<lparr>fe_tcam_entry = te, fe_value = v, fe_stats_handle = slot, last_hit_check_packets = 0, fe_table_miss = miss\<rparr>;
               Some (ERROR_NONE, ps\<lparr>flowtables := (flowtables ps)[i := Some (ft\<lparr>ft_tcam := t\<rparr>)], ps_entries := (ps_entries ps)(eaddr \<mapsto> e),
                 ps_core := core\<lparr>st_stats := stats, st_log := log @ [DeferRevalidation cxn_id]\<rparr>\<rparr>)
             }
           }
     }"

definition flowtable_entry_modify ::
  "('b, 'h) std_ext \<Rightarrow> (u32 \<Rightarrow> u64 option) \<Rightarrow> u32 \<Rightarrow> u64 \<Rightarrow> of_flow_mod \<Rightarrow> flowtable_value \<Rightarrow> ('b, 'h) pipeline_standard
    \<Rightarrow> (error \<times> ('b, 'h) pipeline_standard) option" where
  "flowtable_entry_modify X acq cxn_id eaddr fm v0 ps =
     do {
       e \<leftarrow> ps_entries ps eaddr;
       let core = ps_core ps;
       (rv, v, log) \<leftarrow> parse_value X acq (st_groups core) fm (fe_table_miss e) v0 (st_log core);
       if failed rv then Some (rv, ps\<lparr>ps_core := core\<lparr>st_log := log\<rparr>\<rparr>)
       else do {
         (_, log) \<leftarrow> cleanup_value (st_groups core) (fe_value e) log;
         Some (ERROR_NONE, ps\<lparr>ps_entries := (ps_entries ps)(eaddr \<mapsto> e\<lparr>fe_value := v\<rparr>),
           ps_core := core\<lparr>st_log := log @ [DeferRevalidation cxn_id]\<rparr>\<rparr>)
       }
     }"

text \<open>Deletion also answers the final counters.\<close>

definition flowtable_entry_delete ::
  "('b, 'h) std_ext \<Rightarrow> nat \<Rightarrow> u32 \<Rightarrow> u64 \<Rightarrow> ('b, 'h) pipeline_standard \<Rightarrow> (error \<times> stats \<times> ('b, 'h) pipeline_standard) option" where
  "flowtable_entry_delete X i cxn_id eaddr ps =
     do {
       ft \<leftarrow> flowtable_at ps i;
       e \<leftarrow> ps_entries ps eaddr;
       t \<leftarrow> tcam_remove (ext_tcam X) (ft_tcam ft) (fe_tcam_entry e);
       let core = ps_core ps;
       let stats = stats_get (st_stats core) (fe_stats_handle e);
       (_, log) \<leftarrow> cleanup_value (st_groups core) (fe_value e) (st_log core @ [DeferRevalidation cxn_id]);
       st \<leftarrow> stats_free (st_stats core) (fe_stats_handle e);
       Some (ERROR_NONE, stats, ps\<lparr>flowtables := (flowtables ps)[i := Some (ft\<lparr>ft_tcam := t\<rparr>)], ps_entries := (ps_entries ps)(eaddr := None),
         ps_core := core\<lparr>st_stats := st, st_log := log\<rparr>\<rparr>)
     }"

definition flowtable_entry_stats_get :: "u64 \<Rightarrow> ('b, 'h) pipeline_standard \<Rightarrow> (error \<times> stats) option" where
  "flowtable_entry_stats_get eaddr ps =
     do { e \<leftarrow> ps_entries ps eaddr; Some (ERROR_NONE, stats_get (st_stats (ps_core ps)) (fe_stats_handle e)) }"

definition flowtable_entry_hit_status_get :: "u64 \<Rightarrow> ('b, 'h) pipeline_standard \<Rightarrow> (error \<times> bool \<times> ('b, 'h) pipeline_standard) option" where
  "flowtable_entry_hit_status_get eaddr ps =
     do {
       e \<leftarrow> ps_entries ps eaddr;
       let p = packets (stats_get (st_stats (ps_core ps)) (fe_stats_handle e));
       if p \<noteq> last_hit_check_packets e
       then Some (ERROR_NONE, True, ps\<lparr>ps_entries := (ps_entries ps)(eaddr \<mapsto> e\<lparr>last_hit_check_packets := p\<rparr>)\<rparr>)
       else Some (ERROR_NONE, False, ps)
     }"

text \<open>The lookup and match counts of a table.\<close>

definition flowtable_stats_get :: "nat \<Rightarrow> ('b, 'h) pipeline_standard \<Rightarrow> (error \<times> u64 \<times> u64) option" where
  "flowtable_stats_get i ps =
     do {
       ft \<leftarrow> flowtable_at ps i;
       let matched = packets (stats_get (st_stats (ps_core ps)) (matched_stats_handle ft));
       let missed = packets (stats_get (st_stats (ps_core ps)) (missed_stats_handle ft));
       Some (ERROR_NONE, matched + missed, matched)
     }"

subsection \<open>Field updates keep agreements\<close>

lemma update_cfr_attr_keeps:
  assumes "update_cfr_attr c a = Some c'"
  shows "cfr_wf c \<Longrightarrow> cfr_wf c'" "dl_type c' = dl_type c" "nw_proto c' = nw_proto c"
proof -
  have "(cfr_wf c \<longrightarrow> cfr_wf c') \<and> dl_type c' = dl_type c \<and> nw_proto c' = nw_proto c"
  proof (cases "ind_ovs_action_of (fst a)")
    case (Some act)
    then show ?thesis
      using assms by (cases act) (auto simp: update_cfr_attr_def cfr_wf_def payload_prefix_def split: Option.bind_splits if_splits)
  qed (use assms in \<open>auto simp: update_cfr_attr_def\<close>)
  then show "cfr_wf c \<Longrightarrow> cfr_wf c'" "dl_type c' = dl_type c" "nw_proto c' = nw_proto c" by auto
qed

lemma cfr_agree_upd [intro]:
  assumes "cfr_agree M c d"
  shows "cfr_agree M (c\<lparr>dl_dst := b\<rparr>) (d\<lparr>dl_dst := b\<rparr>)" "cfr_agree M (c\<lparr>dl_src := b\<rparr>) (d\<lparr>dl_src := b\<rparr>)"
    "cfr_agree M (c\<lparr>nw_dst := w\<rparr>) (d\<lparr>nw_dst := w\<rparr>)" "cfr_agree M (c\<lparr>nw_src := w\<rparr>) (d\<lparr>nw_src := w\<rparr>)"
    "cfr_agree M (c\<lparr>tp_dst := p\<rparr>) (d\<lparr>tp_dst := p\<rparr>)" "cfr_agree M (c\<lparr>tp_src := p\<rparr>) (d\<lparr>tp_src := p\<rparr>)"
    "cfr_agree M (c\<lparr>ipv6_dst := b\<rparr>) (d\<lparr>ipv6_dst := b\<rparr>)" "cfr_agree M (c\<lparr>ipv6_src := b\<rparr>) (d\<lparr>ipv6_src := b\<rparr>)"
    "cfr_agree M (c\<lparr>nw_tos := (nw_tos c AND x) OR y\<rparr>) (d\<lparr>nw_tos := (nw_tos d AND x) OR y\<rparr>)"
    "cfr_agree M (c\<lparr>dl_vlan := htons ((ntohs (dl_vlan c) AND u) OR v)\<rparr>) (d\<lparr>dl_vlan := htons ((ntohs (dl_vlan d) AND u) OR v)\<rparr>)"
  using assms word_agree_tci [of "dl_vlan M" "dl_vlan c" "dl_vlan d"] by (simp_all add: cfr_agree_def word_agree_bitwise)

lemma update_cfr_attr_agree:
  assumes "update_cfr_attr c a = Some c'" "cfr_agree M c d"
  shows "\<exists>d'. update_cfr_attr d a = Some d' \<and> cfr_agree M c' d'"
proof (cases "ind_ovs_action_of (fst a)")
  case (Some act)
  have *: "\<exists>d'. (x \<bind> (\<lambda>v. Some (f v d))) = Some d' \<and> cfr_agree M c' d'"
    if "(x \<bind> (\<lambda>v. Some (f v c))) = Some c'" "\<And>v. cfr_agree M (f v c) (f v d)" for x f
    using that by (cases x) auto
  show ?thesis
    using assms Some
    by (cases act) (auto simp: update_cfr_attr_def tci_bitwise simp del: Option.bind_eq_Some_conv intro!: * cfr_agree_upd assms(2))
qed (use assms in \<open>auto simp: update_cfr_attr_def\<close>)

lemma update_cfr_loop_keeps:
  "update_cfr_loop c as = Some c' \<Longrightarrow> (cfr_wf c \<longrightarrow> cfr_wf c') \<and> dl_type c' = dl_type c \<and> nw_proto c' = nw_proto c"
proof (induction as arbitrary: c)
  case (Cons a as)
  then obtain c1 where "update_cfr_attr c a = Some c1" "update_cfr_loop c1 as = Some c'" by (auto split: Option.bind_splits)
  then show ?case using Cons.IH update_cfr_attr_keeps by metis
qed simp

lemma update_cfr_loop_agree:
  "update_cfr_loop c as = Some c' \<Longrightarrow> cfr_agree M c d \<Longrightarrow> \<exists>d'. update_cfr_loop d as = Some d' \<and> cfr_agree M c' d'"
proof (induction as arbitrary: c d)
  case (Cons a as)
  then obtain c1 where "update_cfr_attr c a = Some c1" "update_cfr_loop c1 as = Some c'" by (auto split: Option.bind_splits)
  then show ?case using Cons.IH update_cfr_attr_agree [OF _ Cons.prems(2)] by fastforce
qed simp

lemma update_cfr_keeps:
  assumes "pipeline_standard_update_cfr c x = Some c'"
  shows "cfr_wf c \<Longrightarrow> cfr_wf c'" "dl_type c' = dl_type c" "nw_proto c' = nw_proto c"
  using assms update_cfr_loop_keeps by (auto simp: pipeline_standard_update_cfr_def split: Option.bind_splits)

lemma update_cfr_agree:
  assumes "pipeline_standard_update_cfr c x = Some c'" "cfr_agree M c d"
  shows "\<exists>d'. pipeline_standard_update_cfr d x = Some d' \<and> cfr_agree M c' d'"
  using assms update_cfr_loop_agree by (auto simp: pipeline_standard_update_cfr_def split: Option.bind_splits)

subsection \<open>One table\<close>

definition tcams_ok :: "('b, 'h) std_ext \<Rightarrow> ('b \<Rightarrow> u32 multiset \<Rightarrow> bool) \<Rightarrow> ('h \<Rightarrow> (u64 \<times> u32) set \<Rightarrow> bool) \<Rightarrow> ('b, 'h) pipeline_standard \<Rightarrow> bool" where
  "tcams_ok X br hr ps \<longleftrightarrow> (\<forall>i ft. flowtable_at ps i = Some ft \<longrightarrow> tcam_inv (ext_tcam X) br hr (ft_tcam ft) \<and> key_words (ft_tcam ft) = 18)"

definition pipeline_safe :: "ind_ovs_parsed_key \<Rightarrow> ('b, 'h) pipeline_standard \<Rightarrow> bool" where
  "pipeline_safe M ps \<longleftrightarrow> groups_safe M (st_groups (ps_core ps)) \<and> (\<forall>a e. ps_entries ps a = Some e \<longrightarrow> xbuf_safe M (apply_actions (fe_value e)))"

lemma cfr_of_words_wf [simp]: "length ws = 18 \<Longrightarrow> cfr_wf (cfr_of_words ws)"
proof -
  have "length (bytes_of ws) = 4 * length ws" by (induction ws) (simp_all add: bytes_of_def)
  then show "length ws = 18 \<Longrightarrow> cfr_wf (cfr_of_words ws)" by (simp add: cfr_of_words_def)
qed

text \<open>The lookup in a table: the mask it adds, and that keys which agree on it find the same entry.\<close>

lemma table_lookup:
  assumes "tcam_inv E br hr t" "key_words t = 18" "cfr_wf c" "cfr_wf cm"
  obtains r m where "tcam_match_and_mask E t (cfr_words c) (Some (cfr_words cm)) = (r, Some m)" "length m = 18" "covers m (cfr_words cm)"
    "\<And>d. cfr_wf d \<Longrightarrow> masked (cfr_words c) m = masked (cfr_words d) m \<Longrightarrow>
       tcam_match_and_mask E t (cfr_words d) (Some (cfr_words cm)) = (r, Some m)"
proof -
  have snd: "snd (tcam_match_and_mask E t k (Some (cfr_words cm))) = Some (foldl memor (cfr_words cm) (map sh_mask (shard_list t)))" for k
    by (simp add: tcam_match_and_mask_def match_loop_mask)
  obtain r m where r: "tcam_match_and_mask E t (cfr_words c) (Some (cfr_words cm)) = (r, Some m)"
    using snd [of "cfr_words c"] by (metis prod.collapse)
  moreover have "tcam_match_and_mask E t (cfr_words d) (Some (cfr_words cm)) = (r, Some m)"
    if "cfr_wf d" "masked (cfr_words c) m = masked (cfr_words d) m" for d
    using tcam_mask_sound [OF assms(1) _ _ _ r that(2), of "Some (cfr_words cm)"] snd [of "cfr_words c"] snd [of "cfr_words d"] r assms(2-4) that(1)
    by (metis length_cfr_words prod.collapse snd_conv)
  ultimately show thesis
    using that tcam_mask_covers(1,3) [OF assms(1) _ r] assms(2-4) by simp
qed

context ctx_preorder
begin

lemma process_miss_keeps: "process_miss X ps ft c s = Some (c', s') \<Longrightarrow> R c c'"
  using R_step [of c "Userspace (le_bytes 8 (IVS_PKTIN_USERDATA OF_PACKET_IN_REASON_NO_MATCH 0)) (ext_netlink_port X)"]
  by (auto simp: process_miss_def R_view split: Option.bind_splits if_splits)

lemma process_hit_keeps: "process_hit depth X ps hash ft e c s = Some (c', s') \<Longrightarrow> R c c'"
  using tr_keepsD [OF translate_actions_keep] by (auto simp: process_hit_def split: Option.bind_splits)

end

lemmas process_miss_grows = grows.process_miss_keeps
lemmas process_hit_grows = grows.process_hit_keeps

lemma process_miss_agree:
  assumes "process_miss X ps ft c s = Some (c', s')" "ctx_agree M c d" "ctx_covers M c'"
  shows "\<exists>d'. process_miss X ps ft d s = Some (d', s') \<and> ctx_agree M c' d'"
  using action_step_agree [OF assms(2), of "Userspace (le_bytes 8 (IVS_PKTIN_USERDATA OF_PACKET_IN_REASON_NO_MATCH 0)) (ext_netlink_port X)"] assms
  by (auto simp: process_miss_def split: Option.bind_splits if_splits)

lemma process_hit_agree:
  assumes "process_hit depth X ps hash ft e c s = Some (c', s')" "ctx_agree M c d" "ctx_covers M c'"
    and "key_wf M" "pipeline_safe M ps" "xbuf_safe M (apply_actions (fe_value e))"
  shows "\<exists>d'. process_hit depth X ps hash ft e d s = Some (d', s') \<and> ctx_agree M c' d'"
proof -
  have g: "groups_safe M (se_groups (std_env_of X ps))" using assms(5) by (simp add: pipeline_safe_def std_env_of_def)
  obtain s1 s2 where s: "pipeline_add_stats (ext_junk X) s (if fe_table_miss e then missed_stats_handle ft else matched_stats_handle ft) = Some s1"
    "pipeline_add_stats (ext_junk X) s1 (fe_stats_handle e) = Some s2"
    "pipeline_standard_translate_actions depth (std_env_of X ps) hash c (apply_actions (fe_value e)) s2 = Some (c', s')"
    using assms(1) by (auto simp: process_hit_def split: Option.bind_splits)
  obtain d' where "pipeline_standard_translate_actions depth (std_env_of X ps) hash d (apply_actions (fe_value e)) s2 = Some (d', s')" "ctx_agree M c' d'"
    by (rule tr_agreeD [OF translate_actions_agree [OF assms(4) g] s(3) assms(2,3,6)])
  then show ?thesis using s by (simp add: process_hit_def)
qed

lemma process_table_cases:
  assumes "process_table depth X ps hash t c cm ctx s = Some (nx, c', cm', ctx', s')"
  obtains ft words where "flowtable_at ps (unat t) = Some ft"
      "tcam_match_and_mask (ext_tcam X) (ft_tcam ft) (cfr_words c) (Some (cfr_words cm)) = (None, Some words)"
      "cm' = cfr_of_words words" "process_miss X ps ft ctx s = Some (ctx', s')" "nx = 255" "c' = c"
  | ft words te e where "flowtable_at ps (unat t) = Some ft"
      "tcam_match_and_mask (ext_tcam X) (ft_tcam ft) (cfr_words c) (Some (cfr_words cm)) = (Some te, Some words)"
      "cm' = cfr_of_words words" "ps_entries ps (te_addr te) = Some e" "process_hit depth X ps hash ft e ctx s = Some (ctx', s')"
      "nx = next_table_id (fe_value e)" "(if nx \<noteq> 255 then pipeline_standard_update_cfr c (apply_actions (fe_value e)) else Some c) = Some c'"
proof -
  obtain ft where ft: "flowtable_at ps (unat t) = Some ft"
    using assms by (cases "flowtable_at ps (unat t)") (simp_all add: process_table_def)
  obtain r ws where r: "tcam_match_and_mask (ext_tcam X) (ft_tcam ft) (cfr_words c) (Some (cfr_words cm)) = (r, ws)" by fastforce
  obtain words where words: "ws = Some words" using assms ft r by (cases ws) (simp_all add: process_table_def)
  show thesis
  proof (cases r)
    case None
    then have "(process_miss X ps ft ctx s \<bind> (\<lambda>(ctx, s). Some (255, c, cfr_of_words words, ctx, s))) = Some (nx, c', cm', ctx', s')"
      using assms ft r words by (simp add: process_table_def)
    then have "process_miss X ps ft ctx s = Some (ctx', s')" "nx = 255" "c' = c" "cm' = cfr_of_words words"
      by (cases "process_miss X ps ft ctx s"; auto)+
    then show thesis using r None words by (intro that(1) [OF ft, of words]) simp_all
  next
    case (Some te)
    obtain e where e: "ps_entries ps (te_addr te) = Some e"
      using assms ft r words Some by (cases "ps_entries ps (te_addr te)") (simp_all add: process_table_def)
    obtain ctx1 s1 where h: "process_hit depth X ps hash ft e ctx s = Some (ctx1, s1)"
      using assms ft r words Some e by (cases "process_hit depth X ps hash ft e ctx s") (auto simp: process_table_def)
    obtain c1 where c1: "(if next_table_id (fe_value e) \<noteq> 255 then pipeline_standard_update_cfr c (apply_actions (fe_value e)) else Some c) = Some c1"
      using assms ft r words Some e h
      by (cases "if next_table_id (fe_value e) \<noteq> 255 then pipeline_standard_update_cfr c (apply_actions (fe_value e)) else Some c")
        (simp_all add: process_table_def Let_def)
    then have "nx = next_table_id (fe_value e)" "c' = c1" "cm' = cfr_of_words words" "ctx' = ctx1" "s' = s1"
      using assms ft r words Some e h by (simp_all add: process_table_def Let_def)
    then show thesis using r words Some h c1 by (intro that(2) [OF ft _ _ e, of words]) simp_all
  qed
qed

context ctx_preorder
begin

lemma process_table_ctx: "process_table depth X ps hash t c cm ctx s = Some (nx, c', cm', ctx', s') \<Longrightarrow> R ctx ctx'"
  by (cases rule: process_table_cases) (auto dest: process_miss_keeps process_hit_keeps)

lemma process_tables_ctx: "process_tables n depth X ps hash t c cm ctx s = Some (c', cm', ctx', s') \<Longrightarrow> R ctx ctx'"
proof (induction n arbitrary: t c cm ctx s)
  case (Suc n)
  then show ?case
    by (cases "t = 255") (auto split: Option.bind_splits intro: R_view R_trans dest!: process_table_ctx)
qed (auto simp: R_view split: if_splits)

end

lemma process_table_keeps:
  assumes "tcams_ok X br hr ps" "cfr_wf c" "cfr_wf cm" "process_table depth X ps hash t c cm ctx s = Some (nx, c', cm', ctx', s')"
  shows "cfr_wf c'" "cfr_wf cm'" "covers (cfr_words cm') (cfr_words cm)" "dl_type c' = dl_type c" "nw_proto c' = nw_proto c" "ctx_grows ctx ctx'"
proof -
  have "cfr_wf c' \<and> dl_type c' = dl_type c \<and> nw_proto c' = nw_proto c \<and> ctx_grows ctx ctx'"
    using assms(4)
  proof (cases rule: process_table_cases)
    case 1
    then show ?thesis using assms(2) process_miss_grows by simp
  next
    case 2
    then show ?thesis using assms(2) process_hit_grows update_cfr_keeps [of c _ c'] by (cases "nx = 255") auto
  qed
  moreover have "cfr_wf cm' \<and> covers (cfr_words cm') (cfr_words cm)"
  proof -
    obtain ft r words where ft: "flowtable_at ps (unat t) = Some ft"
      "tcam_match_and_mask (ext_tcam X) (ft_tcam ft) (cfr_words c) (Some (cfr_words cm)) = (r, Some words)" "cm' = cfr_of_words words"
      using assms(4) by (cases rule: process_table_cases) blast+
    then have inv: "tcam_inv (ext_tcam X) br hr (ft_tcam ft)" "key_words (ft_tcam ft) = 18" using assms(1) by (auto simp: tcams_ok_def)
    show ?thesis
      by (rule table_lookup [OF inv assms(2,3)]) (use ft in \<open>auto simp: cfr_of_words_inverse\<close>)
  qed
  ultimately show "cfr_wf c'" "cfr_wf cm'" "covers (cfr_words cm') (cfr_words cm)" "dl_type c' = dl_type c" "nw_proto c' = nw_proto c" "ctx_grows ctx ctx'"
    by auto
qed

lemma process_table_agree:
  assumes ok: "tcams_ok X br hr ps" "key_wf M" "pipeline_safe M ps" and wf: "cfr_wf c" "cfr_wf d" "cfr_wf cm" "cfr_wf F"
    and step: "process_table depth X ps hash t c cm ctx s = Some (nx, c', cm', ctx', s')"
    and agree: "ctx_agree M ctx dtx" "ctx_covers M ctx'" "covers (cfr_words F) (cfr_words cm')" "cfr_agree F c d"
  shows "\<exists>d' dtx'. process_table depth X ps hash t d cm dtx s = Some (nx, d', cm', dtx', s') \<and>
    cfr_wf d' \<and> cfr_agree F c' d' \<and> ctx_agree M ctx' dtx'"
proof -
  obtain ft r words where ft: "flowtable_at ps (unat t) = Some ft"
    "tcam_match_and_mask (ext_tcam X) (ft_tcam ft) (cfr_words c) (Some (cfr_words cm)) = (r, Some words)" "cm' = cfr_of_words words"
    using step by (cases rule: process_table_cases) blast+
  then have inv: "tcam_inv (ext_tcam X) br hr (ft_tcam ft)" "key_words (ft_tcam ft) = 18" using ok(1) by (auto simp: tcams_ok_def)
  have same: "tcam_match_and_mask (ext_tcam X) (ft_tcam ft) (cfr_words d) (Some (cfr_words cm)) = (r, Some words)"
  proof (rule table_lookup [OF inv wf(1,3)])
    fix r' m assume m: "tcam_match_and_mask (ext_tcam X) (ft_tcam ft) (cfr_words c) (Some (cfr_words cm)) = (r', Some m)" "length m = 18"
      "\<And>d. cfr_wf d \<Longrightarrow> masked (cfr_words c) m = masked (cfr_words d) m \<Longrightarrow>
        tcam_match_and_mask (ext_tcam X) (ft_tcam ft) (cfr_words d) (Some (cfr_words cm)) = (r', Some m)"
    have "covers (cfr_words F) m" using agree(3) ft m by (simp add: cfr_of_words_inverse)
    then have "masked (cfr_words c) m = masked (cfr_words d) m"
      using masked_covers [of "cfr_words F" m "cfr_words c" "cfr_words d"] cfr_agree_words [OF wf(4,1,2)] agree(4) m(2) wf by simp
    then show ?thesis using m(3) [OF wf(2)] m(1) ft(2) by simp
  qed
  show ?thesis
    using step
  proof (cases rule: process_table_cases)
    case (1 ft' words')
    have e: "ft' = ft" "r = None" using 1(1,2) ft(1,2) by simp_all
    obtain dtx' where "process_miss X ps ft dtx s = Some (dtx', s')" "ctx_agree M ctx' dtx'"
      using process_miss_agree [OF 1(4) agree(1,2)] e(1) by blast
    then show ?thesis using 1(5,6) e(2) ft(1,3) same wf(2) agree(4) by (simp add: process_table_def)
  next
    case (2 ft' words' te e)
    have e: "ft' = ft" "r = Some te" using 2(1,2) ft(1,2) by simp_all
    have safe: "xbuf_safe M (apply_actions (fe_value e))" using 2(4) ok(3) by (auto simp: pipeline_safe_def)
    obtain dtx' where d: "process_hit depth X ps hash ft e dtx s = Some (dtx', s')" "ctx_agree M ctx' dtx'"
      using process_hit_agree [OF 2(5) agree(1,2) ok(2,3) safe] e(1) by blast
    let ?u = "\<lambda>d. if nx \<noteq> 255 then pipeline_standard_update_cfr d (apply_actions (fe_value e)) else Some d"
    obtain d' where u: "?u d = Some d'" "cfr_agree F c' d'"
      using 2(7) agree(4) update_cfr_agree [of c _ c' F d] by (cases "nx = 255") auto
    then have "cfr_wf d'" using wf(2) update_cfr_keeps(1) [of d _ d'] by (cases "nx = 255") auto
    then show ?thesis using 2(4,6) e(2) ft(1,3) same d u by (simp add: process_table_def Let_def)
  qed
qed

subsection \<open>All tables\<close>

lemma process_tables_stop: "process_tables rounds depth X ps hash 255 c cm ctx s = Some (c, cm, ctx, s)"
  by (cases rounds) simp_all

lemma process_tables_keeps:
  assumes "tcams_ok X br hr ps"
  shows "cfr_wf c \<Longrightarrow> cfr_wf cm \<Longrightarrow> process_tables n depth X ps hash t c cm ctx s = Some (c', cm', ctx', s') \<Longrightarrow>
    cfr_wf c' \<and> cfr_wf cm' \<and> covers (cfr_words cm') (cfr_words cm) \<and> dl_type c' = dl_type c \<and> nw_proto c' = nw_proto c \<and> ctx_grows ctx ctx'"
proof (induction n arbitrary: t c cm ctx s)
  case 0
  then show ?case by (auto simp: covers_refl split: if_splits)
next
  case (Suc n)
  show ?case
  proof (cases "t = 255")
    case True
    then show ?thesis using Suc.prems by (simp add: covers_refl)
  next
    case False
    then obtain nx c1 cm1 ctx1 s1 where 1: "process_table depth X ps hash t c cm ctx s = Some (nx, c1, cm1, ctx1, s1)"
      "process_tables n depth X ps hash nx c1 cm1 ctx1 s1 = Some (c', cm', ctx', s')"
      using Suc.prems(3) by (auto split: Option.bind_splits)
    note k = process_table_keeps [OF assms Suc.prems(1,2) 1(1)]
    show ?thesis using Suc.IH [OF k(1,2) 1(2)] k covers_trans ctx_grows_trans by metis
  qed
qed

lemma process_tables_agree:
  assumes ok: "tcams_ok X br hr ps" "key_wf M" "pipeline_safe M ps" and F: "cfr_wf F"
  shows "cfr_wf c \<Longrightarrow> cfr_wf d \<Longrightarrow> cfr_wf cm \<Longrightarrow> process_tables n depth X ps hash t c cm ctx s = Some (c', cm', ctx', s') \<Longrightarrow>
    ctx_agree M ctx dtx \<Longrightarrow> ctx_covers M ctx' \<Longrightarrow> covers (cfr_words F) (cfr_words cm') \<Longrightarrow> cfr_agree F c d \<Longrightarrow>
    \<exists>d' dtx'. process_tables n depth X ps hash t d cm dtx s = Some (d', cm', dtx', s') \<and> ctx_agree M ctx' dtx'"
proof (induction n arbitrary: t c d cm ctx dtx s)
  case 0
  then show ?case by (auto split: if_splits)
next
  case (Suc n)
  show ?case
  proof (cases "t = 255")
    case True
    then show ?thesis using Suc.prems by auto
  next
    case False
    then obtain nx c1 cm1 ctx1 s1 where 1: "process_table depth X ps hash t c cm ctx s = Some (nx, c1, cm1, ctx1, s1)"
      "process_tables n depth X ps hash nx c1 cm1 ctx1 s1 = Some (c', cm', ctx', s')"
      using Suc.prems(4) by (auto split: Option.bind_splits)
    note k = process_table_keeps [OF ok(1) Suc.prems(1,3) 1(1)]
    have k2: "covers (cfr_words cm') (cfr_words cm1)" "ctx_grows ctx1 ctx'"
      using process_tables_keeps [OF ok(1) k(1,2) 1(2)] by auto
    obtain m where "ac_mask ctx1 = Some m" "key_wf m" by (rule ctx_grows_mask [OF k(6) Suc.prems(5)])
    then have cov: "ctx_covers M ctx1" using ctx_grows_covers [OF k2(2) Suc.prems(6)] by simp
    have covF: "covers (cfr_words F) (cfr_words cm1)" using covers_trans [OF Suc.prems(7) k2(1)] .
    obtain d1 dtx1 where 2: "process_table depth X ps hash t d cm dtx s = Some (nx, d1, cm1, dtx1, s1)"
      "cfr_wf d1" "cfr_agree F c1 d1" "ctx_agree M ctx1 dtx1"
      using process_table_agree [OF ok Suc.prems(1-3) F 1(1) Suc.prems(5) cov covF Suc.prems(8)] by auto
    show ?thesis
      using Suc.IH [OF k(1) 2(2) k(2) 1(2) 2(4) Suc.prems(6,7) 2(3)] 2(1) False by auto
  qed
qed

text \<open>The TTL bytes, which no mask covers, added to a mask.\<close>

definition mask_ttl :: "ind_ovs_parsed_key \<Rightarrow> ind_ovs_parsed_key" where
  "mask_ttl m = m\<lparr>pk_net := (pk_net m)[10 := 0xff, 38 := 0xff]\<rparr>"

definition same_ttl :: "ind_ovs_parsed_key \<Rightarrow> ind_ovs_parsed_key \<Rightarrow> bool" where
  "same_ttl k k' \<longleftrightarrow> pk_net k ! 10 = pk_net k' ! 10 \<and> pk_net k ! 38 = pk_net k' ! 38"

lemma bytes_agree_update:
  assumes "j < length m" "length x = length m" "length y = length m"
  shows "bytes_agree (m[j := 0xff]) x y \<longleftrightarrow> bytes_agree m x y \<and> x ! j = y ! j"
proof -
  have "(0xff :: u8) = - 1" by simp
  then have ff: "z AND 0xff = z" for z :: u8 by (simp only: and.right_neutral)
  have "(\<forall>i<length m. x ! i AND m[j := 0xff] ! i = y ! i AND m[j := 0xff] ! i) \<longleftrightarrow>
      (\<forall>i<length m. x ! i AND m ! i = y ! i AND m ! i) \<and> x ! j = y ! j" (is "?l \<longleftrightarrow> ?r")
  proof
    assume l: ?l
    then have j: "x ! j = y ! j" using assms(1) ff by (auto dest: spec [of _ j])
    have "x ! i AND m ! i = y ! i AND m ! i" if "i < length m" for i
      using l that j by (cases "i = j") (auto dest: spec [of _ i])
    then show ?r using j by blast
  next
    assume r: ?r
    have "x ! i AND m[j := 0xff] ! i = y ! i AND m[j := 0xff] ! i" if "i < length m" for i
      using r that by (cases "i = j") auto
    then show ?l by blast
  qed
  then show ?thesis using assms by (simp add: bytes_agree_nth)
qed

lemma mask_ttl_props:
  assumes "key_wf m"
  shows "key_wf (mask_ttl m)" "mask_covers (mask_ttl m) m" "key_wf k \<Longrightarrow> key_wf k' \<Longrightarrow> key_agree m k k' \<Longrightarrow> same_ttl k k' \<Longrightarrow> key_agree (mask_ttl m) k k'"
    "pipeline_safe (mask_ttl m) ps"
proof -
  show wf: "key_wf (mask_ttl m)" using assms by (simp add: mask_ttl_def key_wf_def)
  have net: "length (pk_net m) = 40" using assms by (simp add: key_wf_def)
  then have agree: "key_agree (mask_ttl m) k k' \<longleftrightarrow> key_agree m k k' \<and> same_ttl k k'" if "key_wf k" "key_wf k'" for k k'
    using that by (auto simp: key_agree_def mask_ttl_def same_ttl_def bytes_agree_update key_wf_def)
  then show "mask_covers (mask_ttl m) m" using assms by (simp add: mask_covers_def)
  show "key_wf k \<Longrightarrow> key_wf k' \<Longrightarrow> key_agree m k k' \<Longrightarrow> same_ttl k k' \<Longrightarrow> key_agree (mask_ttl m) k k'"
    using agree by simp
  have "attr_safe (mask_ttl m) a" for a using net by (simp add: attr_safe_def mask_ttl_def)
  then show "pipeline_safe (mask_ttl m) ps"
    by (simp add: pipeline_safe_def groups_safe_def xbuf_safe_def list_all_iff split: option.splits)
qed

text \<open>No action decrements the TTL.\<close>

definition no_dec_ttl :: "('b, 'h) pipeline_standard \<Rightarrow> bool" where
  "no_dec_ttl ps \<longleftrightarrow> pipeline_safe key_zero ps"

lemma no_dec_ttl_safe: "no_dec_ttl ps \<Longrightarrow> pipeline_safe M ps"
proof -
  have "attr_safe key_zero a \<Longrightarrow> attr_safe M a" for a by (simp add: attr_safe_def key_zero_def)
  then have "xbuf_safe key_zero x \<Longrightarrow> xbuf_safe M x" for x by (auto simp: xbuf_safe_def list_all_iff split: option.splits)
  then show "no_dec_ttl ps \<Longrightarrow> pipeline_safe M ps" by (fastforce simp: no_dec_ttl_def pipeline_safe_def groups_safe_def list_all_iff)
qed

text \<open>A mask under which the pipeline is sound, from the mask it accumulates.\<close>

lemma sound_mask:
  assumes "key_wf m" "key_wf k" "key_wf k'" "key_agree m k k'" "no_dec_ttl ps \<or> same_ttl k k'"
  obtains M where "key_wf M" "mask_covers M m" "key_agree M k k'" "pipeline_safe M ps"
  using assms mask_ttl_props [OF assms(1)] no_dec_ttl_safe [of ps m] by (metis mask_covers_refl)

lemma process_mask_sound:
  assumes ok: "tcams_ok X br hr ps" and wf: "key_wf k" "key_wf k'" "key_wf m" and k: "key_consistent k"
    and ttl: "no_dec_ttl ps \<or> same_ttl k k'"
    and ctx: "current_key ctx = k" "ac_mask ctx = Some m" and dtx: "dtx = ctx\<lparr>current_key := k'\<rparr>"
    and run: "pipeline_standard_process rounds depth X ps k msk stats ctx = Some (err, msk', stats', ctx')"
    and M: "ac_mask ctx' = Some M" "key_agree M k k'"
  shows "\<exists>dtx'. pipeline_standard_process rounds depth X ps k' msk stats dtx = Some (err, msk', stats', dtx') \<and> ac_msg dtx' = ac_msg ctx'"
proof -
  let ?E = "OVS_KEY_ATTR_ETHERNET" let ?m = "mask_attr ?E m"
  define c1 d1 where c1: "c1 = ctx\<lparr>ac_mask := Some ?m\<rparr>" and d1: "d1 = dtx\<lparr>ac_mask := Some ?m\<rparr>"
  have m: "key_wf ?m" using wf(3) by simp
  have upd: "mask_upd (mask_attr ?E) (ctx, msk) = (c1, msk)" "mask_upd (mask_attr ?E) (dtx, msk) = (d1, msk)"
    using ctx dtx by (simp_all add: mask_upd_def c1 d1)
  show ?thesis
  proof (cases "flowtable_at ps 0")
    case None
    then show ?thesis using run upd dtx by (auto simp: pipeline_standard_process_def c1 d1)
  next
    case (Some ft)
    let ?h = "\<lambda>k. ext_murmur_hash X (key_get ?E k) 0" let ?c = "\<lambda>k. pipeline_standard_key_to_cfr k cfr_zero"
    have z: "cfr_wf cfr_zero" by (simp add: cfr_wf_def cfr_zero_def)
    have c1m: "ac_mask c1 = Some ?m" by (simp add: c1)
    obtain cF cmF c2 where run1: "process_tables rounds depth X ps (?h k) 0 (?c k) cfr_zero c1 stats = Some (cF, cmF, c2, stats')"
      "mask_upd (\<lambda>m. translate_cfr_mask m cF cmF) (c2, msk) = (ctx', msk')" "err = ERROR_NONE"
      using run upd(1) Some by (auto simp: pipeline_standard_process_def Let_def split: Option.bind_splits prod.splits)
    note keeps = process_tables_keeps [OF ok key_to_cfr_wf [OF wf(1)] z run1(1)]
    obtain m2 where m2: "ac_mask c2 = Some m2" "mask_covers m2 ?m" "key_wf m2"
      using keeps c1m m unfolding ctx_grows_def by metis
    have run2: "ctx' = c2\<lparr>ac_mask := Some (translate_cfr_mask m2 cF cmF)\<rparr>" "msk' = msk"
      using run1(2) m2(1) by (simp_all add: mask_upd_def)
    have "key_agree (translate_cfr_mask m2 cF cmF) k k'" using M run2(1) by simp
    then have ag: "key_agree m2 k k'" "cfr_agree cmF (?c k) (?c k')"
      using key_to_cfr_agree [OF _ m2(3) wf(1,2) _ k, of cF cmF] keeps by (auto simp: key_to_cfr_sel)
    then have "key_agree ?m k k'" using m2(2) wf by (simp add: mask_covers_def)
    then have eth: "key_get ?E k = key_get ?E k'" using key_agree_mask_attr [OF wf(3,1,2)] by simp
    obtain M2 where M2: "key_wf M2" "mask_covers M2 m2" "key_agree M2 k k'" "pipeline_safe M2 ps"
      by (rule sound_mask [OF m2(3) wf(1,2) ag(1) ttl])
    have "ctx_agree M2 c1 d1" using M2(3) wf m ctx dtx by (simp add: ctx_agree_def c1 d1)
    moreover have "ctx_covers M2 c2" using M2(2) m2(1) by (simp add: ctx_covers_def)
    ultimately obtain dF d2 where d2: "process_tables rounds depth X ps (?h k) 0 (?c k') cfr_zero d1 stats = Some (dF, cmF, d2, stats')" "ctx_agree M2 c2 d2"
      using process_tables_agree [OF ok M2(1,4) _ key_to_cfr_wf [OF wf(1)] key_to_cfr_wf [OF wf(2)] z run1(1)] keeps ag(2) covers_refl by blast
    then have "ac_mask d2 = Some m2" "ac_msg d2 = ac_msg c2" using m2(1) by (simp_all add: ctx_agree_def)
    then show ?thesis using d2(1) Some upd(2) run2 run1(3) eth by (simp add: pipeline_standard_process_def mask_upd_def)
  qed
qed

subsection \<open>An example\<close>

text \<open>One table with one entry, which decrements the TTL of packets of a network and outputs them.\<close>

definition demo_ext :: "(u32 list, (u64 \<times> u32) list) std_ext" where
  "demo_ext = \<lparr>ext_tcam = list_env, ext_murmur_hash = (\<lambda>bs seed. seed + of_nat (length bs)), ext_junk = (\<lambda>_. 0), ext_netlink_port = 9\<rparr>"

definition demo_te :: tcam_entry where
  "demo_te = \<lparr>te_addr = 1, te_hash = 502274944, te_priority = 5,
     te_key = [0, 0, 0, 0, 1678770184, 0, 0, 10, 0, 0, 0, 0, 0, 0, 0, 0, 0, 0],
     te_mask = [0, 0, 0, 0, 4280287231, 0, 0, 255, 0, 0, 0, 0, 0, 0, 0, 0, 0, 0]\<rparr>"

definition demo_tcam :: "(u32 list, (u64 \<times> u32) list) tcam" where
  "demo_tcam = tcam_insert list_env (the (tcam_create list_env 72 7)) 1 100 (te_key demo_te) (te_mask demo_te) 5"

lemma demo_tcam_code [code]:
  "demo_tcam = \<lparr>shard_hashtable = [(100, 3839892204)],
     shard_list = [\<lparr>sh_addr = 100, sh_mask = te_mask demo_te, sh_count = 1, sh_buckets_size = 16, sh_buckets = [demo_te] # replicate 15 [], sh_bloom = [te_hash demo_te]\<rparr>],
     key_size = 72, tcam_salt = 7\<rparr>"
  by code_simp

definition demo_flow :: flowtable_entry where
  "demo_flow = \<lparr>fe_tcam_entry = demo_te, fe_value = value_zero\<lparr>apply_actions := demo_dec_ttl, next_table_id := 255\<rparr>,
     fe_stats_handle = 40, last_hit_check_packets = 0, fe_table_miss = False\<rparr>"

definition demo_pipeline :: "(u32 list, (u64 \<times> u32) list) pipeline_standard" where
  "demo_pipeline = \<lparr>ps_core = \<lparr>st_stats = \<lparr>free_stack = (\<lambda>_. 0), num_free = 0, stats_writers = []\<rparr>, st_log = [], st_groups = demo_groups\<rparr>, openflow_version = 4,
     flowtables = [Some \<lparr>ft_tcam = demo_tcam, matched_stats_handle = 0, missed_stats_handle = 1, ft_table_id = 0\<rparr>],
     ps_entries = [1 \<mapsto> demo_flow], pktin_registered = True\<rparr>"

definition demo_process :: "ind_ovs_parsed_key \<Rightarrow> (error \<times> ind_ovs_parsed_key \<times> xbuf \<times> action_context) option" where
  "demo_process k = pipeline_standard_process 16 1 demo_ext demo_pipeline k key_zero demo_empty (action_context_init k (Some key_zero) [])"


definition demo_key2 :: ind_ovs_parsed_key where
  "demo_key2 = demo_key\<lparr>pk_tp := [1, 187, 9, 9] @ replicate 20 0\<rparr>"

definition demo_hit :: "(action_context \<times> xbuf) option" where
  "demo_hit = process_hit 1 demo_ext demo_pipeline 12 (the (flowtable_at demo_pipeline 0)) demo_flow
     (action_context_init demo_key (Some (mask_attr OVS_KEY_ATTR_ETHERNET key_zero)) []) demo_empty"

definition demo_m :: ind_ovs_parsed_key where
  "demo_m = key_zero\<lparr>eth_src := replicate 6 255, eth_dst := replicate 6 255, pk_net := replicate 12 255 @ replicate 28 0\<rparr>"

definition demo_mask :: ind_ovs_parsed_key where
  "demo_mask = translate_cfr_mask demo_m (pipeline_standard_key_to_cfr demo_key cfr_zero) (cfr_of_words (te_mask demo_te))"

lemma demo_lookup:
  "tcam_match_and_mask list_env demo_tcam (cfr_words (pipeline_standard_key_to_cfr demo_key cfr_zero)) (Some (cfr_words cfr_zero)) =
    (Some demo_te, Some (te_mask demo_te))"
  by code_simp

lemma demo_hit_ok: "map_option (ac_mask \<circ> fst) demo_hit = Some (Some demo_m)"
  by code_simp

lemma demo_mask_agree: "key_agree demo_mask demo_key demo_key2" "key_consistent demo_key" "same_ttl demo_key demo_key2" "key_wf demo_key2"
  by code_simp+

lemma demo_process_hit:
  obtains stats ctx where "demo_process demo_key = Some (ERROR_NONE, key_zero, stats, ctx)" "ac_mask ctx = Some demo_mask" "ctx\<lparr>ac_mask := None\<rparr> = (fst (the demo_hit))\<lparr>ac_mask := None\<rparr>"
proof -
  obtain c s where h: "demo_hit = Some (c, s)" "ac_mask c = Some demo_m" using demo_hit_ok by (auto simp del: demo_hit_def)
  let ?c = "action_context_init demo_key (Some (mask_attr OVS_KEY_ATTR_ETHERNET key_zero)) []"
  obtain ft where at: "flowtable_at demo_pipeline 0 = Some ft" "ft_tcam ft = demo_tcam"
    by (simp add: flowtable_at_def demo_pipeline_def)
  have ext: "ext_tcam demo_ext = list_env" "ext_murmur_hash demo_ext (key_get OVS_KEY_ATTR_ETHERNET demo_key) 0 = 12"
    "mask_upd (mask_attr OVS_KEY_ATTR_ETHERNET) (action_context_init demo_key (Some key_zero) [], key_zero) = (?c, key_zero)"
    by (simp add: demo_ext_def, code_simp, simp add: mask_upd_def action_context_init_def)
  have flow: "ps_entries demo_pipeline (te_addr demo_te) = Some demo_flow" "next_table_id (fe_value demo_flow) = 255"
    by (simp_all add: demo_pipeline_def demo_te_def demo_flow_def)
  have "process_table 1 demo_ext demo_pipeline 12 0 (pipeline_standard_key_to_cfr demo_key cfr_zero) cfr_zero ?c demo_empty =
      Some (255, pipeline_standard_key_to_cfr demo_key cfr_zero, cfr_of_words (te_mask demo_te), c, s)"
    using h(1) at flow demo_lookup ext(1) by (simp add: process_table_def demo_hit_def del: One_nat_def)
  then have "process_tables (Suc n) 1 demo_ext demo_pipeline 12 0 (pipeline_standard_key_to_cfr demo_key cfr_zero) cfr_zero ?c demo_empty =
      Some (pipeline_standard_key_to_cfr demo_key cfr_zero, cfr_of_words (te_mask demo_te), c, s)" for n
    by (simp add: process_tables_stop del: One_nat_def)
  from this [of 15] have "demo_process demo_key = Some (ERROR_NONE, key_zero, s, c\<lparr>ac_mask := Some demo_mask\<rparr>)"
    using h at ext by (simp add: demo_process_def pipeline_standard_process_def mask_upd_def demo_mask_def del: One_nat_def)
  then show thesis by (rule that) (simp_all add: h)
qed

lemma demo_tcams_ok: "tcams_ok demo_ext list_bloom_rep list_hash_rep demo_pipeline"
proof -
  let ?t = "the (tcam_create list_env 72 7)"
  have t: "tcam_create list_env 72 7 = Some ?t" by (simp add: tcam_create_def)
  then have "key_words ?t = 18" "shard_list ?t = []" by (auto simp: tcam_create_def key_words_def)
  then have "tcam_inv list_env list_bloom_rep list_hash_rep demo_tcam" "key_words demo_tcam = 18"
    using tcam_insert_inv [OF tcam_create_inv(1) [OF list_env_ok t], of "te_key demo_te" "te_mask demo_te" 1 100 5]
    by (simp_all add: demo_tcam_def demo_te_def tcam_entries_def)
  then show ?thesis by (auto simp: tcams_ok_def flowtable_at_def demo_pipeline_def demo_ext_def)
qed

subsection \<open>Properties\<close>



end
