(* ===== verification/Pipeline.thy ===== *)
theory Pipeline
  imports Pipeline_Standard
begin

text \<open>
  The forwarding pipelines (\<open>pipeline/module/src/pipeline.c\<close>, \<open>pipeline_reflect/module/src/pipeline_reflect.c\<close>):
  the registry of implementations, the choice of the current one, and the entry point for packets, which handles the
  in-band management VLAN itself. The state that the implementations share is a type parameter; the in-band VLAN and
  the uplinks belong to the driver and come as a record.
\<close>

subsection \<open>State\<close>

definition MAX_PIPELINES :: nat where "MAX_PIPELINES = 16"
definition VLAN_INVALID :: u16 where "VLAN_INVALID = 4095"
definition IVS_INBAND_PORT :: u32 where "IVS_INBAND_PORT = 1000"

text \<open>LOCI's \<open>OF_PORT_DEST_NONE\<close>.\<close>

definition OF_PORT_DEST_NONE :: u32 where "OF_PORT_DEST_NONE = 0xffffffff"

type_synonym process_fn =
  "ind_ovs_parsed_key \<Rightarrow> ind_ovs_parsed_key \<Rightarrow> xbuf \<Rightarrow> action_context \<Rightarrow> (error \<times> ind_ovs_parsed_key \<times> xbuf \<times> action_context) option"

record 'st pipeline_ops =
  op_init :: "string \<Rightarrow> 'st \<Rightarrow> 'st option"
  op_finish :: "'st \<Rightarrow> 'st option"
  op_process :: "'st \<Rightarrow> process_fn"

record 'st pipeline =
  pl_name :: string
  pl_ops :: "'st pipeline_ops"

record 'st pipeline_module =
  pipelines :: "'st pipeline option list"
  current_pipeline :: "nat option"
  queue_priority_inband :: int
  pl_state :: 'st

definition pipeline_module_start :: "'st \<Rightarrow> 'st pipeline_module" where
  "pipeline_module_start s = \<lparr>pipelines = replicate MAX_PIPELINES None, current_pipeline = None, queue_priority_inband = - 1, pl_state = s\<rparr>"

record inband =
  ind_ovs_inband_vlan :: u16
  ib_uplink_check :: "u32 \<Rightarrow> bool"
  ib_uplink_select :: u32

subsection \<open>The registry\<close>

text \<open>The first free slot takes the pipeline; a duplicate before it, or no slot, is fatal.\<close>

fun register_loop :: "'st pipeline \<Rightarrow> 'st pipeline option list \<Rightarrow> 'st pipeline option list option" where
  "register_loop p [] = None"
| "register_loop p (None # ps) = Some (Some p # ps)"
| "register_loop p (Some q # ps) = (if pl_name q = pl_name p then None else map_option ((#) (Some q)) (register_loop p ps))"

definition pipeline_register :: "string \<Rightarrow> 'st pipeline_ops \<Rightarrow> 'st pipeline_module \<Rightarrow> 'st pipeline_module option" where
  "pipeline_register name ops pm =
     do { ps \<leftarrow> register_loop \<lparr>pl_name = name, pl_ops = ops\<rparr> (pipelines pm); Some (pm\<lparr>pipelines := ps\<rparr>) }"

text \<open>The loop of \<open>pipeline_set\<close>: the last slot with the name, from index \<open>i\<close> on.\<close>

fun find_pipeline :: "string \<Rightarrow> nat \<Rightarrow> 'st pipeline option list \<Rightarrow> nat option \<Rightarrow> nat option" where
  "find_pipeline name i [] found = found"
| "find_pipeline name i (p # ps) found =
     find_pipeline name (Suc i) ps (case p of None \<Rightarrow> found | Some q \<Rightarrow> if pl_name q = name then Some i else found)"

definition pipeline_at :: "'st pipeline_module \<Rightarrow> nat \<Rightarrow> 'st pipeline option" where
  "pipeline_at pm i = (if i < length (pipelines pm) then pipelines pm ! i else None)"

definition pipeline_finish :: "'st pipeline_module \<Rightarrow> 'st pipeline_module option" where
  "pipeline_finish pm =
     (case current_pipeline pm of
        None \<Rightarrow> Some pm
      | Some i \<Rightarrow>
          do {
            p \<leftarrow> pipeline_at pm i;
            s \<leftarrow> op_finish (pl_ops p) (pl_state pm);
            Some (pm\<lparr>current_pipeline := None, pl_state := s\<rparr>)
          })"

definition pipeline_set :: "string option \<Rightarrow> 'st pipeline_module \<Rightarrow> (error \<times> 'st pipeline_module) option" where
  "pipeline_set name pm =
     (case name of
        None \<Rightarrow>
          if current_pipeline pm = None then Some (ERROR_NONE, pm)
          else do { pm \<leftarrow> pipeline_finish pm; Some (ERROR_NONE, pm) }
      | Some n \<Rightarrow>
          (case find_pipeline n 0 (pipelines pm) None of
             None \<Rightarrow> Some (ERROR_NOT_FOUND, pm)
           | Some i \<Rightarrow>
               if current_pipeline pm = Some i then Some (ERROR_NONE, pm)
               else do {
                 pm \<leftarrow> pipeline_finish pm;
                 p \<leftarrow> pipeline_at pm i;
                 s \<leftarrow> op_init (pl_ops p) n (pl_state pm);
                 Some (ERROR_NONE, pm\<lparr>current_pipeline := Some i, pl_state := s\<rparr>)
               }))"

definition pipeline_get :: "'st pipeline_module \<Rightarrow> string option" where
  "pipeline_get pm = do { i \<leftarrow> current_pipeline pm; p \<leftarrow> pipeline_at pm i; Some (pl_name p) }"

text \<open>\<open>strncpy\<close> into strings of \<open>n\<close> characters.\<close>

definition pipeline_list :: "nat \<Rightarrow> 'st pipeline_module \<Rightarrow> string list \<times> nat" where
  "pipeline_list n pm = (let names = map (\<lambda>p. take n (pl_name p)) (List.map_filter id (pipelines pm)) in (names, length names))"

definition pipeline_inband_queue_priority_set :: "int \<Rightarrow> 'st pipeline_module \<Rightarrow> 'st pipeline_module" where
  "pipeline_inband_queue_priority_set p pm = pm\<lparr>queue_priority_inband := p\<rparr>"

subsection \<open>Packets\<close>

text \<open>From the uplink to the management interface, and back.\<close>

definition inband_receive :: "action_context \<Rightarrow> action_context" where
  "inband_receive actx = action_output (action_pop_vlan actx) IVS_INBAND_PORT"

definition inband_send :: "inband \<Rightarrow> int \<Rightarrow> action_context \<Rightarrow> action_context" where
  "inband_send ib prio actx =
     (if ib_uplink_select ib \<noteq> OF_PORT_DEST_NONE
      then let actx = action_push_vlan actx;
               actx = action_set_vlan_vid actx (ind_ovs_inband_vlan ib);
               actx = (if prio \<noteq> - 1 then action_set_priority actx (of_int prio) else actx)
           in action_output actx (ib_uplink_select ib)
      else actx)"

text \<open>The prologue of \<open>pipeline_process\<close>: the mask always has the port and the attributes that are present.\<close>

definition process_prologue :: "ind_ovs_parsed_key \<Rightarrow> action_context \<times> ind_ovs_parsed_key \<Rightarrow> action_context \<times> ind_ovs_parsed_key" where
  "process_prologue key cm = mask_upd (\<lambda>m. m\<lparr>pk_in_port := - 1, populated := ATTR_BITMAP_SET (populated key) OVS_KEY_ATTR_ETHERTYPE\<rparr>) cm"

definition process_current :: "process_fn \<Rightarrow> inband \<Rightarrow> int \<Rightarrow> process_fn" where
  "process_current process ib prio key msk stats actx =
     (let (actx, msk) = process_prologue key (actx, msk)
      in if ind_ovs_inband_vlan ib \<noteq> VLAN_INVALID \<and> ib_uplink_check ib (pk_in_port key)
         then let (actx, msk) = mask_upd (\<lambda>m. m\<lparr>pk_vlan := - 1\<rparr>) (actx, msk)
              in if VLAN_VID (ntohs (pk_vlan key)) = ind_ovs_inband_vlan ib
                 then Some (ERROR_NONE, msk, stats, inband_receive actx)
                 else process key msk stats actx
         else if ind_ovs_inband_vlan ib \<noteq> VLAN_INVALID \<and> pk_in_port key = IVS_INBAND_PORT
         then Some (ERROR_NONE, msk, stats, inband_send ib prio actx)
         else process key msk stats actx)"

definition pipeline_process :: "inband \<Rightarrow> 'st pipeline_module \<Rightarrow> process_fn" where
  "pipeline_process ib pm key msk stats actx =
     do {
       i \<leftarrow> current_pipeline pm;
       p \<leftarrow> pipeline_at pm i;
       process_current (op_process (pl_ops p) (pl_state pm)) ib (queue_priority_inband pm) key msk stats actx
     }"

subsection \<open>The reflecting pipeline\<close>

text \<open>
  \<open>delay\<close> is the environment's \<open>IVS_REFLECT_DELAY\<close>; the wait for a delay reads the clock until
  it has passed the end time.
\<close>

definition pipeline_reflect_init :: "u64 option \<Rightarrow> u64" where
  "pipeline_reflect_init delay = (case delay of None \<Rightarrow> 0 | Some d \<Rightarrow> d)"

definition monotonic_ns :: "u64 \<Rightarrow> u64 \<Rightarrow> u64" where
  "monotonic_ns tv_sec tv_nsec = tv_sec * 1000 * 1000 * 1000 + tv_nsec"

primrec reflect_wait :: "(nat \<Rightarrow> u64) \<Rightarrow> u64 \<Rightarrow> nat \<Rightarrow> nat \<Rightarrow> nat option" where
  "reflect_wait clock end_time i 0 = None"
| "reflect_wait clock end_time i (Suc n) = (if clock i \<le> end_time then reflect_wait clock end_time (Suc i) n else Some (Suc i))"

definition reflect_delay :: "(nat \<Rightarrow> u64) \<Rightarrow> u64 \<Rightarrow> nat \<Rightarrow> nat option" where
  "reflect_delay clock delay_ns n = (if delay_ns > 0 then reflect_wait clock (clock 0 + delay_ns) 1 n else Some 0)"

definition pipeline_reflect_process :: "(nat \<Rightarrow> u64) \<Rightarrow> nat \<Rightarrow> u64 \<Rightarrow> process_fn" where
  "pipeline_reflect_process clock n delay_ns key msk stats actx =
     do {
       _ \<leftarrow> reflect_delay clock delay_ns n;
       let (actx, msk) = mask_upd (\<lambda>m. m\<lparr>pk_in_port := - 1\<rparr>) (actx, msk);
       Some (ERROR_NONE, msk, stats, action_output actx (pk_in_port key))
     }"

subsection \<open>Pipelines with sound masks\<close>

text \<open>
  For a first packet \<open>k\<close>, processing gives a mask; a packet \<open>k'\<close> that agrees with \<open>k\<close> on it
  also agrees on the mask before, and is processed with the same verdict, counters and actions.
\<close>

definition masks_soundly :: "process_fn \<Rightarrow> ind_ovs_parsed_key \<Rightarrow> ind_ovs_parsed_key \<Rightarrow> bool" where
  "masks_soundly process k k' \<longleftrightarrow> (\<forall>m msk stats ctx err msk' stats' ctx'. key_wf m \<longrightarrow> current_key ctx = k \<longrightarrow> ac_mask ctx = Some m \<longrightarrow>
     process k msk stats ctx = Some (err, msk', stats', ctx') \<longrightarrow>
     (\<exists>M. ac_mask ctx' = Some M \<and> (key_agree M k k' \<longrightarrow> key_agree m k k' \<and>
       (\<exists>dtx'. process k' msk stats (ctx\<lparr>current_key := k'\<rparr>) = Some (err, msk', stats', dtx') \<and> ac_msg dtx' = ac_msg ctx'))))"

lemma masks_soundlyI:
  assumes "\<And>m msk stats ctx err msk' stats' ctx'. key_wf m \<Longrightarrow> current_key ctx = k \<Longrightarrow> ac_mask ctx = Some m \<Longrightarrow>
    process k msk stats ctx = Some (err, msk', stats', ctx') \<Longrightarrow>
    \<exists>M. ac_mask ctx' = Some M \<and> (key_agree M k k' \<longrightarrow> key_agree m k k' \<and>
       (\<exists>dtx'. process k' msk stats (ctx\<lparr>current_key := k'\<rparr>) = Some (err, msk', stats', dtx') \<and> ac_msg dtx' = ac_msg ctx'))"
  shows "masks_soundly process k k'"
  using assms unfolding masks_soundly_def by blast

lemma masks_soundlyD:
  assumes "masks_soundly process k k'" "key_wf m" "current_key ctx = k" "ac_mask ctx = Some m" "process k msk stats ctx = Some (err, msk', stats', ctx')"
  obtains M where "ac_mask ctx' = Some M" "key_agree M k k' \<Longrightarrow> key_agree m k k'"
    "key_agree M k k' \<Longrightarrow> \<exists>dtx'. process k' msk stats (ctx\<lparr>current_key := k'\<rparr>) = Some (err, msk', stats', dtx') \<and> ac_msg dtx' = ac_msg ctx'"
  using assms unfolding masks_soundly_def by metis

text \<open>A fixed sequence of actions is processed soundly.\<close>

lemma actions_sound:
  assumes "key_wf k" "key_wf k'" "key_wf m" "current_key ctx = k" "ac_mask ctx = Some m" "list_all action_op_ok ops"
  shows "\<exists>M. ac_mask (fold action_step ops ctx) = Some M \<and> (key_agree M k k' \<longrightarrow> key_agree m k k' \<and>
    ac_msg (fold action_step ops (ctx\<lparr>current_key := k'\<rparr>)) = ac_msg (fold action_step ops ctx))"
proof -
  have g: "ctx_grows e (fold action_step ops e)" for e by (induction ops arbitrary: e) (auto intro: ctx_grows_trans action_step_grows)
  obtain M where M: "ac_mask (fold action_step ops ctx) = Some M" "mask_covers M m" "key_wf M"
    using g [of ctx] assms(3,5) unfolding ctx_grows_def by blast
  have "key_agree m k k' \<and> ac_msg (fold action_step ops (ctx\<lparr>current_key := k'\<rparr>)) = ac_msg (fold action_step ops ctx)" if ag: "key_agree M k k'"
  proof -
    have "ctx_agree M ctx (ctx\<lparr>current_key := k'\<rparr>)" using assms ag by (simp add: ctx_agree_def)
    then have "ctx_agree M (fold action_step ops ctx) (fold action_step ops (ctx\<lparr>current_key := k'\<rparr>))"
      using actions_agree [OF _ assms(6)] M by (simp add: ctx_covers_def)
    then show ?thesis using M(2) assms(1,2) ag by (auto simp: mask_covers_def ctx_agree_def)
  qed
  then show ?thesis using M(1) by blast
qed

lemma ctx_swap: "ctx\<lparr>ac_mask := x, current_key := j\<rparr> = ctx\<lparr>current_key := j, ac_mask := x\<rparr>" for ctx :: action_context
  by (cases ctx) simp

lemma key_agree_in_port: "key_agree (m\<lparr>pk_in_port := - 1, populated := p\<rparr>) k k' \<longleftrightarrow> key_agree m k k' \<and> pk_in_port k = pk_in_port k'"
  by (auto simp: key_agree_def word_agree_full)

lemma key_agree_vlan: "key_agree (m\<lparr>pk_vlan := - 1\<rparr>) k k' \<longleftrightarrow> key_agree m k k' \<and> pk_vlan k = pk_vlan k'"
  by (auto simp: key_agree_def word_agree_full)

definition inband_send_ops :: "inband \<Rightarrow> int \<Rightarrow> action_op list" where
  "inband_send_ops ib prio = (if ib_uplink_select ib \<noteq> OF_PORT_DEST_NONE
     then [PushVlan, SetVlanVid (ind_ovs_inband_vlan ib)] @ (if prio \<noteq> - 1 then [SetPriority (of_int prio)] else []) @ [Output (ib_uplink_select ib)] else [])"

lemma inband_ops: "inband_receive = fold action_step [PopVlan, Output IVS_INBAND_PORT]" "inband_send ib prio = fold action_step (inband_send_ops ib prio)"
  "list_all action_op_ok (inband_send_ops ib prio)"
  by (auto simp: inband_receive_def inband_send_def inband_send_ops_def fun_eq_iff)

subsection \<open>The interface of an implementation\<close>

text \<open>What an implementation promises: sound masks, for packets that satisfy its own side condition.\<close>

locale mask_sound_pipeline =
  fixes process :: process_fn and ok :: "ind_ovs_parsed_key \<Rightarrow> ind_ovs_parsed_key \<Rightarrow> bool"
  assumes process_sound: "key_wf k \<Longrightarrow> key_wf k' \<Longrightarrow> ok k k' \<Longrightarrow> masks_soundly process k k'"
begin

lemma inband_sound:
  assumes "key_wf k" "key_wf k'" "ok k k'"
  shows "masks_soundly (process_current process ib prio) k k'"
proof (rule masks_soundlyI)
  fix m msk stats ctx err msk' stats' ctx'
  assume m: "key_wf m" and ctx: "current_key ctx = k" "ac_mask ctx = Some m"
    and run: "process_current process ib prio k msk stats ctx = Some (err, msk', stats', ctx')"
  let ?m1 = "\<lambda>k. m\<lparr>pk_in_port := - 1, populated := ATTR_BITMAP_SET (populated k) OVS_KEY_ATTR_ETHERTYPE\<rparr>"
  let ?m2 = "\<lambda>k. (?m1 k)\<lparr>pk_vlan := - 1\<rparr>"
  let ?c1 = "ctx\<lparr>ac_mask := Some (?m1 k)\<rparr>" let ?c2 = "ctx\<lparr>ac_mask := Some (?m2 k)\<rparr>"
  have wf: "key_wf (?m1 k)" "key_wf (?m2 k)" using m by (simp_all add: key_wf_def)
  have eq: "populated k = populated k'" "key_agree m k k'" "pk_in_port k = pk_in_port k'" if "key_agree (?m1 k) k k'"
    using that by (simp_all add: key_agree_in_port) (simp add: key_agree_def)
  have eq2: "key_agree (?m1 k) k k'" "pk_vlan k = pk_vlan k'" if "key_agree (?m2 k) k k'" using that by (simp_all add: key_agree_vlan)
  have upd: "process_prologue key (ctx\<lparr>current_key := j\<rparr>, msk) = (ctx\<lparr>current_key := j, ac_mask := Some (?m1 key)\<rparr>, msk)"
    "mask_upd (\<lambda>m. m\<lparr>pk_vlan := - 1\<rparr>) (ctx\<lparr>current_key := j, ac_mask := Some (?m1 key)\<rparr>, msk) = (ctx\<lparr>current_key := j, ac_mask := Some (?m2 key)\<rparr>, msk)" for key j
    using ctx by (simp_all add: process_prologue_def mask_upd_def)
  have ctxk: "ctx\<lparr>current_key := k\<rparr> = ctx" "ctx\<lparr>current_key := k, ac_mask := x\<rparr> = ctx\<lparr>ac_mask := x\<rparr>" for x using ctx by (cases ctx; simp)+
  note upd0 = upd [of k k, unfolded ctxk]
  note S = masks_soundlyD [OF process_sound [OF assms]]
  note cur = process_current_def upd0 upd ctx_swap
  consider (rx) "ind_ovs_inband_vlan ib \<noteq> VLAN_INVALID" "ib_uplink_check ib (pk_in_port k)" "VLAN_VID (ntohs (pk_vlan k)) = ind_ovs_inband_vlan ib"
    | (up) "ind_ovs_inband_vlan ib \<noteq> VLAN_INVALID" "ib_uplink_check ib (pk_in_port k)" "VLAN_VID (ntohs (pk_vlan k)) \<noteq> ind_ovs_inband_vlan ib"
    | (tx) "ind_ovs_inband_vlan ib \<noteq> VLAN_INVALID" "\<not> ib_uplink_check ib (pk_in_port k)" "pk_in_port k = IVS_INBAND_PORT"
    | (no) "ind_ovs_inband_vlan ib = VLAN_INVALID \<or> \<not> ib_uplink_check ib (pk_in_port k) \<and> pk_in_port k \<noteq> IVS_INBAND_PORT" by blast
  then show "\<exists>M. ac_mask ctx' = Some M \<and> (key_agree M k k' \<longrightarrow> key_agree m k k' \<and>
      (\<exists>dtx'. process_current process ib prio k' msk stats (ctx\<lparr>current_key := k'\<rparr>) = Some (err, msk', stats', dtx') \<and> ac_msg dtx' = ac_msg ctx'))"
  proof cases
    case rx
    then have r: "ctx' = inband_receive ?c2" "msk' = msk" "stats' = stats" "err = ERROR_NONE" using run by (simp_all add: cur)
    obtain M where M: "ac_mask ctx' = Some M" "key_agree M k k' \<longrightarrow> key_agree (?m2 k) k k' \<and> ac_msg (inband_receive (?c2\<lparr>current_key := k'\<rparr>)) = ac_msg ctx'"
      using actions_sound [OF assms(1,2) wf(2), of ?c2 "[PopVlan, Output IVS_INBAND_PORT]"] ctx(1) unfolding r(1) inband_ops by auto
    have "process_current process ib prio k' msk stats (ctx\<lparr>current_key := k'\<rparr>) = Some (err, msk', stats', inband_receive (?c2\<lparr>current_key := k'\<rparr>))"
      if "key_agree (?m2 k) k k'" using rx eq [OF eq2(1) [OF that]] eq2(2) [OF that] r by (simp add: cur)
    then show ?thesis using M eq(2) eq2(1) by blast
  next
    case up
    then have r: "process k msk stats ?c2 = Some (err, msk', stats', ctx')" using run by (simp add: cur)
    obtain M where M: "ac_mask ctx' = Some M" "key_agree M k k' \<Longrightarrow> key_agree (?m2 k) k k'" "key_agree M k k' \<Longrightarrow>
        \<exists>dtx'. process k' msk stats (?c2\<lparr>current_key := k'\<rparr>) = Some (err, msk', stats', dtx') \<and> ac_msg dtx' = ac_msg ctx'"
      by (rule S [OF wf(2) _ _ r]) (use ctx in auto)
    have "process_current process ib prio k' msk stats (ctx\<lparr>current_key := k'\<rparr>) = process k' msk stats (?c2\<lparr>current_key := k'\<rparr>)"
      if "key_agree (?m2 k) k k'" using up eq [OF eq2(1) [OF that]] eq2(2) [OF that] by (simp add: cur)
    then show ?thesis using M eq(2) eq2(1) by metis
  next
    case tx
    then have r: "ctx' = inband_send ib prio ?c1" "msk' = msk" "stats' = stats" "err = ERROR_NONE" using run by (simp_all add: cur)
    obtain M where M: "ac_mask ctx' = Some M" "key_agree M k k' \<longrightarrow> key_agree (?m1 k) k k' \<and> ac_msg (inband_send ib prio (?c1\<lparr>current_key := k'\<rparr>)) = ac_msg ctx'"
      using actions_sound [OF assms(1,2) wf(1), of ?c1 "inband_send_ops ib prio"] ctx(1) inband_ops(3) unfolding r(1) inband_ops by auto
    have "process_current process ib prio k' msk stats (ctx\<lparr>current_key := k'\<rparr>) = Some (err, msk', stats', inband_send ib prio (?c1\<lparr>current_key := k'\<rparr>))"
      if "key_agree (?m1 k) k k'" using tx eq [OF that] r by (auto simp: cur)
    then show ?thesis using M eq(2) by blast
  next
    case no
    then have r: "process k msk stats ?c1 = Some (err, msk', stats', ctx')" using run by (auto simp: cur)
    obtain M where M: "ac_mask ctx' = Some M" "key_agree M k k' \<Longrightarrow> key_agree (?m1 k) k k'" "key_agree M k k' \<Longrightarrow>
        \<exists>dtx'. process k' msk stats (?c1\<lparr>current_key := k'\<rparr>) = Some (err, msk', stats', dtx') \<and> ac_msg dtx' = ac_msg ctx'"
      by (rule S [OF wf(1) _ _ r]) (use ctx in auto)
    have "process_current process ib prio k' msk stats (ctx\<lparr>current_key := k'\<rparr>) = process k' msk stats (?c1\<lparr>current_key := k'\<rparr>)"
      if "key_agree (?m1 k) k k'" using no eq [OF that] by (auto simp: cur)
    then show ?thesis using M eq(2) by metis
  qed
qed

end

text \<open>The standard pipeline only adds to the mask.\<close>

lemma std_process_mask:
  assumes ok: "tcams_ok X br hr ps" and wf: "key_wf k" "key_wf m" and k: "key_consistent k" and ctx: "current_key ctx = k" "ac_mask ctx = Some m"
    and run: "pipeline_standard_process rounds depth X ps k msk stats ctx = Some (err, msk', stats', ctx')"
  shows "\<exists>M. ac_mask ctx' = Some M \<and> (\<forall>k'. key_wf k' \<longrightarrow> key_agree M k k' \<longrightarrow> key_agree m k k')"
proof -
  let ?E = "OVS_KEY_ATTR_ETHERNET" let ?m = "mask_attr ?E m" let ?c = "pipeline_standard_key_to_cfr k cfr_zero"
  define c1 where c1: "c1 = ctx\<lparr>ac_mask := Some ?m\<rparr>"
  have upd: "mask_upd (mask_attr ?E) (ctx, msk) = (c1, msk)" using ctx by (simp add: mask_upd_def c1)
  have m: "key_wf ?m" "mask_covers ?m m" using wf(2) mask_covers_attr by simp_all
  have wk: "\<And>k'. key_wf k' \<Longrightarrow> key_agree ?m k k' \<Longrightarrow> key_agree m k k'" using m(2) wf(1) by (simp add: mask_covers_def)
  show ?thesis
  proof (cases "flowtable_at ps 0")
    case None
    then have "ctx' = c1" using run upd by (simp add: pipeline_standard_process_def)
    then show ?thesis using wk by (simp add: c1)
  next
    case (Some ft)
    have z: "cfr_wf cfr_zero" by (simp add: cfr_wf_def cfr_zero_def)
    obtain cF cmF c2 where r: "process_tables rounds depth X ps (ext_murmur_hash X (key_get ?E k) 0) 0 ?c cfr_zero c1 stats = Some (cF, cmF, c2, stats')"
      "mask_upd (\<lambda>m. translate_cfr_mask m cF cmF) (c2, msk) = (ctx', msk')"
      using run upd Some by (auto simp: pipeline_standard_process_def Let_def split: Option.bind_splits prod.splits)
    note keeps = process_tables_keeps [OF ok key_to_cfr_wf [OF wf(1)] z r(1)]
    have "ac_mask c1 = Some ?m" by (simp add: c1)
    then obtain m2 where m2: "ac_mask c2 = Some m2" "mask_covers m2 ?m" "key_wf m2" using keeps m(1) unfolding ctx_grows_def by metis
    have "ac_mask ctx' = Some (translate_cfr_mask m2 cF cmF)" using r(2) m2(1) by (simp add: mask_upd_def) fastforce
    moreover have "key_agree m k k'" if "key_wf k'" "key_agree (translate_cfr_mask m2 cF cmF) k k'" for k'
    proof -
      have "key_agree m2 k k'" using key_to_cfr_agree [OF that(2) m2(3) wf(1) that(1) _ k] keeps by (auto simp: key_to_cfr_sel)
      then show ?thesis using m2(2) wf(1) that(1) wk by (simp add: mask_covers_def)
    qed
    ultimately show ?thesis by blast
  qed
qed

text \<open>The side condition of the standard pipeline: well-formed tables, a key as the kernel builds it, and no TTL expiry to tell the packets apart.\<close>

definition std_ok :: "('b, 'h) std_ext \<Rightarrow> ('b \<Rightarrow> u32 multiset \<Rightarrow> bool) \<Rightarrow> ('h \<Rightarrow> (u64 \<times> u32) set \<Rightarrow> bool) \<Rightarrow> ('b, 'h) pipeline_standard \<Rightarrow>
    ind_ovs_parsed_key \<Rightarrow> ind_ovs_parsed_key \<Rightarrow> bool" where
  "std_ok X br hr ps k k' \<longleftrightarrow> tcams_ok X br hr ps \<and> key_consistent k \<and> (no_dec_ttl ps \<or> same_ttl k k')"

interpretation std: mask_sound_pipeline "pipeline_standard_process rounds depth X ps" "std_ok X br hr ps" for rounds depth X ps br hr
proof
  fix k k' assume wf: "key_wf k" "key_wf k'" and ok: "std_ok X br hr ps k k'"
  then have o: "tcams_ok X br hr ps" "key_consistent k" "no_dec_ttl ps \<or> same_ttl k k'" by (simp_all add: std_ok_def)
  show "masks_soundly (pipeline_standard_process rounds depth X ps) k k'"
  proof (rule masks_soundlyI)
    fix m msk stats ctx err msk' stats' ctx'
    assume m: "key_wf m" and ctx: "current_key ctx = k" "ac_mask ctx = Some m"
      and run: "pipeline_standard_process rounds depth X ps k msk stats ctx = Some (err, msk', stats', ctx')"
    obtain M where M: "ac_mask ctx' = Some M" "\<And>k'. key_wf k' \<Longrightarrow> key_agree M k k' \<Longrightarrow> key_agree m k k'"
      using std_process_mask [OF o(1) wf(1) m o(2) ctx run] by blast
    then show "\<exists>M. ac_mask ctx' = Some M \<and> (key_agree M k k' \<longrightarrow> key_agree m k k' \<and>
        (\<exists>dtx'. pipeline_standard_process rounds depth X ps k' msk stats (ctx\<lparr>current_key := k'\<rparr>) = Some (err, msk', stats', dtx') \<and> ac_msg dtx' = ac_msg ctx'))"
      using process_mask_sound [OF o(1) wf m o(2,3) ctx refl run M(1)] wf(2) by blast
  qed
qed

interpretation reflect: mask_sound_pipeline "pipeline_reflect_process clock n delay" "\<lambda>_ _. True" for clock n delay
proof
  fix k k' assume wf: "key_wf k" "key_wf k'"
  show "masks_soundly (pipeline_reflect_process clock n delay) k k'"
  proof (rule masks_soundlyI)
    fix m msk stats ctx err msk' stats' ctx'
    assume m: "key_wf m" and ctx: "current_key ctx = k" "ac_mask ctx = Some m"
      and run: "pipeline_reflect_process clock n delay k msk stats ctx = Some (err, msk', stats', ctx')"
    let ?m = "m\<lparr>pk_in_port := - 1\<rparr>" let ?c = "ctx\<lparr>ac_mask := Some ?m\<rparr>"
    obtain d where d: "reflect_delay clock delay n = Some d" using run by (auto simp: pipeline_reflect_process_def split: Option.bind_splits)
    then have r: "ctx' = action_output ?c (pk_in_port k)" "msk' = msk" "stats' = stats" "err = ERROR_NONE"
      using run ctx by (auto simp: pipeline_reflect_process_def mask_upd_def)
    have wm: "key_wf ?m" using m by (simp add: key_wf_def)
    obtain M where M: "ac_mask ctx' = Some M" "key_agree M k k' \<longrightarrow> key_agree ?m k k' \<and> ac_msg (action_output (?c\<lparr>current_key := k'\<rparr>) (pk_in_port k)) = ac_msg ctx'"
      using actions_sound [OF wf wm, of ?c "[Output (pk_in_port k)]"] ctx(1) unfolding r(1) by auto
    have "key_agree m k k' \<and> pk_in_port k = pk_in_port k'" if "key_agree ?m k k'" using that by (auto simp: key_agree_def word_agree_full)
    then show "\<exists>M. ac_mask ctx' = Some M \<and> (key_agree M k k' \<longrightarrow> key_agree m k k' \<and>
        (\<exists>dtx'. pipeline_reflect_process clock n delay k' msk stats (ctx\<lparr>current_key := k'\<rparr>) = Some (err, msk', stats', dtx') \<and> ac_msg dtx' = ac_msg ctx'))"
      using M d r ctx by (auto simp: pipeline_reflect_process_def mask_upd_def ctx_swap)
  qed
qed

subsection \<open>The life of pipelines\<close>

text \<open>Implementations that record the calls they get.\<close>

datatype pipeline_event = PInit string | PFinish string

definition logging_ops :: "string \<Rightarrow> pipeline_event list pipeline_ops" where
  "logging_ops n = \<lparr>op_init = (\<lambda>name log. Some (log @ [PInit name])), op_finish = (\<lambda>log. Some (log @ [PFinish n])),
     op_process = (\<lambda>log key msk stats actx. Some (ERROR_NONE, msk, stats, actx))\<rparr>"

text \<open>The pipeline that is initialised after a sequence of calls; \<open>None\<close> when they are out of order.\<close>

fun lifecycle :: "pipeline_event list \<Rightarrow> string option \<Rightarrow> string option option" where
  "lifecycle [] cur = Some cur"
| "lifecycle (PInit n # es) cur = (if cur = None then lifecycle es (Some n) else None)"
| "lifecycle (PFinish n # es) cur = (if cur = Some n then lifecycle es None else None)"

datatype pipeline_op = PRegister string | PSet "string option"

fun pipeline_run :: "pipeline_op list \<Rightarrow> pipeline_event list pipeline_module \<Rightarrow> pipeline_event list pipeline_module option" where
  "pipeline_run [] pm = Some pm"
| "pipeline_run (PRegister n # ops) pm = do { pm \<leftarrow> pipeline_register n (logging_ops n) pm; pipeline_run ops pm }"
| "pipeline_run (PSet n # ops) pm = do { (err, pm) \<leftarrow> pipeline_set n pm; pipeline_run ops pm }"

definition pipeline_inv :: "pipeline_event list pipeline_module \<Rightarrow> bool" where
  "pipeline_inv pm \<longleftrightarrow> (\<forall>p. Some p \<in> set (pipelines pm) \<longrightarrow> pl_ops p = logging_ops (pl_name p)) \<and>
     (current_pipeline pm \<noteq> None \<longrightarrow> pipeline_get pm \<noteq> None) \<and> lifecycle (pl_state pm) None = Some (pipeline_get pm)"

lemma lifecycle_append: "lifecycle (es @ fs) cur = lifecycle es cur \<bind> lifecycle fs"
  by (induction es cur rule: lifecycle.induct) auto

lemma find_pipeline_found:
  "find_pipeline n i ps found = Some j \<Longrightarrow> found = Some j \<or> (\<exists>p. i \<le> j \<and> j - i < length ps \<and> ps ! (j - i) = Some p \<and> pl_name p = n)"
proof (induction n i ps found rule: find_pipeline.induct)
  case (2 n i p ps found)
  then show ?case
    by (auto split: option.splits if_splits simp: nth_Cons' Suc_diff_Suc)
qed simp

lemma register_loop_upd:
  "register_loop p ps = Some ps' \<Longrightarrow> set ps' \<subseteq> insert (Some p) (set ps) \<and> length ps' = length ps \<and> (\<forall>i q. i < length ps \<longrightarrow> ps ! i = Some q \<longrightarrow> ps' ! i = Some q)"
proof (induction p ps arbitrary: ps' rule: register_loop.induct)
  case (3 p q ps)
  then obtain qs where "register_loop p ps = Some qs" "ps' = Some q # qs" "pl_name q \<noteq> pl_name p" by (auto split: if_splits)
  then show ?case using "3.IH" by (auto simp: nth_Cons' split: if_splits)
qed (auto simp: nth_Cons' split: if_splits)

lemma pipeline_at_in: "pipeline_at pm i = Some p \<Longrightarrow> Some p \<in> set (pipelines pm)"
  by (auto simp: pipeline_at_def split: if_splits) (metis nth_mem)

lemma pipeline_register_inv:
  assumes "pipeline_inv pm" "pipeline_register n (logging_ops n) pm = Some pm'"
  shows "pipeline_inv pm'"
proof -
  let ?p = "\<lparr>pl_name = n, pl_ops = logging_ops n\<rparr>"
  obtain ps where ps: "register_loop ?p (pipelines pm) = Some ps" "pm' = pm\<lparr>pipelines := ps\<rparr>"
    using assms(2) by (auto simp: pipeline_register_def split: Option.bind_splits)
  note u = register_loop_upd [OF ps(1)]
  have "pipeline_at pm' i = Some p" if "pipeline_at pm i = Some p" for i p
    using that u ps(2) by (auto simp: pipeline_at_def split: if_splits)
  then have "pipeline_get pm' = pipeline_get pm" if "current_pipeline pm \<noteq> None \<longrightarrow> pipeline_get pm \<noteq> None"
    using that ps(2) by (auto simp: pipeline_get_def split: Option.bind_splits)
  then show ?thesis using assms(1) u ps(2) by (auto simp: pipeline_inv_def)
qed

lemma pipeline_finish_inv:
  assumes "pipeline_inv pm"
  obtains pm' where "pipeline_finish pm = Some pm'" "pipeline_inv pm'" "current_pipeline pm' = None" "pipelines pm' = pipelines pm"
proof (cases "current_pipeline pm")
  case None
  then show thesis using assms that by (simp add: pipeline_finish_def)
next
  case (Some i)
  then obtain p where p: "pipeline_at pm i = Some p" using assms by (auto simp: pipeline_inv_def pipeline_get_def split: Option.bind_splits)
  then have o: "pl_ops p = logging_ops (pl_name p)" using assms pipeline_at_in [OF p] by (simp add: pipeline_inv_def)
  let ?pm = "pm\<lparr>current_pipeline := None, pl_state := pl_state pm @ [PFinish (pl_name p)]\<rparr>"
  have "lifecycle (pl_state pm) None = Some (Some (pl_name p))" using assms Some p by (simp add: pipeline_inv_def pipeline_get_def)
  then have "pipeline_inv ?pm" using assms by (simp add: pipeline_inv_def pipeline_get_def lifecycle_append)
  moreover have "pipeline_finish pm = Some ?pm" using Some p o by (simp add: pipeline_finish_def logging_ops_def)
  ultimately show thesis using that by simp
qed

lemma pipeline_set_inv:
  assumes inv: "pipeline_inv pm"
  obtains err pm' where "pipeline_set name pm = Some (err, pm')" "pipeline_inv pm'" "failed err \<Longrightarrow> pm' = pm"
    "\<not> failed err \<Longrightarrow> pipeline_get pm' = name"
proof (cases name)
  case None
  obtain pm' where f: "pipeline_finish pm = Some pm'" "pipeline_inv pm'" "current_pipeline pm' = None" by (rule pipeline_finish_inv [OF inv])
  have "pipeline_set name pm = Some (ERROR_NONE, pm')" using None f(1) by (cases "current_pipeline pm") (simp_all add: pipeline_set_def pipeline_finish_def)
  then show thesis using f that None by (simp add: pipeline_get_def)
next
  case (Some n)
  show thesis
  proof (cases "find_pipeline n 0 (pipelines pm) None")
    case None
    then show thesis using that [of ERROR_NOT_FOUND pm] inv Some by (simp add: pipeline_set_def)
  next
    case (Some i)
    then obtain p where p: "pipeline_at pm i = Some p" "pl_name p = n" using find_pipeline_found [OF Some] by (auto simp: pipeline_at_def)
    show thesis
    proof (cases "current_pipeline pm = Some i")
      case True
      then show thesis using that [of ERROR_NONE pm] inv Some \<open>name = Some n\<close> p by (simp add: pipeline_set_def pipeline_get_def)
    next
      case False
      obtain pm' where f: "pipeline_finish pm = Some pm'" "pipeline_inv pm'" "current_pipeline pm' = None" "pipelines pm' = pipelines pm"
        by (rule pipeline_finish_inv [OF inv])
      have at: "pipeline_at pm' i = Some p" using p(1) f(4) by (auto simp: pipeline_at_def split: if_splits)
      have o: "pl_ops p = logging_ops (pl_name p)" using f(2) pipeline_at_in [OF at] by (simp add: pipeline_inv_def)
      let ?pm = "pm'\<lparr>current_pipeline := Some i, pl_state := pl_state pm' @ [PInit n]\<rparr>"
      have g: "pipeline_get ?pm = Some n" using at p(2) by (auto simp: pipeline_get_def pipeline_at_def split: if_splits)
      have "lifecycle (pl_state pm') None = Some None" using f(2,3) by (simp add: pipeline_inv_def pipeline_get_def)
      then have "pipeline_inv ?pm" using f(2) g by (simp add: pipeline_inv_def lifecycle_append)
      moreover have "pipeline_set name pm = Some (ERROR_NONE, ?pm)"
        using Some \<open>name = Some n\<close> False f(1) at o by (simp add: pipeline_set_def logging_ops_def)
      ultimately show thesis using that g \<open>name = Some n\<close> by simp
    qed
  qed
qed

lemma pipeline_start_inv: "pipeline_inv (pipeline_module_start [])"
  by (simp add: pipeline_inv_def pipeline_module_start_def pipeline_get_def)

lemma pipeline_run_inv: "pipeline_inv pm \<Longrightarrow> pipeline_run ops pm = Some pm' \<Longrightarrow> pipeline_inv pm'"
proof (induction ops pm rule: pipeline_run.induct)
  case (2 n ops pm)
  then show ?case using pipeline_register_inv by (auto split: Option.bind_splits)
next
  case (3 n ops pm)
  obtain err pm1 where "pipeline_set n pm = Some (err, pm1)" "pipeline_inv pm1" by (rule pipeline_set_inv [OF "3.prems"(1), of n]) (rule that)
  then show ?case using 3 by simp
qed simp



end
