(* ===== verification/Vport.thy ===== *)
theory Vport
  imports Util Stats Pipeline
begin

text \<open>
  The ports of the datapath (\<open>OVSDriver/module/src/vport.c\<close>), the choice of the uplink (\<open>uplink.c\<close>) and
  the counters of VLANs (\<open>vlan_counters.c\<close>). What other components do when a port changes, and the messages
  to the controller, are events of a log. The link cache of libnl, sockets and the allocation of LOCI objects are parameters.
\<close>

subsection \<open>Ports\<close>

definition IND_OVS_MAX_PORTS :: nat where "IND_OVS_MAX_PORTS = 1024"

text \<open>Linux: \<open>IFF_UP\<close>, \<open>IFF_RUNNING\<close>, \<open>ETH_FLAG_LRO\<close>.\<close>

definition IFF_UP :: u32 where "IFF_UP = 1"
definition IFF_RUNNING :: u32 where "IFF_RUNNING = 0x40"
definition ETH_FLAG_LRO :: u32 where "ETH_FLAG_LRO = 0x8000"

definition OVS_VPORT_CMD_NEW :: u8 where "OVS_VPORT_CMD_NEW = 1"
definition OVS_VPORT_CMD_DEL :: u8 where "OVS_VPORT_CMD_DEL = 2"
definition OVS_VPORT_CMD_GET :: u8 where "OVS_VPORT_CMD_GET = 3"
definition OVS_VPORT_CMD_SET :: u8 where "OVS_VPORT_CMD_SET = 4"
definition OVS_VPORT_TYPE_NETDEV :: u32 where "OVS_VPORT_TYPE_NETDEV = 1"
definition OVS_VPORT_TYPE_INTERNAL :: u32 where "OVS_VPORT_TYPE_INTERNAL = 2"
definition OVS_VPORT_ATTR_PORT_NO :: u16 where "OVS_VPORT_ATTR_PORT_NO = 1"
definition OVS_VPORT_ATTR_TYPE :: u16 where "OVS_VPORT_ATTR_TYPE = 2"
definition OVS_VPORT_ATTR_NAME :: u16 where "OVS_VPORT_ATTR_NAME = 3"
definition OVS_VPORT_ATTR_UPCALL_PID :: u16 where "OVS_VPORT_ATTR_UPCALL_PID = 5"

record ind_ovs_port_counters =
  rx_unicast_stats_handle :: u32
  tx_unicast_stats_handle :: u32
  rx_broadcast_stats_handle :: u32
  tx_broadcast_stats_handle :: u32
  rx_multicast_stats_handle :: u32
  tx_multicast_stats_handle :: u32
  rx_bad_vlan_stats_handle :: u32

record ind_ovs_port =
  ifname :: string
  dp_port_no :: u32
  ifflags :: u32
  vport_type :: u32
  mac_addr :: bytes
  no_packet_in :: bool
  no_flood :: bool
  admin_down :: bool
  is_uplink :: bool
  num_kflows :: u32
  notify_socket :: u32
  upcall_thread :: "nat option"
  pcounters :: ind_ovs_port_counters
  link_up_count :: u64
  link_down_count :: u64

text \<open>What is sent to the controller about a port.\<close>

record port_desc =
  pd_port_no :: u32
  pd_hw_addr :: bytes
  pd_name :: string
  pd_no_packet_in :: bool
  pd_no_flood :: bool
  pd_port_down :: bool
  pd_link_down :: bool
  pd_curr :: "port_feature set"
  pd_bsn_uplink :: bool

datatype port_reason = PORT_ADD | PORT_DELETE | PORT_MODIFY
datatype vport_event = PortStatus port_reason port_desc | DeferInternal | SocketFree u32

record ('k, 'd) vport_state =
  ind_ovs_ports :: "ind_ovs_port option list"
  uplinks :: "string list"
  current_uplink :: u32
  upcall_idx :: nat
  vp_stats :: stats_module
  vp_nl :: "'k nl_state"
  vp_dev :: "'d dev_state"
  vp_log :: "vport_event list"

record ('k, 'd) vport_env =
  ve_kernel :: "'k kernel"
  ve_netdev :: "'d netdev"
  ve_families :: ovs_families
  ve_dp_ifindex :: int
  ve_num_upcall_threads :: nat

subsection \<open>Looking up ports\<close>

definition port_at :: "('k, 'd) vport_state \<Rightarrow> u32 \<Rightarrow> ind_ovs_port option" where
  "port_at st i = (if unat i < length (ind_ovs_ports st) then ind_ovs_ports st ! unat i else None)"

definition ind_ovs_port_lookup :: "u32 \<Rightarrow> ('k, 'd) vport_state \<Rightarrow> ind_ovs_port option" where
  "ind_ovs_port_lookup port_no st =
     (if port_no = OF_PORT_DEST_LOCAL then port_at st OVSP_LOCAL
      else if unat port_no \<ge> IND_OVS_MAX_PORTS then None
      else port_at st port_no)"

definition ind_ovs_port_lookup_by_name :: "string \<Rightarrow> ('k, 'd) vport_state \<Rightarrow> ind_ovs_port option" where
  "ind_ovs_port_lookup_by_name name st =
     (case find (\<lambda>p. case p of None \<Rightarrow> False | Some q \<Rightarrow> ifname q = name) (ind_ovs_ports st) of None \<Rightarrow> None | Some p \<Rightarrow> p)"

text \<open>\<open>link_name\<close> is the name of the interface in the link cache.\<close>

definition ind_ovs_port_lookup_by_ifindex :: "(int \<Rightarrow> string option) \<Rightarrow> int \<Rightarrow> ('k, 'd) vport_state \<Rightarrow> ind_ovs_port option" where
  "ind_ovs_port_lookup_by_ifindex link_name ifindex st =
     (case link_name ifindex of None \<Rightarrow> None | Some name \<Rightarrow> ind_ovs_port_lookup_by_name name st)"

definition ind_ovs_port_running :: "u32 \<Rightarrow> ('k, 'd) vport_state \<Rightarrow> bool" where
  "ind_ovs_port_running port_no st =
     (case ind_ovs_port_lookup port_no st of None \<Rightarrow> False | Some p \<Rightarrow> ifflags p AND IFF_RUNNING \<noteq> 0)"

text \<open>The counters of a port; \<open>dummy\<close> are those for a port that does not exist.\<close>

definition ind_ovs_port_stats_select :: "ind_ovs_port_counters \<Rightarrow> u32 \<Rightarrow> ('k, 'd) vport_state \<Rightarrow> ind_ovs_port_counters" where
  "ind_ovs_port_stats_select dummy port_no st = (case ind_ovs_port_lookup port_no st of None \<Rightarrow> dummy | Some p \<Rightarrow> pcounters p)"

definition alloc_port_counters :: "stats_module \<Rightarrow> (ind_ovs_port_counters \<times> stats_module) option" where
  "alloc_port_counters stats =
     do {
       (rx_unicast, stats) \<leftarrow> stats_alloc stats;
       (tx_unicast, stats) \<leftarrow> stats_alloc stats;
       (rx_broadcast, stats) \<leftarrow> stats_alloc stats;
       (tx_broadcast, stats) \<leftarrow> stats_alloc stats;
       (rx_multicast, stats) \<leftarrow> stats_alloc stats;
       (tx_multicast, stats) \<leftarrow> stats_alloc stats;
       (rx_bad_vlan, stats) \<leftarrow> stats_alloc stats;
       Some (\<lparr>rx_unicast_stats_handle = rx_unicast, tx_unicast_stats_handle = tx_unicast, rx_broadcast_stats_handle = rx_broadcast,
         tx_broadcast_stats_handle = tx_broadcast, rx_multicast_stats_handle = rx_multicast, tx_multicast_stats_handle = tx_multicast,
         rx_bad_vlan_stats_handle = rx_bad_vlan\<rparr>, stats)
     }"

definition free_port_counters :: "ind_ovs_port_counters \<Rightarrow> stats_module \<Rightarrow> stats_module option" where
  "free_port_counters pc stats =
     do {
       stats \<leftarrow> stats_free stats (rx_unicast_stats_handle pc);
       stats \<leftarrow> stats_free stats (tx_unicast_stats_handle pc);
       stats \<leftarrow> stats_free stats (rx_broadcast_stats_handle pc);
       stats \<leftarrow> stats_free stats (tx_broadcast_stats_handle pc);
       stats \<leftarrow> stats_free stats (rx_multicast_stats_handle pc);
       stats \<leftarrow> stats_free stats (tx_multicast_stats_handle pc);
       stats_free stats (rx_bad_vlan_stats_handle pc)
     }"

definition get_packet_stats :: "stats_module \<Rightarrow> u32 \<Rightarrow> u64" where
  "get_packet_stats stats handle = packets (stats_get stats handle)"

subsection \<open>Uplinks\<close>

definition ind_ovs_uplink_add :: "string \<Rightarrow> ('k, 'd) vport_state \<Rightarrow> ('k, 'd) vport_state" where
  "ind_ovs_uplink_add name st = st\<lparr>uplinks := uplinks st @ [name]\<rparr>"

definition ind_ovs_uplink_check_by_name :: "string \<Rightarrow> ('k, 'd) vport_state \<Rightarrow> bool" where
  "ind_ovs_uplink_check_by_name name st = list_ex (\<lambda>s. s = name) (uplinks st)"

definition ind_ovs_uplink_check :: "u32 \<Rightarrow> ('k, 'd) vport_state \<Rightarrow> bool" where
  "ind_ovs_uplink_check port_no st = (case ind_ovs_port_lookup port_no st of None \<Rightarrow> False | Some p \<Rightarrow> is_uplink p)"

definition ind_ovs_uplink_select :: "('k, 'd) vport_state \<Rightarrow> u32" where
  "ind_ovs_uplink_select st = current_uplink st"

text \<open>The bound is off by one: port number 1024 reads past the table, which is \<open>None\<close>.\<close>

definition is_valid_uplink :: "u32 \<Rightarrow> ('k, 'd) vport_state \<Rightarrow> bool option" where
  "is_valid_uplink port_no st =
     (if unat port_no > IND_OVS_MAX_PORTS then Some False
      else if unat port_no < length (ind_ovs_ports st)
      then Some (case ind_ovs_ports st ! unat port_no of None \<Rightarrow> False | Some p \<Rightarrow> is_uplink p \<and> ifflags p AND IFF_RUNNING \<noteq> 0)
      else None)"

fun uplink_loop :: "nat list \<Rightarrow> ('k, 'd) vport_state \<Rightarrow> u32 option" where
  "uplink_loop [] st = Some OF_PORT_DEST_NONE"
| "uplink_loop (i # is) st = do { v \<leftarrow> is_valid_uplink (of_nat i) st; if v then Some (of_nat i) else uplink_loop is st }"

definition ind_ovs_uplink_reselect :: "('k, 'd) vport_state \<Rightarrow> ('k, 'd) vport_state option" where
  "ind_ovs_uplink_reselect st =
     do {
       v \<leftarrow> is_valid_uplink (current_uplink st) st;
       if v then Some st
       else do { u \<leftarrow> uplink_loop [0..<IND_OVS_MAX_PORTS] st; Some (st\<lparr>current_uplink := u\<rparr>) }
     }"

text \<open>\<open>ind_ovs_upcall_assign_thread\<close> of \<open>upcall.c\<close>: ports go to the upcall processes in turn.\<close>

definition ind_ovs_upcall_assign_thread :: "nat \<Rightarrow> nat \<Rightarrow> nat \<times> nat" where
  "ind_ovs_upcall_assign_thread num_threads idx = (idx, (idx + 1) mod num_threads)"

subsection \<open>Telling the controller\<close>

text \<open>Whether the calls to LOCI succeed, and the version of the controller's connection if there is one; 5 is OpenFlow 1.4.\<close>

record of_env =
  oe_async_version :: "nat option"
  oe_port_desc_new :: bool
  oe_port_status_new :: bool
  oe_port_status_desc_set :: bool
  oe_list_new :: bool
  oe_ports_set :: bool

definition port_desc_set :: "('k, 'd) vport_env \<Rightarrow> nat \<Rightarrow> u32 \<Rightarrow> ('k, 'd) vport_state \<Rightarrow> (port_desc \<times> ('k, 'd) vport_state) option" where
  "port_desc_set E version port_no st =
     do {
       port \<leftarrow> port_at st port_no;
       let (curr, dev) = (if vport_type port = OVS_VPORT_TYPE_NETDEV
         then ind_ovs_get_interface_features (ve_netdev E) (ifname port) (vp_dev st)
         else ({PF_10GB_FD, PF_COPPER}, vp_dev st));
       Some (\<lparr>pd_port_no = (if port_no = OVSP_LOCAL then OF_PORT_DEST_LOCAL else port_no), pd_hw_addr = mac_addr port, pd_name = ifname port,
         pd_no_packet_in = no_packet_in port, pd_no_flood = no_flood port, pd_port_down = admin_down port,
         pd_link_down = (ifflags port AND IFF_RUNNING = 0), pd_curr = curr, pd_bsn_uplink = (version \<ge> 5 \<and> is_uplink port)\<rparr>,
         st\<lparr>vp_dev := dev\<rparr>)
     }"

definition port_status_notify :: "('k, 'd) vport_env \<Rightarrow> of_env \<Rightarrow> u32 \<Rightarrow> port_reason \<Rightarrow> ('k, 'd) vport_state \<Rightarrow> (error \<times> ('k, 'd) vport_state) option" where
  "port_status_notify E Q port_no reason st =
     (case oe_async_version Q of
        None \<Rightarrow> Some (ERROR_NONE, st)
      | Some version \<Rightarrow>
          if \<not> oe_port_desc_new Q then Some (ERROR_UNKNOWN, st)
          else do {
            (desc, st) \<leftarrow> port_desc_set E version port_no st;
            if \<not> oe_port_status_new Q \<or> \<not> oe_port_status_desc_set Q then Some (ERROR_UNKNOWN, st)
            else Some (ERROR_NONE, st\<lparr>vp_log := vp_log st @ [PortStatus reason desc]\<rparr>)
          })"

text \<open>The descriptions of all ports, in the order of the table.\<close>

fun port_descs :: "('k, 'd) vport_env \<Rightarrow> nat \<Rightarrow> nat list \<Rightarrow> ('k, 'd) vport_state \<Rightarrow> (port_desc list \<times> ('k, 'd) vport_state) option" where
  "port_descs E version [] st = Some ([], st)"
| "port_descs E version (i # is) st =
     (if port_at st (of_nat i) = None then port_descs E version is st
      else do {
        (d, st) \<leftarrow> port_desc_set E version (of_nat i) st;
        (ds, st) \<leftarrow> port_descs E version is st;
        Some (d # ds, st)
      })"

definition indigo_port_features_get :: "('k, 'd) vport_env \<Rightarrow> of_env \<Rightarrow> nat \<Rightarrow> ('k, 'd) vport_state \<Rightarrow> (error \<times> port_desc list \<times> ('k, 'd) vport_state) option" where
  "indigo_port_features_get E Q version st =
     (if version \<ge> 4 then Some (ERROR_NONE, [], st)
      else if \<not> oe_port_desc_new Q \<or> \<not> oe_list_new Q then Some (ERROR_UNKNOWN, [], st)
      else do {
        (ds, st) \<leftarrow> port_descs E version [0..<IND_OVS_MAX_PORTS] st;
        Some (if oe_ports_set Q then (ERROR_NONE, ds, st) else (ERROR_UNKNOWN, [], st))
      })"

definition indigo_port_desc_stats_get :: "('k, 'd) vport_env \<Rightarrow> of_env \<Rightarrow> nat \<Rightarrow> ('k, 'd) vport_state \<Rightarrow> (error \<times> port_desc list \<times> ('k, 'd) vport_state) option" where
  "indigo_port_desc_stats_get E Q version st =
     (if version < 4 then Some (ERROR_NONE, [], st)
      else if \<not> oe_port_desc_new Q \<or> \<not> oe_list_new Q then Some (ERROR_UNKNOWN, [], st)
      else do {
        (ds, st) \<leftarrow> port_descs E version [0..<IND_OVS_MAX_PORTS] st;
        Some (if oe_ports_set Q then (ERROR_NONE, ds, st) else (ERROR_UNKNOWN, [], st))
      })"

subsection \<open>Asking the kernel to add and remove ports\<close>

definition nla_put_string :: "nl_msg \<Rightarrow> u16 \<Rightarrow> string \<Rightarrow> nl_msg" where
  "nla_put_string msg t s = nla_put msg t (map of_char s @ [0])"

definition vport_transact :: "('k, 'd) vport_env \<Rightarrow> u8 \<Rightarrow> (nl_msg \<Rightarrow> nl_msg) \<Rightarrow> ('k, 'd) vport_state \<Rightarrow> (error \<times> ('k, 'd) vport_state) option" where
  "vport_transact E cmd put st =
     do {
       (msg, nl) \<leftarrow> ind_ovs_create_nlmsg (ve_families E) (ve_dp_ifindex E) (ovs_vport_family (ve_families E)) cmd (vp_nl st);
       (err, nl) \<leftarrow> ind_ovs_transact (ve_kernel E) (msg\<lparr>gm_calls := put (gm_calls msg)\<rparr>) nl;
       Some (err, st\<lparr>vp_nl := nl\<rparr>)
     }"

definition indigo_port_interface_add :: "('k, 'd) vport_env \<Rightarrow> string \<Rightarrow> u32 \<Rightarrow> ('k, 'd) vport_state \<Rightarrow> (error \<times> ('k, 'd) vport_state) option" where
  "indigo_port_interface_add E port_name of_port st =
     (if \<not> (unat of_port < IND_OVS_MAX_PORTS \<or> of_port = OF_PORT_DEST_NONE) \<or> length port_name \<ge> 256 then None
      else if ind_ovs_port_lookup_by_name port_name st \<noteq> None then Some (ERROR_NONE, st)
      else vport_transact E OVS_VPORT_CMD_NEW (\<lambda>msg.
          let msg = nla_put_u32 msg OVS_VPORT_ATTR_TYPE OVS_VPORT_TYPE_NETDEV;
              msg = nla_put_string msg OVS_VPORT_ATTR_NAME port_name;
              msg = (if of_port \<noteq> OF_PORT_DEST_NONE then nla_put_u32 msg OVS_VPORT_ATTR_PORT_NO of_port else msg)
          in nla_put_u32 msg OVS_VPORT_ATTR_UPCALL_PID 0) st)"

definition ind_ovs_port_add_internal :: "('k, 'd) vport_env \<Rightarrow> string \<Rightarrow> ('k, 'd) vport_state \<Rightarrow> (error \<times> ('k, 'd) vport_state) option" where
  "ind_ovs_port_add_internal E port_name st =
     (if length port_name \<ge> 256 then Some (ERROR_PARAM, st)
      else if ind_ovs_port_lookup_by_name port_name st \<noteq> None then Some (ERROR_NONE, st)
      else vport_transact E OVS_VPORT_CMD_NEW (\<lambda>msg.
          let msg = nla_put_u32 msg OVS_VPORT_ATTR_TYPE OVS_VPORT_TYPE_INTERNAL;
              msg = nla_put_string msg OVS_VPORT_ATTR_NAME port_name
          in nla_put_u32 msg OVS_VPORT_ATTR_UPCALL_PID 0) st)"

definition indigo_port_interface_remove :: "('k, 'd) vport_env \<Rightarrow> string \<Rightarrow> ('k, 'd) vport_state \<Rightarrow> (error \<times> ('k, 'd) vport_state) option" where
  "indigo_port_interface_remove E port_name st =
     (case ind_ovs_port_lookup_by_name port_name st of
        None \<Rightarrow> Some (ERROR_NOT_FOUND, st)
      | Some port \<Rightarrow> vport_transact E OVS_VPORT_CMD_DEL (\<lambda>msg. nla_put_u32 msg OVS_VPORT_ATTR_PORT_NO (dp_port_no port)) st)"

text \<open>The list of ports, built from the last to the first.\<close>

definition indigo_port_interface_list :: "('k, 'd) vport_state \<Rightarrow> (string \<times> u32) list" where
  "indigo_port_interface_list st =
     fold (\<lambda>i head. case port_at st (of_nat i) of None \<Rightarrow> head
       | Some p \<Rightarrow> (ifname p, if of_nat i = OVSP_LOCAL then OF_PORT_DEST_LOCAL else of_nat i) # head) (rev [0..<IND_OVS_MAX_PORTS]) []"

subsection \<open>Notifications of the kernel\<close>

text \<open>
  \<open>link_mac\<close> is the address of the link in the cache, \<open>sock\<close> the netlink port of the new upcall
  socket, if it could be created.
\<close>

definition new_port :: "bytes \<Rightarrow> u32 \<Rightarrow> string \<Rightarrow> u32 \<Rightarrow> ind_ovs_port_counters \<Rightarrow> ind_ovs_port" where
  "new_port mac port_no name typ pc = \<lparr>ifname = take IFNAMSIZ name, dp_port_no = port_no, ifflags = 0, vport_type = typ, mac_addr = mac,
     no_packet_in = False, no_flood = False, admin_down = False, is_uplink = False, num_kflows = 0, notify_socket = 0, upcall_thread = None,
     pcounters = pc, link_up_count = 0, link_down_count = 0\<rparr>"

text \<open>Bringing the interface up: the flags of the port and the state of the devices.\<close>

definition port_bring_up :: "'d netdev \<Rightarrow> string \<Rightarrow> 'd dev_state \<Rightarrow> u32 \<times> 'd dev_state" where
  "port_bring_up N name dev =
     (case ind_ovs_get_interface_flags N name 0 dev of
        (err, flags, dev) \<Rightarrow>
          if failed err then (IFF_UP, dev)
          else if flags AND IFF_UP = 0
          then (flags OR IFF_UP, snd (ind_ovs_set_interface_flags N name (flags OR IFF_UP) dev))
          else (flags, dev))"

definition port_offloads :: "'d netdev \<Rightarrow> ind_ovs_port \<Rightarrow> 'd dev_state \<Rightarrow> 'd dev_state" where
  "port_offloads N port dev =
     (if vport_type port = OVS_VPORT_TYPE_NETDEV
      then let dev = snd (ind_ovs_set_ethtool_flags N (ifname port) 0 ETH_FLAG_LRO dev)
           in if is_uplink port then snd (ind_ovs_set_ethtool_gro N (ifname port) True dev) else dev
      else dev)"

definition port_cleanup :: "ind_ovs_port \<Rightarrow> ('k, 'd) vport_state \<Rightarrow> ('k, 'd) vport_state option" where
  "port_cleanup port st =
     do {
       stats \<leftarrow> free_port_counters (pcounters port) (vp_stats st);
       Some (st\<lparr>vp_stats := stats, vp_log := vp_log st @ (if notify_socket port \<noteq> 0 then [SocketFree (notify_socket port)] else [])\<rparr>)
     }"

text \<open>The part after the port is in the table.\<close>

definition port_added_tail :: "('k, 'd) vport_env \<Rightarrow> of_env \<Rightarrow> u32 \<Rightarrow> ind_ovs_port \<Rightarrow> ('k, 'd) vport_state \<Rightarrow> ('k, 'd) vport_state option" where
  "port_added_tail E Q port_no port st =
     do {
       let st = st\<lparr>ind_ovs_ports := (ind_ovs_ports st)[unat port_no := Some port]\<rparr>;
       (err, st) \<leftarrow> port_status_notify E Q port_no PORT_ADD st;
       let (thread, idx) = ind_ovs_upcall_assign_thread (ve_num_upcall_threads E) (upcall_idx st);
       let st = st\<lparr>ind_ovs_ports := (ind_ovs_ports st)[unat port_no := Some (port\<lparr>upcall_thread := Some thread\<rparr>)], upcall_idx := idx,
         vp_log := vp_log st @ [DeferInternal]\<rparr>;
       if is_uplink port then ind_ovs_uplink_reselect st else Some st
     }"

definition ind_ovs_port_added ::
  "('k, 'd) vport_env \<Rightarrow> of_env \<Rightarrow> (string \<Rightarrow> bytes option) \<Rightarrow> u32 option \<Rightarrow> u32 \<Rightarrow> string \<Rightarrow> u32 \<Rightarrow> ('k, 'd) vport_state \<Rightarrow> ('k, 'd) vport_state option" where
  "ind_ovs_port_added E Q link_mac sock port_no name typ st =
     (if unat port_no \<ge> IND_OVS_MAX_PORTS
      then do { (err, st) \<leftarrow> vport_transact E OVS_VPORT_CMD_DEL (\<lambda>msg. nla_put_u32 msg OVS_VPORT_ATTR_PORT_NO port_no) st; Some st }
      else if port_at st port_no \<noteq> None then Some st
      else do {
        mac \<leftarrow> (case link_mac name of None \<Rightarrow> Some (replicate 6 0) | Some a \<Rightarrow> if length a = 6 then Some a else None);
        let name = (if port_no = OVSP_LOCAL then ''local'' else name);
        (pc, stats) \<leftarrow> alloc_port_counters (vp_stats st);
        let st = st\<lparr>vp_stats := stats\<rparr>;
        let port = new_port mac port_no name typ pc;
        case sock of
          None \<Rightarrow> port_cleanup port st
        | Some s \<Rightarrow>
            do {
              let port = port\<lparr>notify_socket := s, is_uplink := ind_ovs_uplink_check_by_name (ifname port) st\<rparr>;
              (err, st) \<leftarrow> vport_transact E OVS_VPORT_CMD_SET (\<lambda>msg.
                nla_put_u32 (nla_put_u32 msg OVS_VPORT_ATTR_PORT_NO port_no) OVS_VPORT_ATTR_UPCALL_PID s) st;
              if failed err then port_cleanup port st
              else do {
                let (flags, dev) = port_bring_up (ve_netdev E) name (vp_dev st);
                let port = port\<lparr>ifflags := flags\<rparr>;
                let dev = port_offloads (ve_netdev E) port dev;
                port_added_tail E Q port_no port (st\<lparr>vp_dev := dev\<rparr>)
              }
            }
      })"

definition ind_ovs_port_deleted :: "('k, 'd) vport_env \<Rightarrow> of_env \<Rightarrow> u32 \<Rightarrow> ('k, 'd) vport_state \<Rightarrow> ('k, 'd) vport_state option" where
  "ind_ovs_port_deleted E Q port_no st =
     (if unat port_no \<ge> IND_OVS_MAX_PORTS then Some st
      else case port_at st port_no of
        None \<Rightarrow> Some st
      | Some port \<Rightarrow>
          do {
            let st = st\<lparr>ind_ovs_ports := (ind_ovs_ports st)[unat port_no := Some (port\<lparr>upcall_thread := None\<rparr>)]\<rparr>;
            (err, st) \<leftarrow> port_status_notify E Q port_no PORT_DELETE st;
            stats \<leftarrow> free_port_counters (pcounters port) (vp_stats st);
            let st = st\<lparr>vp_stats := stats, ind_ovs_ports := (ind_ovs_ports st)[unat port_no := None],
              vp_log := vp_log st @ [SocketFree (notify_socket port), DeferInternal]\<rparr>;
            if is_uplink port then ind_ovs_uplink_reselect st else Some st
          })"

text \<open>A port-mod: the configuration bits and which of them the mask selects.\<close>

record of_port_mod =
  pmod_port_no :: u32
  pmod_no_packet_in :: bool
  pmod_no_flood :: bool
  pmod_port_down :: bool
  pmod_mask_no_packet_in :: bool
  pmod_mask_no_flood :: bool
  pmod_mask_port_down :: bool

definition port_index :: "u32 \<Rightarrow> nat" where
  "port_index port_no = (if port_no = OF_PORT_DEST_LOCAL then unat OVSP_LOCAL else unat port_no)"

definition port_mod_config :: "of_port_mod \<Rightarrow> ind_ovs_port \<Rightarrow> ind_ovs_port" where
  "port_mod_config m port =
     (let port = (if pmod_mask_no_packet_in m then port\<lparr>no_packet_in := pmod_no_packet_in m\<rparr> else port);
          port = (if pmod_mask_no_flood m then port\<lparr>no_flood := pmod_no_flood m\<rparr> else port)
      in if pmod_mask_port_down m
         then port\<lparr>admin_down := pmod_port_down m, ifflags := (if pmod_port_down m then ifflags port AND NOT IFF_UP else ifflags port OR IFF_UP)\<rparr>
         else port)"

definition indigo_port_modify :: "('k, 'd) vport_env \<Rightarrow> of_port_mod \<Rightarrow> ('k, 'd) vport_state \<Rightarrow> error \<times> ('k, 'd) vport_state" where
  "indigo_port_modify E m st =
     (case ind_ovs_port_lookup (pmod_port_no m) st of
        None \<Rightarrow> (ERROR_NOT_FOUND, st)
      | Some port \<Rightarrow>
          let port = port_mod_config m port;
              dev = (if pmod_mask_port_down m then snd (ind_ovs_set_interface_flags (ve_netdev E) (ifname port) (ifflags port) (vp_dev st)) else vp_dev st)
          in (ERROR_NONE, st\<lparr>ind_ovs_ports := (ind_ovs_ports st)[port_index (pmod_port_no m) := Some port], vp_dev := dev, vp_log := vp_log st @ [DeferInternal]\<rparr>))"

text \<open>A change of a link: \<open>is_new\<close> is libnl's action \<open>NL_ACT_NEW\<close>.\<close>

definition link_change_port :: "u32 \<Rightarrow> ind_ovs_port \<Rightarrow> ind_ovs_port" where
  "link_change_port flags port =
     (let up = (flags AND IFF_RUNNING \<noteq> 0);
          was = (ifflags port AND IFF_RUNNING \<noteq> 0);
          port = (if up \<and> \<not> was then port\<lparr>link_up_count := link_up_count port + 1\<rparr>
                  else if \<not> up \<and> was then port\<lparr>link_down_count := link_down_count port + 1\<rparr> else port)
      in port\<lparr>ifflags := flags, admin_down := (flags AND IFF_UP = 0)\<rparr>)"

definition link_change_cb :: "('k, 'd) vport_env \<Rightarrow> of_env \<Rightarrow> bool \<Rightarrow> string \<Rightarrow> u32 \<Rightarrow> ('k, 'd) vport_state \<Rightarrow> ('k, 'd) vport_state option" where
  "link_change_cb E Q is_new name flags st =
     (if is_new \<and> ind_ovs_uplink_check_by_name name st \<and> ind_ovs_port_lookup_by_name name st = None
      then do { (err, st) \<leftarrow> indigo_port_interface_add E name OF_PORT_DEST_NONE st; Some st }
      else case ind_ovs_port_lookup_by_name name st of
        None \<Rightarrow> Some st
      | Some port \<Rightarrow>
          do {
            let port = link_change_port flags port;
            let st = st\<lparr>ind_ovs_ports := (ind_ovs_ports st)[unat (dp_port_no port) := Some port]\<rparr>;
            (err, st) \<leftarrow> port_status_notify E Q (dp_port_no port) PORT_MODIFY st;
            let st = st\<lparr>vp_log := vp_log st @ [DeferInternal]\<rparr>;
            if is_uplink port then ind_ovs_uplink_reselect st else Some st
          })"

subsection \<open>Statistics of ports\<close>

text \<open>The counters of a link in the link cache, and those that the datapath reports.\<close>

record link_stats =
  RTNL_LINK_RX_PACKETS :: u64
  RTNL_LINK_TX_PACKETS :: u64
  RTNL_LINK_RX_BYTES :: u64
  RTNL_LINK_TX_BYTES :: u64
  RTNL_LINK_RX_DROPPED :: u64
  RTNL_LINK_TX_DROPPED :: u64
  RTNL_LINK_RX_ERRORS :: u64
  RTNL_LINK_TX_ERRORS :: u64
  RTNL_LINK_RX_FRAME_ERR :: u64
  RTNL_LINK_RX_OVER_ERR :: u64
  RTNL_LINK_RX_CRC_ERR :: u64
  RTNL_LINK_COLLISIONS :: u64
  RTNL_LINK_RX_LEN_ERR :: u64
  RTNL_LINK_TX_CARRIER_ERR :: u64

record ovs_vport_stats =
  vs_rx_packets :: u64
  vs_tx_packets :: u64
  vs_rx_bytes :: u64
  vs_tx_bytes :: u64
  vs_rx_errors :: u64
  vs_tx_errors :: u64
  vs_rx_dropped :: u64
  vs_tx_dropped :: u64

text \<open>\<open>ps_ethernet\<close>: frame, overrun and CRC errors and collisions, absent from OpenFlow 1.4 on when the link is unknown.\<close>

record port_stats_entry =
  pse_port_no :: u32
  pse_rx_packets :: u64
  pse_tx_packets :: u64
  pse_rx_bytes :: u64
  pse_tx_bytes :: u64
  pse_rx_dropped :: u64
  pse_tx_dropped :: u64
  pse_rx_errors :: u64
  pse_tx_errors :: u64
  pse_ethernet :: "(u64 \<times> u64 \<times> u64 \<times> u64) option"

definition port_stats_entry_of :: "nat \<Rightarrow> (string \<Rightarrow> link_stats option) \<Rightarrow> u32 \<Rightarrow> string \<Rightarrow> u32 \<Rightarrow> ovs_vport_stats \<Rightarrow> port_stats_entry" where
  "port_stats_entry_of version link port_no name typ s =
     (let no = (if port_no = OVSP_LOCAL then OF_PORT_DEST_LOCAL else port_no)
      in case (if typ = OVS_VPORT_TYPE_NETDEV \<or> typ = OVS_VPORT_TYPE_INTERNAL then link name else None) of
           Some l \<Rightarrow> \<lparr>pse_port_no = no, pse_rx_packets = RTNL_LINK_RX_PACKETS l, pse_tx_packets = RTNL_LINK_TX_PACKETS l, pse_rx_bytes = RTNL_LINK_RX_BYTES l,
             pse_tx_bytes = RTNL_LINK_TX_BYTES l, pse_rx_dropped = RTNL_LINK_RX_DROPPED l, pse_tx_dropped = RTNL_LINK_TX_DROPPED l,
             pse_rx_errors = RTNL_LINK_RX_ERRORS l, pse_tx_errors = RTNL_LINK_TX_ERRORS l,
             pse_ethernet = Some (RTNL_LINK_RX_FRAME_ERR l, RTNL_LINK_RX_OVER_ERR l, RTNL_LINK_RX_CRC_ERR l, RTNL_LINK_COLLISIONS l)\<rparr>
         | None \<Rightarrow> \<lparr>pse_port_no = no, pse_rx_packets = vs_rx_packets s, pse_tx_packets = vs_tx_packets s, pse_rx_bytes = vs_rx_bytes s,
             pse_tx_bytes = vs_tx_bytes s, pse_rx_dropped = vs_rx_dropped s, pse_tx_dropped = vs_tx_dropped s,
             pse_rx_errors = vs_rx_errors s, pse_tx_errors = vs_tx_errors s,
             pse_ethernet = (if version < 5 then Some (0, 0, 0, 0) else None)\<rparr>)"

text \<open>\<open>room\<close> is the number of entries, with their properties, that still fit in the reply; a full reply stops the iteration.\<close>

definition port_stats_iterator ::
  "nat \<Rightarrow> (string \<Rightarrow> link_stats option) \<Rightarrow> u32 \<times> string \<times> u32 \<times> ovs_vport_stats \<Rightarrow> nat \<times> port_stats_entry list \<Rightarrow> bool \<times> nat \<times> port_stats_entry list" where
  "port_stats_iterator version link msg acc =
     (case (msg, acc) of
        ((port_no, name, typ, s), room, es) \<Rightarrow>
          if room = 0 then (False, room, es) else (True, room - 1, es @ [port_stats_entry_of version link port_no name typ s]))"

fun port_stats_loop :: "nat \<Rightarrow> (string \<Rightarrow> link_stats option) \<Rightarrow> (u32 \<times> string \<times> u32 \<times> ovs_vport_stats) list \<Rightarrow> nat \<times> port_stats_entry list \<Rightarrow> port_stats_entry list" where
  "port_stats_loop version link [] acc = snd acc"
| "port_stats_loop version link (m # ms) acc =
     (case port_stats_iterator version link m acc of (go, acc) \<Rightarrow> if go then port_stats_loop version link ms acc else snd acc)"

text \<open>
  \<open>port\<close> is \<open>None\<close> when the request is for all ports. \<open>replies\<close> are the messages the kernel sends back, \<open>None\<close> a failure to receive; \<open>reply_new\<close>
  is whether the reply could be allocated, with \<open>room\<close> entries. A request that cannot be sent keeps its message buffer.
\<close>

definition indigo_port_stats_get ::
  "('k, 'd) vport_env \<Rightarrow> bool \<Rightarrow> nat \<Rightarrow> nat \<Rightarrow> (string \<Rightarrow> link_stats option) \<Rightarrow> ('k \<Rightarrow> (u32 \<times> string \<times> u32 \<times> ovs_vport_stats) list option) \<Rightarrow>
    u32 option \<Rightarrow> ('k, 'd) vport_state \<Rightarrow> (error \<times> port_stats_entry list \<times> ('k, 'd) vport_state) option" where
  "indigo_port_stats_get E reply_new version room link replies port st =
     (if \<not> reply_new then Some (ERROR_RESOURCE, [], st)
      else do {
        (msg, nl) \<leftarrow> ind_ovs_create_nlmsg (ve_families E) (ve_dp_ifindex E) (ovs_vport_family (ve_families E)) OVS_VPORT_CMD_GET (vp_nl st);
        let msg = (case port of
            None \<Rightarrow> msg\<lparr>gm_flags := gm_flags msg OR NLM_F_DUMP\<rparr>
          | Some p \<Rightarrow> msg\<lparr>gm_calls := nla_put_u32 (gm_calls msg) OVS_VPORT_ATTR_PORT_NO p\<rparr>);
        let (err, k) = k_send (ve_kernel E) msg (nl_kernel nl);
        let nl = nl\<lparr>nl_kernel := k\<rparr>;
        if err < 0 then Some (ERROR_UNKNOWN, [], st\<lparr>vp_nl := nl\<rparr>)
        else do {
          nl \<leftarrow> nlmsg_free_to_pool (gm_addr msg) nl;
          case replies (nl_kernel nl) of
            None \<Rightarrow> Some (ERROR_UNKNOWN, [], st\<lparr>vp_nl := nl\<rparr>)
          | Some ms \<Rightarrow> Some (ERROR_NONE, port_stats_loop version link ms (room, []), st\<lparr>vp_nl := nl\<rparr>)
        }
      })"

text \<open>The extended statistics: only for a port with a known link, and not for the local port.\<close>

record fi_port_stats =
  fps_link :: link_stats
  fps_rx_packets_unicast :: u64
  fps_rx_packets_broadcast :: u64
  fps_rx_packets_multicast :: u64
  fps_tx_packets_unicast :: u64
  fps_tx_packets_broadcast :: u64
  fps_tx_packets_multicast :: u64
  fps_link_up_count :: u64
  fps_link_down_count :: u64

definition indigo_port_extended_stats_get :: "(string \<Rightarrow> link_stats option) \<Rightarrow> u32 \<Rightarrow> ('k, 'd) vport_state \<Rightarrow> fi_port_stats \<Rightarrow> fi_port_stats" where
  "indigo_port_extended_stats_get link port_no st out =
     (if port_no = OF_PORT_DEST_LOCAL then out
      else case ind_ovs_port_lookup port_no st of
        None \<Rightarrow> out
      | Some port \<Rightarrow>
          (case link (ifname port) of
             None \<Rightarrow> out
           | Some l \<Rightarrow>
               let get = get_packet_stats (vp_stats st); pc = pcounters port
               in \<lparr>fps_link = l, fps_rx_packets_unicast = get (rx_unicast_stats_handle pc), fps_rx_packets_broadcast = get (rx_broadcast_stats_handle pc),
                    fps_rx_packets_multicast = get (rx_multicast_stats_handle pc), fps_tx_packets_unicast = get (tx_unicast_stats_handle pc),
                    fps_tx_packets_broadcast = get (tx_broadcast_stats_handle pc), fps_tx_packets_multicast = get (tx_multicast_stats_handle pc),
                    fps_link_up_count = link_up_count port, fps_link_down_count = link_down_count port\<rparr>))"

subsection \<open>Queues\<close>

text \<open>Linux: \<open>TC_H_ROOT\<close> and the minor number of a class. A qdisc has its parent class, interface and counters.\<close>

definition TC_H_ROOT :: u32 where "TC_H_ROOT = 0xffffffff"
definition TC_H_MIN :: "u32 \<Rightarrow> u32" where "TC_H_MIN h = h AND 0xffff"

record qdisc =
  qd_parent :: u32
  qd_ifindex :: int
  qd_packets :: u64
  qd_bytes :: u64
  qd_drops :: u64

definition qdisc_get_queue_id :: "qdisc \<Rightarrow> u32" where
  "qdisc_get_queue_id q =
     (if qd_parent q = TC_H_ROOT then TC_H_ROOT
      else let minor = TC_H_MIN (qd_parent q) in if minor > 0 then minor - 1 else minor)"

record queue_stats_entry =
  qse_port_no :: u32
  qse_queue_id :: u32
  qse_tx_packets :: u64
  qse_tx_bytes :: u64
  qse_tx_errors :: u64

definition queue_stats_fill :: "qdisc \<Rightarrow> u32 \<Rightarrow> u32 \<Rightarrow> nat \<times> queue_stats_entry list \<Rightarrow> nat \<times> queue_stats_entry list" where
  "queue_stats_fill q port_no queue_id acc =
     (case acc of (room, es) \<Rightarrow>
        if room = 0 then acc
        else (room - 1, es @ [\<lparr>qse_port_no = port_no, qse_queue_id = queue_id, qse_tx_packets = qd_packets q, qse_tx_bytes = qd_bytes q, qse_tx_errors = qd_drops q\<rparr>]))"

definition queue_stats_qdisc ::
  "(int \<Rightarrow> string option) \<Rightarrow> u32 option \<Rightarrow> u32 option \<Rightarrow> ('k, 'd) vport_state \<Rightarrow> qdisc \<Rightarrow> nat \<times> queue_stats_entry list \<Rightarrow> nat \<times> queue_stats_entry list" where
  "queue_stats_qdisc link_name port queue st q acc =
     (let queue_id = qdisc_get_queue_id q
      in if queue_id = TC_H_ROOT then acc
         else case ind_ovs_port_lookup_by_ifindex link_name (qd_ifindex q) st of
           None \<Rightarrow> acc
         | Some p \<Rightarrow>
             if (port = None \<or> port = Some (dp_port_no p)) \<and> (queue = None \<or> queue = Some queue_id)
             then queue_stats_fill q (dp_port_no p) queue_id acc else acc)"

text \<open>\<open>port\<close> and \<open>queue\<close> are \<open>None\<close> when the request asks for all of them.\<close>

definition indigo_port_queue_stats_get ::
  "(int \<Rightarrow> string option) \<Rightarrow> nat \<Rightarrow> qdisc list \<Rightarrow> u32 option \<Rightarrow> u32 option \<Rightarrow> ('k, 'd) vport_state \<Rightarrow> queue_stats_entry list" where
  "indigo_port_queue_stats_get link_name room qdiscs port queue st =
     (if port = Some OVSP_LOCAL then [] else snd (fold (queue_stats_qdisc link_name port queue st) qdiscs (room, [])))"

subsection \<open>Counters of VLANs\<close>

record vlan_counters =
  vc_rx_stats_handle :: u32
  vc_tx_stats_handle :: u32

primrec vlan_stats_loop :: "nat \<Rightarrow> stats_module \<Rightarrow> (vlan_counters list \<times> stats_module) option" where
  "vlan_stats_loop 0 stats = Some ([], stats)"
| "vlan_stats_loop (Suc n) stats =
     do {
       (vs, stats) \<leftarrow> vlan_stats_loop n stats;
       (rx, stats) \<leftarrow> stats_alloc stats;
       (tx, stats) \<leftarrow> stats_alloc stats;
       Some (vs @ [\<lparr>vc_rx_stats_handle = rx, vc_tx_stats_handle = tx\<rparr>], stats)
     }"

definition ind_ovs_vlan_stats_init :: "stats_module \<Rightarrow> (vlan_counters list \<times> stats_module) option" where
  "ind_ovs_vlan_stats_init stats = vlan_stats_loop 4096 stats"

text \<open>Bytes and packets received and sent; \<open>None\<close> leaves the output as it is.\<close>

definition indigo_fwd_vlan_stats_get :: "vlan_counters list \<Rightarrow> stats_module \<Rightarrow> u16 \<Rightarrow> (stats \<times> stats) option" where
  "indigo_fwd_vlan_stats_get vcounters stats vlan_vid =
     (if vlan_vid < 1 \<or> vlan_vid > 4095 then None
      else let c = vcounters ! unat vlan_vid in Some (stats_get stats (vc_rx_stats_handle c), stats_get stats (vc_tx_stats_handle c)))"

definition ind_ovs_rx_vlan_stats_select :: "vlan_counters list \<Rightarrow> u16 \<Rightarrow> u32 option" where
  "ind_ovs_rx_vlan_stats_select vcounters vlan_vid = (if vlan_vid > 0 \<and> vlan_vid < 4096 then Some (vc_rx_stats_handle (vcounters ! unat vlan_vid)) else None)"

definition ind_ovs_tx_vlan_stats_select :: "vlan_counters list \<Rightarrow> u16 \<Rightarrow> u32 option" where
  "ind_ovs_tx_vlan_stats_select vcounters vlan_vid = (if vlan_vid > 0 \<and> vlan_vid < 4096 then Some (vc_tx_stats_handle (vcounters ! unat vlan_vid)) else None)"

subsection \<open>The invariant of the port table\<close>

definition handles :: "ind_ovs_port_counters \<Rightarrow> u32 list" where
  "handles pc = [rx_unicast_stats_handle pc, tx_unicast_stats_handle pc, rx_broadcast_stats_handle pc, tx_broadcast_stats_handle pc,
     rx_multicast_stats_handle pc, tx_multicast_stats_handle pc, rx_bad_vlan_stats_handle pc]"

fun alloc_many :: "nat \<Rightarrow> stats_module \<Rightarrow> (u32 list \<times> stats_module) option" where
  "alloc_many 0 s = Some ([], s)"
| "alloc_many (Suc n) s = do { (h, s) \<leftarrow> stats_alloc s; (hs, s) \<leftarrow> alloc_many n s; Some (h # hs, s) }"

fun free_many :: "u32 list \<Rightarrow> stats_module \<Rightarrow> stats_module option" where
  "free_many [] s = Some s"
| "free_many (h # hs) s = do { s \<leftarrow> stats_free s h; free_many hs s }"

lemma alloc_many_ok:
  "stats_inv s A \<Longrightarrow> card A + n \<le> MAX_STATS \<Longrightarrow> \<exists>hs s'. alloc_many n s = Some (hs, s') \<and> length hs = n \<and> distinct hs \<and> set hs \<inter> A = {} \<and> stats_inv s' (A \<union> set hs)"
proof (induction n arbitrary: s A)
  case (Suc n)
  have room: "card A < MAX_STATS" using Suc.prems(2) by simp
  obtain h s1 where h: "stats_alloc s = Some (h, s1)" "h \<notin> A" "stats_inv s1 (insert h A)" by (rule stats_alloc_ok [OF Suc.prems(1) room])
  have "card (insert h A) + n \<le> MAX_STATS" using h(2) Suc.prems(2) stats_inv_finite [OF Suc.prems(1)] by simp
  then obtain hs s' where "alloc_many n s1 = Some (hs, s')" "length hs = n" "distinct hs" "set hs \<inter> insert h A = {}" "stats_inv s' (insert h A \<union> set hs)"
    using Suc.IH [OF h(3)] by blast
  then show ?case using h by (intro exI [of _ "h # hs"] exI [of _ s']) auto
qed simp

lemma free_many_ok: "stats_inv s A \<Longrightarrow> distinct hs \<Longrightarrow> set hs \<subseteq> A \<Longrightarrow> \<exists>s'. free_many hs s = Some s' \<and> stats_inv s' (A - set hs)"
proof (induction hs arbitrary: s A)
  case (Cons h hs)
  have "h \<in> A" using Cons.prems(3) by simp
  then obtain s1 where s1: "stats_free s h = Some s1" "stats_inv s1 (A - {h})" by (rule stats_free_ok [OF Cons.prems(1)])
  have "A - {h} - set hs = A - set (h # hs)" by auto
  then show ?case using Cons.IH [OF s1(2)] Cons.prems s1(1) by fastforce
qed simp

lemma alloc_port_counters_many:
  "alloc_port_counters s = do { (hs, s) \<leftarrow> alloc_many 7 s; Some (\<lparr>rx_unicast_stats_handle = hs ! 0, tx_unicast_stats_handle = hs ! 1,
     rx_broadcast_stats_handle = hs ! 2, tx_broadcast_stats_handle = hs ! 3, rx_multicast_stats_handle = hs ! 4, tx_multicast_stats_handle = hs ! 5,
     rx_bad_vlan_stats_handle = hs ! 6\<rparr>, s) }"
  by (simp add: alloc_port_counters_def numeral_eq_Suc split: Option.bind_split)

lemma free_port_counters_many: "free_port_counters pc s = free_many (handles pc) s"
  by (simp add: free_port_counters_def handles_def split: Option.bind_split)

lemma alloc_counters_ok:
  assumes "stats_inv s A" "card A + 7 \<le> MAX_STATS"
  obtains pc s' where "alloc_port_counters s = Some (pc, s')" "distinct (handles pc)" "set (handles pc) \<inter> A = {}" "stats_inv s' (A \<union> set (handles pc))"
proof -
  obtain hs s' where h: "alloc_many 7 s = Some (hs, s')" "length hs = 7" "distinct hs" "set hs \<inter> A = {}" "stats_inv s' (A \<union> set hs)"
    using alloc_many_ok [OF assms] by blast
  let ?pc = "\<lparr>rx_unicast_stats_handle = hs ! 0, tx_unicast_stats_handle = hs ! 1, rx_broadcast_stats_handle = hs ! 2, tx_broadcast_stats_handle = hs ! 3,
     rx_multicast_stats_handle = hs ! 4, tx_multicast_stats_handle = hs ! 5, rx_bad_vlan_stats_handle = hs ! 6\<rparr>"
  have "hs = map ((!) hs) [0..<7]" using h(2) by (metis map_nth)
  also have "\<dots> = handles ?pc" by (simp add: handles_def upt_rec numeral_eq_Suc)
  finally have "handles ?pc = hs" by simp
  then show thesis using that [of ?pc s'] h by (simp add: alloc_port_counters_many)
qed

definition valid_uplink :: "('k, 'd) vport_state \<Rightarrow> nat \<Rightarrow> bool" where
  "valid_uplink st i \<longleftrightarrow> (case ind_ovs_ports st ! i of None \<Rightarrow> False | Some p \<Rightarrow> is_uplink p \<and> ifflags p AND IFF_RUNNING \<noteq> 0)"

text \<open>The current uplink is a running uplink, and there is one whenever any uplink is running.\<close>

definition uplink_ok :: "('k, 'd) vport_state \<Rightarrow> bool" where
  "uplink_ok st \<longleftrightarrow> (if current_uplink st = OF_PORT_DEST_NONE then \<forall>i<IND_OVS_MAX_PORTS. \<not> valid_uplink st i
     else unat (current_uplink st) < IND_OVS_MAX_PORTS \<and> valid_uplink st (unat (current_uplink st)))"

definition uplink_known :: "('k, 'd) vport_state \<Rightarrow> bool" where
  "uplink_known st \<longleftrightarrow> current_uplink st = OF_PORT_DEST_NONE \<or> unat (current_uplink st) < IND_OVS_MAX_PORTS"

lemma uplink_ok_known: "uplink_ok st \<Longrightarrow> uplink_known st"
  by (auto simp: uplink_ok_def uplink_known_def split: if_splits)

lemma is_valid_uplink_in: "length (ind_ovs_ports st) = IND_OVS_MAX_PORTS \<Longrightarrow> i < IND_OVS_MAX_PORTS \<Longrightarrow> is_valid_uplink (of_nat i) st = Some (valid_uplink st i)"
  by (simp add: is_valid_uplink_def valid_uplink_def IND_OVS_MAX_PORTS_def unat_of_nat_id)

lemma uplink_loop_ok:
  assumes "length (ind_ovs_ports st) = IND_OVS_MAX_PORTS"
  shows "set is \<subseteq> {..<IND_OVS_MAX_PORTS} \<Longrightarrow> \<exists>u. uplink_loop is st = Some u \<and>
    ((\<exists>i \<in> set is. u = of_nat i \<and> valid_uplink st i) \<or> u = OF_PORT_DEST_NONE \<and> (\<forall>i \<in> set is. \<not> valid_uplink st i))"
proof (induction "is")
  case (Cons i "is")
  then show ?case using is_valid_uplink_in [OF assms, of i] by (cases "valid_uplink st i") auto
qed simp

lemma reselect_ok:
  assumes "length (ind_ovs_ports st) = IND_OVS_MAX_PORTS" "uplink_known st"
  obtains u where "ind_ovs_uplink_reselect st = Some (st\<lparr>current_uplink := u\<rparr>)" "uplink_ok (st\<lparr>current_uplink := u\<rparr>)"
proof -
  let ?c = "current_uplink st"
  obtain v where v: "is_valid_uplink ?c st = Some v" "v \<Longrightarrow> unat ?c < IND_OVS_MAX_PORTS \<and> valid_uplink st (unat ?c)"
  proof (cases "unat ?c < IND_OVS_MAX_PORTS")
    case True
    then show thesis using that is_valid_uplink_in [OF assms(1) True] True by simp
  next
    case False
    then have "?c = OF_PORT_DEST_NONE" using assms(2) by (simp add: uplink_known_def)
    then show thesis using that [of False] by (simp add: is_valid_uplink_def OF_PORT_DEST_NONE_def IND_OVS_MAX_PORTS_def)
  qed
  show thesis
  proof (cases v)
    case True
    have "?c \<noteq> OF_PORT_DEST_NONE" using v(2) True by (auto simp: OF_PORT_DEST_NONE_def IND_OVS_MAX_PORTS_def)
    then have "uplink_ok (st\<lparr>current_uplink := ?c\<rparr>)" using v(2) True by (simp add: uplink_ok_def)
    then show thesis using that [of ?c] v(1) True by (simp add: ind_ovs_uplink_reselect_def)
  next
    case False
    have "set [0..<IND_OVS_MAX_PORTS] \<subseteq> {..<IND_OVS_MAX_PORTS}" by auto
    then obtain u where u: "uplink_loop [0..<IND_OVS_MAX_PORTS] st = Some u" "(\<exists>i<IND_OVS_MAX_PORTS. u = of_nat i \<and> valid_uplink st i) \<or>
        u = OF_PORT_DEST_NONE \<and> (\<forall>i<IND_OVS_MAX_PORTS. \<not> valid_uplink st i)"
      using uplink_loop_ok [OF assms(1), of "[0..<IND_OVS_MAX_PORTS]"] by auto
    have val: "valid_uplink (st\<lparr>current_uplink := w\<rparr>) i = valid_uplink st i" for w i by (simp add: valid_uplink_def)
    have "uplink_ok (st\<lparr>current_uplink := u\<rparr>)"
      using u(2)
    proof (elim disjE exE conjE)
      fix i assume i: "i < IND_OVS_MAX_PORTS" "u = of_nat i" "valid_uplink st i"
      then have ui: "unat u = i" by (simp add: IND_OVS_MAX_PORTS_def unat_of_nat_id)
      then have "u \<noteq> OF_PORT_DEST_NONE" using i(1) by (auto simp: OF_PORT_DEST_NONE_def IND_OVS_MAX_PORTS_def)
      then show ?thesis using i ui val by (simp add: uplink_ok_def)
    qed (simp add: uplink_ok_def val)
    then show thesis using that u(1) v(1) False by (simp add: ind_ovs_uplink_reselect_def)
  qed
qed

definition ports_ok :: "u32 set \<Rightarrow> ind_ovs_port option list \<Rightarrow> bool" where
  "ports_ok A ps \<longleftrightarrow> length ps = IND_OVS_MAX_PORTS \<and>
     (\<forall>i p. i < IND_OVS_MAX_PORTS \<longrightarrow> ps ! i = Some p \<longrightarrow> unat (dp_port_no p) = i \<and> distinct (handles (pcounters p)) \<and> set (handles (pcounters p)) \<subseteq> A) \<and>
     (\<forall>i j p q. i < IND_OVS_MAX_PORTS \<longrightarrow> j < IND_OVS_MAX_PORTS \<longrightarrow> i \<noteq> j \<longrightarrow> ps ! i = Some p \<longrightarrow> ps ! j = Some q \<longrightarrow>
        set (handles (pcounters p)) \<inter> set (handles (pcounters q)) = {})"

definition vport_inv :: "u64 set \<Rightarrow> u64 set \<Rightarrow> u32 set \<Rightarrow> ('k, 'd) vport_env \<Rightarrow> ('k, 'd) vport_state \<Rightarrow> bool" where
  "vport_inv P U A E st \<longleftrightarrow> stats_inv (vp_stats st) A \<and> ports_ok A (ind_ovs_ports st) \<and> uplink_ok st \<and> pool_inv P U (nl_freelist (vp_nl st)) \<and>
     upcall_idx st < ve_num_upcall_threads E"

text \<open>What is asked of the environment: two free message buffers, a kernel that acknowledges, and known families.\<close>

definition vport_env_ok :: "u64 set \<Rightarrow> ('k, 'd) vport_env \<Rightarrow> bool" where
  "vport_env_ok U E \<longleftrightarrow> card U + 2 \<le> IND_OVS_NLMSG_FREELIST_SIZE \<and> kernel_acks (ve_kernel E)"

lemma vport_transact_ok:
  assumes "pool_inv P U (nl_freelist (vp_nl st))" "vport_env_ok U E"
  obtains err nl where "vport_transact E cmd put st = Some (err, st\<lparr>vp_nl := nl\<rparr>)" "pool_inv P U (nl_freelist nl)"
proof -
  let ?fam = "ovs_vport_family (ve_families E)"
  have c: "card U < IND_OVS_NLMSG_FREELIST_SIZE" "card U + 2 \<le> IND_OVS_NLMSG_FREELIST_SIZE" "kernel_acks (ve_kernel E)"
    using assms(2) by (simp_all add: vport_env_ok_def)
  have fin: "finite U" using assms(1) finite_subset by (auto simp: pool_inv_def)
  have "nlmsg_version (ve_families E) ?fam \<noteq> None" by (simp add: nlmsg_version_def)
  then obtain v where v: "nlmsg_version (ve_families E) ?fam = Some v" by blast
  obtain m fl where m: "ind_ovs_nlmsg_freelist_alloc (nl_freelist (vp_nl st)) = Some (m, fl)" "m \<in> P - U" "pool_inv P (insert m U) fl"
    by (rule pool_alloc [OF assms(1) c(1)])
  let ?msg = "\<lparr>gm_addr = m, gm_family = ?fam, gm_cmd = cmd, gm_version = v, gm_flags = 0, gm_dp_ifindex = ve_dp_ifindex E, gm_calls = put []\<rparr>"
  have "card (insert m U) < IND_OVS_NLMSG_FREELIST_SIZE" using m(2) fin c(2) by simp
  then obtain nl where "ind_ovs_transact (ve_kernel E) ?msg ((vp_nl st)\<lparr>nl_freelist := fl\<rparr>) =
      Some (fst (transact_result (ve_kernel E) ?msg (nl_kernel (vp_nl st))), nl)" "pool_inv P (insert m U - {m}) (nl_freelist nl)"
    using transact_ok [of P "insert m U" "(vp_nl st)\<lparr>nl_freelist := fl\<rparr>" ?msg "ve_kernel E"] m(3) c(3) by auto
  then show thesis using that [of _ nl] m v by (simp add: vport_transact_def ind_ovs_create_nlmsg_def)
qed

lemma status_notify_ok:
  assumes "port_at st i \<noteq> None"
  obtains err dev log where "port_status_notify E Q i reason st = Some (err, st\<lparr>vp_dev := dev, vp_log := vp_log st @ log\<rparr>)"
proof -
  obtain p where p: "port_at st i = Some p" using assms by blast
  have desc: "\<exists>d dev. port_desc_set E v i st = Some (d, st\<lparr>vp_dev := dev\<rparr>)" for v
  proof (cases "vport_type p = OVS_VPORT_TYPE_NETDEV")
    case True
    then show ?thesis using p by (cases "ind_ovs_get_interface_features (ve_netdev E) (ifname p) (vp_dev st)") (auto simp: port_desc_set_def)
  next
    case False
    then show ?thesis using p by (auto simp: port_desc_set_def intro: exI [of _ "vp_dev st"])
  qed
  show thesis
  proof (cases "oe_async_version Q")
    case None
    then show thesis using that [of ERROR_NONE "[]" "vp_dev st"] by (simp add: port_status_notify_def)
  next
    case (Some v)
    obtain d dev where d: "port_desc_set E v i st = Some (d, st\<lparr>vp_dev := dev\<rparr>)" using desc by blast
    consider "\<not> oe_port_desc_new Q" | "oe_port_desc_new Q" "\<not> (oe_port_status_new Q \<and> oe_port_status_desc_set Q)"
      | "oe_port_desc_new Q" "oe_port_status_new Q" "oe_port_status_desc_set Q" by blast
    then show thesis
    proof cases
      case 1 then show thesis using that [of ERROR_UNKNOWN "[]" "vp_dev st"] Some by (simp add: port_status_notify_def)
    next
      case 2 then show thesis using that [of ERROR_UNKNOWN "[]" dev] Some d by (auto simp: port_status_notify_def)
    next
      case 3 then show thesis using that [of ERROR_NONE "[PortStatus reason d]" dev] Some d by (simp add: port_status_notify_def)
    qed
  qed
qed

text \<open>Replacing the entry of one port.\<close>

lemma port_at_nth: "length (ind_ovs_ports st) = IND_OVS_MAX_PORTS \<Longrightarrow> unat i < IND_OVS_MAX_PORTS \<Longrightarrow> port_at st i = ind_ovs_ports st ! unat i"
  by (simp add: port_at_def)

lemma ports_okD:
  assumes "ports_ok A ps"
  shows "length ps = IND_OVS_MAX_PORTS"
    "i < IND_OVS_MAX_PORTS \<Longrightarrow> ps ! i = Some p \<Longrightarrow> unat (dp_port_no p) = i \<and> distinct (handles (pcounters p)) \<and> set (handles (pcounters p)) \<subseteq> A"
    "i < IND_OVS_MAX_PORTS \<Longrightarrow> j < IND_OVS_MAX_PORTS \<Longrightarrow> i \<noteq> j \<Longrightarrow> ps ! i = Some p \<Longrightarrow> ps ! j = Some q \<Longrightarrow>
      set (handles (pcounters p)) \<inter> set (handles (pcounters q)) = {}"
  using assms unfolding ports_ok_def by blast+

lemma ports_ok_add:
  assumes ok: "ports_ok A ps" and p: "unat (dp_port_no p) = i" "i < IND_OVS_MAX_PORTS" "distinct (handles (pcounters p))" "set (handles (pcounters p)) \<inter> A = {}"
  shows "ports_ok (A \<union> set (handles (pcounters p))) (ps[i := Some p])"
proof -
  note D = ports_okD [OF ok]
  have new: "set (handles (pcounters p)) \<inter> set (handles (pcounters q)) = {}" if "j < IND_OVS_MAX_PORTS" "ps ! j = Some q" for j q
    using D(2) [OF that] p(4) by blast
  show ?thesis
    unfolding ports_ok_def
  proof (intro conjI allI impI)
    fix a b q r assume a: "a < IND_OVS_MAX_PORTS" "b < IND_OVS_MAX_PORTS" "a \<noteq> b" "ps[i := Some p] ! a = Some q" "ps[i := Some p] ! b = Some r"
    then show "set (handles (pcounters q)) \<inter> set (handles (pcounters r)) = {}"
      using D(1,3) new p(2) by (cases "a = i"; cases "b = i") (auto simp: Int_commute)
  next
    fix a q assume a: "a < IND_OVS_MAX_PORTS" "ps[i := Some p] ! a = Some q"
    show "unat (dp_port_no q) = a" "distinct (handles (pcounters q))" "set (handles (pcounters q)) \<subseteq> A \<union> set (handles (pcounters p))"
      using a D(1) D(2) [of a q] p by (cases "a = i"; auto)+
  qed (use D(1) in simp)
qed

lemma ports_ok_same:
  assumes ok: "ports_ok A ps" and p: "ps ! i = Some p" "dp_port_no q = dp_port_no p" "pcounters q = pcounters p" "i < IND_OVS_MAX_PORTS"
  shows "ports_ok A (ps[i := Some q])"
proof -
  note D = ports_okD [OF ok]
  have sub: "\<exists>r'. ps ! a = Some r' \<and> dp_port_no r' = dp_port_no r \<and> pcounters r' = pcounters r" if "ps[i := Some q] ! a = Some r" "a < IND_OVS_MAX_PORTS" for a r
    using that p D(1) by (cases "a = i") auto
  show ?thesis
    unfolding ports_ok_def
  proof (intro conjI allI impI)
    fix a b s t assume a: "a < IND_OVS_MAX_PORTS" "b < IND_OVS_MAX_PORTS" "a \<noteq> b" "ps[i := Some q] ! a = Some s" "ps[i := Some q] ! b = Some t"
    then show "set (handles (pcounters s)) \<inter> set (handles (pcounters t)) = {}" using sub [OF a(4,1)] sub [OF a(5,2)] D(3) [OF a(1-3)] by metis
  next
    fix a s assume a: "a < IND_OVS_MAX_PORTS" "ps[i := Some q] ! a = Some s"
    show "unat (dp_port_no s) = a" "distinct (handles (pcounters s))" "set (handles (pcounters s)) \<subseteq> A" using sub [OF a(2,1)] D(2) [OF a(1)] by metis+
  qed (use D(1) in simp)
qed

lemma ports_ok_remove:
  assumes ok: "ports_ok A ps" and p: "ps ! i = Some p" "i < IND_OVS_MAX_PORTS"
  shows "ports_ok (A - set (handles (pcounters p))) (ps[i := None])"
proof -
  note D = ports_okD [OF ok]
  have sub: "a \<noteq> i \<and> ps ! a = Some r" if "ps[i := None] ! a = Some r" "a < IND_OVS_MAX_PORTS" for a r
    using that D(1) by (cases "a = i") auto
  show ?thesis
    unfolding ports_ok_def
  proof (intro conjI allI impI)
    fix a b s t assume a: "a < IND_OVS_MAX_PORTS" "b < IND_OVS_MAX_PORTS" "a \<noteq> b" "ps[i := None] ! a = Some s" "ps[i := None] ! b = Some t"
    then show "set (handles (pcounters s)) \<inter> set (handles (pcounters t)) = {}" using sub D(3) by metis
  next
    fix a s assume a: "a < IND_OVS_MAX_PORTS" "ps[i := None] ! a = Some s"
    have s: "a \<noteq> i" "ps ! a = Some s" using sub [OF a(2,1)] by auto
    show "unat (dp_port_no s) = a" "distinct (handles (pcounters s))" using D(2) [OF a(1) s(2)] by auto
    show "set (handles (pcounters s)) \<subseteq> A - set (handles (pcounters p))" using D(2) [OF a(1) s(2)] D(3) [OF a(1) p(2) s(1) s(2) p(1)] by blast
  qed (use D(1) in simp)
qed

text \<open>A change that leaves the running uplinks as they are.\<close>

definition up_running :: "ind_ovs_port option \<Rightarrow> bool" where
  "up_running p = (case p of None \<Rightarrow> False | Some q \<Rightarrow> is_uplink q \<and> ifflags q AND IFF_RUNNING \<noteq> 0)"

lemma valid_uplink_running: "valid_uplink st i = up_running (ind_ovs_ports st ! i)"
  by (simp add: valid_uplink_def up_running_def)

lemma uplink_ok_upd:
  assumes "uplink_ok st" "length (ind_ovs_ports st) = IND_OVS_MAX_PORTS" "i < IND_OVS_MAX_PORTS" "up_running x = up_running (ind_ovs_ports st ! i)"
    "ind_ovs_ports st' = (ind_ovs_ports st)[i := x]" "current_uplink st' = current_uplink st"
  shows "uplink_ok st'"
proof -
  have "valid_uplink st' j = valid_uplink st j" for j
    using assms(2-5) by (cases "j = i") (simp_all add: valid_uplink_running)
  then show ?thesis using assms(1,6) by (simp add: uplink_ok_def)
qed

lemma uplink_ok_cong: "ind_ovs_ports st' = ind_ovs_ports st \<Longrightarrow> current_uplink st' = current_uplink st \<Longrightarrow> uplink_ok st' = uplink_ok st"
  by (simp add: uplink_ok_def valid_uplink_def)

lemma vport_inv_cong:
  assumes "vport_inv P U A E st" "ind_ovs_ports st' = ind_ovs_ports st" "current_uplink st' = current_uplink st" "upcall_idx st' = upcall_idx st"
    "stats_inv (vp_stats st') A" "pool_inv P U (nl_freelist (vp_nl st'))"
  shows "vport_inv P U A E st'"
  using assms uplink_ok_cong [OF assms(2,3)] by (simp add: vport_inv_def)

lemma vport_invD:
  assumes "vport_inv P U A E st"
  shows "stats_inv (vp_stats st) A" "ports_ok A (ind_ovs_ports st)" "uplink_ok st" "pool_inv P U (nl_freelist (vp_nl st))" "upcall_idx st < ve_num_upcall_threads E"
    "length (ind_ovs_ports st) = IND_OVS_MAX_PORTS"
  using assms by (simp_all add: vport_inv_def ports_ok_def)

lemma port_cleanup_ok:
  assumes "stats_inv (vp_stats st) (A \<union> set (handles (pcounters p)))" "distinct (handles (pcounters p))" "set (handles (pcounters p)) \<inter> A = {}"
  obtains stats log where "port_cleanup p st = Some (st\<lparr>vp_stats := stats, vp_log := log\<rparr>)" "stats_inv stats A"
proof -
  obtain s where "free_port_counters (pcounters p) (vp_stats st) = Some s" "stats_inv s (A \<union> set (handles (pcounters p)) - set (handles (pcounters p)))"
    using free_many_ok [OF assms(1,2)] by (auto simp: free_port_counters_many)
  moreover have "A \<union> set (handles (pcounters p)) - set (handles (pcounters p)) = A" using assms(3) by blast
  ultimately show thesis using that by (simp add: port_cleanup_def)
qed

text \<open>The last step of every notification: the log, and a new choice of the uplink if an uplink changed.\<close>

lemma reselect_inv:
  assumes "stats_inv (vp_stats st) A" "ports_ok A (ind_ovs_ports st)" "pool_inv P U (nl_freelist (vp_nl st))" "upcall_idx st < ve_num_upcall_threads E"
    and "if up then uplink_known st else uplink_ok st"
  obtains u where "(if up then ind_ovs_uplink_reselect st else Some st) = Some (st\<lparr>current_uplink := u\<rparr>)" "vport_inv P U A E (st\<lparr>current_uplink := u\<rparr>)"
proof (cases up)
  case True
  then have k: "uplink_known st" using assms(5) by simp
  obtain u where "ind_ovs_uplink_reselect st = Some (st\<lparr>current_uplink := u\<rparr>)" "uplink_ok (st\<lparr>current_uplink := u\<rparr>)"
    by (rule reselect_ok [OF _ k]) (use assms(2) in \<open>simp add: ports_ok_def\<close>)
  then show thesis using that assms True by (simp add: vport_inv_def)
next
  case False
  have "st\<lparr>current_uplink := current_uplink st\<rparr> = st" by simp
  then show thesis using that [of "current_uplink st"] assms False by (simp add: vport_inv_def)
qed

lemma port_added_tail_ok:
  assumes inv: "vport_inv P U A E st" and st': "stats_inv (vp_stats st') (A \<union> set (handles (pcounters p)))" "ind_ovs_ports st' = ind_ovs_ports st"
    "current_uplink st' = current_uplink st" "upcall_idx st' = upcall_idx st" "pool_inv P U (nl_freelist (vp_nl st'))"
    and p: "unat (dp_port_no p) = unat i" "unat i < IND_OVS_MAX_PORTS" "distinct (handles (pcounters p))" "set (handles (pcounters p)) \<inter> A = {}"
    and new: "port_at st i = None"
  obtains st2 where "port_added_tail E Q i p st' = Some st2" "vport_inv P U (A \<union> set (handles (pcounters p))) E st2"
    "\<exists>t. ind_ovs_ports st2 = (ind_ovs_ports st)[unat i := Some (p\<lparr>upcall_thread := Some t\<rparr>)]" "vp_stats st2 = vp_stats st'"
proof -
  note D = vport_invD [OF inv]
  let ?i = "unat i" let ?n = "ve_num_upcall_threads E"
  let ?st1 = "st'\<lparr>ind_ovs_ports := (ind_ovs_ports st')[?i := Some p]\<rparr>"
  have "port_at ?st1 i \<noteq> None" using D(6) p(2) st'(2) by (simp add: port_at_def)
  then obtain err dev log where n: "port_status_notify E Q i PORT_ADD ?st1 = Some (err, ?st1\<lparr>vp_dev := dev, vp_log := vp_log ?st1 @ log\<rparr>)" by (rule status_notify_ok)
  let ?q = "p\<lparr>upcall_thread := Some (upcall_idx st')\<rparr>"
  let ?nt = "?st1\<lparr>vp_dev := dev, vp_log := vp_log ?st1 @ log\<rparr>"
  let ?st2 = "?nt\<lparr>ind_ovs_ports := (ind_ovs_ports ?nt)[?i := Some ?q], upcall_idx := (upcall_idx ?nt + 1) mod ?n, vp_log := vp_log ?nt @ [DeferInternal]\<rparr>"
  have ok: "ports_ok (A \<union> set (handles (pcounters p))) (ind_ovs_ports ?st2)" using ports_ok_add [OF D(2), of ?q ?i] p st'(2) by simp
  have none: "ind_ovs_ports st ! ?i = None" using new D(6) p(2) by (simp add: port_at_nth)
  have up: "if is_uplink p then uplink_known ?st2 else uplink_ok ?st2"
  proof (cases "is_uplink p")
    case True
    then show ?thesis using uplink_ok_known [OF D(3)] st'(3) by (simp add: uplink_known_def)
  next
    case False
    then have "uplink_ok ?st2" using uplink_ok_upd [OF D(3,6) p(2), of "Some ?q" ?st2] none st'(2,3) by (simp add: up_running_def)
    then show ?thesis using False by simp
  qed
  have idx: "(upcall_idx st' + 1) mod ?n < ?n" using D(5) by simp
  obtain u where u: "(if is_uplink p then ind_ovs_uplink_reselect ?st2 else Some ?st2) = Some (?st2\<lparr>current_uplink := u\<rparr>)"
    "vport_inv P U (A \<union> set (handles (pcounters p))) E (?st2\<lparr>current_uplink := u\<rparr>)"
    by (rule reselect_inv [OF _ ok _ _ up, of P U E]) (use st' idx in simp_all)
  have "port_added_tail E Q i p st' = Some (?st2\<lparr>current_uplink := u\<rparr>)"
    using n u(1) by (cases "is_uplink p") (simp_all add: port_added_tail_def ind_ovs_upcall_assign_thread_def)
  then show thesis using that [of "?st2\<lparr>current_uplink := u\<rparr>"] u(2) st'(2) by auto
qed

text \<open>The environment gives addresses of six bytes.\<close>

definition macs_ok :: "(string \<Rightarrow> bytes option) \<Rightarrow> bool" where
  "macs_ok link_mac \<longleftrightarrow> (\<forall>n a. link_mac n = Some a \<longrightarrow> length a = 6)"

text \<open>What an addition does to the table: nothing, or a new port that is alone in using its counters and has no kernel flows.\<close>

definition port_added_to :: "u32 set \<Rightarrow> ind_ovs_port option list \<Rightarrow> nat \<Rightarrow> u32 set \<Rightarrow> ind_ovs_port option list \<Rightarrow> bool" where
  "port_added_to A ps i B ps' \<longleftrightarrow> B = A \<and> ps' = ps \<or> i < length ps \<and> ps ! i = None \<and> (\<exists>p. ps' = ps[i := Some p] \<and> B = A \<union> set (handles (pcounters p)) \<and> set (handles (pcounters p)) \<inter> A = {} \<and> num_kflows p = 0)"

lemma port_set_up:
  assumes inv: "vport_inv P U A E st" and E: "vport_env_ok U E" and i: "unat i < IND_OVS_MAX_PORTS" "port_at st i = None"
    and pc: "distinct (handles pc)" "set (handles pc) \<inter> A = {}" "stats_inv s (A \<union> set (handles pc))"
    and p: "pcounters p = pc" "dp_port_no p = i" "num_kflows p = 0"
  obtains st' B where "do { (err, st) \<leftarrow> vport_transact E OVS_VPORT_CMD_SET put (st\<lparr>vp_stats := s\<rparr>);
      if failed err then port_cleanup p st
      else do {
        let (flags, dev) = port_bring_up (ve_netdev E) name (vp_dev st);
        let port = p\<lparr>ifflags := flags\<rparr>;
        let dev = port_offloads (ve_netdev E) port dev;
        port_added_tail E Q i port (st\<lparr>vp_dev := dev\<rparr>)
      } } = Some st'" "vport_inv P U B E st'" "port_added_to A (ind_ovs_ports st) (unat i) B (ind_ovs_ports st')"
proof -
  note D = vport_invD [OF inv]
  let ?st = "st\<lparr>vp_stats := s\<rparr>"
  obtain err nl where t: "vport_transact E OVS_VPORT_CMD_SET put ?st = Some (err, ?st\<lparr>vp_nl := nl\<rparr>)" "pool_inv P U (nl_freelist nl)"
    by (rule vport_transact_ok [OF _ E, of P ?st OVS_VPORT_CMD_SET put]) (use D(4) in simp)
  show thesis
  proof (cases "failed err")
    case True
    obtain s' l where c: "port_cleanup p (?st\<lparr>vp_nl := nl\<rparr>) = Some (?st\<lparr>vp_nl := nl, vp_stats := s', vp_log := l\<rparr>)" "stats_inv s' A"
      by (rule port_cleanup_ok [of "?st\<lparr>vp_nl := nl\<rparr>" A p]) (use pc p in simp_all)
    have "vport_inv P U A E (?st\<lparr>vp_nl := nl, vp_stats := s', vp_log := l\<rparr>)" by (rule vport_inv_cong [OF inv]) (use c(2) t(2) in simp_all)
    then show thesis using that [of "?st\<lparr>vp_nl := nl, vp_stats := s', vp_log := l\<rparr>" A] t(1) c(1) True by (simp add: port_added_to_def)
  next
    case False
    obtain fl dev where f: "port_bring_up (ve_netdev E) name (vp_dev (?st\<lparr>vp_nl := nl\<rparr>)) = (fl, dev)" by fastforce
    let ?r = "p\<lparr>ifflags := fl\<rparr>" let ?st3 = "?st\<lparr>vp_nl := nl, vp_dev := port_offloads (ve_netdev E) ?r dev\<rparr>"
    obtain st2 where st2: "port_added_tail E Q i ?r ?st3 = Some st2" "vport_inv P U (A \<union> set (handles (pcounters ?r))) E st2"
      "\<exists>t. ind_ovs_ports st2 = (ind_ovs_ports st)[unat i := Some (?r\<lparr>upcall_thread := Some t\<rparr>)]"
      by (rule port_added_tail_ok [OF inv, of ?st3 ?r i]) (use pc t(2) i p in simp_all)
    then obtain th where th: "ind_ovs_ports st2 = (ind_ovs_ports st)[unat i := Some (?r\<lparr>upcall_thread := Some th\<rparr>)]" by blast
    have "port_added_to A (ind_ovs_ports st) (unat i) (A \<union> set (handles (pcounters ?r))) (ind_ovs_ports st2)"
      unfolding port_added_to_def th using i D(6) by (intro disjI2 conjI, simp, simp add: port_at_def, intro exI [of _ "?r\<lparr>upcall_thread := Some th\<rparr>"]) (use pc p in simp)
    then show thesis using that [OF _ st2(2)] t(1) f False st2(1) by simp
  qed
qed

lemma port_added_inv:
  assumes inv: "vport_inv P U A E st" and E: "vport_env_ok U E" and room: "card A + 7 \<le> MAX_STATS" and mac: "macs_ok link_mac"
  obtains st' B where "ind_ovs_port_added E Q link_mac sock i name typ st = Some st'" "vport_inv P U B E st'"
    "port_added_to A (ind_ovs_ports st) (unat i) B (ind_ovs_ports st')"
proof -
  note D = vport_invD [OF inv]
  consider (range) "unat i \<ge> IND_OVS_MAX_PORTS" | (old) "unat i < IND_OVS_MAX_PORTS" "port_at st i \<noteq> None" | (new) "unat i < IND_OVS_MAX_PORTS" "port_at st i = None"
    by linarith
  then show thesis
  proof cases
    case range
    obtain err nl where t: "vport_transact E OVS_VPORT_CMD_DEL (\<lambda>msg. nla_put_u32 msg OVS_VPORT_ATTR_PORT_NO i) st = Some (err, st\<lparr>vp_nl := nl\<rparr>)" "pool_inv P U (nl_freelist nl)"
      by (rule vport_transact_ok [OF D(4) E])
    have "vport_inv P U A E (st\<lparr>vp_nl := nl\<rparr>)" by (rule vport_inv_cong [OF inv]) (use D t in simp_all)
    then show thesis using that [of "st\<lparr>vp_nl := nl\<rparr>" A] range t(1) by (simp add: ind_ovs_port_added_def port_added_to_def)
  next
    case old
    then show thesis using that [of st A] inv by (simp add: ind_ovs_port_added_def port_added_to_def)
  next
    case new
    obtain m where m: "(case link_mac name of None \<Rightarrow> Some (replicate 6 0) | Some a \<Rightarrow> if length a = 6 then Some a else None) = Some m"
      using mac by (cases "link_mac name") (auto simp: macs_ok_def)
    let ?name = "if i = OVSP_LOCAL then ''local'' else name"
    obtain pc s where s: "alloc_port_counters (vp_stats st) = Some (pc, s)" "distinct (handles pc)" "set (handles pc) \<inter> A = {}" "stats_inv s (A \<union> set (handles pc))"
      by (rule alloc_counters_ok [OF D(1) room])
    let ?st = "st\<lparr>vp_stats := s\<rparr>" let ?p = "new_port m i ?name typ pc"
    show thesis
    proof (cases sock)
      case None
      obtain s' l where c: "port_cleanup ?p ?st = Some (?st\<lparr>vp_stats := s', vp_log := l\<rparr>)" "stats_inv s' A"
        by (rule port_cleanup_ok [of ?st A ?p]) (use s in \<open>simp_all add: new_port_def\<close>)
      have "vport_inv P U A E (?st\<lparr>vp_stats := s', vp_log := l\<rparr>)" by (rule vport_inv_cong [OF inv]) (use c(2) D(4) in simp_all)
      then show thesis using that [of "?st\<lparr>vp_stats := s', vp_log := l\<rparr>" A] new m s(1) c(1) None by (simp add: ind_ovs_port_added_def port_added_to_def)
    next
      case (Some k)
      let ?q = "?p\<lparr>notify_socket := k, is_uplink := ind_ovs_uplink_check_by_name (ifname ?p) ?st\<rparr>"
      have q: "pcounters ?q = pc" "dp_port_no ?q = i" "num_kflows ?q = 0" by (simp_all add: new_port_def)
      show thesis
        by (rule port_set_up [OF inv E new s(2-4) q, of "\<lambda>msg. nla_put_u32 (nla_put_u32 msg OVS_VPORT_ATTR_PORT_NO i) OVS_VPORT_ATTR_UPCALL_PID k" ?name Q])
          (rule that, use new m s(1) Some in \<open>simp_all add: ind_ovs_port_added_def\<close>)
    qed
  qed
qed

lemma port_deleted_inv:
  assumes inv: "vport_inv P U A E st"
  obtains st' where "ind_ovs_port_deleted E Q i st = Some st'" "port_at st i = None \<Longrightarrow> st' = st"
    "\<And>p. port_at st i = Some p \<Longrightarrow> vport_inv P U (A - set (handles (pcounters p))) E st' \<and> ind_ovs_ports st' = (ind_ovs_ports st)[unat i := None]"
proof (cases "port_at st i")
  case None
  then show thesis using that [of st] by (simp add: ind_ovs_port_deleted_def)
next
  case (Some p)
  note D = vport_invD [OF inv]
  have i: "unat i < IND_OVS_MAX_PORTS" "ind_ovs_ports st ! unat i = Some p" using Some D(6) by (auto simp: port_at_def split: if_splits)
  note ok = ports_okD(2) [OF D(2) i]
  let ?st1 = "st\<lparr>ind_ovs_ports := (ind_ovs_ports st)[unat i := Some (p\<lparr>upcall_thread := None\<rparr>)]\<rparr>"
  have "port_at ?st1 i \<noteq> None" using D(6) i(1) by (simp add: port_at_def)
  then obtain err dev log where n: "port_status_notify E Q i PORT_DELETE ?st1 = Some (err, ?st1\<lparr>vp_dev := dev, vp_log := vp_log ?st1 @ log\<rparr>)" by (rule status_notify_ok)
  obtain s where s: "free_port_counters (pcounters p) (vp_stats st) = Some s" "stats_inv s (A - set (handles (pcounters p)))"
    using free_many_ok [OF D(1)] ok by (auto simp: free_port_counters_many)
  let ?nt = "?st1\<lparr>vp_dev := dev, vp_log := vp_log ?st1 @ log\<rparr>"
  let ?st2 = "?nt\<lparr>vp_stats := s, ind_ovs_ports := (ind_ovs_ports ?nt)[unat i := None], vp_log := vp_log ?nt @ [SocketFree (notify_socket p), DeferInternal]\<rparr>"
  have up: "if is_uplink p then uplink_known ?st2 else uplink_ok ?st2"
  proof (cases "is_uplink p")
    case True
    then show ?thesis using uplink_ok_known [OF D(3)] by (simp add: uplink_known_def)
  next
    case False
    then have "uplink_ok ?st2" using uplink_ok_upd [OF D(3,6) i(1), of None ?st2] i(2) by (simp add: up_running_def)
    then show ?thesis using False by simp
  qed
  have ports: "ports_ok (A - set (handles (pcounters p))) (ind_ovs_ports ?st2)" using ports_ok_remove [OF D(2) i(2,1)] by simp
  obtain u where u: "(if is_uplink p then ind_ovs_uplink_reselect ?st2 else Some ?st2) = Some (?st2\<lparr>current_uplink := u\<rparr>)"
    "vport_inv P U (A - set (handles (pcounters p))) E (?st2\<lparr>current_uplink := u\<rparr>)"
    by (rule reselect_inv [OF _ ports _ _ up, of P U E]) (use s D(4,5) in simp_all)
  have "ind_ovs_port_deleted E Q i st = Some (?st2\<lparr>current_uplink := u\<rparr>)"
    using Some i(1) n s(1) u(1) by (cases "is_uplink p") (simp_all add: ind_ovs_port_deleted_def)
  then show thesis using that [of "?st2\<lparr>current_uplink := u\<rparr>"] u(2) Some by simp
qed

text \<open>A change of a port that keeps its number, counters and kernel flows.\<close>

definition port_kept :: "ind_ovs_port option list \<Rightarrow> ind_ovs_port option list \<Rightarrow> bool" where
  "port_kept ps ps' \<longleftrightarrow> map (map_option (\<lambda>p. (dp_port_no p, pcounters p, num_kflows p))) ps' = map (map_option (\<lambda>p. (dp_port_no p, pcounters p, num_kflows p))) ps"

lemma port_kept_refl [simp]: "port_kept ps ps"
  by (simp add: port_kept_def)

lemma port_kept_upd:
  assumes "i < length ps" "ps ! i = Some p" "dp_port_no q = dp_port_no p" "pcounters q = pcounters p" "num_kflows q = num_kflows p"
  shows "port_kept ps (ps[i := Some q])"
  using assms by (auto simp: port_kept_def map_update list_update_same_conv)

lemma port_mod_config_sel [simp]:
  "dp_port_no (port_mod_config m p) = dp_port_no p" "pcounters (port_mod_config m p) = pcounters p" "num_kflows (port_mod_config m p) = num_kflows p"
  "is_uplink (port_mod_config m p) = is_uplink p" "ifflags (port_mod_config m p) AND IFF_RUNNING = ifflags p AND IFF_RUNNING"
  by (simp_all add: port_mod_config_def Let_def IFF_UP_def IFF_RUNNING_def word_bw_assocs word_ao_dist)

lemma port_modify_inv:
  assumes inv: "vport_inv P U A E st"
  shows "vport_inv P U A E (snd (indigo_port_modify E m st)) \<and> port_kept (ind_ovs_ports st) (ind_ovs_ports (snd (indigo_port_modify E m st)))"
proof (cases "ind_ovs_port_lookup (pmod_port_no m) st")
  case None
  then show ?thesis using inv by (simp add: indigo_port_modify_def)
next
  case (Some p)
  note D = vport_invD [OF inv]
  let ?i = "port_index (pmod_port_no m)"
  have i: "?i < IND_OVS_MAX_PORTS" "ind_ovs_ports st ! ?i = Some p"
    using Some D(6) by (auto simp: ind_ovs_port_lookup_def port_at_def port_index_def split: if_splits)
  let ?q = "port_mod_config m p" let ?st = "snd (indigo_port_modify E m st)"
  have q: "ind_ovs_ports ?st = (ind_ovs_ports st)[?i := Some ?q]" "vp_stats ?st = vp_stats st" "vp_nl ?st = vp_nl st" "upcall_idx ?st = upcall_idx st" "current_uplink ?st = current_uplink st"
    using Some by (simp_all add: indigo_port_modify_def Let_def)
  have "uplink_ok ?st" by (rule uplink_ok_upd [OF D(3,6) i(1), of "Some ?q"]) (use q i(2) in \<open>simp_all add: up_running_def\<close>)
  moreover have "ports_ok A (ind_ovs_ports ?st)" using ports_ok_same [OF D(2) i(2) _ _ i(1), of ?q] q(1) by simp
  moreover have "port_kept (ind_ovs_ports st) (ind_ovs_ports ?st)" using port_kept_upd [OF _ i(2), of ?q] i(1) D(6) q(1) by simp
  ultimately show ?thesis using D q by (simp add: vport_inv_def)
qed

lemma interface_transact_inv:
  assumes inv: "vport_inv P U A E st" and E: "vport_env_ok U E"
  obtains err nl where "vport_transact E cmd put st = Some (err, st\<lparr>vp_nl := nl\<rparr>)" "vport_inv P U A E (st\<lparr>vp_nl := nl\<rparr>)"
proof -
  obtain err nl where t: "vport_transact E cmd put st = Some (err, st\<lparr>vp_nl := nl\<rparr>)" "pool_inv P U (nl_freelist nl)"
    by (rule vport_transact_ok [OF vport_invD(4) [OF inv] E])
  have "vport_inv P U A E (st\<lparr>vp_nl := nl\<rparr>)" by (rule vport_inv_cong [OF inv]) (use t vport_invD(1) [OF inv] in simp_all)
  then show thesis using that t(1) by blast
qed

lemma lookup_by_nameD:
  assumes "ports_ok A (ind_ovs_ports st)" "ind_ovs_port_lookup_by_name name st = Some p"
  shows "unat (dp_port_no p) < IND_OVS_MAX_PORTS" "ind_ovs_ports st ! unat (dp_port_no p) = Some p"
proof -
  obtain i where "i < length (ind_ovs_ports st)" "ind_ovs_ports st ! i = Some p"
    using assms(2) by (auto simp: ind_ovs_port_lookup_by_name_def find_Some_iff split: option.splits)
  then show "unat (dp_port_no p) < IND_OVS_MAX_PORTS" "ind_ovs_ports st ! unat (dp_port_no p) = Some p"
    using ports_okD(1) [OF assms(1)] ports_okD(2) [OF assms(1), of i p] by simp_all
qed

lemma link_change_port_sel [simp]:
  "dp_port_no (link_change_port f p) = dp_port_no p" "pcounters (link_change_port f p) = pcounters p" "num_kflows (link_change_port f p) = num_kflows p"
  "is_uplink (link_change_port f p) = is_uplink p"
  by (simp_all add: link_change_port_def Let_def)

lemma link_change_known:
  assumes inv: "vport_inv P U A E st" and p: "ind_ovs_port_lookup_by_name name st = Some p"
  obtains st' where "link_change_cb E Q is_new name flags st = Some st'" "vport_inv P U A E st'" "port_kept (ind_ovs_ports st) (ind_ovs_ports st')"
proof -
  note D = vport_invD [OF inv]
  note i = lookup_by_nameD [OF D(2) p]
  let ?i = "unat (dp_port_no p)" let ?q = "link_change_port flags p"
  let ?st1 = "st\<lparr>ind_ovs_ports := (ind_ovs_ports st)[?i := Some ?q]\<rparr>"
  have "port_at ?st1 (dp_port_no p) \<noteq> None" using D(6) i(1) by (simp add: port_at_def)
  then obtain err dev log where n: "port_status_notify E Q (dp_port_no p) PORT_MODIFY ?st1 = Some (err, ?st1\<lparr>vp_dev := dev, vp_log := vp_log ?st1 @ log\<rparr>)" by (rule status_notify_ok)
  let ?nt = "?st1\<lparr>vp_dev := dev, vp_log := vp_log ?st1 @ log\<rparr>"
  let ?st2 = "?nt\<lparr>vp_log := vp_log ?nt @ [DeferInternal]\<rparr>"
  have up: "if is_uplink p then uplink_known ?st2 else uplink_ok ?st2"
  proof (cases "is_uplink p")
    case True
    then show ?thesis using uplink_ok_known [OF D(3)] by (simp add: uplink_known_def)
  next
    case False
    then have "uplink_ok ?st2" using uplink_ok_upd [OF D(3,6) i(1), of "Some ?q" ?st2] i(2) by (simp add: up_running_def)
    then show ?thesis using False by simp
  qed
  have ports: "ports_ok A (ind_ovs_ports ?st2)" using ports_ok_same [OF D(2) i(2) _ _ i(1), of ?q] by simp
  obtain u where u: "(if is_uplink p then ind_ovs_uplink_reselect ?st2 else Some ?st2) = Some (?st2\<lparr>current_uplink := u\<rparr>)" "vport_inv P U A E (?st2\<lparr>current_uplink := u\<rparr>)"
    by (rule reselect_inv [OF _ ports _ _ up, of P U E]) (use D in simp_all)
  have "link_change_cb E Q is_new name flags st = Some (?st2\<lparr>current_uplink := u\<rparr>)"
    using p n u(1) by (cases "is_uplink p") (simp_all add: link_change_cb_def Let_def)
  moreover have "port_kept (ind_ovs_ports st) (ind_ovs_ports (?st2\<lparr>current_uplink := u\<rparr>))" using port_kept_upd [OF _ i(2), of ?q] i(1) D(6) by simp
  ultimately show thesis using that u(2) by blast
qed

lemma interface_add_inv:
  assumes inv: "vport_inv P U A E st" and E: "vport_env_ok U E" and len: "length name < 256" and port: "unat i < IND_OVS_MAX_PORTS \<or> i = OF_PORT_DEST_NONE"
  obtains err nl where "indigo_port_interface_add E name i st = Some (err, st\<lparr>vp_nl := nl\<rparr>)" "vport_inv P U A E (st\<lparr>vp_nl := nl\<rparr>)"
proof (cases "ind_ovs_port_lookup_by_name name st")
  case None
  show thesis
    by (rule interface_transact_inv [OF inv E], rule that) (use len port None in \<open>simp_all add: indigo_port_interface_add_def\<close>)
next
  case (Some p)
  then show thesis using that [of ERROR_NONE "vp_nl st"] inv len port by (simp add: indigo_port_interface_add_def)
qed

lemma add_internal_inv:
  assumes inv: "vport_inv P U A E st" and E: "vport_env_ok U E"
  obtains err nl where "ind_ovs_port_add_internal E name st = Some (err, st\<lparr>vp_nl := nl\<rparr>)" "vport_inv P U A E (st\<lparr>vp_nl := nl\<rparr>)"
proof -
  consider "length name \<ge> 256" | "length name < 256" "ind_ovs_port_lookup_by_name name st \<noteq> None" | "length name < 256" "ind_ovs_port_lookup_by_name name st = None" by linarith
  then show thesis
  proof cases
    case 1 then show thesis using that [of ERROR_PARAM "vp_nl st"] inv by (simp add: ind_ovs_port_add_internal_def)
  next
    case 2 then show thesis using that [of ERROR_NONE "vp_nl st"] inv by (simp add: ind_ovs_port_add_internal_def)
  next
    case 3
    show thesis by (rule interface_transact_inv [OF inv E], rule that) (use 3 in \<open>simp_all add: ind_ovs_port_add_internal_def\<close>)
  qed
qed

lemma interface_remove_inv:
  assumes inv: "vport_inv P U A E st" and E: "vport_env_ok U E"
  obtains err nl where "indigo_port_interface_remove E name st = Some (err, st\<lparr>vp_nl := nl\<rparr>)" "vport_inv P U A E (st\<lparr>vp_nl := nl\<rparr>)"
proof (cases "ind_ovs_port_lookup_by_name name st")
  case None
  then show thesis using that [of ERROR_NOT_FOUND "vp_nl st"] inv by (simp add: indigo_port_interface_remove_def)
next
  case (Some p)
  show thesis by (rule interface_transact_inv [OF inv E], rule that) (use Some in \<open>simp_all add: indigo_port_interface_remove_def\<close>)
qed

lemma link_change_inv:
  assumes inv: "vport_inv P U A E st" and E: "vport_env_ok U E" and len: "length name < 256"
  obtains st' where "link_change_cb E Q is_new name flags st = Some st'" "vport_inv P U A E st'" "port_kept (ind_ovs_ports st) (ind_ovs_ports st')"
proof (cases "ind_ovs_port_lookup_by_name name st")
  case None
  obtain err nl where a: "indigo_port_interface_add E name OF_PORT_DEST_NONE st = Some (err, st\<lparr>vp_nl := nl\<rparr>)" "vport_inv P U A E (st\<lparr>vp_nl := nl\<rparr>)"
    by (rule interface_add_inv [OF inv E len, of OF_PORT_DEST_NONE]) simp_all
  then show thesis
    using that [of "st\<lparr>vp_nl := nl\<rparr>"] that [of st] None inv
    by (cases "is_new \<and> ind_ovs_uplink_check_by_name name st") (simp_all add: link_change_cb_def)
next
  case (Some p)
  then show thesis by (rule link_change_known [OF inv]) (rule that)
qed

text \<open>A request for port statistics that the kernel does not accept loses a message buffer.\<close>

lemma port_stats_get_leak:
  assumes "pool_inv P U (nl_freelist (vp_nl st))" "card U < IND_OVS_NLMSG_FREELIST_SIZE" "\<And>m k. fst (k_send (ve_kernel E) m k) < 0"
  obtains st' m where "indigo_port_stats_get E True version room link replies port st = Some (ERROR_UNKNOWN, [], st')"
    "m \<in> P - U" "pool_inv P (insert m U) (nl_freelist (vp_nl st'))"
proof -
  let ?fam = "ovs_vport_family (ve_families E)"
  have "nlmsg_version (ve_families E) ?fam \<noteq> None" by (simp add: nlmsg_version_def)
  then obtain v where v: "nlmsg_version (ve_families E) ?fam = Some v" by blast
  obtain m fl where m: "ind_ovs_nlmsg_freelist_alloc (nl_freelist (vp_nl st)) = Some (m, fl)" "m \<in> P - U" "pool_inv P (insert m U) fl"
    by (rule pool_alloc [OF assms(1,2)])
  let ?msg = "\<lparr>gm_addr = m, gm_family = ?fam, gm_cmd = OVS_VPORT_CMD_GET, gm_version = v, gm_flags = 0, gm_dp_ifindex = ve_dp_ifindex E, gm_calls = []\<rparr>"
  let ?req = "case port of None \<Rightarrow> ?msg\<lparr>gm_flags := gm_flags ?msg OR NLM_F_DUMP\<rparr> | Some p \<Rightarrow> ?msg\<lparr>gm_calls := nla_put_u32 (gm_calls ?msg) OVS_VPORT_ATTR_PORT_NO p\<rparr>"
  obtain e k where s: "k_send (ve_kernel E) ?req (nl_kernel (vp_nl st)) = (e, k)" "e < 0" using assms(3) by (metis prod.collapse)
  have "indigo_port_stats_get E True version room link replies port st = Some (ERROR_UNKNOWN, [], st\<lparr>vp_nl := (vp_nl st)\<lparr>nl_freelist := fl, nl_kernel := k\<rparr>\<rparr>)"
    using s m(1) v by (cases port) (simp_all add: indigo_port_stats_get_def ind_ovs_create_nlmsg_def)
  then show thesis using that m(2,3) by simp
qed

subsection \<open>Histories of the ports\<close>

datatype vport_op =
    PortAdded of_env "string \<Rightarrow> bytes option" "u32 option" u32 string u32
  | PortDeleted of_env u32
  | PortMod of_port_mod
  | LinkChange of_env bool string u32
  | InterfaceAdd string u32
  | InterfaceRemove string
  | AddInternal string
  | UplinkAdd string

fun vport_do :: "('k, 'd) vport_env \<Rightarrow> vport_op \<Rightarrow> ('k, 'd) vport_state \<Rightarrow> ('k, 'd) vport_state option" where
  "vport_do E (PortAdded Q link_mac sock i name typ) st = ind_ovs_port_added E Q link_mac sock i name typ st"
| "vport_do E (PortDeleted Q i) st = ind_ovs_port_deleted E Q i st"
| "vport_do E (PortMod m) st = Some (snd (indigo_port_modify E m st))"
| "vport_do E (LinkChange Q is_new name flags) st = link_change_cb E Q is_new name flags st"
| "vport_do E (InterfaceAdd name i) st = map_option snd (indigo_port_interface_add E name i st)"
| "vport_do E (InterfaceRemove name) st = map_option snd (indigo_port_interface_remove E name st)"
| "vport_do E (AddInternal name) st = map_option snd (ind_ovs_port_add_internal E name st)"
| "vport_do E (UplinkAdd name) st = Some (ind_ovs_uplink_add name st)"

text \<open>What the code asserts of its callers and of the kernel: addresses of six bytes, names that fit, port numbers in range.\<close>

fun vport_op_ok :: "vport_op \<Rightarrow> bool" where
  "vport_op_ok (PortAdded Q link_mac sock i name typ) = macs_ok link_mac"
| "vport_op_ok (LinkChange Q is_new name flags) = (length name < 256)"
| "vport_op_ok (InterfaceAdd name i) = (length name < 256 \<and> (unat i < IND_OVS_MAX_PORTS \<or> i = OF_PORT_DEST_NONE))"
| "vport_op_ok _ = True"

definition vport_started :: "('k, 'd) vport_state \<Rightarrow> bool" where
  "vport_started st \<longleftrightarrow> ind_ovs_ports st = replicate IND_OVS_MAX_PORTS None \<and> current_uplink st = OF_PORT_DEST_NONE \<and> upcall_idx st = 0 \<and> vp_log st = []"

inductive vport_reach :: "('k, 'd) vport_env \<Rightarrow> ('k, 'd) vport_state \<Rightarrow> ('k, 'd) vport_state \<Rightarrow> bool" for E st0 where
  start: "vport_started st0 \<Longrightarrow> vport_reach E st0 st0"
| step: "vport_reach E st0 st \<Longrightarrow> vport_op_ok op \<Longrightarrow> vport_do E op st = Some st' \<Longrightarrow> vport_reach E st0 st'"

text \<open>The counters in use: those of others, and those of the ports.\<close>

definition port_handles :: "ind_ovs_port option \<Rightarrow> u32 set" where
  "port_handles p = (case p of None \<Rightarrow> {} | Some p \<Rightarrow> set (handles (pcounters p)))"

definition counters_of :: "u32 set \<Rightarrow> ind_ovs_port option list \<Rightarrow> u32 set" where
  "counters_of A ps = A \<union> (\<Union>p \<in> set ps. port_handles p)"

definition vport_acc :: "u64 set \<Rightarrow> u64 set \<Rightarrow> u32 set \<Rightarrow> ('k, 'd) vport_env \<Rightarrow> ('k, 'd) vport_state \<Rightarrow> bool" where
  "vport_acc P U A E st \<longleftrightarrow> vport_inv P U (counters_of A (ind_ovs_ports st)) E st \<and> (\<forall>p \<in> set (ind_ovs_ports st). port_handles p \<inter> A = {})"

lemma port_handles_simps [simp]: "port_handles None = {}" "port_handles (Some p) = set (handles (pcounters p))"
  by (simp_all add: port_handles_def)

lemma counters_of_nth: "x \<in> counters_of A ps \<longleftrightarrow> x \<in> A \<or> (\<exists>j<length ps. x \<in> port_handles (ps ! j))"
  by (auto simp: counters_of_def set_conv_nth)

lemma counters_of_upd:
  assumes "i < length ps"
  shows "x \<in> counters_of A (ps[i := y]) \<longleftrightarrow> x \<in> A \<or> x \<in> port_handles y \<or> (\<exists>j<length ps. j \<noteq> i \<and> x \<in> port_handles (ps ! j))"
proof -
  have "(\<exists>j<length ps. x \<in> port_handles (ps[i := y] ! j)) \<longleftrightarrow> x \<in> port_handles y \<or> (\<exists>j<length ps. j \<noteq> i \<and> x \<in> port_handles (ps ! j))"
    using assms by (metis nth_list_update_eq nth_list_update_neq)
  then show ?thesis by (simp add: counters_of_nth)
qed

lemma counters_of_add:
  assumes "i < length ps" "ps ! i = None"
  shows "counters_of A (ps[i := Some p]) = counters_of A ps \<union> set (handles (pcounters p))"
proof (rule set_eqI)
  fix x
  have "(\<exists>j<length ps. j \<noteq> i \<and> x \<in> port_handles (ps ! j)) \<longleftrightarrow> (\<exists>j<length ps. x \<in> port_handles (ps ! j))" using assms(2) by (metis empty_iff port_handles_simps(1))
  then show "x \<in> counters_of A (ps[i := Some p]) \<longleftrightarrow> x \<in> counters_of A ps \<union> set (handles (pcounters p))"
    using assms(1) by (auto simp: counters_of_upd counters_of_nth [of x A ps])
qed

lemma counters_of_kept:
  assumes "port_kept ps ps'"
  shows "port_handles ` set ps' = port_handles ` set ps" "counters_of A ps' = counters_of A ps"
proof -
  let ?f = "map_option (\<lambda>p. (dp_port_no p, pcounters p, num_kflows p))"
  let ?g = "\<lambda>x :: (u32 \<times> ind_ovs_port_counters \<times> u32) option. case x of None \<Rightarrow> {} | Some (_, pc, _) \<Rightarrow> set (handles pc)"
  have h: "port_handles p = ?g (?f p)" for p by (cases p) simp_all
  have "set (map ?f ps') = set (map ?f ps)" using assms by (simp add: port_kept_def)
  then have "?g ` ?f ` set ps' = ?g ` ?f ` set ps" by simp
  then show "port_handles ` set ps' = port_handles ` set ps" by (simp add: h image_image)
  then show "counters_of A ps' = counters_of A ps" unfolding counters_of_def by simp
qed

lemma counters_of_remove:
  assumes ok: "ports_ok B ps" and own: "\<forall>p \<in> set ps. port_handles p \<inter> A = {}" and i: "i < IND_OVS_MAX_PORTS" "ps ! i = Some p"
  shows "counters_of A (ps[i := None]) = counters_of A ps - set (handles (pcounters p))"
proof (rule set_eqI)
  note D = ports_okD [OF ok]
  fix x
  have p: "Some p \<in> set ps" using i D(1) by (metis nth_mem)
  have other: "x \<notin> set (handles (pcounters p))" if "j < length ps" "j \<noteq> i" "x \<in> port_handles (ps ! j)" for j
    using that D(1) D(3) [of j i _ p] i by (cases "ps ! j") auto
  show "x \<in> counters_of A (ps[i := None]) \<longleftrightarrow> x \<in> counters_of A ps - set (handles (pcounters p))"
  proof (cases "x \<in> set (handles (pcounters p))")
    case True
    then have "x \<notin> A" using p own by fastforce
    then show ?thesis using True other i(1) D(1) by (auto simp: counters_of_upd)
  next
    case False
    then have "(\<exists>j<length ps. j \<noteq> i \<and> x \<in> port_handles (ps ! j)) \<longleftrightarrow> (\<exists>j<length ps. x \<in> port_handles (ps ! j))" using i(2) by (metis port_handles_simps(2))
    then show ?thesis using False i(1) D(1) by (simp add: counters_of_upd counters_of_nth [of x A ps])
  qed
qed

lemma counters_of_card:
  assumes "ports_ok B ps" "finite A"
  shows "card (counters_of A ps) \<le> card A + 7 * IND_OVS_MAX_PORTS"
proof -
  have len: "length ps = IND_OVS_MAX_PORTS" using assms(1) by (simp add: ports_ok_def)
  have c: "card (port_handles p) \<le> 7" for p
    using card_length [of "handles (pcounters (the p))"] by (cases p) (simp_all add: handles_def)
  have "card (\<Union>p \<in> set ps. port_handles p) \<le> (\<Sum>p \<in> set ps. card (port_handles p))" by (rule card_UN_le) simp
  also have "\<dots> \<le> card (set ps) * 7" using sum_bounded_above [of "set ps" "\<lambda>p. card (port_handles p)" 7] c by simp
  also have "\<dots> \<le> 7 * IND_OVS_MAX_PORTS" using card_length [of ps] len by simp
  finally show ?thesis using card_Un_le [of A "\<Union>p \<in> set ps. port_handles p"] unfolding counters_of_def by linarith
qed

lemma vport_acc_kept:
  assumes "vport_acc P U A E st" "vport_inv P U (counters_of A (ind_ovs_ports st)) E st'" "port_kept (ind_ovs_ports st) (ind_ovs_ports st')"
  shows "vport_acc P U A E st'"
proof -
  have "\<forall>h \<in> port_handles ` set (ind_ovs_ports st'). h \<inter> A = {}" using counters_of_kept(1) [OF assms(3)] assms(1) by (simp add: vport_acc_def)
  then show ?thesis using counters_of_kept(2) [OF assms(3)] assms(2) by (simp add: vport_acc_def)
qed

lemma vport_acc_added:
  assumes "vport_acc P U A E st" "vport_inv P U B E st'" "port_added_to (counters_of A (ind_ovs_ports st)) (ind_ovs_ports st) i B (ind_ovs_ports st')"
  shows "vport_acc P U A E st'"
  using assms(3) unfolding port_added_to_def
proof (elim disjE conjE exE)
  assume "B = counters_of A (ind_ovs_ports st)" "ind_ovs_ports st' = ind_ovs_ports st"
  then show ?thesis using assms(1,2) by (simp add: vport_acc_def)
next
  fix p
  assume i: "i < length (ind_ovs_ports st)" "ind_ovs_ports st ! i = None" and p: "ind_ovs_ports st' = (ind_ovs_ports st)[i := Some p]"
    and B: "B = counters_of A (ind_ovs_ports st) \<union> set (handles (pcounters p))" and new: "set (handles (pcounters p)) \<inter> counters_of A (ind_ovs_ports st) = {}"
  have "port_handles q \<inter> A = {}" if "q \<in> set (ind_ovs_ports st')" for q
  proof -
    have "q = Some p \<or> q \<in> set (ind_ovs_ports st)" using that set_update_subset_insert [of "ind_ovs_ports st" i "Some p"] unfolding p by blast
    then show ?thesis using assms(1) new by (auto simp: vport_acc_def counters_of_def)
  qed
  then show ?thesis using assms(2) counters_of_add [OF i] by (simp add: vport_acc_def p B)
qed

lemma vport_acc_deleted:
  assumes acc: "vport_acc P U A E st" and p: "port_at st i = Some p"
    and st': "vport_inv P U (counters_of A (ind_ovs_ports st) - set (handles (pcounters p))) E st'" "ind_ovs_ports st' = (ind_ovs_ports st)[unat i := None]"
  shows "vport_acc P U A E st'"
proof -
  have inv: "vport_inv P U (counters_of A (ind_ovs_ports st)) E st" and own: "\<forall>p \<in> set (ind_ovs_ports st). port_handles p \<inter> A = {}"
    using acc by (simp_all add: vport_acc_def)
  note D = vport_invD [OF inv]
  have i: "unat i < IND_OVS_MAX_PORTS" "ind_ovs_ports st ! unat i = Some p" using p D(6) by (auto simp: port_at_def split: if_splits)
  have "port_handles q \<inter> A = {}" if "q \<in> set (ind_ovs_ports st')" for q
  proof -
    have "q = None \<or> q \<in> set (ind_ovs_ports st)" using that set_update_subset_insert [of "ind_ovs_ports st" "unat i" None] unfolding st'(2) by blast
    then show ?thesis using own by auto
  qed
  then show ?thesis using st'(1) counters_of_remove [OF D(2) own i] by (simp add: vport_acc_def st'(2))
qed

lemma vport_do_ok:
  assumes acc: "vport_acc P U A E st" and E: "vport_env_ok U E" and room: "card A + 7 * Suc IND_OVS_MAX_PORTS \<le> MAX_STATS" "finite A" and op: "vport_op_ok op"
  obtains st' where "vport_do E op st = Some st'" "vport_acc P U A E st'"
proof -
  let ?A = "counters_of A (ind_ovs_ports st)"
  have inv: "vport_inv P U ?A E st" using acc by (simp add: vport_acc_def)
  note kept = vport_acc_kept [OF acc] and goal = that
  have nl: thesis if "vport_do E op st = Some (st\<lparr>vp_nl := nl\<rparr>)" "vport_inv P U ?A E (st\<lparr>vp_nl := nl\<rparr>)" for nl
    using goal [OF that(1) kept [OF that(2)]] by simp
  show thesis
  proof (cases op)
    case (PortAdded Q link_mac sock i name t)
    have "card ?A + 7 \<le> MAX_STATS" using counters_of_card [OF vport_invD(2) [OF inv] room(2)] room(1) by simp
    moreover have "macs_ok link_mac" using op PortAdded by simp
    ultimately obtain st' B where s: "ind_ovs_port_added E Q link_mac sock i name t st = Some st'" "vport_inv P U B E st'"
      "port_added_to ?A (ind_ovs_ports st) (unat i) B (ind_ovs_ports st')" by (rule port_added_inv [OF inv E])
    then show thesis using that [of st'] vport_acc_added [OF acc s(2,3)] PortAdded by simp
  next
    case (PortDeleted Q i)
    obtain st' where s: "ind_ovs_port_deleted E Q i st = Some st'" "port_at st i = None \<Longrightarrow> st' = st"
      "\<And>p. port_at st i = Some p \<Longrightarrow> vport_inv P U (?A - set (handles (pcounters p))) E st' \<and> ind_ovs_ports st' = (ind_ovs_ports st)[unat i := None]"
      by (rule port_deleted_inv [OF inv, of Q i]) (rule that)
    have "vport_acc P U A E st'" using s(2) acc s(3) vport_acc_deleted [OF acc, of i] by (cases "port_at st i") simp_all
    then show thesis using that s(1) PortDeleted by simp
  next
    case (PortMod m)
    then show thesis using that [of "snd (indigo_port_modify E m st)"] kept port_modify_inv [OF inv, of m] by simp
  next
    case (LinkChange Q is_new name flags)
    have "length name < 256" using op LinkChange by simp
    then obtain st' where s: "link_change_cb E Q is_new name flags st = Some st'" "vport_inv P U ?A E st'" "port_kept (ind_ovs_ports st) (ind_ovs_ports st')"
      by (rule link_change_inv [OF inv E])
    then show thesis using that [of st'] kept [OF s(2,3)] LinkChange by simp
  next
    case (InterfaceAdd name i)
    have "length name < 256" "unat i < IND_OVS_MAX_PORTS \<or> i = OF_PORT_DEST_NONE" using op InterfaceAdd by simp_all
    then show thesis by (rule interface_add_inv [OF inv E]) (rule nl, simp_all add: InterfaceAdd)
  next
    case (InterfaceRemove name)
    show thesis by (rule interface_remove_inv [OF inv E, of name], rule nl) (simp_all add: InterfaceRemove)
  next
    case (AddInternal name)
    show thesis by (rule add_internal_inv [OF inv E, of name], rule nl) (simp_all add: AddInternal)
  next
    case (UplinkAdd name)
    have "vport_inv P U ?A E (ind_ovs_uplink_add name st)" by (rule vport_inv_cong [OF inv]) (use vport_invD(1,4) [OF inv] in \<open>simp_all add: ind_ovs_uplink_add_def\<close>)
    then show thesis using that [of "ind_ovs_uplink_add name st"] kept [of "ind_ovs_uplink_add name st"] UplinkAdd by (simp add: ind_ovs_uplink_add_def)
  qed
qed

lemma vport_start_acc:
  assumes "vport_started st" "stats_inv (vp_stats st) A" "pool_inv P U (nl_freelist (vp_nl st))" "0 < ve_num_upcall_threads E"
  shows "vport_acc P U A E st"
proof -
  have "counters_of A (ind_ovs_ports st) = A" using assms(1) by (auto simp: vport_started_def counters_of_def)
  then show ?thesis
    using assms by (auto simp: vport_acc_def vport_inv_def vport_started_def ports_ok_def uplink_ok_def valid_uplink_def)
qed

lemma vport_reach_acc:
  assumes "vport_reach E st0 st" "stats_inv (vp_stats st0) A" "pool_inv P U (nl_freelist (vp_nl st0))" "0 < ve_num_upcall_threads E" "vport_env_ok U E"
    "card A + 7 * Suc IND_OVS_MAX_PORTS \<le> MAX_STATS"
  shows "vport_acc P U A E st"
  using assms(1)
proof induction
  case start
  then show ?case using vport_start_acc assms(2-4) by blast
next
  case (step st op st')
  obtain st2 where "vport_do E op st = Some st2" "vport_acc P U A E st2"
    by (rule vport_do_ok [OF step.IH assms(5,6) stats_inv_finite [OF assms(2)] step.hyps(2)])
  then show ?case using step.hyps(3) by simp
qed

subsection \<open>What the controller knows\<close>

text \<open>The ports that exist according to the port-status messages, and their OpenFlow numbers.\<close>

fun told_step :: "vport_event \<Rightarrow> u32 set \<Rightarrow> u32 set" where
  "told_step (PortStatus PORT_ADD d) S = insert (pd_port_no d) S"
| "told_step (PortStatus PORT_DELETE d) S = S - {pd_port_no d}"
| "told_step _ S = S"

definition told :: "vport_event list \<Rightarrow> u32 set" where
  "told log = fold told_step log {}"

definition of_port_no :: "nat \<Rightarrow> u32" where
  "of_port_no i = (if of_nat i = OVSP_LOCAL then OF_PORT_DEST_LOCAL else of_nat i)"

definition port_numbers :: "ind_ovs_port option list \<Rightarrow> u32 set" where
  "port_numbers ps = of_port_no ` {i. i < length ps \<and> ps ! i \<noteq> None}"

definition connected :: "of_env \<Rightarrow> bool" where
  "connected Q \<longleftrightarrow> oe_async_version Q \<noteq> None \<and> oe_port_desc_new Q \<and> oe_port_status_new Q \<and> oe_port_status_desc_set Q"

fun op_connected :: "vport_op \<Rightarrow> bool" where
  "op_connected (PortAdded Q link_mac sock i name t) = connected Q"
| "op_connected (PortDeleted Q i) = connected Q"
| "op_connected (LinkChange Q is_new name flags) = connected Q"
| "op_connected _ = True"

inductive vport_run :: "('k, 'd) vport_env \<Rightarrow> ('k, 'd) vport_state \<Rightarrow> ('k, 'd) vport_state \<Rightarrow> bool" for E st0 where
  run_start: "vport_started st0 \<Longrightarrow> vport_run E st0 st0"
| run_step: "vport_run E st0 st \<Longrightarrow> op_connected op \<Longrightarrow> vport_op_ok op \<Longrightarrow> vport_do E op st = Some st' \<Longrightarrow> vport_run E st0 st'"

lemma told_append [simp]: "told (log @ es) = fold told_step es (told log)"
  by (simp add: told_def)

lemma of_port_no_inj: "inj_on of_port_no {..<IND_OVS_MAX_PORTS}"
proof (rule inj_onI)
  fix i j assume ij: "i \<in> {..<IND_OVS_MAX_PORTS}" "j \<in> {..<IND_OVS_MAX_PORTS}" "of_port_no i = of_port_no j"
  have u: "unat (of_nat i :: u32) = i" "unat (of_nat j :: u32) = j" using ij(1,2) by (simp_all add: IND_OVS_MAX_PORTS_def unat_of_nat_id)
  have far: "(of_nat i :: u32) \<noteq> OF_PORT_DEST_LOCAL" "(of_nat j :: u32) \<noteq> OF_PORT_DEST_LOCAL" using u ij(1,2) by (auto simp: OF_PORT_DEST_LOCAL_def IND_OVS_MAX_PORTS_def)
  have "(of_nat i :: u32) = of_nat j"
    using ij(3) far by (cases "(of_nat i :: u32) = OVSP_LOCAL"; cases "(of_nat j :: u32) = OVSP_LOCAL") (simp_all add: of_port_no_def)
  then show "i = j" using u by metis
qed

lemma port_numbers_upd:
  assumes "length ps = IND_OVS_MAX_PORTS" "i < IND_OVS_MAX_PORTS"
  shows "port_numbers (ps[i := Some p]) = insert (of_port_no i) (port_numbers ps)" "port_numbers (ps[i := None]) = port_numbers ps - {of_port_no i}"
proof -
  have "{j. j < length (ps[i := Some p]) \<and> ps[i := Some p] ! j \<noteq> None} = insert i {j. j < length ps \<and> ps ! j \<noteq> None}"
    using assms by (auto simp: nth_list_update)
  then show "port_numbers (ps[i := Some p]) = insert (of_port_no i) (port_numbers ps)" by (simp add: port_numbers_def)
  let ?S = "{j. j < length ps \<and> ps ! j \<noteq> None}"
  have "{j. j < length (ps[i := None]) \<and> ps[i := None] ! j \<noteq> None} = ?S - {i}" using assms by (auto simp: nth_list_update)
  moreover have "of_port_no ` (?S - {i}) = of_port_no ` ?S - of_port_no ` {i}"
    by (rule inj_on_image_set_diff [OF of_port_no_inj]) (use assms in auto)
  ultimately show "port_numbers (ps[i := None]) = port_numbers ps - {of_port_no i}" by (simp add: port_numbers_def)
qed

lemma port_numbers_kept:
  assumes "port_kept ps ps'"
  shows "port_numbers ps' = port_numbers ps"
proof -
  let ?f = "map_option (\<lambda>p. (dp_port_no p, pcounters p, num_kflows p))"
  have m: "map ?f ps' = map ?f ps" using assms by (simp add: port_kept_def)
  then have len: "length ps' = length ps" using map_eq_imp_length_eq by blast
  have "(ps' ! i \<noteq> None) = (ps ! i \<noteq> None)" if "i < length ps" for i
    using that len arg_cong [OF m, of "\<lambda>xs. xs ! i"] by (cases "ps' ! i"; cases "ps ! i") simp_all
  then have "{i. i < length ps' \<and> ps' ! i \<noteq> None} = {i. i < length ps \<and> ps ! i \<noteq> None}" using len by auto
  then show ?thesis by (simp add: port_numbers_def)
qed

lemma reselect_view: "ind_ovs_uplink_reselect st = Some st' \<Longrightarrow> ind_ovs_ports st' = ind_ovs_ports st \<and> vp_log st' = vp_log st"
  by (auto simp: ind_ovs_uplink_reselect_def bind_eq_Some_conv split: if_splits)

lemma transact_view: "vport_transact E cmd put st = Some (err, st') \<Longrightarrow> ind_ovs_ports st' = ind_ovs_ports st \<and> vp_log st' = vp_log st"
  by (auto simp: vport_transact_def bind_eq_Some_conv)

lemma desc_view: "port_desc_set E v i st = Some (d, st') \<Longrightarrow> ind_ovs_ports st' = ind_ovs_ports st \<and> vp_log st' = vp_log st \<and> pd_port_no d = of_port_no (unat i)"
  by (auto simp: port_desc_set_def bind_eq_Some_conv of_port_no_def split_beta)

lemma notify_view:
  assumes "port_status_notify E Q i reason st = Some (err, st')" "connected Q"
  obtains d where "ind_ovs_ports st' = ind_ovs_ports st" "vp_log st' = vp_log st @ [PortStatus reason d]" "pd_port_no d = of_port_no (unat i)"
  using assms by (auto simp: port_status_notify_def connected_def bind_eq_Some_conv dest!: desc_view)

definition view_ok :: "('k, 'd) vport_state \<Rightarrow> bool" where
  "view_ok st \<longleftrightarrow> told (vp_log st) = port_numbers (ind_ovs_ports st)"

lemma view_ok_same: "view_ok st \<Longrightarrow> ind_ovs_ports st' = ind_ovs_ports st \<Longrightarrow> vp_log st' = vp_log st \<Longrightarrow> view_ok st'"
  by (simp add: view_ok_def)

lemma cleanup_view: "port_cleanup p st = Some st' \<Longrightarrow> view_ok st \<Longrightarrow> view_ok st'"
  by (cases "notify_socket p = 0") (auto simp: port_cleanup_def bind_eq_Some_conv view_ok_def)

lemma reselect_if_view: "(if u then ind_ovs_uplink_reselect st else Some st) = Some st' \<Longrightarrow> view_ok st \<Longrightarrow> view_ok st'"
  using reselect_view [of st st'] view_ok_same [of st st'] by (cases u) simp_all

lemma added_tail_view:
  assumes "port_added_tail E Q i p st = Some st'" "connected Q" "length (ind_ovs_ports st) = IND_OVS_MAX_PORTS" "unat i < IND_OVS_MAX_PORTS" "view_ok st"
  shows "view_ok st'"
proof -
  let ?st1 = "st\<lparr>ind_ovs_ports := (ind_ovs_ports st)[unat i := Some p]\<rparr>"
  obtain err st2 where n: "port_status_notify E Q i PORT_ADD ?st1 = Some (err, st2)" using assms(1) by (auto simp: port_added_tail_def bind_eq_Some_conv)
  obtain d where d: "ind_ovs_ports st2 = ind_ovs_ports ?st1" "vp_log st2 = vp_log ?st1 @ [PortStatus PORT_ADD d]" "pd_port_no d = of_port_no (unat i)"
    by (rule notify_view [OF n assms(2)])
  obtain t k where t: "ind_ovs_upcall_assign_thread (ve_num_upcall_threads E) (upcall_idx st2) = (t, k)" by fastforce
  let ?st3 = "st2\<lparr>ind_ovs_ports := (ind_ovs_ports st2)[unat i := Some (p\<lparr>upcall_thread := Some t\<rparr>)], upcall_idx := k, vp_log := vp_log st2 @ [DeferInternal]\<rparr>"
  have "view_ok ?st3" using d assms(3-5) port_numbers_upd(1) [of "ind_ovs_ports st" "unat i"] by (simp add: view_ok_def)
  moreover have "(if is_uplink p then ind_ovs_uplink_reselect ?st3 else Some ?st3) = Some st'" using assms(1) n t unfolding port_added_tail_def Let_def by simp
  ultimately show ?thesis using reselect_if_view by blast
qed

lemma port_set_up_view:
  assumes "do { (err, st) \<leftarrow> vport_transact E cmd put st;
      if failed err then port_cleanup p st
      else do {
        let (flags, dev) = port_bring_up (ve_netdev E) name (vp_dev st);
        let port = p\<lparr>ifflags := flags\<rparr>;
        let dev = port_offloads (ve_netdev E) port dev;
        port_added_tail E Q i port (st\<lparr>vp_dev := dev\<rparr>)
      } } = Some st'" "connected Q" "length (ind_ovs_ports st) = IND_OVS_MAX_PORTS" "unat i < IND_OVS_MAX_PORTS" "view_ok st"
  shows "view_ok st'"
proof -
  obtain err st1 where t: "vport_transact E cmd put st = Some (err, st1)" using assms(1) by (auto simp: bind_eq_Some_conv)
  note v = transact_view [OF t]
  have ok: "view_ok st1" using view_ok_same [OF assms(5)] v by blast
  obtain f dev where f: "port_bring_up (ve_netdev E) name (vp_dev st1) = (f, dev)" by fastforce
  show ?thesis
  proof (cases "failed err")
    case True
    then show ?thesis using assms(1) t cleanup_view [OF _ ok] by simp
  next
    case False
    let ?p = "p\<lparr>ifflags := f\<rparr>"
    have "port_added_tail E Q i ?p (st1\<lparr>vp_dev := port_offloads (ve_netdev E) ?p dev\<rparr>) = Some st'" using assms(1) t f False by (simp add: Let_def)
    then show ?thesis by (rule added_tail_view) (use assms(2-4) v ok in \<open>simp_all add: view_ok_def\<close>)
  qed
qed

lemma port_added_view:
  assumes "ind_ovs_port_added E Q link_mac sock i name t st = Some st'" "connected Q" "length (ind_ovs_ports st) = IND_OVS_MAX_PORTS" "view_ok st"
  shows "view_ok st'"
proof -
  consider (range) "unat i \<ge> IND_OVS_MAX_PORTS" | (old) "unat i < IND_OVS_MAX_PORTS" "port_at st i \<noteq> None" | (new) "unat i < IND_OVS_MAX_PORTS" "port_at st i = None" by linarith
  then show ?thesis
  proof cases
    case range
    then show ?thesis using assms(1,4) view_ok_same by (auto simp: ind_ovs_port_added_def bind_eq_Some_conv dest: transact_view)
  next
    case old
    then show ?thesis using assms(1,4) by (simp add: ind_ovs_port_added_def)
  next
    case new
    obtain m where m: "(case link_mac name of None \<Rightarrow> Some (replicate 6 0) | Some a \<Rightarrow> if length a = 6 then Some a else None) = Some m"
      using assms(1) new unfolding ind_ovs_port_added_def by (auto simp: bind_eq_Some_conv)
    obtain pc s where s: "alloc_port_counters (vp_stats st) = Some (pc, s)" using assms(1) new m unfolding ind_ovs_port_added_def Let_def by (auto simp: bind_eq_Some_conv)
    have ok: "view_ok (st\<lparr>vp_stats := s\<rparr>)" by (rule view_ok_same [OF assms(4)]) simp_all
    show ?thesis
    proof (cases sock)
      case None
      then show ?thesis using assms(1) new m s cleanup_view [OF _ ok] by (simp add: ind_ovs_port_added_def)
    next
      case (Some k)
      show ?thesis by (rule port_set_up_view [OF _ assms(2) _ new(1) ok]) (use assms(1,3) new m s Some in \<open>simp_all add: ind_ovs_port_added_def Let_def\<close>)
    qed
  qed
qed

lemma port_deleted_view:
  assumes run: "ind_ovs_port_deleted E Q i st = Some st'" and c: "connected Q" and len: "length (ind_ovs_ports st) = IND_OVS_MAX_PORTS" and ok: "view_ok st"
  shows "view_ok st'"
proof (cases "port_at st i")
  case None
  then show ?thesis using run ok by (auto simp: ind_ovs_port_deleted_def split: if_splits)
next
  case (Some p)
  have i: "unat i < IND_OVS_MAX_PORTS" using Some len by (simp add: port_at_def split: if_splits)
  let ?st1 = "st\<lparr>ind_ovs_ports := (ind_ovs_ports st)[unat i := Some (p\<lparr>upcall_thread := None\<rparr>)]\<rparr>"
  obtain err st2 where n: "port_status_notify E Q i PORT_DELETE ?st1 = Some (err, st2)" using run Some i by (auto simp: ind_ovs_port_deleted_def bind_eq_Some_conv)
  obtain d where d: "ind_ovs_ports st2 = ind_ovs_ports ?st1" "vp_log st2 = vp_log ?st1 @ [PortStatus PORT_DELETE d]" "pd_port_no d = of_port_no (unat i)"
    by (rule notify_view [OF n c])
  obtain s where s: "free_port_counters (pcounters p) (vp_stats st2) = Some s" using run Some i n by (auto simp: ind_ovs_port_deleted_def bind_eq_Some_conv)
  let ?st3 = "st2\<lparr>vp_stats := s, ind_ovs_ports := (ind_ovs_ports st2)[unat i := None], vp_log := vp_log st2 @ [SocketFree (notify_socket p), DeferInternal]\<rparr>"
  have "view_ok ?st3" using d ok len i port_numbers_upd(2) [of "ind_ovs_ports st" "unat i"] by (simp add: view_ok_def)
  moreover have "(if is_uplink p then ind_ovs_uplink_reselect ?st3 else Some ?st3) = Some st'" using run Some i n s unfolding ind_ovs_port_deleted_def Let_def by simp
  ultimately show ?thesis using reselect_if_view by blast
qed

lemma link_change_view:
  assumes run: "link_change_cb E Q is_new name flags st = Some st'" and c: "connected Q" and ok: "view_ok st" and kept: "port_kept (ind_ovs_ports st) (ind_ovs_ports st')"
  shows "view_ok st'"
proof -
  have "told (vp_log st') = told (vp_log st)"
  proof (cases "ind_ovs_port_lookup_by_name name st")
    case None
    then show ?thesis
      using run by (auto simp: link_change_cb_def indigo_port_interface_add_def bind_eq_Some_conv dest!: transact_view split: if_splits)
  next
    case (Some p)
    let ?st1 = "st\<lparr>ind_ovs_ports := (ind_ovs_ports st)[unat (dp_port_no p) := Some (link_change_port flags p)]\<rparr>"
    obtain err st2 where n: "port_status_notify E Q (dp_port_no p) PORT_MODIFY ?st1 = Some (err, st2)"
      using run Some unfolding link_change_cb_def Let_def by (auto simp: bind_eq_Some_conv)
    obtain d where d: "vp_log st2 = vp_log ?st1 @ [PortStatus PORT_MODIFY d]" by (rule notify_view [OF n c])
    let ?st3 = "st2\<lparr>vp_log := vp_log st2 @ [DeferInternal]\<rparr>"
    have "(if is_uplink p then ind_ovs_uplink_reselect ?st3 else Some ?st3) = Some st'" using run Some n unfolding link_change_cb_def Let_def by simp
    then have "vp_log st' = vp_log ?st3" using reselect_view [of ?st3 st'] by (cases "is_uplink p") auto
    then show ?thesis using d by simp
  qed
  then show ?thesis using ok port_numbers_kept [OF kept] by (simp add: view_ok_def)
qed

lemma port_modify_view:
  assumes "vport_inv P U A E st" "view_ok st"
  shows "view_ok (snd (indigo_port_modify E m st))"
proof -
  have "told (vp_log (snd (indigo_port_modify E m st))) = told (vp_log st)" by (simp add: indigo_port_modify_def Let_def split: option.split)
  then show ?thesis using assms(2) port_numbers_kept port_modify_inv [OF assms(1), of m] by (auto simp: view_ok_def)
qed

lemma vport_do_view:
  assumes inv: "vport_inv P U A E st" and E: "vport_env_ok U E" and op: "op_connected op" "vport_op_ok op" "vport_do E op st = Some st'" and ok: "view_ok st"
  shows "view_ok st'"
proof -
  note len = vport_invD(6) [OF inv]
  have nl: ?thesis if "ind_ovs_ports st' = ind_ovs_ports st \<and> vp_log st' = vp_log st" using view_ok_same [OF ok] that by blast
  show ?thesis
  proof (cases op)
    case (PortAdded Q link_mac sock i name t)
    then show ?thesis using port_added_view [OF _ _ len ok] op by fastforce
  next
    case (PortDeleted Q i)
    then show ?thesis using port_deleted_view [OF _ _ len ok] op by fastforce
  next
    case (PortMod m)
    then show ?thesis using port_modify_view [OF inv ok, of m] op(3) by simp
  next
    case (LinkChange Q is_new name flags)
    obtain st2 where s: "link_change_cb E Q is_new name flags st = Some st2" "port_kept (ind_ovs_ports st) (ind_ovs_ports st2)"
      by (rule link_change_inv [OF inv E, of name Q is_new flags]) (use op(2) LinkChange in simp_all)
    then show ?thesis using link_change_view [OF s(1) _ ok s(2)] op LinkChange by simp
  next
    case (InterfaceAdd name i)
    then show ?thesis using op(3) by (intro nl) (auto simp: indigo_port_interface_add_def dest!: transact_view split: if_splits)
  next
    case (InterfaceRemove name)
    then show ?thesis using op(3) by (intro nl) (auto simp: indigo_port_interface_remove_def dest!: transact_view split: option.splits)
  next
    case (AddInternal name)
    then show ?thesis using op(3) by (intro nl) (auto simp: ind_ovs_port_add_internal_def dest!: transact_view split: if_splits)
  next
    case (UplinkAdd name)
    then show ?thesis using op(3) by (intro nl) (auto simp: ind_ovs_uplink_add_def)
  qed
qed

lemma vport_run_acc:
  assumes "vport_run E st0 st" "stats_inv (vp_stats st0) A" "pool_inv P U (nl_freelist (vp_nl st0))" "0 < ve_num_upcall_threads E" "vport_env_ok U E"
    "card A + 7 * Suc IND_OVS_MAX_PORTS \<le> MAX_STATS"
  shows "vport_acc P U A E st \<and> view_ok st"
  using assms(1)
proof induction
  case run_start
  then have "view_ok st0" by (simp add: vport_started_def view_ok_def told_def port_numbers_def)
  then show ?case using vport_start_acc assms(2-4) run_start by blast
next
  case (run_step st op st')
  have acc: "vport_acc P U A E st" and view: "view_ok st" using run_step.IH by simp_all
  obtain st2 where "vport_do E op st = Some st2" "vport_acc P U A E st2"
    by (rule vport_do_ok [OF acc assms(5,6) stats_inv_finite [OF assms(2)] run_step.hyps(3)])
  moreover have "vport_inv P U (counters_of A (ind_ovs_ports st)) E st" using acc by (simp add: vport_acc_def)
  ultimately show ?case using vport_do_view [OF _ assms(5) run_step.hyps(2-4) view] run_step.hyps(4) by simp
qed

text \<open>
  C13: in every history of ports appearing, disappearing, changing their links and configuration, and of requests to add and remove interfaces,
  no assertion of the code fails, each operation returns, and: every port of the table has its own
  seven counters, and exactly those and the counters that were in use before are allocated (none is leaked or freed twice); every port is at its number; no message
  buffer is leaked; and the chosen uplink is an uplink that is running, with none chosen only if none is running.
\<close>

theorem vport_reach_ok:
  assumes "vport_reach E st0 st" "stats_inv (vp_stats st0) A" "pool_inv P U (nl_freelist (vp_nl st0))" "0 < ve_num_upcall_threads E"
    "card U + 2 \<le> IND_OVS_NLMSG_FREELIST_SIZE" "kernel_acks (ve_kernel E)" "card A + 7 * Suc IND_OVS_MAX_PORTS \<le> MAX_STATS"
  shows "stats_inv (vp_stats st) (counters_of A (ind_ovs_ports st)) \<and> ports_ok (counters_of A (ind_ovs_ports st)) (ind_ovs_ports st) \<and>
    pool_inv P U (nl_freelist (vp_nl st)) \<and> uplink_ok st \<and> (\<forall>op. vport_op_ok op \<longrightarrow> vport_do E op st \<noteq> None)"
proof -
  have E: "vport_env_ok U E" using assms(5,6) by (simp add: vport_env_ok_def)
  have acc: "vport_acc P U A E st" by (rule vport_reach_acc [OF assms(1-4) E assms(7)])
  then have inv: "vport_inv P U (counters_of A (ind_ovs_ports st)) E st" by (simp add: vport_acc_def)
  have "vport_do E op st \<noteq> None" if "vport_op_ok op" for op
    by (rule vport_do_ok [OF acc E assms(7) stats_inv_finite [OF assms(2)] that]) simp
  then show ?thesis using vport_invD [OF inv] by simp
qed

definition demo_vport_env :: "(nat, unit) vport_env" where
  "demo_vport_env = \<lparr>ve_kernel = demo_kernel, ve_netdev = \<lparr>nd_socket = (\<lambda>k. (3, k)), nd_ioctl = (\<lambda>s n r k. (Inr (IoFlags 0x41), k))\<rparr>,
     ve_families = demo_families, ve_dp_ifindex = 1, ve_num_upcall_threads = 4\<rparr>"

definition demo_vports :: "(nat, unit) vport_state" where
  "demo_vports = \<lparr>ind_ovs_ports = replicate IND_OVS_MAX_PORTS None, uplinks = [], current_uplink = OF_PORT_DEST_NONE, upcall_idx = 0, vp_stats = stats_module_init,
     vp_nl = demo_pool, vp_dev = \<lparr>ioctl_sock = - 1, dev_kernel = ()\<rparr>, vp_log = []\<rparr>"

definition demo_of_env :: of_env where
  "demo_of_env = \<lparr>oe_async_version = Some 4, oe_port_desc_new = True, oe_port_status_new = True, oe_port_status_desc_set = True, oe_list_new = True, oe_ports_set = True\<rparr>"

abbreviation demo_port_added :: vport_op where
  "demo_port_added \<equiv> PortAdded demo_of_env (\<lambda>_. None) (Some 77) 5 ''eth5'' OVS_VPORT_TYPE_INTERNAL"

lemma demo_vports_started: "vport_started demo_vports" "stats_inv (vp_stats demo_vports) {}" "pool_inv {0, 1, 2, 3, 4, 5, 6, 7} {} (nl_freelist (vp_nl demo_vports))"
  using stats_init_inv demo_pool_inv by (simp_all add: vport_started_def demo_vports_def)

lemma demo_vport_env_ok: "0 < ve_num_upcall_threads demo_vport_env" "card ({} :: u64 set) + 2 \<le> IND_OVS_NLMSG_FREELIST_SIZE" "kernel_acks (ve_kernel demo_vport_env)"
  "card ({} :: u32 set) + 7 * Suc IND_OVS_MAX_PORTS \<le> MAX_STATS"
  by (simp_all add: demo_vport_env_def kernel_acks_def demo_kernel_def IND_OVS_NLMSG_FREELIST_SIZE_def IND_OVS_MAX_PORTS_def MAX_STATS_def)

lemma demo_set_pid: "\<exists>nl. vport_transact demo_vport_env cmd put (demo_vports\<lparr>vp_stats := s\<rparr>) = Some (ERROR_NONE, demo_vports\<lparr>vp_stats := s, vp_nl := nl\<rparr>)"
  by (simp add: vport_transact_def ind_ovs_create_nlmsg_def demo_vports_def demo_pool_def demo_vport_env_def demo_families_def nlmsg_version_def upt_rec
    ind_ovs_transact_def ind_ovs_transact_nofree_def demo_kernel_def ind_ovs_recv_nlmsg_def nlmsg_free_to_pool_def
    transact_error_def)

lemma demo_vport_run:
  obtains st p where "vport_do demo_vport_env demo_port_added demo_vports = Some st" "ind_ovs_ports st = (replicate IND_OVS_MAX_PORTS None)[5 := Some p]"
    "num_kflows p = 0"
proof -
  obtain pc s where s: "alloc_port_counters (vp_stats demo_vports) = Some (pc, s)"
    by (rule alloc_counters_ok [OF demo_vports_started(2)]) (use demo_vport_env_ok(4) in simp_all)
  let ?st = "demo_vports\<lparr>vp_stats := s\<rparr>"
  obtain nl where t: "vport_transact demo_vport_env OVS_VPORT_CMD_SET (\<lambda>msg. nla_put_u32 (nla_put_u32 msg OVS_VPORT_ATTR_PORT_NO 5) OVS_VPORT_ATTR_UPCALL_PID 77) ?st =
      Some (ERROR_NONE, ?st\<lparr>vp_nl := nl\<rparr>)" using demo_set_pid by blast
  obtain f dev where f: "port_bring_up (ve_netdev demo_vport_env) ''eth5'' (vp_dev (?st\<lparr>vp_nl := nl\<rparr>)) = (f, dev)" by fastforce
  let ?p = "(new_port (replicate 6 0) 5 ''eth5'' OVS_VPORT_TYPE_INTERNAL pc)\<lparr>notify_socket := 77, is_uplink := False, ifflags := f\<rparr>"
  let ?st2 = "?st\<lparr>vp_nl := nl, vp_dev := port_offloads (ve_netdev demo_vport_env) ?p dev\<rparr>"
  let ?st3 = "?st2\<lparr>ind_ovs_ports := (ind_ovs_ports ?st2)[5 := Some ?p]\<rparr>"
  have "port_at ?st3 5 \<noteq> None" by (simp add: port_at_def demo_vports_def IND_OVS_MAX_PORTS_def)
  then obtain err dev2 log where n: "port_status_notify demo_vport_env demo_of_env 5 PORT_ADD ?st3 = Some (err, ?st3\<lparr>vp_dev := dev2, vp_log := vp_log ?st3 @ log\<rparr>)"
    by (rule status_notify_ok)
  have tail: "\<exists>st. port_added_tail demo_vport_env demo_of_env 5 ?p ?st2 = Some st \<and> ind_ovs_ports st = (replicate IND_OVS_MAX_PORTS None)[5 := Some (?p\<lparr>upcall_thread := Some 0\<rparr>)]"
    using n by (simp add: port_added_tail_def ind_ovs_upcall_assign_thread_def demo_vports_def)
  have "port_at demo_vports 5 = None" by (simp add: port_at_def demo_vports_def IND_OVS_MAX_PORTS_def)
  moreover have "\<not> ind_ovs_uplink_check_by_name n ?st" for n by (simp add: ind_ovs_uplink_check_by_name_def demo_vports_def)
  ultimately have "vport_do demo_vport_env demo_port_added demo_vports = port_added_tail demo_vport_env demo_of_env 5 ?p ?st2"
    using s t f by (simp add: ind_ovs_port_added_def IND_OVS_MAX_PORTS_def OVSP_LOCAL_def Let_def failed_def)
  then show thesis using tail that by (auto simp: new_port_def)
qed

theorem vport_reach_ok_witness:
  "\<exists>st p. vport_do demo_vport_env demo_port_added demo_vports = Some st \<and> ind_ovs_ports st = (replicate IND_OVS_MAX_PORTS None)[5 := Some p] \<and>
    stats_inv (vp_stats st) (set (handles (pcounters p))) \<and> uplink_ok st \<and> vport_do demo_vport_env (PortDeleted demo_of_env 5) st \<noteq> None"
proof -
  obtain st p where st: "vport_do demo_vport_env demo_port_added demo_vports = Some st" "ind_ovs_ports st = (replicate IND_OVS_MAX_PORTS None)[5 := Some p]"
    by (rule demo_vport_run)
  have "vport_reach demo_vport_env demo_vports st"
    by (rule vport_reach.step [OF vport_reach.start [OF demo_vports_started(1)] _ st(1)]) (simp add: macs_ok_def)
  note ok = vport_reach_ok [OF this demo_vports_started(2,3) demo_vport_env_ok]
  have "counters_of {} ((replicate IND_OVS_MAX_PORTS None)[5 := Some p]) = set (handles (pcounters p))"
    by (subst counters_of_add) (auto simp: IND_OVS_MAX_PORTS_def counters_of_def)
  moreover have "vport_op_ok (PortDeleted demo_of_env 5)" by simp
  then have "vport_do demo_vport_env (PortDeleted demo_of_env 5) st \<noteq> None" using ok by blast
  ultimately show ?thesis using ok st by (intro exI [of _ st] exI [of _ p]) simp
qed



end
