(* ===== verification/Std_Flow.thy ===== *)
theory Std_Flow
  imports Pipeline_Standard
begin

text \<open>
  The flow entries of the standard pipeline: the invariant of the tables, the counters and the references to
  groups, that set-up establishes it and every operation of the core keeps it, and that the path of a packet ends.
\<close>

subsection \<open>The value of a flow\<close>

text \<open>The buffers of a value hold well-formed actions whose groups exist.\<close>

definition buf_ok :: "(u64 \<Rightarrow> group option) \<Rightarrow> xbuf \<Rightarrow> bool" where
  "buf_ok groups x \<longleftrightarrow> (case xbuf_foreach2 x of None \<Rightarrow> False | Some as \<Rightarrow> list_all action_attr_ok as \<and> list_all (resolved groups) as)"

definition buf_refs :: "(u64 \<Rightarrow> group option) \<Rightarrow> xbuf \<Rightarrow> u32 list" where
  "buf_refs groups x = (case xbuf_foreach2 x of None \<Rightarrow> [] | Some as \<Rightarrow> attr_refs groups as)"

definition flow_value_ok :: "(u64 \<Rightarrow> group option) \<Rightarrow> flowtable_value \<Rightarrow> bool" where
  "flow_value_ok groups v \<longleftrightarrow> buf_ok groups (apply_actions v) \<and> buf_ok groups (write_actions v)"

definition flow_value_refs :: "(u64 \<Rightarrow> group option) \<Rightarrow> flowtable_value \<Rightarrow> u32 \<Rightarrow> int" where
  "flow_value_refs groups v gid = int (count_list (buf_refs groups (apply_actions v) @ buf_refs groups (write_actions v)) gid)"

text \<open>A table after the given one, or none.\<close>

definition next_ok :: "u8 \<Rightarrow> flowtable_value \<Rightarrow> bool" where
  "next_ok tid v \<longleftrightarrow> next_table_id v = 255 \<or> tid < next_table_id v \<and> unat (next_table_id v) < NUM_TABLES"

lemma cleanup_buf_ok:
  assumes "buf_ok groups x"
  shows "pipeline_standard_cleanup_actions groups x log = Some (xbuf_cleanup x, log @ map GroupRelease (buf_refs groups x))"
  using assms cleanup_attrs_ok by (auto simp: buf_ok_def buf_refs_def pipeline_standard_cleanup_actions_def split: option.splits)

lemma cleanup_value_ok:
  assumes "flow_value_ok groups v"
  obtains v' log' where "cleanup_value groups v log = Some (v', log')" "\<And>gid. ref_count log' gid = ref_count log gid - flow_value_refs groups v gid"
  using assms cleanup_buf_ok [of groups "apply_actions v" log]
    cleanup_buf_ok [of groups "write_actions v" "log @ map GroupRelease (buf_refs groups (apply_actions v))"]
  by (simp add: flow_value_ok_def cleanup_value_def flow_value_refs_def)

subsection \<open>Parsing a flow-mod\<close>

text \<open>The answer to an instruction and to a list of them.\<close>

fun inst_error :: "(u32 \<Rightarrow> u64 option) \<Rightarrow> bool \<Rightarrow> u8 \<Rightarrow> of_instruction \<Rightarrow> error" where
  "inst_error acq tm tid (OF_INSTRUCTION_APPLY_ACTIONS as) = (if accepted acq tm as = as then ERROR_NONE else ERROR_BAD_ACTION)"
| "inst_error acq tm tid (OF_INSTRUCTION_WRITE_ACTIONS as) = (if accepted acq tm as = as then ERROR_NONE else ERROR_BAD_ACTION)"
| "inst_error acq tm tid (OF_INSTRUCTION_GOTO_TABLE t) = (if t \<le> tid \<or> NUM_TABLES \<le> unat t then ERROR_RANGE else ERROR_NONE)"
| "inst_error acq tm tid OF_INSTRUCTION_other = ERROR_COMPAT"
| "inst_error acq tm tid _ = ERROR_NONE"

fun insts_error :: "(u32 \<Rightarrow> u64 option) \<Rightarrow> bool \<Rightarrow> u8 \<Rightarrow> of_instruction list \<Rightarrow> error" where
  "insts_error acq tm tid [] = ERROR_NONE"
| "insts_error acq tm tid (i # is) = (let e = inst_error acq tm tid i in if failed e then e else insts_error acq tm tid is)"

fun inst_actions :: "of_instruction \<Rightarrow> of_action list" where
  "inst_actions (OF_INSTRUCTION_APPLY_ACTIONS as) = as"
| "inst_actions (OF_INSTRUCTION_WRITE_ACTIONS as) = as"
| "inst_actions _ = []"

text \<open>A value under construction, with room for \<open>n\<close> more actions.\<close>

definition value_holds :: "(u64 \<Rightarrow> group option) \<Rightarrow> nat \<Rightarrow> flowtable_value \<Rightarrow> bool" where
  "value_holds groups n v \<longleftrightarrow> (\<exists>as ws. xb_holds (apply_actions v) as \<and> xb_holds (write_actions v) ws \<and>
     list_all action_attr_ok (as @ ws) \<and> list_all (resolved groups) (as @ ws)) \<and>
     unat (xb_length (apply_actions v)) + 20 * n \<le> 2 ^ 31 \<and> unat (xb_length (write_actions v)) + 20 * n \<le> 2 ^ 31"

lemma value_holdsI:
  assumes "xb_holds (apply_actions v) as" "xb_holds (write_actions v) ws" "list_all action_attr_ok as" "list_all action_attr_ok ws"
    "list_all (resolved groups) as" "list_all (resolved groups) ws"
    "unat (xb_length (apply_actions v)) + 20 * n \<le> 2 ^ 31" "unat (xb_length (write_actions v)) + 20 * n \<le> 2 ^ 31"
  shows "value_holds groups n v"
  unfolding value_holds_def using assms by (intro conjI exI [of _ as] exI [of _ ws]) simp_all

lemma value_holds_ok: "value_holds groups n v \<Longrightarrow> flow_value_ok groups v"
  by (auto simp: value_holds_def flow_value_ok_def buf_ok_def xb_holds_foreach)

lemma value_holds_mono: "value_holds groups n v \<Longrightarrow> m \<le> n \<Longrightarrow> value_holds groups m v"
  by (auto simp: value_holds_def)

text \<open>Appending the translation of a list of actions to one buffer.\<close>

lemma translate_buf_ok:
  assumes "core_ok acq groups" "xb_holds x bs" "list_all action_attr_ok bs" "list_all (resolved groups) bs" "list_all of_action_ok as"
    "unat (xb_length x) + 20 * (length as + n) \<le> 2 ^ 31"
  obtains x' cs log' where "pipeline_standard_translate_openflow_actions junk acq tm as x log =
      Some (if accepted acq tm as = as then ERROR_NONE else ERROR_BAD_ACTION, x', log')"
    "xb_holds x' cs" "list_all action_attr_ok cs" "list_all (resolved groups) cs" "unat (xb_length x') + 20 * n \<le> 2 ^ 31"
    "\<And>gid. ref_count log' gid = ref_count log gid + int (count_list (buf_refs groups x') gid) - int (count_list (buf_refs groups x) gid)"
proof -
  obtain x' where x': "pipeline_standard_translate_openflow_actions junk acq tm as x log =
      Some (if accepted acq tm as = as then ERROR_NONE else ERROR_BAD_ACTION, x', log @ map GroupAcquire (attr_refs groups (action_attrs acq tm as)))"
    "xb_holds x' (bs @ action_attrs acq tm as)" "unat (xb_length x') \<le> unat (xb_length x) + 20 * length as"
    using translate_openflow_ok [OF assms(2,5), of junk acq tm log] assms(6) action_attrs_refs(2) [OF assms(1), of tm as] by auto
  have "attr_refs groups (bs @ cs) = attr_refs groups bs @ attr_refs groups cs" for cs by (induction bs) auto
  then have "buf_refs groups x' = buf_refs groups x @ attr_refs groups (action_attrs acq tm as)"
    using xb_holds_foreach [OF x'(2)] xb_holds_foreach [OF assms(2)] by (simp add: buf_refs_def)
  then show thesis
    using x' assms action_attrs_ok [OF assms(5)] action_attrs_refs(1) [OF assms(1), of tm as] by (intro that [OF x'(1,2)]) auto
qed

lemma parse_instruction_ok:
  assumes "core_ok acq groups" "value_holds groups (length (inst_actions i) + n) v" "list_all of_action_ok (inst_actions i)" "next_ok tid v"
  obtains v' log' where "parse_instruction X acq tm tid i v log = Some (inst_error acq tm tid i, v', log')"
    "value_holds groups n v'" "\<not> failed (inst_error acq tm tid i) \<Longrightarrow> next_ok tid v'"
    "\<And>gid. ref_count log' gid = ref_count log gid + flow_value_refs groups v' gid - flow_value_refs groups v gid"
proof -
  obtain as ws where h: "xb_holds (apply_actions v) as" "xb_holds (write_actions v) ws" "list_all action_attr_ok as" "list_all action_attr_ok ws"
    "list_all (resolved groups) as" "list_all (resolved groups) ws"
    and len: "unat (xb_length (apply_actions v)) + 20 * (length (inst_actions i) + n) \<le> 2 ^ 31"
      "unat (xb_length (write_actions v)) + 20 * (length (inst_actions i) + n) \<le> 2 ^ 31"
    using assms(2) by (auto simp: value_holds_def)
  have small: "value_holds groups n v" using assms(2) value_holds_mono by simp
  note goal = that
  have pure: "thesis" if "parse_instruction X acq tm tid i v log = Some (inst_error acq tm tid i, v', log)"
      "apply_actions v' = apply_actions v" "write_actions v' = write_actions v" "\<not> failed (inst_error acq tm tid i) \<Longrightarrow> next_ok tid v'" for v'
    using that small by (intro goal [OF that(1)]) (auto simp: value_holds_def flow_value_refs_def)
  show thesis
  proof (cases i)
    case (OF_INSTRUCTION_APPLY_ACTIONS bs)
    obtain x' cs log' where x': "pipeline_standard_translate_openflow_actions (ext_junk X) acq tm bs (apply_actions v) log =
        Some (if accepted acq tm bs = bs then ERROR_NONE else ERROR_BAD_ACTION, x', log')" "xb_holds x' cs" "list_all action_attr_ok cs"
      "list_all (resolved groups) cs" "unat (xb_length x') + 20 * n \<le> 2 ^ 31"
      "\<And>gid. ref_count log' gid = ref_count log gid + int (count_list (buf_refs groups x') gid) - int (count_list (buf_refs groups (apply_actions v)) gid)"
      by (rule translate_buf_ok [OF assms(1) h(1,3,5), of bs n]) (use OF_INSTRUCTION_APPLY_ACTIONS assms(3) len in auto)
    have "value_holds groups n (v\<lparr>apply_actions := x'\<rparr>)"
      by (rule value_holdsI [of _ cs ws]) (use x' h len in simp_all)
    then show thesis
      by (rule_tac that [of "v\<lparr>apply_actions := x'\<rparr>" log']) (use x' assms(4) OF_INSTRUCTION_APPLY_ACTIONS in
        \<open>auto simp: parse_instruction_def next_ok_def flow_value_refs_def\<close>)
  next
    case (OF_INSTRUCTION_WRITE_ACTIONS bs)
    obtain x' cs log' where x': "pipeline_standard_translate_openflow_actions (ext_junk X) acq tm bs (write_actions v) log =
        Some (if accepted acq tm bs = bs then ERROR_NONE else ERROR_BAD_ACTION, x', log')" "xb_holds x' cs" "list_all action_attr_ok cs"
      "list_all (resolved groups) cs" "unat (xb_length x') + 20 * n \<le> 2 ^ 31"
      "\<And>gid. ref_count log' gid = ref_count log gid + int (count_list (buf_refs groups x') gid) - int (count_list (buf_refs groups (write_actions v)) gid)"
      by (rule translate_buf_ok [OF assms(1) h(2,4,6), of bs n]) (use OF_INSTRUCTION_WRITE_ACTIONS assms(3) len in auto)
    have "value_holds groups n (v\<lparr>write_actions := x'\<rparr>)"
      by (rule value_holdsI [of _ as cs]) (use x' h len in simp_all)
    then show thesis
      by (rule_tac that [of "v\<lparr>write_actions := x'\<rparr>" log']) (use x' assms(4) OF_INSTRUCTION_WRITE_ACTIONS in
        \<open>auto simp: parse_instruction_def next_ok_def flow_value_refs_def\<close>)
  next
    case OF_INSTRUCTION_CLEAR_ACTIONS
    then show thesis
      using assms(4) by (intro pure [of "v\<lparr>clear_actions := True\<rparr>"]) (auto simp: parse_instruction_def next_ok_def)
  next
    case (OF_INSTRUCTION_GOTO_TABLE t)
    then show thesis
      by (intro pure [of "v\<lparr>next_table_id := t\<rparr>"]) (auto simp: parse_instruction_def next_ok_def split: if_splits)
  next
    case (OF_INSTRUCTION_METER m)
    then show thesis
      using assms(4) by (intro pure [of "v\<lparr>meter_id := m\<rparr>"]) (auto simp: parse_instruction_def next_ok_def)
  next
    case OF_INSTRUCTION_other
    then show thesis by (intro pure [of v]) (simp_all add: parse_instruction_def)
  qed
qed

lemma parse_instructions_ok:
  assumes "core_ok acq groups"
  shows "value_holds groups (length (concat (map inst_actions is))) v \<Longrightarrow> list_all (\<lambda>i. list_all of_action_ok (inst_actions i)) is \<Longrightarrow> next_ok tid v \<Longrightarrow>
    \<exists>v' log'. parse_instructions X acq tm tid is v log = Some (insts_error acq tm tid is, v', log') \<and> value_holds groups 0 v' \<and>
      (\<not> failed (insts_error acq tm tid is) \<longrightarrow> next_ok tid v') \<and>
      (\<forall>gid. ref_count log' gid = ref_count log gid + flow_value_refs groups v' gid - flow_value_refs groups v gid)"
proof (induction "is" arbitrary: v log)
  case Nil
  then show ?case by simp
next
  case (Cons i "is")
  let ?n = "length (concat (map inst_actions is))"
  have h: "value_holds groups (length (inst_actions i) + ?n) v" using Cons.prems(1) by simp
  have a: "list_all of_action_ok (inst_actions i)" using Cons.prems(2) by simp
  obtain v1 log1 where 1: "parse_instruction X acq tm tid i v log = Some (inst_error acq tm tid i, v1, log1)"
    "value_holds groups ?n v1" "\<not> failed (inst_error acq tm tid i) \<Longrightarrow> next_ok tid v1"
    "\<And>gid. ref_count log1 gid = ref_count log gid + flow_value_refs groups v1 gid - flow_value_refs groups v gid"
    by (rule parse_instruction_ok [OF assms h a Cons.prems(3), of X tm log]) (rule that)
  show ?case
  proof (cases "failed (inst_error acq tm tid i)")
    case True
    then show ?thesis using 1 value_holds_mono [OF 1(2), of 0] by (simp add: Let_def)
  next
    case False
    then obtain v' log' where "parse_instructions X acq tm tid is v1 log1 = Some (insts_error acq tm tid is, v', log')" "value_holds groups 0 v'"
      "\<not> failed (insts_error acq tm tid is) \<longrightarrow> next_ok tid v'"
      "\<forall>gid. ref_count log' gid = ref_count log1 gid + flow_value_refs groups v' gid - flow_value_refs groups v1 gid"
      using Cons.IH [OF 1(2) _ 1(3) [OF False], of log1] Cons.prems(2) by auto
    then show ?thesis using 1 False by (simp add: Let_def)
  qed
qed

text \<open>What a flow-mod asks for, and the answer of the parser.\<close>

definition fm_insts :: "of_flow_mod \<Rightarrow> of_instruction list" where
  "fm_insts fm = (if fm_version fm = OF_VERSION_1_0 then [OF_INSTRUCTION_APPLY_ACTIONS (fm_actions fm)] else fm_instructions fm)"

definition fm_error :: "(u32 \<Rightarrow> u64 option) \<Rightarrow> bool \<Rightarrow> of_flow_mod \<Rightarrow> error" where
  "fm_error acq tm fm = insts_error acq tm (fm_table_id fm) (fm_insts fm)"

definition fm_ok :: "of_flow_mod \<Rightarrow> bool" where
  "fm_ok fm \<longleftrightarrow> list_all (\<lambda>i. list_all of_action_ok (inst_actions i)) (fm_insts fm) \<and> 20 * length (concat (map inst_actions (fm_insts fm))) \<le> 2 ^ 31"

lemma parse_fm_insts:
  "(if fm_version fm = OF_VERSION_1_0 then parse_instruction X acq tm 0 (OF_INSTRUCTION_APPLY_ACTIONS (fm_actions fm)) v log
    else parse_instructions X acq tm (fm_table_id fm) (fm_instructions fm) v log) =
   parse_instructions X acq tm (fm_table_id fm) (fm_insts fm) v log"
proof -
  have "parse_instruction X acq tm 0 (OF_INSTRUCTION_APPLY_ACTIONS as) v log = parse_instructions X acq tm t [OF_INSTRUCTION_APPLY_ACTIONS as] v log" for as t
    by (cases "pipeline_standard_translate_openflow_actions (ext_junk X) acq tm as (apply_actions v) log") (auto simp: parse_instruction_def failed_def)
  then show ?thesis by (simp add: fm_insts_def)
qed

lemma parse_value_ok:
  assumes "core_ok acq groups" "fm_ok fm"
  obtains v' log' where "parse_value X acq groups fm tm v log = Some (fm_error acq tm fm, v', log')"
    "failed (fm_error acq tm fm) \<Longrightarrow> ref_count log' = ref_count log"
    "\<not> failed (fm_error acq tm fm) \<Longrightarrow> flow_value_ok groups v' \<and> next_ok (fm_table_id fm) v' \<and>
      (\<forall>gid. ref_count log' gid = ref_count log gid + flow_value_refs groups v' gid)"
proof -
  obtain x where x: "xbuf_init (ext_junk X) = Some x" "xb_holds x []" "xb_length x = 0" by (rule xbuf_init_holds)
  let ?v = "v\<lparr>apply_actions := x, write_actions := x, clear_actions := False, meter_id := - 1, next_table_id := - 1\<rparr>"
  let ?e = "fm_error acq tm fm" and ?n = "length (concat (map inst_actions (fm_insts fm)))"
  have "value_holds groups ?n ?v" by (rule value_holdsI [of _ "[]" "[]"]) (use x assms(2) in \<open>auto simp: fm_ok_def\<close>)
  moreover have "next_ok (fm_table_id fm) ?v" by (simp add: next_ok_def)
  ultimately obtain v1 log1 where 1: "parse_instructions X acq tm (fm_table_id fm) (fm_insts fm) ?v log = Some (?e, v1, log1)"
    "value_holds groups 0 v1" "\<not> failed ?e \<longrightarrow> next_ok (fm_table_id fm) v1"
    "\<forall>gid. ref_count log1 gid = ref_count log gid + flow_value_refs groups v1 gid - flow_value_refs groups ?v gid"
    using parse_instructions_ok [OF assms(1), of "fm_insts fm" ?v "fm_table_id fm" X tm log] assms(2) by (auto simp: fm_ok_def fm_error_def)
  have z: "flow_value_refs groups ?v gid = 0" for gid using xb_holds_foreach [OF x(2)] by (simp add: flow_value_refs_def buf_refs_def)
  have p: "parse_value X acq groups fm tm v log = (if failed ?e then do { (v, log) \<leftarrow> cleanup_value groups v1 log1; Some (?e, v, log) }
      else Some (ERROR_NONE, v1\<lparr>apply_actions := xbuf_compact (ext_junk X) (apply_actions v1), write_actions := xbuf_compact (ext_junk X) (write_actions v1)\<rparr>, log1))"
    unfolding parse_value_def parse_fm_insts by (simp add: x(1) 1(1))
  show thesis
  proof (cases "failed ?e")
    case True
    obtain v2 log2 where "cleanup_value groups v1 log1 = Some (v2, log2)" "\<And>gid. ref_count log2 gid = ref_count log1 gid - flow_value_refs groups v1 gid"
      using cleanup_value_ok [OF value_holds_ok [OF 1(2)], of log1] by blast
    then show thesis using True p 1(4) z by (intro that [of v2 log2]) (auto simp: fun_eq_iff)
  next
    case False
    let ?w = "v1\<lparr>apply_actions := xbuf_compact (ext_junk X) (apply_actions v1), write_actions := xbuf_compact (ext_junk X) (write_actions v1)\<rparr>"
    obtain as ws where h: "xb_holds (apply_actions v1) as" "xb_holds (write_actions v1) ws" "list_all action_attr_ok (as @ ws)" "list_all (resolved groups) (as @ ws)"
      using 1(2) by (auto simp: value_holds_def)
    have "flow_value_ok groups ?w" "flow_value_refs groups ?w = flow_value_refs groups v1"
      using h xb_holds_foreach [OF h(1)] xb_holds_foreach [OF h(2)] xb_holds_foreach [OF xb_holds_compact [OF h(1)]] xb_holds_foreach [OF xb_holds_compact [OF h(2)]]
      by (simp_all add: flow_value_ok_def buf_ok_def flow_value_refs_def buf_refs_def fun_eq_iff)
    moreover have "?e = ERROR_NONE" using False by (simp add: failed_def)
    ultimately show thesis using False p 1(3,4) z by (intro that [of ?w log1]) (auto simp: next_ok_def)
  qed
qed

subsection \<open>The invariant of the tables\<close>

text \<open>
  \<open>A\<close> is the set of counters in use. Every tcam entry of a table is embedded in a flow entry of
  the heap, entries of different tables are different, and no two flow entries share a counter.
\<close>

definition flow_entry_ok :: "(u64 \<Rightarrow> group option) \<Rightarrow> u32 set \<Rightarrow> nat \<Rightarrow> tcam_entry \<Rightarrow> flowtable_entry \<Rightarrow> bool" where
  "flow_entry_ok groups A i te e \<longleftrightarrow> fe_tcam_entry e = te \<and> flow_value_ok groups (fe_value e) \<and> next_ok (of_nat i) (fe_value e) \<and> fe_stats_handle e \<in> A"

definition table_entries :: "('b, 'h) pipeline_standard \<Rightarrow> nat \<Rightarrow> tcam_entry set" where
  "table_entries ps i = (case flowtable_at ps i of None \<Rightarrow> {} | Some ft \<Rightarrow> set (tcam_entries (ft_tcam ft)))"

definition std_inv ::
  "('b, 'h) std_ext \<Rightarrow> ('b \<Rightarrow> u32 multiset \<Rightarrow> bool) \<Rightarrow> ('h \<Rightarrow> (u64 \<times> u32) set \<Rightarrow> bool) \<Rightarrow> u32 set \<Rightarrow> ('b, 'h) pipeline_standard \<Rightarrow> bool" where
  "std_inv X br hr A ps \<longleftrightarrow> stats_inv (st_stats (ps_core ps)) A \<and> length (flowtables ps) = NUM_TABLES \<and>
     (\<forall>i<NUM_TABLES. \<exists>ft. flowtable_at ps i = Some ft \<and> ft_table_id ft = of_nat i) \<and> tcams_ok X br hr ps \<and>
     (\<forall>i te. te \<in> table_entries ps i \<longrightarrow> (\<exists>e. ps_entries ps (te_addr te) = Some e \<and> flow_entry_ok (st_groups (ps_core ps)) A i te e)) \<and>
     (\<forall>i j te te'. te \<in> table_entries ps i \<longrightarrow> te' \<in> table_entries ps j \<longrightarrow> te_addr te = te_addr te' \<longrightarrow> i = j) \<and>
     (\<forall>a b e e'. ps_entries ps a = Some e \<longrightarrow> ps_entries ps b = Some e' \<longrightarrow> fe_stats_handle e = fe_stats_handle e' \<longrightarrow> a = b) \<and>
     (\<forall>a e. ps_entries ps a = Some e \<longrightarrow> fe_stats_handle e \<in> A)"

lemma std_invD:
  assumes "std_inv X br hr A ps"
  shows "stats_inv (st_stats (ps_core ps)) A" "length (flowtables ps) = NUM_TABLES"
    "i < NUM_TABLES \<Longrightarrow> \<exists>ft. flowtable_at ps i = Some ft \<and> ft_table_id ft = of_nat i" "tcams_ok X br hr ps"
    "te \<in> table_entries ps i \<Longrightarrow> \<exists>e. ps_entries ps (te_addr te) = Some e \<and> flow_entry_ok (st_groups (ps_core ps)) A i te e"
    "te \<in> table_entries ps i \<Longrightarrow> te' \<in> table_entries ps j \<Longrightarrow> te_addr te = te_addr te' \<Longrightarrow> i = j"
    "ps_entries ps a = Some e \<Longrightarrow> ps_entries ps b = Some e' \<Longrightarrow> fe_stats_handle e = fe_stats_handle e' \<Longrightarrow> a = b"
    "ps_entries ps a = Some e \<Longrightarrow> fe_stats_handle e \<in> A"
  using assms unfolding std_inv_def by blast+

lemma flowtable_at_upd:
  assumes "flowtable_at ps i = Some ft" "flowtables ps' = (flowtables ps)[i := Some ft']"
  shows "flowtable_at ps' j = (if j = i then Some ft' else flowtable_at ps j)"
  using assms by (auto simp: flowtable_at_def nth_list_update split: if_splits)

lemma flowtable_at_cong: "flowtables ps' = flowtables ps \<Longrightarrow> flowtable_at ps' = flowtable_at ps"
  by (simp add: flowtable_at_def fun_eq_iff)

lemma table_entries_upd:
  assumes "flowtable_at ps i = Some ft" "flowtables ps' = (flowtables ps)[i := Some ft']"
  shows "table_entries ps' j = (if j = i then set (tcam_entries (ft_tcam ft')) else table_entries ps j)"
  using flowtable_at_upd [OF assms] by (simp add: table_entries_def)

lemma tcams_ok_upd:
  assumes "flowtable_at ps i = Some ft" "flowtables ps' = (flowtables ps)[i := Some ft']" "tcams_ok X br hr ps"
    "tcam_inv (ext_tcam X) br hr (ft_tcam ft')" "key_words (ft_tcam ft') = 18"
  shows "tcams_ok X br hr ps'"
  using assms flowtable_at_upd [OF assms(1,2)] by (auto simp: tcams_ok_def split: if_splits)

lemma flow_entry_ok_mono: "flow_entry_ok groups A i te e \<Longrightarrow> A \<subseteq> B \<Longrightarrow> flow_entry_ok groups B i te e"
  by (auto simp: flow_entry_ok_def)

text \<open>
  Creating an entry. The table is the one the message names; the addresses of the entry and of a
  possible new shard are fresh.
\<close>

definition create_ok :: "(u32 \<Rightarrow> u64 option) \<Rightarrow> u64 \<Rightarrow> u64 \<Rightarrow> nat \<Rightarrow> of_flow_mod \<Rightarrow> ('b, 'h) pipeline_standard \<Rightarrow> bool" where
  "create_ok acq eaddr saddr i fm ps \<longleftrightarrow> core_ok acq (st_groups (ps_core ps)) \<and> fm_ok fm \<and> i < NUM_TABLES \<and> fm_table_id fm = of_nat i \<and>
     0 < num_free (st_stats (ps_core ps)) \<and> ps_entries ps eaddr = None \<and>
     (case flowtable_at ps i of None \<Rightarrow> True | Some ft \<Rightarrow> saddr \<notin> sh_addr ` set (shard_list (ft_tcam ft)) \<and> length (tcam_entries (ft_tcam ft)) < 2 ^ 30) \<and>
     (case fm_match fm of None \<Rightarrow> True | Some match \<Rightarrow> mf_wf (match_fields match) \<and> mf_wf (match_masks match))"

definition create_error :: "(u32 \<Rightarrow> u64 option) \<Rightarrow> of_flow_mod \<Rightarrow> ('b, 'h) pipeline_standard \<Rightarrow> error" where
  "create_error acq fm ps = (case fm_match fm of None \<Rightarrow> ERROR_UNKNOWN
     | Some match \<Rightarrow> fm_error acq (is_table_miss (openflow_version ps) (snd (pipeline_standard_match_to_cfr match)) (fm_priority fm)) fm)"

lemma match_words:
  assumes "mf_wf (match_fields match)" "mf_wf (match_masks match)"
  shows "length (cfr_words (fst (pipeline_standard_match_to_cfr match))) = 18" "length (cfr_words (snd (pipeline_standard_match_to_cfr match))) = 18"
  using match_to_cfr_eq [OF assms] cfr_and_words(1) by (metis fst_conv snd_conv length_cfr_words)+

lemma create_std_inv:
  assumes inv: "std_inv X br hr A ps" and ft: "flowtable_at ps i = Some ft" "flowtables ps' = (flowtables ps)[i := Some ft']"
    and t: "tcam_inv (ext_tcam X) br hr (ft_tcam ft')" "key_words (ft_tcam ft') = 18" "ft_table_id ft' = ft_table_id ft"
    and set: "set (tcam_entries (ft_tcam ft')) = insert te (set (tcam_entries (ft_tcam ft)))"
    and heap: "ps_entries ps' = (ps_entries ps)(te_addr te \<mapsto> e)" "ps_entries ps (te_addr te) = None"
    and e: "flow_entry_ok (st_groups (ps_core ps)) (insert slot A) i te e" "fe_stats_handle e = slot" "slot \<notin> A"
    and core: "stats_inv (st_stats (ps_core ps')) (insert slot A)" "st_groups (ps_core ps') = st_groups (ps_core ps)"
  shows "std_inv X br hr (insert slot A) ps'"
proof -
  note D = std_invD [OF inv]
  have tab: "table_entries ps' j = (if j = i then insert te (table_entries ps i) else table_entries ps j)" for j
    using table_entries_upd [OF ft] set ft(1) by (simp add: table_entries_def [of ps])
  have old: "te_addr te' \<noteq> te_addr te" if "te' \<in> table_entries ps j" for te' j using D(5) [OF that] heap(2) by auto
  have "\<exists>f. ps_entries ps' (te_addr te') = Some f \<and> flow_entry_ok (st_groups (ps_core ps')) (insert slot A) j te' f"
    if "te' \<in> table_entries ps' j" for j te'
  proof (cases "te' = te \<and> j = i")
    case True
    then show ?thesis using heap(1) e(1) core(2) by simp
  next
    case False
    then have "te' \<in> table_entries ps j" using that tab by (auto split: if_splits)
    then show ?thesis using D(5) old heap(1) core(2) flow_entry_ok_mono [of _ A j te' _ "insert slot A"] by (simp; blast)
  qed
  moreover have "j = k" if "te1 \<in> table_entries ps' j" "te2 \<in> table_entries ps' k" "te_addr te1 = te_addr te2" for j k te1 te2
    using that tab D(6) old by (auto split: if_splits) (metis+)
  moreover have "a = b" if "ps_entries ps' a = Some f" "ps_entries ps' b = Some f'" "fe_stats_handle f = fe_stats_handle f'" for a b f f'
    using that heap(1) e(2,3) D(7) [of a f b f'] D(8) [of a f] D(8) [of b f'] by (auto split: if_splits)
  moreover have "fe_stats_handle f \<in> insert slot A" if "ps_entries ps' a = Some f" for a f
    using that heap(1) e(2) D(8) by (auto split: if_splits)
  moreover have "tcams_ok X br hr ps'" using tcams_ok_upd [OF ft D(4) t(1,2)] .
  moreover have "\<exists>g. flowtable_at ps' j = Some g \<and> ft_table_id g = of_nat j" if "j < NUM_TABLES" for j
    using D(3) [OF that] flowtable_at_upd [OF ft] ft(1) t(3) by auto
  ultimately show ?thesis using core(1) D(2) ft(2) unfolding std_inv_def by simp
qed

lemma create_inv:
  assumes inv: "std_inv X br hr A ps" and ok: "create_ok acq eaddr saddr i fm ps"
  shows "failed (create_error acq fm ps) \<Longrightarrow>
      \<exists>log. flowtable_entry_create X acq eaddr saddr i cxn fm ps = Some (create_error acq fm ps, ps\<lparr>ps_core := (ps_core ps)\<lparr>st_log := log\<rparr>\<rparr>) \<and>
        ref_count log = ref_count (st_log (ps_core ps))"
    and "\<not> failed (create_error acq fm ps) \<Longrightarrow>
      \<exists>ps' slot e. flowtable_entry_create X acq eaddr saddr i cxn fm ps = Some (ERROR_NONE, ps') \<and> slot \<notin> A \<and> std_inv X br hr (insert slot A) ps' \<and>
        ps_entries ps' = (ps_entries ps)(eaddr \<mapsto> e) \<and> fe_stats_handle e = slot \<and> fe_tcam_entry e \<in> table_entries ps' i \<and>
        te_addr (fe_tcam_entry e) = eaddr \<and>
        (\<forall>j. j \<noteq> i \<longrightarrow> table_entries ps' j = table_entries ps j) \<and> table_entries ps' i = insert (fe_tcam_entry e) (table_entries ps i) \<and>
        st_groups (ps_core ps') = st_groups (ps_core ps) \<and>
        (\<forall>gid. ref_count (st_log (ps_core ps')) gid = ref_count (st_log (ps_core ps)) gid + flow_value_refs (st_groups (ps_core ps)) (fe_value e) gid)"
proof -
  let ?core = "ps_core ps" let ?G = "st_groups ?core" let ?err = "create_error acq fm ps"
  note D = std_invD [OF inv]
  have o: "core_ok acq ?G" "fm_ok fm" "i < NUM_TABLES" "fm_table_id fm = of_nat i" "card A < MAX_STATS" "ps_entries ps eaddr = None"
    using ok D(1) by (auto simp: create_ok_def stats_inv_def word_less_nat_alt)
  obtain ft where ft: "flowtable_at ps i = Some ft" using D(3) [OF o(3)] by blast
  have t: "tcam_inv (ext_tcam X) br hr (ft_tcam ft)" "key_words (ft_tcam ft) = 18" using D(4) ft by (auto simp: tcams_ok_def)
  show "\<exists>log. flowtable_entry_create X acq eaddr saddr i cxn fm ps = Some (?err, ps\<lparr>ps_core := ?core\<lparr>st_log := log\<rparr>\<rparr>) \<and> ref_count log = ref_count (st_log ?core)"
    if f: "failed ?err"
  proof (cases "fm_match fm")
    case None
    then show ?thesis using ft by (intro exI [of _ "st_log ?core"]) (simp add: flowtable_entry_create_def create_error_def)
  next
    case (Some match)
    let ?miss = "is_table_miss (openflow_version ps) (snd (pipeline_standard_match_to_cfr match)) (fm_priority fm)"
    have e: "?err = fm_error acq ?miss fm" using Some by (simp add: create_error_def)
    obtain v log where v: "parse_value X acq ?G fm ?miss value_zero (st_log ?core) = Some (?err, v, log)" "ref_count log = ref_count (st_log ?core)"
      using parse_value_ok [OF o(1,2), of X ?miss value_zero "st_log ?core"] f e by metis
    then show ?thesis using ft Some f by (intro exI [of _ log], cases "pipeline_standard_match_to_cfr match") (simp add: flowtable_entry_create_def Let_def)
  qed
  show "\<exists>ps' slot e. flowtable_entry_create X acq eaddr saddr i cxn fm ps = Some (ERROR_NONE, ps') \<and> slot \<notin> A \<and> std_inv X br hr (insert slot A) ps' \<and>
      ps_entries ps' = (ps_entries ps)(eaddr \<mapsto> e) \<and> fe_stats_handle e = slot \<and> fe_tcam_entry e \<in> table_entries ps' i \<and>
      te_addr (fe_tcam_entry e) = eaddr \<and>
      (\<forall>j. j \<noteq> i \<longrightarrow> table_entries ps' j = table_entries ps j) \<and> table_entries ps' i = insert (fe_tcam_entry e) (table_entries ps i) \<and>
      st_groups (ps_core ps') = st_groups (ps_core ps) \<and>
      (\<forall>gid. ref_count (st_log (ps_core ps')) gid = ref_count (st_log (ps_core ps)) gid + flow_value_refs (st_groups (ps_core ps)) (fe_value e) gid)"
    if f: "\<not> failed ?err"
  proof -
    obtain match where match: "fm_match fm = Some match" using f by (cases "fm_match fm") (auto simp: create_error_def)
    define key msk where km: "key = fst (pipeline_standard_match_to_cfr match)" "msk = snd (pipeline_standard_match_to_cfr match)"
    define miss where "miss = is_table_miss (openflow_version ps) msk (fm_priority fm)"
    have e: "?err = fm_error acq miss fm" "?err = ERROR_NONE" using match f by (simp_all add: create_error_def miss_def km failed_def)
    obtain v log where v: "parse_value X acq ?G fm miss value_zero (st_log ?core) = Some (ERROR_NONE, v, log)"
      "flow_value_ok ?G v" "next_ok (fm_table_id fm) v" "\<forall>gid. ref_count log gid = ref_count (st_log ?core) gid + flow_value_refs ?G v gid"
      using parse_value_ok [OF o(1,2), of X miss value_zero "st_log ?core"] e by (metis failed_simps(1))
    have len: "length (cfr_words key) = key_words (ft_tcam ft)" "length (cfr_words msk) = key_words (ft_tcam ft)"
      using ok match t(2) match_words by (simp_all add: create_ok_def km)
    have fresh: "eaddr \<notin> te_addr ` set (tcam_entries (ft_tcam ft))"
      using D(5) [of _ i] o(6) ft by (force simp: table_entries_def)
    have room: "saddr \<notin> sh_addr ` set (shard_list (ft_tcam ft))" "length (tcam_entries (ft_tcam ft)) < 2 ^ 30" using ok ft by (simp_all add: create_ok_def)
    let ?t = "tcam_insert (ext_tcam X) (ft_tcam ft) eaddr saddr (cfr_words key) (cfr_words msk) (fm_priority fm)"
    define te where "te = \<lparr>te_addr = eaddr, te_hash = hash_key (ext_tcam X) (ft_tcam ft) (cfr_words key) (cfr_words msk), te_priority = fm_priority fm,
      te_key = cfr_words key, te_mask = cfr_words msk\<rparr>"
    note ins = tcam_insert_inv [OF t(1) len fresh room, of "fm_priority fm", folded te_def]
    have set: "set (tcam_entries ?t) = insert te (set (tcam_entries (ft_tcam ft)))" using arg_cong [OF ins(2), of set_mset] by simp
    have "distinct (map te_addr (tcam_entries ?t))" using ins(1) by (simp add: tcam_inv_def)
    then have find: "find (\<lambda>te. te_addr te = eaddr) (tcam_entries ?t) = Some te"
      using find_distinct [of te_addr "tcam_entries ?t" te] set by (simp add: te_def)
    obtain slot stats where s: "stats_alloc (st_stats ?core) = Some (slot, stats)" "slot \<notin> A" "stats_inv stats (insert slot A)"
      by (rule stats_alloc_ok [OF D(1) o(5)])
    define e where "e = \<lparr>fe_tcam_entry = te, fe_value = v, fe_stats_handle = slot, last_hit_check_packets = 0, fe_table_miss = miss\<rparr>"
    define ps' where "ps' = ps\<lparr>flowtables := (flowtables ps)[i := Some (ft\<lparr>ft_tcam := ?t\<rparr>)], ps_entries := (ps_entries ps)(eaddr \<mapsto> e),
      ps_core := ?core\<lparr>st_stats := stats, st_log := log @ [DeferRevalidation cxn]\<rparr>\<rparr>"
    have run: "flowtable_entry_create X acq eaddr saddr i cxn fm ps = Some (ERROR_NONE, ps')"
      using ft match v(1) find s(1) by (cases "pipeline_standard_match_to_cfr match") (simp add: flowtable_entry_create_def Let_def ps'_def e_def miss_def km)
    have fts: "flowtables ps' = (flowtables ps)[i := Some (ft\<lparr>ft_tcam := ?t\<rparr>)]" by (simp add: ps'_def)
    have tab: "table_entries ps' j = (if j = i then insert te (table_entries ps i) else table_entries ps j)" for j
      using table_entries_upd [OF ft fts] set ft by (simp add: table_entries_def [of ps])
    have "std_inv X br hr (insert slot A) ps'"
      by (rule create_std_inv [where te = te and e = e, OF inv ft fts _ _ _ _ _ _ _ _ s(2)])
        (use ins(1,3) t(2) set s o v(2,3) in \<open>simp_all add: ps'_def e_def te_def flow_entry_ok_def\<close>)
    then show ?thesis
      using run s(2) tab v(4) by (intro exI [of _ ps'] exI [of _ slot] exI [of _ e]) (simp add: ps'_def e_def te_def ref_count_def)
  qed
qed

lemma modify_std_inv:
  assumes inv: "std_inv X br hr A ps" and e: "ps_entries ps a = Some e"
    and ps': "flowtables ps' = flowtables ps" "ps_entries ps' = (ps_entries ps)(a \<mapsto> e')" "st_stats (ps_core ps') = st_stats (ps_core ps)"
      "st_groups (ps_core ps') = st_groups (ps_core ps)"
    and e': "fe_tcam_entry e' = fe_tcam_entry e" "fe_stats_handle e' = fe_stats_handle e"
      "\<And>i. fe_tcam_entry e \<in> table_entries ps i \<Longrightarrow> te_addr (fe_tcam_entry e) = a \<Longrightarrow>
        flow_value_ok (st_groups (ps_core ps)) (fe_value e') \<and> next_ok (of_nat i) (fe_value e')"
  shows "std_inv X br hr A ps'"
proof -
  note D = std_invD [OF inv]
  have at: "flowtable_at ps' = flowtable_at ps" by (rule flowtable_at_cong [OF ps'(1)])
  then have tab: "table_entries ps' = table_entries ps" by (simp add: table_entries_def fun_eq_iff)
  have ent: "\<exists>f. ps_entries ps' (te_addr te) = Some f \<and> flow_entry_ok (st_groups (ps_core ps')) A j te f" if te: "te \<in> table_entries ps' j" for j te
  proof (cases "te_addr te = a")
    case True
    obtain f where "ps_entries ps (te_addr te) = Some f" "flow_entry_ok (st_groups (ps_core ps)) A j te f" using D(5) [of te j] te tab by auto
    then have "f = e" "fe_tcam_entry e = te" "fe_stats_handle e \<in> A" using True e by (auto simp: flow_entry_ok_def)
    then show ?thesis using True ps' e'(1,2) e'(3) [of j] te tab by (simp add: flow_entry_ok_def)
  next
    case False
    then show ?thesis using D(5) te tab ps' by simp
  qed
  have same: "\<exists>f0. ps_entries ps x = Some f0 \<and> fe_stats_handle f0 = fe_stats_handle f" if "ps_entries ps' x = Some f" for x f
    using that ps'(2) e e'(2) by (auto split: if_splits)
  have "x = y" if "ps_entries ps' x = Some f" "ps_entries ps' y = Some f'" "fe_stats_handle f = fe_stats_handle f'" for x y f f'
    using same [OF that(1)] same [OF that(2)] that(3) D(7) by metis
  moreover have "fe_stats_handle f \<in> A" if "ps_entries ps' x = Some f" for x f
    using same [OF that] D(8) by metis
  moreover have "tcams_ok X br hr ps'" using D(4) at by (simp add: tcams_ok_def)
  moreover have "j = k" if "te1 \<in> table_entries ps' j" "te2 \<in> table_entries ps' k" "te_addr te1 = te_addr te2" for j k te1 te2
    by (rule D(6) [OF that [unfolded tab]])
  moreover have "stats_inv (st_stats (ps_core ps')) A" "length (flowtables ps') = NUM_TABLES"
    "\<forall>i<NUM_TABLES. \<exists>ft. flowtable_at ps' i = Some ft \<and> ft_table_id ft = of_nat i" using D(1-3) ps' at by auto
  ultimately show ?thesis using ent unfolding std_inv_def by blast
qed

lemma modify_inv:
  assumes inv: "std_inv X br hr A ps" and ok: "core_ok acq (st_groups (ps_core ps))" "fm_ok fm"
    and e: "ps_entries ps a = Some e" "fe_tcam_entry e \<in> table_entries ps i" "te_addr (fe_tcam_entry e) = a" "fm_table_id fm = of_nat i"
  shows "failed (fm_error acq (fe_table_miss e) fm) \<Longrightarrow>
      \<exists>log. flowtable_entry_modify X acq cxn a fm v0 ps = Some (fm_error acq (fe_table_miss e) fm, ps\<lparr>ps_core := (ps_core ps)\<lparr>st_log := log\<rparr>\<rparr>) \<and>
        ref_count log = ref_count (st_log (ps_core ps))"
    and "\<not> failed (fm_error acq (fe_table_miss e) fm) \<Longrightarrow>
      \<exists>ps' v. flowtable_entry_modify X acq cxn a fm v0 ps = Some (ERROR_NONE, ps') \<and> std_inv X br hr A ps' \<and>
        ps_entries ps' = (ps_entries ps)(a \<mapsto> e\<lparr>fe_value := v\<rparr>) \<and> flowtables ps' = flowtables ps \<and> st_groups (ps_core ps') = st_groups (ps_core ps) \<and>
        (\<forall>gid. ref_count (st_log (ps_core ps')) gid - flow_value_refs (st_groups (ps_core ps)) v gid =
          ref_count (st_log (ps_core ps)) gid - flow_value_refs (st_groups (ps_core ps)) (fe_value e) gid)"
proof -
  let ?core = "ps_core ps" let ?G = "st_groups ?core" let ?err = "fm_error acq (fe_table_miss e) fm"
  note D = std_invD [OF inv]
  show "\<exists>log. flowtable_entry_modify X acq cxn a fm v0 ps = Some (?err, ps\<lparr>ps_core := ?core\<lparr>st_log := log\<rparr>\<rparr>) \<and> ref_count log = ref_count (st_log ?core)"
    if f: "failed ?err"
  proof -
    obtain v log where "parse_value X acq ?G fm (fe_table_miss e) v0 (st_log ?core) = Some (?err, v, log)" "ref_count log = ref_count (st_log ?core)"
      using parse_value_ok [OF ok, of X "fe_table_miss e" v0 "st_log ?core"] f by metis
    then show ?thesis using e(1) f by (intro exI [of _ log]) (simp add: flowtable_entry_modify_def)
  qed
  show "\<exists>ps' v. flowtable_entry_modify X acq cxn a fm v0 ps = Some (ERROR_NONE, ps') \<and> std_inv X br hr A ps' \<and>
        ps_entries ps' = (ps_entries ps)(a \<mapsto> e\<lparr>fe_value := v\<rparr>) \<and> flowtables ps' = flowtables ps \<and> st_groups (ps_core ps') = st_groups (ps_core ps) \<and>
        (\<forall>gid. ref_count (st_log (ps_core ps')) gid - flow_value_refs (st_groups (ps_core ps)) v gid =
          ref_count (st_log (ps_core ps)) gid - flow_value_refs (st_groups (ps_core ps)) (fe_value e) gid)"
    if f: "\<not> failed ?err"
  proof -
    have none: "?err = ERROR_NONE" using f by (simp add: failed_def)
    obtain v log where v: "parse_value X acq ?G fm (fe_table_miss e) v0 (st_log ?core) = Some (ERROR_NONE, v, log)"
      "flow_value_ok ?G v" "next_ok (fm_table_id fm) v" "\<forall>gid. ref_count log gid = ref_count (st_log ?core) gid + flow_value_refs ?G v gid"
      using parse_value_ok [OF ok, of X "fe_table_miss e" v0 "st_log ?core"] none by (metis failed_simps(1))
    have old: "flow_value_ok ?G (fe_value e)" using D(5) [OF e(2)] e(1,3) by (auto simp: flow_entry_ok_def)
    obtain w log2 where w: "cleanup_value ?G (fe_value e) log = Some (w, log2)" "\<And>gid. ref_count log2 gid = ref_count log gid - flow_value_refs ?G (fe_value e) gid"
      using cleanup_value_ok [OF old, of log] by blast
    define ps' where "ps' = ps\<lparr>ps_entries := (ps_entries ps)(a \<mapsto> e\<lparr>fe_value := v\<rparr>), ps_core := ?core\<lparr>st_log := log2 @ [DeferRevalidation cxn]\<rparr>\<rparr>"
    have "flowtable_entry_modify X acq cxn a fm v0 ps = Some (ERROR_NONE, ps')"
      using e(1) v(1) w(1) by (simp add: flowtable_entry_modify_def ps'_def Let_def)
    moreover have "std_inv X br hr A ps'"
    proof (rule modify_std_inv [OF inv e(1), where e' = "e\<lparr>fe_value := v\<rparr>"])
      fix j assume j: "fe_tcam_entry e \<in> table_entries ps j" "te_addr (fe_tcam_entry e) = a"
      then have "j = i" using D(6) e(2) by blast
      then show "flow_value_ok ?G (fe_value (e\<lparr>fe_value := v\<rparr>)) \<and> next_ok (of_nat j) (fe_value (e\<lparr>fe_value := v\<rparr>))" using v(2,3) e(4) by simp
    qed (simp_all add: ps'_def)
    ultimately show ?thesis
      using v(4) w(2) by (intro exI [of _ ps'] exI [of _ v]) (simp add: ps'_def ref_count_def)
  qed
qed

lemma delete_std_inv:
  assumes inv: "std_inv X br hr A ps" and ft: "flowtable_at ps i = Some ft" "flowtables ps' = (flowtables ps)[i := Some ft']"
    and t: "tcam_inv (ext_tcam X) br hr (ft_tcam ft')" "key_words (ft_tcam ft') = 18" "ft_table_id ft' = ft_table_id ft"
    and set: "set (tcam_entries (ft_tcam ft')) = set (tcam_entries (ft_tcam ft)) - {te}"
    and te: "te \<in> table_entries ps i" "ps_entries ps (te_addr te) = Some e"
    and heap: "ps_entries ps' = (ps_entries ps)(te_addr te := None)"
    and core: "stats_inv (st_stats (ps_core ps')) (A - {fe_stats_handle e})" "st_groups (ps_core ps') = st_groups (ps_core ps)"
  shows "std_inv X br hr (A - {fe_stats_handle e}) ps'"
proof -
  note D = std_invD [OF inv]
  have tab: "table_entries ps' j = (if j = i then table_entries ps i - {te} else table_entries ps j)" for j
    using table_entries_upd [OF ft] set ft(1) by (simp add: table_entries_def [of ps])
  have sub: "te' \<in> table_entries ps' j \<Longrightarrow> te' \<in> table_entries ps j" for te' j using tab by (simp split: if_splits)
  have dist: "distinct (map te_addr (tcam_entries (ft_tcam ft)))" using D(4) ft(1) by (auto simp: tcams_ok_def tcam_inv_def)
  have other: "te_addr te' \<noteq> te_addr te" if "te' \<in> table_entries ps' j" for te' j
  proof
    assume eq: "te_addr te' = te_addr te"
    have j: "te' \<in> table_entries ps j" by (rule sub [OF that])
    then have "j = i" using D(6) te(1) eq by blast
    then have "te' \<in> set (tcam_entries (ft_tcam ft))" "te \<in> set (tcam_entries (ft_tcam ft))" using j te(1) ft(1) by (simp_all add: table_entries_def)
    then have "te' = te" using dist eq by (simp add: distinct_map inj_on_def)
    then show False using that tab \<open>j = i\<close> by simp
  qed
  have heap': "ps_entries ps' x = Some f \<longleftrightarrow> ps_entries ps x = Some f \<and> x \<noteq> te_addr te" for x f using heap by auto
  have slot: "fe_stats_handle f \<noteq> fe_stats_handle e" if "ps_entries ps x = Some f" "x \<noteq> te_addr te" for x f
    using D(7) [OF that(1) te(2)] that(2) by blast
  have "\<exists>f. ps_entries ps' (te_addr te') = Some f \<and> flow_entry_ok (st_groups (ps_core ps')) (A - {fe_stats_handle e}) j te' f"
    if "te' \<in> table_entries ps' j" for j te'
  proof -
    have "te' \<in> table_entries ps j" by (rule sub [OF that])
    then obtain f where "ps_entries ps (te_addr te') = Some f" "flow_entry_ok (st_groups (ps_core ps)) A j te' f" using D(5) by blast
    then show ?thesis using other [OF that] heap' slot core(2) by (auto simp: flow_entry_ok_def)
  qed
  moreover have "j = k" if "te1 \<in> table_entries ps' j" "te2 \<in> table_entries ps' k" "te_addr te1 = te_addr te2" for j k te1 te2
    by (rule D(6) [OF sub [OF that(1)] sub [OF that(2)] that(3)])
  moreover have "x = y" if "ps_entries ps' x = Some f" "ps_entries ps' y = Some f'" "fe_stats_handle f = fe_stats_handle f'" for x y f f'
    using that heap' [of x f] heap' [of y f'] D(7) [of x f y f'] by simp
  moreover have "fe_stats_handle f \<in> A - {fe_stats_handle e}" if "ps_entries ps' x = Some f" for x f
    using that heap' D(8) slot by auto
  moreover have "tcams_ok X br hr ps'" using tcams_ok_upd [OF ft D(4) t(1,2)] .
  moreover have "\<exists>g. flowtable_at ps' j = Some g \<and> ft_table_id g = of_nat j" if "j < NUM_TABLES" for j
    using D(3) [OF that] flowtable_at_upd [OF ft] ft(1) t(3) by auto
  moreover have "length (flowtables ps') = NUM_TABLES" using D(2) ft(2) by simp
  ultimately show ?thesis using core(1) unfolding std_inv_def by blast
qed

lemma delete_inv:
  assumes inv: "std_inv X br hr A ps" and e: "ps_entries ps a = Some e" "fe_tcam_entry e \<in> table_entries ps i" "te_addr (fe_tcam_entry e) = a"
  obtains ps' where "flowtable_entry_delete X i cxn a ps = Some (ERROR_NONE, stats_get (st_stats (ps_core ps)) (fe_stats_handle e), ps')"
    "std_inv X br hr (A - {fe_stats_handle e}) ps'" "ps_entries ps' = (ps_entries ps)(a := None)"
    "table_entries ps' i = table_entries ps i - {fe_tcam_entry e}" "\<And>j. j \<noteq> i \<Longrightarrow> table_entries ps' j = table_entries ps j"
    "st_groups (ps_core ps') = st_groups (ps_core ps)"
    "\<And>gid. ref_count (st_log (ps_core ps')) gid = ref_count (st_log (ps_core ps)) gid - flow_value_refs (st_groups (ps_core ps)) (fe_value e) gid"
proof -
  let ?core = "ps_core ps" let ?G = "st_groups ?core" let ?te = "fe_tcam_entry e"
  note D = std_invD [OF inv]
  obtain ft where ft: "flowtable_at ps i = Some ft" "?te \<in> set (tcam_entries (ft_tcam ft))"
    using e(2) by (cases "flowtable_at ps i") (auto simp: table_entries_def)
  have t: "tcam_inv (ext_tcam X) br hr (ft_tcam ft)" "key_words (ft_tcam ft) = 18" using D(4) ft(1) by (auto simp: tcams_ok_def)
  obtain t' where t': "tcam_remove (ext_tcam X) (ft_tcam ft) ?te = Some t'" "tcam_inv (ext_tcam X) br hr t'"
    "mset (tcam_entries (ft_tcam ft)) = add_mset ?te (mset (tcam_entries t'))" "key_words t' = key_words (ft_tcam ft)"
    by (rule tcam_remove_inv [OF t(1) ft(2)])
  have dist: "distinct (map te_addr (tcam_entries (ft_tcam ft)))" using t(1) by (simp add: tcam_inv_def)
  then have "distinct (tcam_entries (ft_tcam ft))" by (simp add: distinct_map)
  then have "?te \<notin> set (tcam_entries t')" using t'(3) by (metis distinct.simps(2) mset.simps(2) mset_eq_imp_distinct_iff)
  moreover have "set (tcam_entries (ft_tcam ft)) = insert ?te (set (tcam_entries t'))" using arg_cong [OF t'(3), of set_mset] by simp
  ultimately have set: "set (tcam_entries t') = set (tcam_entries (ft_tcam ft)) - {?te}" by auto
  have old: "flow_value_ok ?G (fe_value e)" "fe_stats_handle e \<in> A" using D(5) [OF e(2)] e(1,3) by (auto simp: flow_entry_ok_def)
  obtain w log where w: "cleanup_value ?G (fe_value e) (st_log ?core @ [DeferRevalidation cxn]) = Some (w, log)"
    "\<And>gid. ref_count log gid = ref_count (st_log ?core @ [DeferRevalidation cxn]) gid - flow_value_refs ?G (fe_value e) gid"
    using cleanup_value_ok [OF old(1), of "st_log ?core @ [DeferRevalidation cxn]"] by blast
  obtain stats where s: "stats_free (st_stats ?core) (fe_stats_handle e) = Some stats" "stats_inv stats (A - {fe_stats_handle e})"
    by (rule stats_free_ok [OF D(1) old(2)])
  define ps' where "ps' = ps\<lparr>flowtables := (flowtables ps)[i := Some (ft\<lparr>ft_tcam := t'\<rparr>)], ps_entries := (ps_entries ps)(a := None),
    ps_core := ?core\<lparr>st_stats := stats, st_log := log\<rparr>\<rparr>"
  have fts: "flowtables ps' = (flowtables ps)[i := Some (ft\<lparr>ft_tcam := t'\<rparr>)]" by (simp add: ps'_def)
  have "std_inv X br hr (A - {fe_stats_handle e}) ps'"
    by (rule delete_std_inv [where te = ?te, OF inv ft(1) fts _ _ _ _ e(2)]) (use t' t(2) set e s in \<open>simp_all add: ps'_def\<close>)
  moreover have "flowtable_entry_delete X i cxn a ps = Some (ERROR_NONE, stats_get (st_stats ?core) (fe_stats_handle e), ps')"
    using ft(1) e(1) t'(1) w(1) s(1) by (simp add: flowtable_entry_delete_def ps'_def Let_def)
  moreover have "table_entries ps' j = (if j = i then table_entries ps i - {?te} else table_entries ps j)" for j
    using table_entries_upd [OF ft(1) fts] set ft(1) by (simp add: table_entries_def [of ps])
  ultimately show thesis
    using w(2) by (intro that [of ps']) (simp_all add: ps'_def ref_count_def)
qed

subsection \<open>Sequences of operations\<close>

datatype flow_op = FlowAdd u64 u64 nat u32 of_flow_mod | FlowModify nat u32 u64 of_flow_mod flowtable_value | FlowDelete nat u32 u64 | FlowHitStatus u64

text \<open>What the core guarantees: an operation on an entry names an entry of the table.\<close>

definition flow_in_table :: "('b, 'h) pipeline_standard \<Rightarrow> nat \<Rightarrow> u64 \<Rightarrow> bool" where
  "flow_in_table ps i a \<longleftrightarrow> (case ps_entries ps a of None \<Rightarrow> False | Some e \<Rightarrow> te_addr (fe_tcam_entry e) = a \<and> fe_tcam_entry e \<in> table_entries ps i)"

primrec flow_op_ok :: "(u32 \<Rightarrow> u64 option) \<Rightarrow> flow_op \<Rightarrow> ('b, 'h) pipeline_standard \<Rightarrow> bool" where
  "flow_op_ok acq (FlowAdd eaddr saddr i cxn fm) ps \<longleftrightarrow> create_ok acq eaddr saddr i fm ps"
| "flow_op_ok acq (FlowModify i cxn a fm v0) ps \<longleftrightarrow> core_ok acq (st_groups (ps_core ps)) \<and> fm_ok fm \<and> fm_table_id fm = of_nat i \<and> flow_in_table ps i a"
| "flow_op_ok acq (FlowDelete i cxn a) ps \<longleftrightarrow> flow_in_table ps i a"
| "flow_op_ok acq (FlowHitStatus a) ps \<longleftrightarrow> ps_entries ps a \<noteq> None"

primrec flow_run :: "('b, 'h) std_ext \<Rightarrow> (u32 \<Rightarrow> u64 option) \<Rightarrow> flow_op \<Rightarrow> ('b, 'h) pipeline_standard \<Rightarrow> (error \<times> ('b, 'h) pipeline_standard) option" where
  "flow_run X acq (FlowAdd eaddr saddr i cxn fm) ps = flowtable_entry_create X acq eaddr saddr i cxn fm ps"
| "flow_run X acq (FlowModify i cxn a fm v0) ps = flowtable_entry_modify X acq cxn a fm v0 ps"
| "flow_run X acq (FlowDelete i cxn a) ps = do { (err, st, ps) \<leftarrow> flowtable_entry_delete X i cxn a ps; Some (err, ps) }"
| "flow_run X acq (FlowHitStatus a) ps = do { (err, hit, ps) \<leftarrow> flowtable_entry_hit_status_get a ps; Some (err, ps) }"

inductive flow_reach :: "('b, 'h) std_ext \<Rightarrow> (u32 \<Rightarrow> u64 option) \<Rightarrow> ('b, 'h) pipeline_standard \<Rightarrow> ('b, 'h) pipeline_standard \<Rightarrow> bool"
  for X acq ps0 where
  flow_init: "flow_reach X acq ps0 ps0"
| flow_next: "flow_reach X acq ps0 ps \<Longrightarrow> flow_op_ok acq op ps \<Longrightarrow> flow_run X acq op ps = Some (err, ps') \<Longrightarrow> flow_reach X acq ps0 ps'"

lemma std_inv_log: "std_inv X br hr A ps \<Longrightarrow> std_inv X br hr A (ps\<lparr>ps_core := (ps_core ps)\<lparr>st_log := log\<rparr>\<rparr>)"
proof -
  let ?ps = "ps\<lparr>ps_core := (ps_core ps)\<lparr>st_log := log\<rparr>\<rparr>"
  have at: "flowtable_at ?ps = flowtable_at ps" by (rule flowtable_at_cong) simp
  then have "table_entries ?ps = table_entries ps" "tcams_ok X br hr ?ps = tcams_ok X br hr ps" by (simp_all add: table_entries_def tcams_ok_def fun_eq_iff)
  then show "std_inv X br hr A ps \<Longrightarrow> std_inv X br hr A ?ps" using at by (simp add: std_inv_def)
qed

lemma flow_in_tableE:
  assumes "flow_in_table ps i a"
  obtains e where "ps_entries ps a = Some e" "fe_tcam_entry e \<in> table_entries ps i" "te_addr (fe_tcam_entry e) = a"
  using assms by (auto simp: flow_in_table_def split: option.splits)

text \<open>Every operation answers, and keeps the invariant.\<close>

lemma flow_run_inv:
  assumes inv: "std_inv X br hr A ps" and ok: "flow_op_ok acq op ps"
  shows "\<exists>err ps' B. flow_run X acq op ps = Some (err, ps') \<and> std_inv X br hr B ps' \<and> (failed err \<longrightarrow> (\<exists>log. ps' = ps\<lparr>ps_core := (ps_core ps)\<lparr>st_log := log\<rparr>\<rparr> \<and> ref_count log = ref_count (st_log (ps_core ps))))"
proof (cases op)
  case (FlowAdd eaddr saddr i cxn fm)
  then have c: "create_ok acq eaddr saddr i fm ps" using ok by simp
  show ?thesis
  proof (cases "failed (create_error acq fm ps)")
    case True
    then show ?thesis using create_inv(1) [OF inv c True, of cxn] std_inv_log [OF inv] FlowAdd by force
  next
    case False
    then show ?thesis using create_inv(2) [OF inv c False, of cxn] FlowAdd by (metis failed_simps(1) flow_run.simps(1))
  qed
next
  case (FlowModify i cxn a fm v0)
  then have c: "core_ok acq (st_groups (ps_core ps))" "fm_ok fm" "fm_table_id fm = of_nat i" "flow_in_table ps i a" using ok by simp_all
  obtain e where e: "ps_entries ps a = Some e" "fe_tcam_entry e \<in> table_entries ps i" "te_addr (fe_tcam_entry e) = a" by (rule flow_in_tableE [OF c(4)])
  note m = modify_inv [OF inv c(1,2) e c(3), of cxn v0]
  show ?thesis
  proof (cases "failed (fm_error acq (fe_table_miss e) fm)")
    case True
    then show ?thesis using m(1) std_inv_log [OF inv] FlowModify by force
  next
    case False
    then show ?thesis using m(2) FlowModify by (metis failed_simps(1) flow_run.simps(2))
  qed
next
  case (FlowDelete i cxn a)
  then obtain e where e: "ps_entries ps a = Some e" "fe_tcam_entry e \<in> table_entries ps i" "te_addr (fe_tcam_entry e) = a"
    using flow_in_tableE ok by (metis flow_op_ok.simps(3))
  obtain ps' where "flowtable_entry_delete X i cxn a ps = Some (ERROR_NONE, stats_get (st_stats (ps_core ps)) (fe_stats_handle e), ps')"
    "std_inv X br hr (A - {fe_stats_handle e}) ps'" by (rule delete_inv [OF inv e, of cxn])
  then show ?thesis using FlowDelete by (intro exI [of _ ERROR_NONE] exI [of _ ps']) auto
next
  case (FlowHitStatus a)
  then obtain e where e: "ps_entries ps a = Some e" using ok by auto
  note D = std_invD [OF inv]
  let ?p = "packets (stats_get (st_stats (ps_core ps)) (fe_stats_handle e))"
  let ?ps = "ps\<lparr>ps_entries := (ps_entries ps)(a \<mapsto> e\<lparr>last_hit_check_packets := ?p\<rparr>)\<rparr>"
  have "std_inv X br hr A ?ps"
  proof (rule modify_std_inv [OF inv e, where e' = "e\<lparr>last_hit_check_packets := ?p\<rparr>"])
    fix i assume "fe_tcam_entry e \<in> table_entries ps i" "te_addr (fe_tcam_entry e) = a"
    then show "flow_value_ok (st_groups (ps_core ps)) (fe_value (e\<lparr>last_hit_check_packets := ?p\<rparr>)) \<and> next_ok (of_nat i) (fe_value (e\<lparr>last_hit_check_packets := ?p\<rparr>))"
      using D(5) e by (fastforce simp: flow_entry_ok_def)
  qed simp_all
  then show ?thesis using FlowHitStatus e inv
    by (cases "?p = last_hit_check_packets e") (auto simp: flowtable_entry_hit_status_get_def)
qed

subsection \<open>After set-up\<close>

lemma init_tables_ok:
  assumes "stats_inv stats A" "env_ok E br hr" "card A + 2 * n \<le> MAX_STATS"
  shows "\<exists>fts stats' B. init_tables E salt n stats = Some (fts, stats') \<and> length fts = n \<and> stats_inv stats' B \<and> card B = card A + 2 * n \<and>
    (\<forall>i<n. \<exists>ft. fts ! i = Some ft \<and> ft_table_id ft = of_nat i \<and> tcam_create E 72 salt = Some (ft_tcam ft))"
  using assms(3)
proof (induction n)
  case 0
  then show ?case using assms(1) by auto
next
  case (Suc n)
  then obtain fts stats1 B where 1: "init_tables E salt n stats = Some (fts, stats1)" "length fts = n" "stats_inv stats1 B" "card B = card A + 2 * n"
    "\<forall>i<n. \<exists>ft. fts ! i = Some ft \<and> ft_table_id ft = of_nat i \<and> tcam_create E 72 salt = Some (ft_tcam ft)" by auto
  obtain t where t: "tcam_create E 72 salt = Some t" by (simp add: tcam_create_def)
  have r1: "card B < MAX_STATS" using 1(4) Suc.prems by simp
  obtain s1 stats2 where 2: "stats_alloc stats1 = Some (s1, stats2)" "s1 \<notin> B" "stats_inv stats2 (insert s1 B)"
    by (rule stats_alloc_ok [OF 1(3) r1])
  have c1: "card (insert s1 B) = Suc (card B)" using 2(2) stats_inv_finite [OF 1(3)] by simp
  have r2: "card (insert s1 B) < MAX_STATS" using 1(4) c1 Suc.prems by simp
  obtain s2 stats3 where 3: "stats_alloc stats2 = Some (s2, stats3)" "s2 \<notin> insert s1 B" "stats_inv stats3 (insert s2 (insert s1 B))"
    by (rule stats_alloc_ok [OF 2(3) r2])
  have c2: "card (insert s2 (insert s1 B)) = Suc (Suc (card B))" using 3(2) c1 stats_inv_finite [OF 2(3)] by simp
  let ?ft = "\<lparr>ft_tcam = t, matched_stats_handle = s1, missed_stats_handle = s2, ft_table_id = of_nat n\<rparr>"
  have "init_tables E salt (Suc n) stats = Some (fts @ [Some ?ft], stats3)" using 1(1) t 2(1) 3(1) by simp
  moreover have "\<exists>ft. (fts @ [Some ?ft]) ! i = Some ft \<and> ft_table_id ft = of_nat i \<and> tcam_create E 72 salt = Some (ft_tcam ft)" if "i < Suc n" for i
    using that 1(2,5) t by (cases "i = n") (auto simp: nth_append)
  ultimately show ?case using 3(3) c2 1(2,4) by (intro exI conjI) auto
qed

lemma init_inv:
  assumes "env_ok (ext_tcam X) br hr" "stats_inv (st_stats (ps_core ps)) A" "card A + 32 \<le> MAX_STATS" "ps_entries ps = (\<lambda>_. None)"
    and name: "name = ''standard-1.0'' \<or> name = ''standard-1.3''"
  obtains ps' B where "pipeline_standard_init X salt name ps = Some ps'" "std_inv X br hr B ps'" "card B = card A + 32"
    "\<And>i ft. flowtable_at ps' i = Some ft \<Longrightarrow> shard_list (ft_tcam ft) = []" "ps_entries ps' = (\<lambda>_. None)" "st_groups (ps_core ps') = st_groups (ps_core ps)"
    "openflow_version ps' = (if name = ''standard-1.0'' then 1 else 4)"
proof -
  obtain fts stats B where t: "init_tables (ext_tcam X) salt 16 (st_stats (ps_core ps)) = Some (fts, stats)" "length fts = 16" "stats_inv stats B" "card B = card A + 32"
    "\<forall>i<16. \<exists>ft. fts ! i = Some ft \<and> ft_table_id ft = of_nat i \<and> tcam_create (ext_tcam X) 72 salt = Some (ft_tcam ft)"
    using init_tables_ok [OF assms(2,1), of 16 salt] assms(3) by auto
  define ps' where "ps' = ps\<lparr>openflow_version := (if name = ''standard-1.0'' then 1 else 4), flowtables := fts,
    ps_core := (ps_core ps)\<lparr>st_stats := stats\<rparr>, pktin_registered := True\<rparr>"
  have run: "pipeline_standard_init X salt name ps = Some ps'"
    using name t(1) by (auto simp: pipeline_standard_init_def NUM_TABLES_def ps'_def of_version_int_def)
  have at: "flowtable_at ps' i = Some ft \<Longrightarrow> tcam_create (ext_tcam X) 72 salt = Some (ft_tcam ft)" for i ft
    using t(2,5) by (auto simp: flowtable_at_def ps'_def split: if_splits)
  have tc: "tcam_inv (ext_tcam X) br hr (ft_tcam ft) \<and> key_words (ft_tcam ft) = 18 \<and> tcam_entries (ft_tcam ft) = [] \<and> shard_list (ft_tcam ft) = []"
    if "flowtable_at ps' i = Some ft" for i ft
    using tcam_create_inv [OF assms(1) at [OF that]] at [OF that] by (auto simp: tcam_create_def split: if_splits) (metis tcam.select_convs(2))
  then have "table_entries ps' i = {}" for i by (auto simp: table_entries_def split: option.splits)
  moreover have "\<exists>ft. flowtable_at ps' i = Some ft \<and> ft_table_id ft = of_nat i" if "i < 16" for i
    using t(2,5) that by (auto simp: flowtable_at_def ps'_def)
  ultimately have "std_inv X br hr B ps'"
    using t(2,3) tc assms(4) by (simp add: std_inv_def NUM_TABLES_def tcams_ok_def ps'_def)
  then show thesis using run tc t(4) assms(4) by (intro that [of ps' B]) (simp_all add: ps'_def)
qed

subsection \<open>The path of a packet ends\<close>

lemma add_stats_ok:
  assumes "xb_wf s" "unat (xb_length s) + 4 \<le> 2 ^ 31"
  obtains s' where "pipeline_add_stats junk s slot = Some s'" "xb_wf s'" "unat (xb_length s') = unat (xb_length s) + 4"
  using xbuf_append_ok [OF assms(1), of "le_bytes 4 slot" junk] assms(2) by (auto simp: pipeline_add_stats_def)

lemma update_cfr_attr_returns: "action_attr_ok a \<Longrightarrow> \<exists>c'. update_cfr_attr c a = Some c'"
proof -
  assume "action_attr_ok a"
  then obtain act where "ind_ovs_action_of (fst a) = Some act" "length (snd a) = action_size act" by (auto simp: action_attr_ok_def)
  then show ?thesis by (cases act) (simp_all add: update_cfr_attr_def payload_defs payload_prefix_def)
qed

lemma update_cfr_loop_returns: "list_all action_attr_ok as \<Longrightarrow> \<exists>c'. update_cfr_loop c as = Some c'"
proof (induction as arbitrary: c)
  case (Cons a as)
  obtain c1 where "update_cfr_attr c a = Some c1" using update_cfr_attr_returns [of a c] Cons.prems by auto
  then show ?case using Cons.IH [of c1] Cons.prems by simp
qed simp

text \<open>The entries that packets can hit: their groups nest to depth \<open>n\<close> and make at most \<open>v\<close> visits.\<close>

definition entries_bounded :: "(u64 \<Rightarrow> nat) \<Rightarrow> nat \<Rightarrow> nat \<Rightarrow> ('b, 'h) pipeline_standard \<Rightarrow> bool" where
  "entries_bounded rank n v ps \<longleftrightarrow> (\<forall>a e. ps_entries ps a = Some e \<longrightarrow> xbuf_below (st_groups (ps_core ps)) rank n (apply_actions (fe_value e)) \<and>
     (case xbuf_foreach2 (apply_actions (fe_value e)) of None \<Rightarrow> False | Some as \<Rightarrow> visits n (st_groups (ps_core ps)) as \<le> v))"

definition ends_within :: "nat \<Rightarrow> xbuf \<Rightarrow> xbuf \<Rightarrow> bool" where
  "ends_within v s s' \<longleftrightarrow> xb_wf s' \<and> unat (xb_length s') \<le> unat (xb_length s) + v"

lemma process_table_returns:
  assumes inv: "std_inv X br hr A ps" and g: "groups_ranked (st_groups (ps_core ps)) rank" "entries_bounded rank n v ps"
    and t: "unat t < NUM_TABLES" and wf: "cfr_wf c" "cfr_wf cm" "xb_wf s" "unat (xb_length s) + (8 + 4 * v) \<le> 2 ^ 31"
  shows "\<exists>nx c' cm' ctx' s'. (\<forall>depth>n. process_table depth X ps hash t c cm ctx s = Some (nx, c', cm', ctx', s')) \<and>
    (nx = 255 \<or> t < nx \<and> unat nx < NUM_TABLES) \<and> cfr_wf c' \<and> cfr_wf cm' \<and> ends_within (8 + 4 * v) s s'"
proof -
  note D = std_invD [OF inv]
  obtain ft where ft: "flowtable_at ps (unat t) = Some ft" using D(3) [OF t] by blast
  have ti: "tcam_inv (ext_tcam X) br hr (ft_tcam ft)" "key_words (ft_tcam ft) = 18" using D(4) ft by (auto simp: tcams_ok_def)
  obtain r m where r: "tcam_match_and_mask (ext_tcam X) (ft_tcam ft) (cfr_words c) (Some (cfr_words cm)) = (r, Some m)" "length m = 18"
    by (rule table_lookup [OF ti wf(1,2)])
  show ?thesis
  proof (cases r)
    case None
    obtain s' where s': "pipeline_add_stats (ext_junk X) s (missed_stats_handle ft) = Some s'" "xb_wf s'" "unat (xb_length s') = unat (xb_length s) + 4"
      by (rule add_stats_ok [OF wf(3)]) (use wf(4) in auto)
    let ?ctx = "if openflow_version ps < of_version_int OF_VERSION_1_3
      then action_userspace ctx (le_bytes 8 (IVS_PKTIN_USERDATA OF_PACKET_IN_REASON_NO_MATCH 0)) (ext_netlink_port X) else ctx"
    have "\<forall>depth>n. process_table depth X ps hash t c cm ctx s = Some (255, c, cfr_of_words m, ?ctx, s')"
      using None ft r s'(1) by (simp add: process_table_def process_miss_def)
    moreover have "ends_within (8 + 4 * v) s s'" using s'(2,3) by (simp add: ends_within_def)
    ultimately show ?thesis using wf(1) cfr_of_words_wf [OF r(2)] by blast
  next
    case (Some te)
    have "te \<in> set (tcam_entries (ft_tcam ft))"
      using tcam_match_and_mask_best [OF ti(1), of "cfr_words c" "Some (cfr_words cm)"] r Some wf(1) ti(2) by (simp add: best_of_def)
    then have te: "te \<in> table_entries ps (unat t)" using ft by (simp add: table_entries_def)
    obtain e where e: "ps_entries ps (te_addr te) = Some e" "next_ok t (fe_value e)"
      using D(5) [OF te] by (auto simp: flow_entry_ok_def)
    let ?x = "apply_actions (fe_value e)"
    obtain as where as: "xbuf_foreach2 ?x = Some as" "visits n (st_groups (ps_core ps)) as \<le> v" "xbuf_below (st_groups (ps_core ps)) rank n ?x"
      using g(2) e(1) by (auto simp: entries_bounded_def split: option.splits)
    let ?h = "if fe_table_miss e then missed_stats_handle ft else matched_stats_handle ft"
    obtain s1 where s1: "pipeline_add_stats (ext_junk X) s ?h = Some s1" "xb_wf s1" "unat (xb_length s1) = unat (xb_length s) + 4"
      by (rule add_stats_ok [OF wf(3)]) (use wf(4) in auto)
    obtain s2 where s2: "pipeline_add_stats (ext_junk X) s1 (fe_stats_handle e) = Some s2" "xb_wf s2" "unat (xb_length s2) = unat (xb_length s) + 8"
      by (rule add_stats_ok [where slot = "fe_stats_handle e" and junk = "ext_junk X", OF s1(2)]) (use s1(3) wf(4) in auto)
    have "returns_within (visits n (st_groups (ps_core ps)) as) s2 (pipeline_standard_translate_actions (Suc n) (std_env_of X ps) hash ctx ?x s2)"
      using translate_actions_returns [of "std_env_of X ps" rank n ?x as s2 hash ctx] g(1) as s2 wf(4) by (simp add: std_env_of_def del: pipeline_standard_translate_actions.simps)
    then obtain ctx' s' where tr: "pipeline_standard_translate_actions (Suc n) (std_env_of X ps) hash ctx ?x s2 = Some (ctx', s')" "xb_wf s'"
      "unat (xb_length s') \<le> unat (xb_length s2) + 4 * visits n (st_groups (ps_core ps)) as" by (auto simp: returns_within_def)
    have tr': "pipeline_standard_translate_actions depth (std_env_of X ps) hash ctx ?x s2 = Some (ctx', s')" if "depth > n" for depth
      using translate_actions_le [of "Suc n" depth "std_env_of X ps" hash] tr(1) that unfolding tr_le_def by (simp del: pipeline_standard_translate_actions.simps)
    obtain c' where c': "pipeline_standard_update_cfr c ?x = Some c'"
      using update_cfr_loop_returns [of as c] as by (auto simp: pipeline_standard_update_cfr_def xbuf_below_def)
    let ?nx = "next_table_id (fe_value e)" let ?c = "if ?nx = 255 then c else c'"
    have "\<forall>depth>n. process_table depth X ps hash t c cm ctx s = Some (?nx, ?c, cfr_of_words m, ctx', s')"
      using ft r Some e(1) s1(1) s2(1) tr' c' by (simp add: process_table_def process_hit_def Let_def)
    moreover have "ends_within (8 + 4 * v) s s'" using tr(2,3) s2(3) as(2) by (simp add: ends_within_def)
    moreover have "cfr_wf ?c" using wf(1) update_cfr_keeps(1) [OF c'] by simp
    ultimately show ?thesis using e(2) cfr_of_words_wf [OF r(2)] unfolding next_ok_def by blast
  qed
qed

lemma process_tables_returns:
  assumes inv: "std_inv X br hr A ps" and g: "groups_ranked (st_groups (ps_core ps)) rank" "entries_bounded rank n v ps"
  shows "t = 255 \<or> unat t < NUM_TABLES \<and> NUM_TABLES \<le> unat t + k \<Longrightarrow> cfr_wf c \<Longrightarrow> cfr_wf cm \<Longrightarrow> xb_wf s \<Longrightarrow>
    unat (xb_length s) + k * (8 + 4 * v) \<le> 2 ^ 31 \<Longrightarrow>
    \<exists>r. xb_wf (snd (snd (snd r))) \<and> (\<forall>rounds\<ge>k. \<forall>depth>n. process_tables rounds depth X ps hash t c cm ctx s = Some r)"
proof (induction k arbitrary: t c cm ctx s)
  case 0
  then have "t = 255" by auto
  then show ?case using 0 by (auto simp: process_tables_stop)
next
  case (Suc k)
  show ?case
  proof (cases "t = 255")
    case True
    then show ?thesis using Suc.prems(4) by (auto simp: process_tables_stop)
  next
    case False
    then have t: "unat t < NUM_TABLES" "NUM_TABLES \<le> unat t + Suc k" using Suc.prems(1) by auto
    have len: "unat (xb_length s) + (8 + 4 * v) \<le> 2 ^ 31" using Suc.prems(5) by simp
    obtain nx c' cm' ctx' s' where 1: "\<forall>depth>n. process_table depth X ps hash t c cm ctx s = Some (nx, c', cm', ctx', s')"
      "nx = 255 \<or> t < nx \<and> unat nx < NUM_TABLES" "cfr_wf c'" "cfr_wf cm'" "xb_wf s'" "unat (xb_length s') \<le> unat (xb_length s) + (8 + 4 * v)"
      using process_table_returns [OF inv g t(1) Suc.prems(2-4) len, of hash ctx] unfolding ends_within_def by blast
    have "nx = 255 \<or> unat nx < NUM_TABLES \<and> NUM_TABLES \<le> unat nx + k" using 1(2) t(2) by (auto simp: word_less_nat_alt)
    then obtain r where r: "xb_wf (snd (snd (snd r)))" "\<forall>rounds\<ge>k. \<forall>depth>n. process_tables rounds depth X ps hash nx c' cm' ctx' s' = Some r"
      using Suc.IH [OF _ 1(3-5), of nx] 1(6) Suc.prems(5) by fastforce
    have "process_tables rounds depth X ps hash t c cm ctx s = Some r" if "rounds \<ge> Suc k" "depth > n" for rounds depth
      using that 1(1) r(2) False by (cases rounds) simp_all
    then show ?thesis using r(1) by blast
  qed
qed

lemma process_returns:
  assumes "std_inv X br hr A ps" "groups_ranked (st_groups (ps_core ps)) rank" "entries_bounded rank n v ps"
    and "key_wf k" "xb_wf stats" "unat (xb_length stats) + 16 * (8 + 4 * v) \<le> 2 ^ 31"
  shows "\<exists>err m x c. xb_wf x \<and> (\<forall>rounds\<ge>16. \<forall>depth>n. pipeline_standard_process rounds depth X ps k msk stats ctx = Some (err, m, x, c))"
proof -
  let ?c = "pipeline_standard_key_to_cfr k cfr_zero" let ?h = "ext_murmur_hash X (key_get OVS_KEY_ATTR_ETHERNET k) 0"
  obtain c1 m1 where u: "mask_upd (mask_attr OVS_KEY_ATTR_ETHERNET) (ctx, msk) = (c1, m1)" by fastforce
  have "cfr_wf cfr_zero" by (simp add: cfr_wf_def cfr_zero_def)
  moreover have "(0 :: u8) = 255 \<or> unat (0 :: u8) < NUM_TABLES \<and> NUM_TABLES \<le> unat (0 :: u8) + 16" by (simp add: NUM_TABLES_def)
  ultimately obtain r where r: "xb_wf (snd (snd (snd r)))" "\<forall>rounds\<ge>16. \<forall>depth>n. process_tables rounds depth X ps ?h 0 ?c cfr_zero c1 stats = Some r"
    using process_tables_returns [OF assms(1-3), of 0 16 ?c cfr_zero stats ?h c1] key_to_cfr_wf [OF assms(4)] assms(5,6) by blast
  obtain cF cmF ctxF sF where rF: "r = (cF, cmF, ctxF, sF)" by (cases r) auto
  moreover obtain ft where "flowtable_at ps 0 = Some ft" using std_invD(3) [OF assms(1), of 0] by (auto simp: NUM_TABLES_def)
  ultimately have "\<forall>rounds\<ge>16. \<forall>depth>n. pipeline_standard_process rounds depth X ps k msk stats ctx =
      (let (actx, msk) = mask_upd (\<lambda>m. translate_cfr_mask m cF cmF) (ctxF, m1) in Some (ERROR_NONE, msk, sF, actx))"
    using r(2) u by (simp add: pipeline_standard_process_def Let_def)
  then show ?thesis using r(1) rF by (cases "mask_upd (\<lambda>m. translate_cfr_mask m cF cmF) (ctxF, m1)") auto
qed

subsection \<open>Properties\<close>


definition demo_start :: "(u32 list, (u64 \<times> u32) list) pipeline_standard" where
  "demo_start = \<lparr>ps_core = demo_std_state, openflow_version = 0, flowtables = replicate 16 None, ps_entries = (\<lambda>_. None), pktin_registered = False\<rparr>"

lemma demo_start_ok: "env_ok (ext_tcam demo_ext) list_bloom_rep list_hash_rep" "stats_inv (st_stats (ps_core demo_start)) {}"
  "card ({} :: u32 set) + 32 \<le> MAX_STATS" "ps_entries demo_start = (\<lambda>_. None)"
  using list_env_ok demo_std_ok(2) by (simp_all add: demo_ext_def demo_start_def MAX_STATS_def)


lemma reach_inv:
  assumes "env_ok (ext_tcam X) br hr" "stats_inv (st_stats (ps_core ps)) A" "card A + 32 \<le> MAX_STATS" "ps_entries ps = (\<lambda>_. None)"
    and "pipeline_standard_init X salt name ps = Some ps0" "flow_reach X acq ps0 ps'"
  shows "\<exists>B. std_inv X br hr B ps'"
proof -
  have "name = ''standard-1.0'' \<or> name = ''standard-1.3''" using assms(5) by (auto simp: pipeline_standard_init_def split: if_splits)
  then obtain B where "std_inv X br hr B ps0" using init_inv [OF assms(1-4), of name salt] assms(5) by (metis option.inject)
  with assms(6) show ?thesis by (induction rule: flow_reach.induct) (blast, metis flow_run_inv option.inject prod.inject)
qed

text \<open>
  C3: from set-up on, every sequence of flow additions, modifications, deletions and hit queries keeps the
  invariant of the tables: each table holds a well-formed tcam, each of its entries belongs to exactly one flow entry,
  gotos lead to later tables, every group that an entry refers to exists, and the counters in use are distinct.
\<close>

theorem flow_reach_inv:
  assumes "env_ok (ext_tcam X) br hr" "stats_inv (st_stats (ps_core ps)) A" "card A + 32 \<le> MAX_STATS" "ps_entries ps = (\<lambda>_. None)"
    and "pipeline_standard_init X salt name ps = Some ps0" "flow_reach X acq ps0 ps'"
  shows "\<exists>B. std_inv X br hr B ps'"
  using assms by (rule reach_inv)

lemma demo_init:
  obtains ps B where "pipeline_standard_init demo_ext 7 ''standard-1.3'' demo_start = Some ps" "std_inv demo_ext list_bloom_rep list_hash_rep B ps"
    "\<And>fm. create_ok demo_acq 0x50 0x60 0 fm ps \<longleftrightarrow> fm_ok fm \<and> fm_table_id fm = 0 \<and>
      (case fm_match fm of None \<Rightarrow> True | Some match \<Rightarrow> mf_wf (match_fields match) \<and> mf_wf (match_masks match))"
    "openflow_version ps = 4"
proof -
  obtain ps B where ps: "pipeline_standard_init demo_ext 7 ''standard-1.3'' demo_start = Some ps" "std_inv demo_ext list_bloom_rep list_hash_rep B ps"
    "card B = card ({} :: u32 set) + 32" "\<And>i ft. flowtable_at ps i = Some ft \<Longrightarrow> shard_list (ft_tcam ft) = []"
    "ps_entries ps = (\<lambda>_. None)" "st_groups (ps_core ps) = st_groups (ps_core demo_start)" "openflow_version ps = (if ''standard-1.3'' = ''standard-1.0'' then 1 else 4)"
    by (rule init_inv [OF demo_start_ok disjI2 [OF refl], of 7]) (rule that)
  note D = std_invD [OF ps(2)]
  obtain ft where "flowtable_at ps 0 = Some ft" using D(3) [of 0] by (auto simp: NUM_TABLES_def)
  moreover have "0 < num_free (st_stats (ps_core ps))" using D(1) ps(3) by (auto simp: stats_inv_def MAX_STATS_def word_less_nat_alt)
  moreover have "core_ok demo_acq (st_groups (ps_core ps))" using demo_core_ok by (simp add: ps(6) demo_start_def demo_std_state_def)
  ultimately show thesis using ps
    by (intro that [of ps B]) (auto simp: create_ok_def NUM_TABLES_def tcam_entries_def)
qed

definition demo_flow_add :: of_flow_mod where
  "demo_flow_add = \<lparr>fm_version = OF_VERSION_1_3, fm_match = Some demo_match, fm_priority = 5, fm_table_id = 0, fm_actions = [],
     fm_instructions = [OF_INSTRUCTION_APPLY_ACTIONS [OF_ACTION_GROUP 7, OF_ACTION_DEC_NW_TTL], OF_INSTRUCTION_GOTO_TABLE 3]\<rparr>"

text \<open>The goto leads back to the table itself.\<close>

definition demo_flow_bad :: of_flow_mod where
  "demo_flow_bad = demo_flow_add\<lparr>fm_instructions := [OF_INSTRUCTION_APPLY_ACTIONS [OF_ACTION_GROUP 7], OF_INSTRUCTION_GOTO_TABLE 0]\<rparr>"

lemma demo_flow_ok: "fm_ok demo_flow_add" "fm_ok demo_flow_bad"
  "create_error demo_acq demo_flow_add ps = ERROR_NONE" "create_error demo_acq demo_flow_bad ps = ERROR_RANGE"
proof -
  have "fm_error demo_acq b demo_flow_add = ERROR_NONE" "fm_error demo_acq b demo_flow_bad = ERROR_RANGE" for b by (cases b, code_simp, code_simp)+
  then show "create_error demo_acq demo_flow_add ps = ERROR_NONE" "create_error demo_acq demo_flow_bad ps = ERROR_RANGE"
    by (simp_all add: create_error_def demo_flow_bad_def demo_flow_add_def)
qed (simp_all add: demo_flow_add_def demo_flow_bad_def fm_ok_def fm_insts_def)

lemma demo_create_ok:
  obtains ps B where "pipeline_standard_init demo_ext 7 ''standard-1.3'' demo_start = Some ps" "std_inv demo_ext list_bloom_rep list_hash_rep B ps"
    "create_ok demo_acq 0x50 0x60 0 demo_flow_add ps" "create_ok demo_acq 0x50 0x60 0 demo_flow_bad ps"
proof -
  have f: "fm_table_id demo_flow_add = 0" "fm_match demo_flow_add = Some demo_match" "fm_table_id demo_flow_bad = 0" "fm_match demo_flow_bad = Some demo_match"
    by (simp_all add: demo_flow_add_def demo_flow_bad_def)
  obtain ps B where ps: "pipeline_standard_init demo_ext 7 ''standard-1.3'' demo_start = Some ps" "std_inv demo_ext list_bloom_rep list_hash_rep B ps"
    "\<And>fm. create_ok demo_acq 0x50 0x60 0 fm ps \<longleftrightarrow> fm_ok fm \<and> fm_table_id fm = 0 \<and>
      (case fm_match fm of None \<Rightarrow> True | Some match \<Rightarrow> mf_wf (match_fields match) \<and> mf_wf (match_masks match))"
    by (rule demo_init) (rule that)
  show thesis by (rule that [OF ps(1,2)]) (simp_all add: ps(3) f demo_flow_ok(1,2) demo_match_wf)
qed

theorem flow_reach_inv_witness:
  "\<exists>ps ps' B. pipeline_standard_init demo_ext 7 ''standard-1.3'' demo_start = Some ps \<and>
    flowtable_entry_create demo_ext demo_acq 0x50 0x60 0 1 demo_flow_add ps = Some (ERROR_NONE, ps') \<and> std_inv demo_ext list_bloom_rep list_hash_rep B ps'"
proof -
  obtain ps B where ps: "pipeline_standard_init demo_ext 7 ''standard-1.3'' demo_start = Some ps" "std_inv demo_ext list_bloom_rep list_hash_rep B ps"
    "create_ok demo_acq 0x50 0x60 0 demo_flow_add ps" by (rule demo_create_ok)
  obtain ps' where c: "flowtable_entry_create demo_ext demo_acq 0x50 0x60 0 1 demo_flow_add ps = Some (ERROR_NONE, ps')"
    using create_inv(2) [OF ps(2,3), of 1] demo_flow_ok(3) [of ps] by auto
  then have "flow_reach demo_ext demo_acq ps ps'"
    using flow_next [OF flow_init, of demo_acq "FlowAdd 0x50 0x60 0 1 demo_flow_add" ps] ps(3) by simp
  then show ?thesis using flow_reach_inv [OF demo_start_ok ps(1)] ps(1) c by blast
qed

text \<open>
  C2: in every reachable state an operation that the core may ask for gets an answer, and an operation that is
  refused leaves tables, entries, counters and groups as they were and gives back every group reference it took.
\<close>

theorem flow_op_answers:
  assumes "env_ok (ext_tcam X) br hr" "stats_inv (st_stats (ps_core ps)) A" "card A + 32 \<le> MAX_STATS" "ps_entries ps = (\<lambda>_. None)"
    and "pipeline_standard_init X salt name ps = Some ps0" "flow_reach X acq ps0 ps1" "flow_op_ok acq op ps1"
  shows "\<exists>err ps2. flow_run X acq op ps1 = Some (err, ps2) \<and>
    (failed err \<longrightarrow> (\<exists>log. ps2 = ps1\<lparr>ps_core := (ps_core ps1)\<lparr>st_log := log\<rparr>\<rparr> \<and> ref_count log = ref_count (st_log (ps_core ps1))))"
proof -
  obtain B where "std_inv X br hr B ps1" using reach_inv [OF assms(1-6)] by blast
  then show ?thesis using flow_run_inv [OF _ assms(7)] by metis
qed

theorem flow_op_answers_witness:
  "\<exists>ps ps' log. pipeline_standard_init demo_ext 7 ''standard-1.3'' demo_start = Some ps \<and>
    flowtable_entry_create demo_ext demo_acq 0x50 0x60 0 1 demo_flow_bad ps = Some (ERROR_RANGE, ps') \<and>
    ps' = ps\<lparr>ps_core := (ps_core ps)\<lparr>st_log := log\<rparr>\<rparr> \<and> ref_count log = ref_count (st_log (ps_core ps))"
proof -
  obtain ps B where ps: "pipeline_standard_init demo_ext 7 ''standard-1.3'' demo_start = Some ps" "std_inv demo_ext list_bloom_rep list_hash_rep B ps"
    "create_ok demo_acq 0x50 0x60 0 demo_flow_bad ps" by (rule demo_create_ok)
  have f: "failed (create_error demo_acq demo_flow_bad ps)" by (simp add: demo_flow_ok failed_def)
  have "flow_op_ok demo_acq (FlowAdd 0x50 0x60 0 1 demo_flow_bad) ps" using ps(3) by simp
  from flow_op_answers [OF demo_start_ok ps(1) flow_init this] obtain err ps2 where
    r: "flowtable_entry_create demo_ext demo_acq 0x50 0x60 0 1 demo_flow_bad ps = Some (err, ps2)"
    "failed err \<longrightarrow> (\<exists>log. ps2 = ps\<lparr>ps_core := (ps_core ps)\<lparr>st_log := log\<rparr>\<rparr> \<and> ref_count log = ref_count (st_log (ps_core ps)))" by auto
  have "err = ERROR_RANGE" using create_inv(1) [OF ps(2,3) f, of 1] r(1) demo_flow_ok(4) [of ps] by auto
  then show ?thesis using ps(1) r by (auto simp: failed_def)
qed

text \<open>
  C5: a flow that is added and then deleted leaves no trace: the entries, every table, the counters in use and
  the references to groups are again those before the addition.
\<close>

theorem flow_add_delete:
  assumes "std_inv X br hr A ps" "create_ok acq eaddr saddr i fm ps" "\<not> failed (create_error acq fm ps)"
  shows "\<exists>ps1 st ps2. flowtable_entry_create X acq eaddr saddr i cxn fm ps = Some (ERROR_NONE, ps1) \<and> ps_entries ps1 eaddr \<noteq> None \<and>
    flowtable_entry_delete X i cxn eaddr ps1 = Some (ERROR_NONE, st, ps2) \<and> std_inv X br hr A ps2 \<and>
    ps_entries ps2 = ps_entries ps \<and> (\<forall>j. table_entries ps2 j = table_entries ps j) \<and> ref_count (st_log (ps_core ps2)) = ref_count (st_log (ps_core ps))"
proof -
  obtain ps1 slot e where 1: "flowtable_entry_create X acq eaddr saddr i cxn fm ps = Some (ERROR_NONE, ps1)" "slot \<notin> A" "std_inv X br hr (insert slot A) ps1"
    "ps_entries ps1 = (ps_entries ps)(eaddr \<mapsto> e)" "fe_stats_handle e = slot" "fe_tcam_entry e \<in> table_entries ps1 i" "te_addr (fe_tcam_entry e) = eaddr"
    "\<And>j. j \<noteq> i \<Longrightarrow> table_entries ps1 j = table_entries ps j" "table_entries ps1 i = insert (fe_tcam_entry e) (table_entries ps i)"
    "st_groups (ps_core ps1) = st_groups (ps_core ps)"
    "\<And>gid. ref_count (st_log (ps_core ps1)) gid = ref_count (st_log (ps_core ps)) gid + flow_value_refs (st_groups (ps_core ps)) (fe_value e) gid"
    using create_inv(2) [OF assms, of cxn] by blast
  have e: "ps_entries ps1 eaddr = Some e" "ps_entries ps eaddr = None" using 1(4) assms(2) by (simp_all add: create_ok_def)
  have "fe_tcam_entry e \<notin> table_entries ps i" using std_invD(5) [OF assms(1), of "fe_tcam_entry e" i] 1(7) e(2) by auto
  obtain ps2 where 2: "flowtable_entry_delete X i cxn eaddr ps1 = Some (ERROR_NONE, stats_get (st_stats (ps_core ps1)) (fe_stats_handle e), ps2)"
    "std_inv X br hr (insert slot A - {fe_stats_handle e}) ps2" "ps_entries ps2 = (ps_entries ps1)(eaddr := None)"
    "table_entries ps2 i = table_entries ps1 i - {fe_tcam_entry e}" "\<And>j. j \<noteq> i \<Longrightarrow> table_entries ps2 j = table_entries ps1 j"
    "\<And>gid. ref_count (st_log (ps_core ps2)) gid = ref_count (st_log (ps_core ps1)) gid - flow_value_refs (st_groups (ps_core ps1)) (fe_value e) gid"
    by (rule delete_inv [OF 1(3) e(1) 1(6,7), of cxn]) (rule that)
  have "table_entries ps2 j = table_entries ps j" for j
    using 1(8,9) 2(4,5) \<open>fe_tcam_entry e \<notin> table_entries ps i\<close> by (cases "j = i") auto
  moreover have "ref_count (st_log (ps_core ps2)) = ref_count (st_log (ps_core ps))" by (rule ext) (simp add: 1(10,11) 2(6))
  moreover have "ps_entries ps2 = ps_entries ps" using 2(3) 1(4) e(2) by (simp add: fun_upd_idem)
  moreover have "insert slot A - {fe_stats_handle e} = A" using 1(2,5) by auto
  ultimately show ?thesis using 1(1) 2(1,2) e(1) by auto
qed

theorem flow_add_delete_witness:
  "\<exists>ps ps1 st ps2. pipeline_standard_init demo_ext 7 ''standard-1.3'' demo_start = Some ps \<and>
    flowtable_entry_create demo_ext demo_acq 0x50 0x60 0 1 demo_flow_add ps = Some (ERROR_NONE, ps1) \<and>
    flowtable_entry_delete demo_ext 0 1 0x50 ps1 = Some (ERROR_NONE, st, ps2) \<and> ps_entries ps2 = ps_entries ps"
proof -
  obtain ps B where ps: "pipeline_standard_init demo_ext 7 ''standard-1.3'' demo_start = Some ps" "std_inv demo_ext list_bloom_rep list_hash_rep B ps"
    "create_ok demo_acq 0x50 0x60 0 demo_flow_add ps" by (rule demo_create_ok)
  have "\<not> failed (create_error demo_acq demo_flow_add ps)" by (simp add: demo_flow_ok)
  from flow_add_delete [OF ps(2,3) this, of 1] show ?thesis using ps(1) by blast
qed

end
