(* ===== verification/Pipeline_Law.thy ===== *)
theory Pipeline_Law
  imports Std_Flow Pipeline
begin

text \<open>
  What the users of a pipeline rely on when they cache its answers: it always answers, appends a
  well-nested list of actions to the message, and gives a mask that fits the key. The standard and the reflecting
  pipeline keep this contract.
\<close>

subsection \<open>Messages and masks\<close>

text \<open>From \<open>c\<close> to \<open>d\<close> the message gets complete attributes, and the mask stays well-formed.\<close>

definition ctx_moves :: "action_context \<Rightarrow> action_context \<Rightarrow> bool" where
  "ctx_moves c d \<longleftrightarrow> (\<exists>calls as. ac_msg d = ac_msg c @ calls \<and> nl_emits calls as) \<and>
     (\<forall>m. ac_mask c = Some m \<longrightarrow> key_wf m \<longrightarrow> (\<exists>M. ac_mask d = Some M \<and> key_wf M \<and> populated M = populated m))"

lemma ctx_moves_view: "ac_mask d = ac_mask c \<Longrightarrow> ac_msg d = ac_msg c \<Longrightarrow> ctx_moves c d"
  unfolding ctx_moves_def by (auto intro: exI [of _ "[]"])

lemma ctx_moves_trans: "ctx_moves c d \<Longrightarrow> ctx_moves d e \<Longrightarrow> ctx_moves c e"
proof -
  assume a: "ctx_moves c d" "ctx_moves d e"
  then obtain x as y bs where "ac_msg d = ac_msg c @ x" "nl_emits x as" "ac_msg e = ac_msg d @ y" "nl_emits y bs" unfolding ctx_moves_def by blast
  then have "ac_msg e = ac_msg c @ (x @ y) \<and> nl_emits (x @ y) (as @ bs)" by (simp add: nl_emits_append)
  moreover have "\<exists>M. ac_mask e = Some M \<and> key_wf M \<and> populated M = populated m" if "ac_mask c = Some m" "key_wf m" for m
    using a that unfolding ctx_moves_def by fastforce
  ultimately show ?thesis unfolding ctx_moves_def by blast
qed

lemma populated_mask_attr [simp]: "populated (mask_attr a m) = populated m"
  by (cases a) (simp_all add: mask_attr_def)

lemma ctx_moves_put:
  assumes "ac_msg d = ac_msg c @ calls" "nl_emits calls as" "ac_mask d = ac_mask c \<or> ac_mask d = map_option (mask_attr a) (ac_mask c)"
  shows "ctx_moves c d"
  using assms unfolding ctx_moves_def by auto

lemma commit_field_moves: "ctx_moves c (commit_field a c)"
  using nl_emits_nest [OF nl_emits_put, of OVS_ACTION_ATTR_SET "of_nat (attr_code a)" "key_get a (current_key c)"]
  by (auto simp: commit_field_def Let_def nla_put_def nla_nest_start_def nla_nest_end_def
      intro: ctx_moves_view ctx_moves_put [where a = a])

lemma commit_vlan_moves: "ctx_moves c (commit_vlan c)"
proof -
  let ?f = "NlaPut OVS_ACTION_ATTR_POP_VLAN []"
  let ?p = "NlaPut OVS_ACTION_ATTR_PUSH_VLAN (ovs_action_push_vlan (htons ETH_P_8021Q) (pk_vlan (current_key c)))"
  have e: "nl_emits [?f, ?p] ([Nla OVS_ACTION_ATTR_POP_VLAN []] @ [Nla OVS_ACTION_ATTR_PUSH_VLAN (ovs_action_push_vlan (htons ETH_P_8021Q) (pk_vlan (current_key c)))])"
    using nl_emits_append [OF nl_emits_put nl_emits_put] by simp
  show ?thesis
    by (auto simp: commit_vlan_def Let_def nla_put_def nla_put_flag_def
        intro: ctx_moves_view ctx_moves_put [where a = OVS_KEY_ATTR_VLAN] nl_emits_put e)
qed

lemma commit_moves: "ctx_moves c (commit_set_field_actions c)"
proof -
  have "ctx_moves c (fold commit_field as c)" for as c
    by (induction as arbitrary: c) (auto intro: ctx_moves_view ctx_moves_trans commit_field_moves)
  then have "ctx_moves c (fold commit_field OVS_KEY_FIELDS (commit_vlan c))" using commit_vlan_moves ctx_moves_trans by blast
  then have "ctx_moves c ((fold commit_field OVS_KEY_FIELDS (commit_vlan c))\<lparr>modified_attrs := 0\<rparr>)"
    using ctx_moves_trans ctx_moves_view by fastforce
  then show ?thesis by (auto simp: commit_set_field_actions_def intro: ctx_moves_view)
qed

lemma out_moves:
  assumes "ac_msg d = ac_msg (commit_set_field_actions c) @ calls" "nl_emits calls as"
    and "ac_mask d = ac_mask (commit_set_field_actions c) \<or> ac_mask d = map_option (mask_attr a) (ac_mask (commit_set_field_actions c))"
  shows "ctx_moves c d"
  using ctx_moves_trans [OF commit_moves ctx_moves_put [OF assms]] .

lemma set_moves: "ctx_moves c (set_attr a f c)" "ctx_moves c (set_tci g c)"
  by (auto simp: set_attr_def set_tci_def Let_def split_beta intro: ctx_moves_view)

lemma action_userspace_moves: "ctx_moves c (action_userspace c d p)"
  using nl_emits_nest [OF nl_emits_append [OF nl_emits_put nl_emits_put],
      of OVS_ACTION_ATTR_USERSPACE OVS_USERSPACE_ATTR_PID "le_bytes 4 p" OVS_USERSPACE_ATTR_USERDATA d]
  by (auto simp: action_userspace_def Let_def nla_put_u32_def nla_put_def nla_nest_start_def nla_nest_end_def
      intro: out_moves [where a = OVS_KEY_ATTR_IN_PORT])

lemma action_sample_moves: "ctx_moves c (action_sample_to_userspace c d p n)"
proof -
  let ?u = "NlaNestStart OVS_ACTION_ATTR_USERSPACE # ([NlaPut OVS_USERSPACE_ATTR_PID (le_bytes 4 p)] @ [NlaPut OVS_USERSPACE_ATTR_USERDATA d]) @ [NlaNestEnd]"
  obtain as where "nl_emits (NlaNestStart OVS_ACTION_ATTR_SAMPLE # ([NlaPut OVS_SAMPLE_ATTR_PROBABILITY (le_bytes 4 n)] @
      (NlaNestStart OVS_SAMPLE_ATTR_ACTIONS # ?u @ [NlaNestEnd])) @ [NlaNestEnd]) as"
    using nl_emits_nest [OF nl_emits_append [OF nl_emits_put nl_emits_nest [OF nl_emits_nest [OF nl_emits_append [OF nl_emits_put nl_emits_put]]]]] by blast
  then show ?thesis
    by (auto simp: action_sample_to_userspace_def Let_def nla_put_u32_def nla_put_def nla_nest_start_def nla_nest_end_def
        intro: out_moves [where a = OVS_KEY_ATTR_IN_PORT])
qed

lemma action_step_moves: "ctx_moves c (action_step op c)"
proof (cases op)
  case PushVlan
  then show ?thesis by (auto simp: action_push_vlan_def intro: ctx_moves_view)
next
  case (SetPriority v)
  then show ?thesis by (auto simp: action_set_priority_def intro: ctx_moves_view)
qed (auto simp: action_set_defs action_set_vlan_vid_def action_set_vlan_pcp_def set_moves action_userspace_moves action_sample_moves
    action_output_def action_output_local_def action_output_in_port_def action_pop_vlan_raw_def action_push_vlan_raw_def Let_def
    nla_put_u32_def nla_put_def nla_put_flag_def intro: out_moves [where a = OVS_KEY_ATTR_IN_PORT] nl_emits_put)

interpretation moves: ctx_preorder ctx_moves
  by unfold_locales (auto intro: ctx_moves_view ctx_moves_trans action_step_moves)

subsection \<open>The contract\<close>

text \<open>
  The pipeline answers for \<open>k\<close> with an empty mask and empty list of counters: complete actions, and a mask
  that is well-formed and has the Ethernet type, as the kernel asks for.
\<close>

definition answers :: "process_fn \<Rightarrow> ind_ovs_parsed_key \<Rightarrow> bool" where
  "answers process k \<longleftrightarrow> (\<forall>x base. xb_wf x \<longrightarrow> xb_length x = 0 \<longrightarrow>
     (\<exists>err msk' x' ctx' calls as M. process k key_zero x (action_context_init k (Some key_zero) base) = Some (err, msk', x', ctx') \<and> xb_wf x' \<and>
       ac_msg ctx' = base @ calls \<and> nl_emits calls as \<and> ac_mask ctx' = Some M \<and> key_wf M \<and> ATTR_BITMAP_TEST (populated M) OVS_KEY_ATTR_ETHERTYPE))"

lemma answersE:
  assumes "answers process k" "xb_wf x" "xb_length x = 0"
  obtains err msk' x' ctx' calls as M where "process k key_zero x (action_context_init k (Some key_zero) base) = Some (err, msk', x', ctx')" "xb_wf x'"
    "ac_msg ctx' = base @ calls" "nl_emits calls as" "ac_mask ctx' = Some M" "key_wf M" "ATTR_BITMAP_TEST (populated M) OVS_KEY_ATTR_ETHERTYPE"
  using assms unfolding answers_def by metis

text \<open>An implementation answers for the packets it is ready for.\<close>

locale flow_pipeline = mask_sound_pipeline process ok
  for process :: process_fn and ok :: "ind_ovs_parsed_key \<Rightarrow> ind_ovs_parsed_key \<Rightarrow> bool" +
  fixes ready :: bool
  assumes process_answers: "ready \<Longrightarrow> key_wf k \<Longrightarrow> xb_wf x \<Longrightarrow> xb_length x = 0 \<Longrightarrow>
    \<exists>err msk' x' ctx'. process k msk x ctx = Some (err, msk', x', ctx') \<and> xb_wf x' \<and> ctx_moves ctx ctx'"
begin

lemma current_answers:
  assumes "ready" "key_wf k"
  shows "answers (process_current process ib prio) k"
  unfolding answers_def
proof (intro allI impI)
  fix x base assume x: "xb_wf x" "xb_length x = 0"
  let ?ma = "key_zero\<lparr>pk_in_port := - 1, populated := ATTR_BITMAP_SET (populated k) OVS_KEY_ATTR_ETHERTYPE\<rparr>"
  let ?mb = "?ma\<lparr>pk_vlan := - 1\<rparr>"
  let ?init = "action_context_init k (Some key_zero) base" let ?c = "\<lambda>m. ?init\<lparr>ac_mask := Some m\<rparr>"
  have wf: "key_wf ?ma" "key_wf ?mb" using key_wf_zero by (simp_all add: key_wf_def)
  have upd: "process_prologue k (?init, key_zero) = (?c ?ma, key_zero)"
    "mask_upd (\<lambda>m. m\<lparr>pk_vlan := - 1\<rparr>) (?c ?ma, key_zero) = (?c ?mb, key_zero)"
    by (simp_all add: process_prologue_def mask_upd_def action_context_init_def)
  have "\<exists>m err msk' x' ctx'. m \<in> {?ma, ?mb} \<and> process_current process ib prio k key_zero x ?init = Some (err, msk', x', ctx') \<and> xb_wf x' \<and> ctx_moves (?c m) ctx'"
  proof -
    have p: "\<exists>err msk' x' ctx'. process k key_zero x (?c m) = Some (err, msk', x', ctx') \<and> xb_wf x' \<and> ctx_moves (?c m) ctx'" for m
      using process_answers [OF assms x] by blast
    show ?thesis
      using p [of ?ma] p [of ?mb] x(1) moves.steps_keep [of "?c ?mb" "[PopVlan, Output IVS_INBAND_PORT]"] moves.steps_keep [of "?c ?ma" "inband_send_ops ib prio"]
      unfolding process_current_def upd Let_def prod.case inband_ops by (auto split: if_splits)
  qed
  then obtain m err msk' x' ctx' where r: "m \<in> {?ma, ?mb}" "process_current process ib prio k key_zero x ?init = Some (err, msk', x', ctx')" "xb_wf x'"
    "ctx_moves (?c m) ctx'" by blast
  moreover have "key_wf m" "ATTR_BITMAP_TEST (populated m) OVS_KEY_ATTR_ETHERTYPE" using r(1) wf by auto
  ultimately show "\<exists>err msk' x' ctx' calls as M. process_current process ib prio k key_zero x ?init = Some (err, msk', x', ctx') \<and> xb_wf x' \<and>
      ac_msg ctx' = base @ calls \<and> nl_emits calls as \<and> ac_mask ctx' = Some M \<and> key_wf M \<and> ATTR_BITMAP_TEST (populated M) OVS_KEY_ATTR_ETHERTYPE"
    unfolding ctx_moves_def by (fastforce simp: action_context_init_def)
qed

end

subsection \<open>The standard pipeline\<close>

text \<open>The tables are consistent, groups are nested to depth \<open>n\<close> at most, and the counters of one packet fit.\<close>

definition std_ready :: "('b, 'h) std_ext \<Rightarrow> ('b \<Rightarrow> u32 multiset \<Rightarrow> bool) \<Rightarrow> ('h \<Rightarrow> (u64 \<times> u32) set \<Rightarrow> bool) \<Rightarrow> u32 set \<Rightarrow> (u64 \<Rightarrow> nat) \<Rightarrow> nat \<Rightarrow> nat \<Rightarrow> nat \<Rightarrow> nat \<Rightarrow>
    ('b, 'h) pipeline_standard \<Rightarrow> bool" where
  "std_ready X br hr A rank n v rounds depth ps \<longleftrightarrow> std_inv X br hr A ps \<and> groups_ranked (st_groups (ps_core ps)) rank \<and> entries_bounded rank n v ps \<and>
     16 * (8 + 4 * v) \<le> 2 ^ 31 \<and> 16 \<le> rounds \<and> n < depth"

lemma mask_upd_moves:
  assumes "mask_upd f (c, m) = (c', m')" "\<And>m. key_wf m \<Longrightarrow> key_wf (f m) \<and> populated (f m) = populated m"
  shows "ctx_moves c c'"
  using assms exI [of "nl_emits []", OF nl_emits_Nil] by (auto simp: ctx_moves_def mask_upd_def split: option.splits)

lemma translate_cfr_mask_populated: "populated (translate_cfr_mask m c cm) = populated m"
  by (simp add: translate_cfr_mask_def translate_mask_l4_def translate_mask_l3_def translate_mask_l2_def mask_net_def mask_tp_def
      mask_exact_net_def mask_exact_tp_def put_net_def put_tp_def)

lemma std_process_moves:
  assumes "tcams_ok X br hr ps" "key_wf k" "pipeline_standard_process rounds depth X ps k msk s ctx = Some (err, msk', s', ctx')"
  shows "ctx_moves ctx ctx'"
proof -
  let ?c = "pipeline_standard_key_to_cfr k cfr_zero" let ?h = "ext_murmur_hash X (key_get OVS_KEY_ATTR_ETHERNET k) 0"
  obtain c1 m1 where u: "mask_upd (mask_attr OVS_KEY_ATTR_ETHERNET) (ctx, msk) = (c1, m1)" by fastforce
  then have 1: "ctx_moves ctx c1" by (rule mask_upd_moves) simp
  show ?thesis
  proof (cases "flowtable_at ps 0")
    case None
    then show ?thesis using 1 u assms(3) by (simp add: pipeline_standard_process_def Let_def)
  next
    case (Some ft)
    then obtain cF cmF cx where t: "process_tables rounds depth X ps ?h 0 ?c cfr_zero c1 s = Some (cF, cmF, cx, s')"
      "mask_upd (\<lambda>m. translate_cfr_mask m cF cmF) (cx, m1) = (ctx', msk')"
      using assms(3) u by (auto simp: pipeline_standard_process_def Let_def bind_eq_Some_conv split_beta)
    have "cfr_wf cmF" using process_tables_keeps [OF assms(1) _ _ t(1)] key_to_cfr_wf [OF assms(2)] by (simp add: cfr_wf_def cfr_zero_def)
    then have "ctx_moves cx ctx'" using mask_upd_moves [OF t(2)] by (simp add: translate_cfr_mask_wf translate_cfr_mask_populated)
    then show ?thesis using 1 moves.process_tables_ctx [OF t(1)] ctx_moves_trans by blast
  qed
qed

interpretation std_flow: flow_pipeline "pipeline_standard_process rounds depth X ps" "std_ok X br hr ps" "std_ready X br hr A rank n v rounds depth ps"
  for rounds depth X ps br hr A rank n v
proof
  fix k msk x ctx assume r: "std_ready X br hr A rank n v rounds depth ps" and k: "key_wf k" "xb_wf x" "xb_length x = 0"
  then obtain err m x' c where p: "xb_wf x'" "pipeline_standard_process rounds depth X ps k msk x ctx = Some (err, m, x', c)"
    using process_returns [of X br hr A ps rank n v k x msk ctx] unfolding std_ready_def by auto
  have "tcams_ok X br hr ps" using r std_invD(4) [of X br hr A ps] unfolding std_ready_def by blast
  then show "\<exists>err msk' x' ctx'. pipeline_standard_process rounds depth X ps k msk x ctx = Some (err, msk', x', ctx') \<and> xb_wf x' \<and> ctx_moves ctx ctx'"
    using p std_process_moves [OF _ k(1) p(2)] by blast
qed

subsection \<open>The reflecting pipeline\<close>

interpretation reflect_flow: flow_pipeline "pipeline_reflect_process clock n delay" "\<lambda>_ _. True" "reflect_delay clock delay n \<noteq> None" for clock n delay
proof
  fix k msk :: ind_ovs_parsed_key and x ctx assume r: "reflect_delay clock delay n \<noteq> None" and x: "xb_wf x"
  obtain c m where u: "mask_upd (\<lambda>m. m\<lparr>pk_in_port := - 1\<rparr>) (ctx, msk) = (c, m)" by fastforce
  have "ctx_moves ctx c" by (rule mask_upd_moves [OF u]) (simp add: key_wf_def)
  then have "ctx_moves ctx (action_output c (pk_in_port k))" using moves.R_trans moves.R_step [of c "Output (pk_in_port k)"] by simp
  then show "\<exists>err msk' x' ctx'. pipeline_reflect_process clock n delay k msk x ctx = Some (err, msk', x', ctx') \<and> xb_wf x' \<and> ctx_moves ctx ctx'"
    using r x u by (auto simp: pipeline_reflect_process_def)
qed

end
