(* ===== verification/Kflow.thy ===== *)
theory Kflow
  imports Vport Pipeline_Law
begin

text \<open>
  The cache of kernel flows (\<open>OVSDriver/module/src/kflow.c\<close>): the flows that the driver has put into the kernel's
  table, kept in a list, in hash buckets by their key and in a TCAM by their mask. The forwarding
  pipeline is an argument of the operations, as its tables change over time; so are the clock, the addresses of
  new memory, and the random bits of the self test.
\<close>

subsection \<open>Attributes as bytes\<close>

fun nla_bytes :: "nla \<Rightarrow> bytes" where
  "nla_bytes (Nla t d) = nlattr_hdr (of_nat (NLA_HDRLEN + length d)) t @ d @ replicate (NLA_ALIGN (length d) - length d) 0"
| "nla_bytes (NlaNest t as) = (let d = concat (map nla_bytes as) in nlattr_hdr (of_nat (NLA_HDRLEN + length d)) t @ d)"

definition attrs_bytes :: "nla list \<Rightarrow> bytes" where
  "attrs_bytes as = concat (map nla_bytes as)"

primrec nla_payload :: "nla \<Rightarrow> bytes" where
  "nla_payload (Nla t d) = d"
| "nla_payload (NlaNest t as) = attrs_bytes as"

text \<open>libnl's \<open>nla_find\<close>, \<open>nla_get_u32\<close> and \<open>nla_get_u64\<close>; reading past the payload is \<open>None\<close>.\<close>

definition nla_find :: "nla list \<Rightarrow> nat \<Rightarrow> nla option" where
  "nla_find as t = find (\<lambda>a. unat (nla_type a) = t) as"

definition get_le :: "nat \<Rightarrow> nat \<Rightarrow> nla \<Rightarrow> 'a::len word option" where
  "get_le off n a = (if off + n \<le> length (nla_payload a) then Some (of_le (take n (drop off (nla_payload a)))) else None)"

definition nla_get_u32 :: "nla \<Rightarrow> u32 option" where "nla_get_u32 a = get_le 0 4 a"
definition nla_get_u64 :: "nla \<Rightarrow> u64 option" where "nla_get_u64 a = get_le 0 8 a"

subsection \<open>The parsed key in memory\<close>

text \<open>The 128 bytes of \<open>struct ind_ovs_parsed_key\<close>, with zeroed padding.\<close>

definition key_bytes :: "ind_ovs_parsed_key \<Rightarrow> bytes" where
  "key_bytes k = le_bytes 8 (populated k) @ le_bytes 4 (pk_priority k) @ le_bytes 4 (pk_in_port k) @ eth_src k @ eth_dst k @
     le_bytes 2 (pk_vlan k) @ le_bytes 2 (pk_ethertype k) @ pk_net k @ pk_tp k @ le_bytes 2 (pk_tcp_flags k) @ replicate 6 0 @
     le_bytes 8 (tun_id k) @ le_bytes 4 (tun_ipv4_src k) @ le_bytes 4 (tun_ipv4_dst k) @ [tun_tos k, tun_ttl k] @ replicate 6 0"

definition key_of_bytes :: "bytes \<Rightarrow> ind_ovs_parsed_key" where
  "key_of_bytes bs = \<lparr>populated = of_le (slice 0 8 bs), pk_priority = of_le (slice 8 4 bs), pk_in_port = of_le (slice 12 4 bs),
     eth_src = slice 16 6 bs, eth_dst = slice 22 6 bs, pk_vlan = of_le (slice 28 2 bs), pk_ethertype = of_le (slice 30 2 bs),
     pk_net = slice 32 40 bs, pk_tp = slice 72 24 bs, pk_tcp_flags = of_le (slice 96 2 bs), tun_id = of_le (slice 104 8 bs),
     tun_ipv4_src = of_le (slice 112 4 bs), tun_ipv4_dst = of_le (slice 116 4 bs), tun_tos = bs ! 120, tun_ttl = bs ! 121\<rparr>"

definition pkey_words :: "ind_ovs_parsed_key \<Rightarrow> words" where
  "pkey_words k = words_of (key_bytes k)"

subsection \<open>State\<close>

definition IND_OVS_MAX_KFLOWS_PER_PORT :: u32 where "IND_OVS_MAX_KFLOWS_PER_PORT = 16384"
definition IND_OVS_KFLOW_EXPIRATION_MS :: u64 where "IND_OVS_KFLOW_EXPIRATION_MS = 2345"
definition NUM_KFLOW_BUCKETS :: u32 where "NUM_KFLOW_BUCKETS = 8192"

definition OVS_FLOW_CMD_NEW :: u8 where "OVS_FLOW_CMD_NEW = 1"
definition OVS_FLOW_CMD_DEL :: u8 where "OVS_FLOW_CMD_DEL = 2"
definition OVS_FLOW_CMD_GET :: u8 where "OVS_FLOW_CMD_GET = 3"
definition OVS_FLOW_CMD_SET :: u8 where "OVS_FLOW_CMD_SET = 4"
definition OVS_FLOW_ATTR_KEY :: u16 where "OVS_FLOW_ATTR_KEY = 1"
definition OVS_FLOW_ATTR_ACTIONS :: u16 where "OVS_FLOW_ATTR_ACTIONS = 2"
definition OVS_FLOW_ATTR_STATS :: u16 where "OVS_FLOW_ATTR_STATS = 3"
definition OVS_FLOW_ATTR_USED :: u16 where "OVS_FLOW_ATTR_USED = 5"
definition OVS_FLOW_ATTR_MASK :: u16 where "OVS_FLOW_ATTR_MASK = 7"
definition OVS_DP_CMD_GET :: u8 where "OVS_DP_CMD_GET = 3"
definition OVS_DP_ATTR_STATS :: u16 where "OVS_DP_ATTR_STATS = 3"
definition OVS_DP_ATTR_MEGAFLOW_STATS :: u16 where "OVS_DP_ATTR_MEGAFLOW_STATS = 4"

text \<open>The length of the actions is that of \<open>kf_actions\<close>; the number of counters is a \<open>uint16_t\<close>.\<close>

record ind_ovs_kflow =
  kf_tcam_entry :: tcam_entry
  kf_stats :: stats
  kf_in_port :: u16
  kf_num_stats_handles :: u16
  kf_last_used :: u64
  kf_mask :: ind_ovs_parsed_key
  kf_actions :: bytes
  kf_stats_handles :: "u32 list"
  kf_key :: nla

record dp_counters =
  dpc_hit :: u64
  dpc_missed :: u64
  dpc_lost :: u64
  dpc_mask_hit :: u64
  dpc_masks :: u64

text \<open>Flows are known by their address. The ports, counters and netlink state are those of the driver.\<close>

record ('k, 'd, 'b, 'h) kflow_state =
  ks_vports :: "('k, 'd) vport_state"
  kflows :: "u64 list"
  kf_heap :: "u64 \<Rightarrow> ind_ovs_kflow option"
  kflow_buckets :: "u32 \<Rightarrow> u64 list"
  kflow_stats_xbuf :: xbuf
  kflow_stats_writer :: u64
  megaflow_tcam :: "('b, 'h) tcam"
  kflow_expire_task_running :: bool
  kf_counters :: dp_counters

text \<open>\<open>ke_mask_tests\<close> is \<open>NUM_KFLOW_MASK_TESTS\<close>: 2 in debug builds, 0 otherwise.\<close>

record ('k, 'd, 'b, 'h) kflow_env =
  ke_vport :: "('k, 'd) vport_env"
  ke_tcam :: "('b, 'h) tcam_env"
  ke_nl :: nl_env
  ke_murmur :: "bytes \<Rightarrow> u32"
  ke_hitless :: bool
  ke_benchmark_mode :: bool
  ke_disable_megaflows :: bool
  ke_mask_tests :: nat

abbreviation kf_kernel :: "('k, 'd, 'b, 'h) kflow_env \<Rightarrow> 'k kernel" where
  "kf_kernel E \<equiv> ve_kernel (ke_vport E)"

definition kf_nl :: "('k, 'd, 'b, 'h) kflow_state \<Rightarrow> 'k nl_state" where
  "kf_nl st = vp_nl (ks_vports st)"

definition kf_set_nl :: "'k nl_state \<Rightarrow> ('k, 'd, 'b, 'h) kflow_state \<Rightarrow> ('k, 'd, 'b, 'h) kflow_state" where
  "kf_set_nl nl st = st\<lparr>ks_vports := (ks_vports st)\<lparr>vp_nl := nl\<rparr>\<rparr>"

definition kf_set_module :: "stats_module \<Rightarrow> ('k, 'd, 'b, 'h) kflow_state \<Rightarrow> ('k, 'd, 'b, 'h) kflow_state" where
  "kf_set_module m st = st\<lparr>ks_vports := (ks_vports st)\<lparr>vp_stats := m\<rparr>\<rparr>"

definition kf_set_port :: "nat \<Rightarrow> ind_ovs_port \<Rightarrow> ('k, 'd, 'b, 'h) kflow_state \<Rightarrow> ('k, 'd, 'b, 'h) kflow_state" where
  "kf_set_port i p st = st\<lparr>ks_vports := (ks_vports st)\<lparr>ind_ovs_ports := (ind_ovs_ports (ks_vports st))[i := Some p]\<rparr>\<rparr>"

definition kf_put :: "u64 \<Rightarrow> ind_ovs_kflow \<Rightarrow> ('k, 'd, 'b, 'h) kflow_state \<Rightarrow> ('k, 'd, 'b, 'h) kflow_state" where
  "kf_put a kf st = st\<lparr>kf_heap := (kf_heap st)(a \<mapsto> kf)\<rparr>"

text \<open>A message to the kernel about flows, and one that carries a flow's key.\<close>

definition flow_msg :: "('k, 'd, 'b, 'h) kflow_env \<Rightarrow> u8 \<Rightarrow> ('k, 'd, 'b, 'h) kflow_state \<Rightarrow> (genl_msg \<times> ('k, 'd, 'b, 'h) kflow_state) option" where
  "flow_msg E cmd st =
     do {
       let V = ke_vport E;
       (msg, nl) \<leftarrow> ind_ovs_create_nlmsg (ve_families V) (ve_dp_ifindex V) (ovs_flow_family (ve_families V)) cmd (kf_nl st);
       Some (msg, kf_set_nl nl st)
     }"

definition put_flow_key :: "nla \<Rightarrow> genl_msg \<Rightarrow> genl_msg" where
  "put_flow_key key msg = msg\<lparr>gm_calls := nla_put (gm_calls msg) OVS_FLOW_ATTR_KEY (nla_payload key)\<rparr>"

definition flow_transact :: "('k, 'd, 'b, 'h) kflow_env \<Rightarrow> genl_msg \<Rightarrow> ('k, 'd, 'b, 'h) kflow_state \<Rightarrow> (error \<times> ('k, 'd, 'b, 'h) kflow_state) option" where
  "flow_transact E msg st = do { (err, nl) \<leftarrow> ind_ovs_transact (kf_kernel E) msg (kf_nl st); Some (err, kf_set_nl nl st) }"

definition flow_msg_free :: "genl_msg \<Rightarrow> ('k, 'd, 'b, 'h) kflow_state \<Rightarrow> ('k, 'd, 'b, 'h) kflow_state option" where
  "flow_msg_free msg st = do { nl \<leftarrow> nlmsg_free_to_pool (gm_addr msg) (kf_nl st); Some (kf_set_nl nl st) }"

subsection \<open>Looking up flows\<close>

definition key_hash :: "('k, 'd, 'b, 'h) kflow_env \<Rightarrow> nla \<Rightarrow> u32" where
  "key_hash E key = ke_murmur E (nla_payload key)"

definition kflow_bucket :: "('k, 'd, 'b, 'h) kflow_env \<Rightarrow> nla \<Rightarrow> u32" where
  "kflow_bucket E key = key_hash E key mod NUM_KFLOW_BUCKETS"

fun bucket_find :: "('k, 'd, 'b, 'h) kflow_state \<Rightarrow> nla \<Rightarrow> u64 list \<Rightarrow> u64 option option" where
  "bucket_find st key [] = Some None"
| "bucket_find st key (a # as) =
     do {
       kf \<leftarrow> kf_heap st a;
       if nla_payload (kf_key kf) = nla_payload key then Some (Some a) else bucket_find st key as
     }"

definition kflow_lookup :: "('k, 'd, 'b, 'h) kflow_env \<Rightarrow> nla \<Rightarrow> ('k, 'd, 'b, 'h) kflow_state \<Rightarrow> u64 option option" where
  "kflow_lookup E key st = bucket_find st key (kflow_buckets st (kflow_bucket E key))"

definition kflow_match :: "('k, 'd, 'b, 'h) kflow_env \<Rightarrow> ind_ovs_parsed_key \<Rightarrow> ('k, 'd, 'b, 'h) kflow_state \<Rightarrow> u64 option" where
  "kflow_match E pkey st = map_option te_addr (tcam_match (ke_tcam E) (megaflow_tcam st) (pkey_words pkey))"

subsection \<open>Running the pipeline\<close>

text \<open>
  The pipeline on a key, into a message whose open attribute is the last of \<open>base\<close>: the verdict, the mask, the
  counters and the message. The caller's mask is the one in the context.
\<close>

definition kflow_run ::
  "process_fn \<Rightarrow> ind_ovs_parsed_key \<Rightarrow> nl_msg \<Rightarrow> ('k, 'd, 'b, 'h) kflow_state \<Rightarrow> (error \<times> ind_ovs_parsed_key \<times> nl_msg \<times> ('k, 'd, 'b, 'h) kflow_state) option" where
  "kflow_run process pkey base st =
     do {
       (err, _, stats, actx) \<leftarrow> process pkey key_zero (xbuf_reset (kflow_stats_xbuf st)) (action_context_init pkey (Some key_zero) base);
       msk \<leftarrow> ac_mask actx;
       Some (err, msk, ac_msg actx, st\<lparr>kflow_stats_xbuf := stats\<rparr>)
     }"

definition actions_of :: "nl_msg \<Rightarrow> nl_msg \<Rightarrow> bytes option" where
  "actions_of base calls = map_option attrs_bytes (nl_tree (drop (length base) calls))"

definition stats_handles_of :: "xbuf \<Rightarrow> u32 list" where
  "stats_handles_of x = words_of (contents x)"

definition put_flow_mask :: "('k, 'd, 'b, 'h) kflow_env \<Rightarrow> ind_ovs_parsed_key \<Rightarrow> nl_msg \<Rightarrow> nl_msg option" where
  "put_flow_mask E msk calls =
     (if ke_disable_megaflows E then Some calls
      else if \<not> ATTR_BITMAP_TEST (populated msk) OVS_KEY_ATTR_ETHERTYPE then None
      else Some (ind_ovs_nla_nest_end (ind_ovs_emit_key msk (nla_nest_start calls OVS_FLOW_ATTR_MASK) True)))"

subsection \<open>The self test of debug builds\<close>

definition randomize_unmasked :: "bytes \<Rightarrow> bytes \<Rightarrow> bytes \<Rightarrow> bytes" where
  "randomize_unmasked rand msk key = map2 (\<lambda>k (m, r). if NOT m \<noteq> 0 then k XOR (r AND NOT m) else k) key (zip msk rand)"

primrec test_kflow_mask ::
  "nat \<Rightarrow> ('k, 'd, 'b, 'h) kflow_env \<Rightarrow> process_fn \<Rightarrow> (nat \<Rightarrow> bytes) \<Rightarrow> u64 \<Rightarrow> ('k, 'd, 'b, 'h) kflow_state \<Rightarrow> ('k, 'd, 'b, 'h) kflow_state option" where
  "test_kflow_mask 0 E process rand a st = Some st"
| "test_kflow_mask (Suc n) E process rand a st =
     do {
       kf \<leftarrow> kf_heap st a;
       pkey \<leftarrow> ind_ovs_parse_key (ke_nl E) (kf_key kf);
       let pkey = (key_of_bytes (randomize_unmasked (rand n) (key_bytes (kf_mask kf)) (key_bytes pkey)))\<lparr>populated := populated pkey\<rparr>;
       (msg, st) \<leftarrow> flow_msg E OVS_FLOW_CMD_NEW st;
       let base = nla_nest_start (gm_calls msg) OVS_FLOW_ATTR_ACTIONS;
       (err, msk, calls, st) \<leftarrow> kflow_run process pkey base st;
       actions \<leftarrow> actions_of base calls;
       if failed err \<or> actions \<noteq> kf_actions kf \<or> msk \<noteq> kf_mask kf \<or> unat (xb_length (kflow_stats_xbuf st)) \<noteq> 4 * unat (kf_num_stats_handles kf) \<or>
         stats_handles_of (kflow_stats_xbuf st) \<noteq> kf_stats_handles kf
       then None
       else do { st \<leftarrow> flow_msg_free msg st; test_kflow_mask n E process rand a st }
     }"

subsection \<open>Adding a flow\<close>

definition new_kflow :: "u64 \<Rightarrow> u32 \<Rightarrow> nla \<Rightarrow> tcam_entry \<Rightarrow> ind_ovs_parsed_key \<Rightarrow> bytes \<Rightarrow> u32 list \<Rightarrow> ind_ovs_kflow" where
  "new_kflow now in_port key te msk actions hs = \<lparr>kf_tcam_entry = te, kf_stats = stats_zero, kf_in_port = ucast in_port, kf_num_stats_handles = of_nat (length hs),
     kf_last_used = now div 1000, kf_mask = msk, kf_actions = actions, kf_stats_handles = hs, kf_key = key\<rparr>"

text \<open>The new flow in the list, its bucket and the TCAM; \<open>a\<close> is its address, \<open>sa\<close> that of a new shard.\<close>

definition kflow_insert ::
  "('k, 'd, 'b, 'h) kflow_env \<Rightarrow> u64 \<Rightarrow> u64 \<Rightarrow> u64 \<Rightarrow> u32 \<Rightarrow> nla \<Rightarrow> ind_ovs_parsed_key \<Rightarrow> ind_ovs_parsed_key \<Rightarrow> bytes \<Rightarrow> ind_ovs_port \<Rightarrow> ('k, 'd, 'b, 'h) kflow_state
    \<Rightarrow> ('k, 'd, 'b, 'h) kflow_state" where
  "kflow_insert E now a sa in_port key pkey msk actions port st =
     (let req = (a, sa, pkey_words pkey, pkey_words msk, 0);
          b = kflow_bucket E key;
          kf = new_kflow now in_port key (tcam_new (ke_tcam E) (megaflow_tcam st) req) msk actions (stats_handles_of (kflow_stats_xbuf st));
          st = (kf_put a kf st)\<lparr>kflows := kflows st @ [a], kflow_buckets := (kflow_buckets st)(b := kflow_buckets st b @ [a]),
            megaflow_tcam := tcam_ins (ke_tcam E) (megaflow_tcam st) req\<rparr>
      in kf_set_port (unat in_port) (port\<lparr>num_kflows := num_kflows port + 1\<rparr>) st)"

text \<open>The flow is new: the pipeline gives its actions, and the kernel is asked to add it.\<close>

definition kflow_create ::
  "('k, 'd, 'b, 'h) kflow_env \<Rightarrow> process_fn \<Rightarrow> (nat \<Rightarrow> bytes) \<Rightarrow> u64 \<Rightarrow> u64 \<Rightarrow> u64 \<Rightarrow> u32 \<Rightarrow> nla \<Rightarrow> ind_ovs_parsed_key \<Rightarrow> ind_ovs_port \<Rightarrow> ('k, 'd, 'b, 'h) kflow_state
    \<Rightarrow> (error \<times> ('k, 'd, 'b, 'h) kflow_state) option" where
  "kflow_create E process rand now a sa in_port key pkey port st =
     do {
       (msg, st) \<leftarrow> flow_msg E OVS_FLOW_CMD_NEW st;
       let msg = put_flow_key key msg;
       let base = nla_nest_start (gm_calls msg) OVS_FLOW_ATTR_ACTIONS;
       (err, msk, calls, st) \<leftarrow> kflow_run process pkey base st;
       if failed err then do { st \<leftarrow> flow_msg_free msg st; Some (err, st) }
       else do {
         actions \<leftarrow> actions_of base calls;
         calls \<leftarrow> put_flow_mask E msk (ind_ovs_nla_nest_end calls);
         (err, st) \<leftarrow> flow_transact E (msg\<lparr>gm_calls := calls\<rparr>) st;
         if failed err then Some (ERROR_UNKNOWN, st)
         else do {
           st \<leftarrow> test_kflow_mask (ke_mask_tests E) E process rand a (kflow_insert E now a sa in_port key pkey msk actions port st);
           Some (ERROR_NONE, st)
         }
       }
     }"

definition ind_ovs_kflow_add ::
  "('k, 'd, 'b, 'h) kflow_env \<Rightarrow> process_fn \<Rightarrow> (nat \<Rightarrow> bytes) \<Rightarrow> u64 \<Rightarrow> u64 \<Rightarrow> u64 \<Rightarrow> nla \<Rightarrow> ('k, 'd, 'b, 'h) kflow_state \<Rightarrow> (error \<times> ('k, 'd, 'b, 'h) kflow_state) option" where
  "ind_ovs_kflow_add E process rand now a sa key st =
     (if ke_hitless E then Some (ERROR_NONE, st)
      else do {
        attr \<leftarrow> nla_find (nla_children key) (attr_code OVS_KEY_ATTR_IN_PORT);
        in_port \<leftarrow> nla_get_u32 attr;
        if unat in_port \<ge> IND_OVS_MAX_PORTS then None
        else case port_at (ks_vports st) in_port of
          None \<Rightarrow> Some (ERROR_NONE, st)
        | Some port \<Rightarrow>
            if \<not> ke_benchmark_mode E \<and> num_kflows port \<ge> IND_OVS_MAX_KFLOWS_PER_PORT then Some (ERROR_RESOURCE, st)
            else do {
              pkey \<leftarrow> ind_ovs_parse_key (ke_nl E) key;
              if kflow_match E pkey st \<noteq> None then Some (ERROR_NONE, st)
              else kflow_create E process rand now a sa in_port key pkey port st
            }
      })"

subsection \<open>Statistics\<close>

fun stats_inc_all :: "u64 \<Rightarrow> u64 \<Rightarrow> u64 \<Rightarrow> u32 list \<Rightarrow> stats_module \<Rightarrow> stats_module option" where
  "stats_inc_all w np nb [] m = Some m"
| "stats_inc_all w np nb (h # hs) m = do { m \<leftarrow> stats_inc m w h np nb; stats_inc_all w np nb hs m }"

text \<open>The kernel's counters of a flow: what is new since the last time goes to the flow's counters.\<close>

definition kflow_count :: "u64 \<Rightarrow> u64 \<Rightarrow> u64 \<Rightarrow> ind_ovs_kflow \<Rightarrow> stats_module \<Rightarrow> (ind_ovs_kflow \<times> stats_module) option" where
  "kflow_count w n_packets n_bytes kf m =
     (let packet_diff = n_packets - packets (kf_stats kf);
          byte_diff = n_bytes - bytes_cnt (kf_stats kf)
      in if packet_diff > 0 \<or> byte_diff > 0
         then do {
           m \<leftarrow> stats_inc_all w packet_diff byte_diff (take (unat (kf_num_stats_handles kf)) (kf_stats_handles kf)) m;
           Some (kf\<lparr>kf_stats := \<lparr>packets = n_packets, bytes_cnt = n_bytes\<rparr>\<rparr>, m)
         }
         else Some (kf, m))"

definition kflow_sync_stats :: "u64 \<Rightarrow> nla option \<Rightarrow> nla option \<Rightarrow> ind_ovs_kflow \<Rightarrow> stats_module \<Rightarrow> (ind_ovs_kflow \<times> stats_module) option" where
  "kflow_sync_stats w stats_attr used_attr kf m =
     do {
       (kf, m) \<leftarrow> (case stats_attr of
           None \<Rightarrow> Some (kf, m)
         | Some a \<Rightarrow> do { np \<leftarrow> get_le 0 8 a; nb \<leftarrow> get_le 8 8 a; kflow_count w np nb kf m });
       case used_attr of
         None \<Rightarrow> Some (kf, m)
       | Some a \<Rightarrow> do { used \<leftarrow> nla_get_u64 a; Some (if used > kf_last_used kf then kf\<lparr>kf_last_used := used\<rparr> else kf, m) }
     }"

text \<open>The attributes of a reply, by type.\<close>

definition reply_attr :: "nla list \<Rightarrow> u16 \<Rightarrow> nla option" where
  "reply_attr as t = last_of_type as (unat t)"

definition kflow_sync_attrs :: "nla list \<Rightarrow> u64 \<Rightarrow> ('k, 'd, 'b, 'h) kflow_state \<Rightarrow> ('k, 'd, 'b, 'h) kflow_state option" where
  "kflow_sync_attrs as a st =
     do {
       kf \<leftarrow> kf_heap st a;
       (kf, m) \<leftarrow> kflow_sync_stats (kflow_stats_writer st) (reply_attr as OVS_FLOW_ATTR_STATS) (reply_attr as OVS_FLOW_ATTR_USED) kf (vp_stats (ks_vports st));
       Some (kf_set_module m (kf_put a kf st))
     }"

definition ind_ovs_kflow_sync_stats :: "('k, 'd, 'b, 'h) kflow_env \<Rightarrow> u64 \<Rightarrow> ('k, 'd, 'b, 'h) kflow_state \<Rightarrow> ('k, 'd, 'b, 'h) kflow_state option" where
  "ind_ovs_kflow_sync_stats E a st =
     do {
       kf \<leftarrow> kf_heap st a;
       (msg, st) \<leftarrow> flow_msg E OVS_FLOW_CMD_GET st;
       (err, as, nl) \<leftarrow> ind_ovs_transact_reply (kf_kernel E) (put_flow_key (kf_key kf) msg) (kf_nl st);
       if failed err then Some (kf_set_nl nl st) else kflow_sync_attrs as a (kf_set_nl nl st)
     }"

subsection \<open>Deleting and revalidating flows\<close>

text \<open>One flow fewer on the port it came in on, if that still exists.\<close>

definition port_dec_kflows :: "u16 \<Rightarrow> ('k, 'd, 'b, 'h) kflow_state \<Rightarrow> ('k, 'd, 'b, 'h) kflow_state option" where
  "port_dec_kflows in_port st =
     (if unat in_port \<ge> IND_OVS_MAX_PORTS then None
      else case port_at (ks_vports st) (ucast in_port) of
        None \<Rightarrow> Some st
      | Some port \<Rightarrow> Some (kf_set_port (unat in_port) (port\<lparr>num_kflows := num_kflows port - 1\<rparr>) st))"

definition kflow_unlink :: "('k, 'd, 'b, 'h) kflow_env \<Rightarrow> u64 \<Rightarrow> ind_ovs_kflow \<Rightarrow> ('k, 'd, 'b, 'h) kflow_state \<Rightarrow> ('k, 'd, 'b, 'h) kflow_state option" where
  "kflow_unlink E a kf st =
     do {
       let b = kflow_bucket E (kf_key kf);
       t \<leftarrow> tcam_remove (ke_tcam E) (megaflow_tcam st) (kf_tcam_entry kf);
       Some (st\<lparr>kflows := remove1 a (kflows st), kflow_buckets := (kflow_buckets st)(b := remove1 a (kflow_buckets st b)), megaflow_tcam := t,
         kf_heap := (kf_heap st)(a := None)\<rparr>)
     }"

definition ind_ovs_kflow_delete :: "('k, 'd, 'b, 'h) kflow_env \<Rightarrow> u64 \<Rightarrow> ('k, 'd, 'b, 'h) kflow_state \<Rightarrow> ('k, 'd, 'b, 'h) kflow_state option" where
  "ind_ovs_kflow_delete E a st =
     do {
       kf \<leftarrow> kf_heap st a;
       st \<leftarrow> port_dec_kflows (kf_in_port kf) st;
       st \<leftarrow> ind_ovs_kflow_sync_stats E a st;
       (msg, st) \<leftarrow> flow_msg E OVS_FLOW_CMD_DEL st;
       (err, st) \<leftarrow> flow_transact E (put_flow_key (kf_key kf) msg) st;
       kflow_unlink E a kf st
     }"

text \<open>New counters: the old ones first get what the kernel has counted so far.\<close>

definition kflow_set_handles :: "('k, 'd, 'b, 'h) kflow_env \<Rightarrow> u64 \<Rightarrow> u32 list \<Rightarrow> ('k, 'd, 'b, 'h) kflow_state \<Rightarrow> ('k, 'd, 'b, 'h) kflow_state option" where
  "kflow_set_handles E a hs st =
     do {
       kf \<leftarrow> kf_heap st a;
       if length hs \<noteq> unat (kf_num_stats_handles kf) \<or> hs \<noteq> kf_stats_handles kf
       then do {
         st \<leftarrow> ind_ovs_kflow_sync_stats E a st;
         kf \<leftarrow> kf_heap st a;
         Some (kf_put a (kf\<lparr>kf_num_stats_handles := of_nat (length hs), kf_stats_handles := hs\<rparr>) st)
       }
       else Some st
     }"

definition kflow_set_actions :: "('k, 'd, 'b, 'h) kflow_env \<Rightarrow> process_fn \<Rightarrow> (nat \<Rightarrow> bytes) \<Rightarrow> u64 \<Rightarrow> genl_msg \<Rightarrow> ind_ovs_parsed_key \<Rightarrow> bytes \<Rightarrow> nl_msg \<Rightarrow>
    ('k, 'd, 'b, 'h) kflow_state \<Rightarrow> ('k, 'd, 'b, 'h) kflow_state option" where
  "kflow_set_actions E process rand a msg msk actions calls st =
     do {
       kf \<leftarrow> kf_heap st a;
       if actions \<noteq> kf_actions kf
       then do {
         calls \<leftarrow> put_flow_mask E msk calls;
         (err, st) \<leftarrow> flow_transact E (msg\<lparr>gm_calls := calls\<rparr>) st;
         if failed err then ind_ovs_kflow_delete E a st
         else test_kflow_mask (ke_mask_tests E) E process rand a (kf_put a (kf\<lparr>kf_actions := actions\<rparr>) st)
       }
       else do {
         st \<leftarrow> flow_msg_free msg st;
         test_kflow_mask (ke_mask_tests E) E process rand a st
       }
     }"

definition ind_ovs_kflow_invalidate ::
  "('k, 'd, 'b, 'h) kflow_env \<Rightarrow> process_fn \<Rightarrow> (nat \<Rightarrow> bytes) \<Rightarrow> u64 \<Rightarrow> ('k, 'd, 'b, 'h) kflow_state \<Rightarrow> ('k, 'd, 'b, 'h) kflow_state option" where
  "ind_ovs_kflow_invalidate E process rand a st =
     do {
       kf \<leftarrow> kf_heap st a;
       pkey \<leftarrow> ind_ovs_parse_key (ke_nl E) (kf_key kf);
       (msg, st) \<leftarrow> flow_msg E OVS_FLOW_CMD_SET st;
       let msg = put_flow_key (kf_key kf) msg;
       let base = nla_nest_start (gm_calls msg) OVS_FLOW_ATTR_ACTIONS;
       (err, msk, calls, st) \<leftarrow> kflow_run process pkey base st;
       if failed err then do { st \<leftarrow> ind_ovs_kflow_delete E a st; flow_msg_free msg st }
       else do {
         actions \<leftarrow> actions_of base calls;
         if msk \<noteq> kf_mask kf then do { st \<leftarrow> flow_msg_free msg st; ind_ovs_kflow_delete E a st }
         else do {
           st \<leftarrow> kflow_set_handles E a (stats_handles_of (kflow_stats_xbuf st)) st;
           kflow_set_actions E process rand a msg msk actions (ind_ovs_nla_nest_end calls) st
         }
       }
     }"

text \<open>The loop keeps the next flow before it handles one, so it visits the flows that were in the list at the start.\<close>

fun invalidate_loop ::
  "('k, 'd, 'b, 'h) kflow_env \<Rightarrow> process_fn \<Rightarrow> (nat \<Rightarrow> bytes) \<Rightarrow> u64 list \<Rightarrow> ('k, 'd, 'b, 'h) kflow_state \<Rightarrow> ('k, 'd, 'b, 'h) kflow_state option" where
  "invalidate_loop E process rand [] st = Some st"
| "invalidate_loop E process rand (a # as) st = do { st \<leftarrow> ind_ovs_kflow_invalidate E process rand a st; invalidate_loop E process rand as st }"

definition ind_ovs_kflow_invalidate_all ::
  "('k, 'd, 'b, 'h) kflow_env \<Rightarrow> process_fn \<Rightarrow> (nat \<Rightarrow> bytes) \<Rightarrow> ('k, 'd, 'b, 'h) kflow_state \<Rightarrow> ('k, 'd, 'b, 'h) kflow_state option" where
  "ind_ovs_kflow_invalidate_all E process rand st = (if ke_hitless E then Some st else invalidate_loop E process rand (kflows st) st)"

subsection \<open>Expiration\<close>

text \<open>One message of the kernel's dump of its flows, at time \<open>now\<close>.\<close>

definition kflow_expire :: "('k, 'd, 'b, 'h) kflow_env \<Rightarrow> u64 \<Rightarrow> nla list \<Rightarrow> ('k, 'd, 'b, 'h) kflow_state \<Rightarrow> ('k, 'd, 'b, 'h) kflow_state option" where
  "kflow_expire E now as st =
     do {
       key \<leftarrow> reply_attr as OVS_FLOW_ATTR_KEY;
       found \<leftarrow> kflow_lookup E key st;
       case found of
         None \<Rightarrow> Some st
       | Some a \<Rightarrow>
           do {
             st \<leftarrow> kflow_sync_attrs as a st;
             kf \<leftarrow> kf_heap st a;
             if now div 1000 - kf_last_used kf \<ge> IND_OVS_KFLOW_EXPIRATION_MS then ind_ovs_kflow_delete E a st else Some st
           }
     }"

text \<open>
  The task: the messages that are still to come, each with whether the socket manager asks to yield before it.
  The result is whether the task goes on, and the messages left.
\<close>

fun kflow_expire_task ::
  "('k, 'd, 'b, 'h) kflow_env \<Rightarrow> (bool \<times> u64 \<times> nla list) list \<Rightarrow> ('k, 'd, 'b, 'h) kflow_state \<Rightarrow> (bool \<times> (bool \<times> u64 \<times> nla list) list \<times> ('k, 'd, 'b, 'h) kflow_state) option" where
  "kflow_expire_task E [] st = Some (False, [], st\<lparr>kflow_expire_task_running := False\<rparr>)"
| "kflow_expire_task E ((yield, now, as) # ms) st =
     (if yield then Some (True, (False, now, as) # ms, st)
      else do { st \<leftarrow> kflow_expire E now as st; kflow_expire_task E ms st })"

definition update_datapath_stats :: "('k, 'd, 'b, 'h) kflow_env \<Rightarrow> ('k, 'd, 'b, 'h) kflow_state \<Rightarrow> ('k, 'd, 'b, 'h) kflow_state option" where
  "update_datapath_stats E st =
     do {
       let V = ke_vport E;
       (msg, nl) \<leftarrow> ind_ovs_create_nlmsg (ve_families V) (ve_dp_ifindex V) (ovs_datapath_family (ve_families V)) OVS_DP_CMD_GET (kf_nl st);
       (err, as, nl) \<leftarrow> ind_ovs_transact_reply (kf_kernel E) msg nl;
       let st = kf_set_nl nl st;
       if failed err then Some st
       else do {
         c \<leftarrow> (case reply_attr as OVS_DP_ATTR_STATS of
             None \<Rightarrow> Some (kf_counters st)
           | Some a \<Rightarrow> do { h \<leftarrow> get_le 0 8 a; m \<leftarrow> get_le 8 8 a; l \<leftarrow> get_le 16 8 a; Some ((kf_counters st)\<lparr>dpc_hit := h, dpc_missed := m, dpc_lost := l\<rparr>) });
         c \<leftarrow> (case reply_attr as OVS_DP_ATTR_MEGAFLOW_STATS of
             None \<Rightarrow> Some c
           | Some a \<Rightarrow> do { h \<leftarrow> get_le 0 8 a; n \<leftarrow> (get_le 8 4 a :: u32 option); Some (c\<lparr>dpc_mask_hit := h, dpc_masks := ucast n\<rparr>) });
         Some (st\<lparr>kf_counters := c\<rparr>)
       }
     }"

text \<open>
  The request for all flows, in a message of its own at \<open>addr\<close>. \<open>registered\<close> is whether the socket
  manager takes the task.
\<close>

definition flow_dump_msg :: "('k, 'd, 'b, 'h) kflow_env \<Rightarrow> u64 \<Rightarrow> genl_msg" where
  "flow_dump_msg E addr = \<lparr>gm_addr = addr, gm_family = ovs_flow_family (ve_families (ke_vport E)), gm_cmd = OVS_FLOW_CMD_GET, gm_version = OVS_FLOW_VERSION,
     gm_flags = NLM_F_DUMP, gm_dp_ifindex = ve_dp_ifindex (ke_vport E), gm_calls = []\<rparr>"

definition ind_ovs_kflow_expire :: "('k, 'd, 'b, 'h) kflow_env \<Rightarrow> bool \<Rightarrow> u64 \<Rightarrow> ('k, 'd, 'b, 'h) kflow_state \<Rightarrow> ('k, 'd, 'b, 'h) kflow_state option" where
  "ind_ovs_kflow_expire E registered addr st =
     (if kflow_expire_task_running st then Some st
      else do {
        st \<leftarrow> update_datapath_stats E st;
        if ke_hitless E then Some st
        else if \<not> registered then None
        else do {
          let (err, k) = k_send (kf_kernel E) (flow_dump_msg E addr) (nl_kernel (kf_nl st));
          if err < 0 then None
          else Some ((kf_set_nl ((kf_nl st)\<lparr>nl_kernel := k\<rparr>) st)\<lparr>kflow_expire_task_running := True\<rparr>)
        }
      })"

subsection \<open>Set-up\<close>

definition ind_ovs_kflow_flush :: "('k, 'd, 'b, 'h) kflow_env \<Rightarrow> ('k, 'd, 'b, 'h) kflow_state \<Rightarrow> ('k, 'd, 'b, 'h) kflow_state option" where
  "ind_ovs_kflow_flush E st =
     (if kflows st \<noteq> [] then None
      else do { (msg, st) \<leftarrow> flow_msg E OVS_FLOW_CMD_DEL st; (err, st) \<leftarrow> flow_transact E msg st; Some st })"

definition ind_ovs_kflow_module_init ::
  "('k, 'd, 'b, 'h) kflow_env \<Rightarrow> (nat \<Rightarrow> u8) \<Rightarrow> u32 \<Rightarrow> u64 \<Rightarrow> ('k, 'd) vport_state \<Rightarrow> ('k, 'd, 'b, 'h) kflow_state option" where
  "ind_ovs_kflow_module_init E junk salt w vp =
     do {
       x \<leftarrow> xbuf_init junk;
       t \<leftarrow> tcam_create (ke_tcam E) 128 salt;
       Some \<lparr>ks_vports = vp\<lparr>vp_stats := stats_writer_create (vp_stats vp) w\<rparr>, kflows = [], kf_heap = (\<lambda>_. None), kflow_buckets = (\<lambda>_. []), kflow_stats_xbuf = x,
         kflow_stats_writer = w, megaflow_tcam = t, kflow_expire_task_running = False,
         kf_counters = \<lparr>dpc_hit = 0, dpc_missed = 0, dpc_lost = 0, dpc_mask_hit = 0, dpc_masks = 0\<rparr>\<rparr>
     }"

end
