(* ===== verification/Kflow_Inv.thy ===== *)
theory Kflow_Inv
  imports Kflow
begin

text \<open>
  What the cache of kernel flows guarantees: its structures agree with each other and with the counts of the ports in every history, revalidation makes
  every flow right for the pipeline, and the kernel's statistics are credited once.
\<close>

subsection \<open>The invariant\<close>

text \<open>A flow at address \<open>a\<close>: its key parses, and its TCAM entry is for that key and its mask.\<close>

definition kflow_ok :: "('k, 'd, 'b, 'h) kflow_env \<Rightarrow> u64 \<Rightarrow> ind_ovs_kflow \<Rightarrow> bool" where
  "kflow_ok E a kf \<longleftrightarrow> te_addr (kf_tcam_entry kf) = a \<and> key_wf (kf_mask kf) \<and> unat (kf_in_port kf) < IND_OVS_MAX_PORTS \<and>
     (\<exists>pkey. ind_ovs_parse_key (ke_nl E) (kf_key kf) = Some pkey \<and> key_wf pkey \<and> te_key (kf_tcam_entry kf) = pkey_words pkey \<and>
       te_mask (kf_tcam_entry kf) = pkey_words (kf_mask kf))"

abbreviation flow_at :: "('k, 'd, 'b, 'h) kflow_state \<Rightarrow> u64 \<Rightarrow> ind_ovs_kflow" where
  "flow_at st a \<equiv> the (kf_heap st a)"

text \<open>The list, the heap, the buckets and the TCAM hold the same flows.\<close>

definition kflow_struct :: "('k, 'd, 'b, 'h) kflow_env \<Rightarrow> ('b \<Rightarrow> u32 multiset \<Rightarrow> bool) \<Rightarrow> ('h \<Rightarrow> (u64 \<times> u32) set \<Rightarrow> bool) \<Rightarrow> ('k, 'd, 'b, 'h) kflow_state \<Rightarrow> bool" where
  "kflow_struct E br hr st \<longleftrightarrow> distinct (kflows st) \<and> dom (kf_heap st) = set (kflows st) \<and>
     (\<forall>b. kflow_buckets st b = filter (\<lambda>a. kflow_bucket E (kf_key (flow_at st a)) = b) (kflows st)) \<and>
     tcam_inv (ke_tcam E) br hr (megaflow_tcam st) \<and> key_words (megaflow_tcam st) = 32 \<and>
     mset (tcam_entries (megaflow_tcam st)) = mset (map (\<lambda>a. kf_tcam_entry (flow_at st a)) (kflows st)) \<and>
     (\<forall>a kf. kf_heap st a = Some kf \<longrightarrow> kflow_ok E a kf)"

text \<open>The ports count the flows \<open>C\<close>, up to the limit.\<close>

definition port_flows :: "u64 set \<Rightarrow> ('k, 'd, 'b, 'h) kflow_state \<Rightarrow> nat \<Rightarrow> u64 set" where
  "port_flows C st i = {a \<in> C. unat (kf_in_port (flow_at st a)) = i}"

definition kflow_counts :: "('k, 'd, 'b, 'h) kflow_env \<Rightarrow> u64 set \<Rightarrow> ('k, 'd, 'b, 'h) kflow_state \<Rightarrow> bool" where
  "kflow_counts E C st \<longleftrightarrow> finite C \<and> (\<forall>i p. i < IND_OVS_MAX_PORTS \<longrightarrow> ind_ovs_ports (ks_vports st) ! i = Some p \<longrightarrow>
     num_kflows p = of_nat (card (port_flows C st i)) \<and>
     (\<not> ke_benchmark_mode E \<longrightarrow> card (port_flows C st i) \<le> unat IND_OVS_MAX_KFLOWS_PER_PORT))"

definition kflow_inv ::
  "u64 set \<Rightarrow> u64 set \<Rightarrow> u32 set \<Rightarrow> ('k, 'd, 'b, 'h) kflow_env \<Rightarrow> ('b \<Rightarrow> u32 multiset \<Rightarrow> bool) \<Rightarrow> ('h \<Rightarrow> (u64 \<times> u32) set \<Rightarrow> bool) \<Rightarrow> u64 set \<Rightarrow>
    ('k, 'd, 'b, 'h) kflow_state \<Rightarrow> bool" where
  "kflow_inv P U A E br hr C st \<longleftrightarrow> vport_inv P U A (ke_vport E) (ks_vports st) \<and> kflow_struct E br hr st \<and> kflow_counts E C st \<and>
     xb_wf (kflow_stats_xbuf st) \<and> kflow_stats_writer st \<in> wr_addr ` set (stats_writers (vp_stats (ks_vports st)))"

text \<open>What is asked of the kernel: it acknowledges requests, and the statistics in its replies are complete.\<close>

definition flow_reply_ok :: "nla list \<Rightarrow> bool" where
  "flow_reply_ok as \<longleftrightarrow> (case reply_attr as OVS_FLOW_ATTR_STATS of None \<Rightarrow> True | Some a \<Rightarrow> 16 \<le> length (nla_payload a)) \<and>
     (case reply_attr as OVS_FLOW_ATTR_USED of None \<Rightarrow> True | Some a \<Rightarrow> 8 \<le> length (nla_payload a))"

definition dp_reply_ok :: "nla list \<Rightarrow> bool" where
  "dp_reply_ok as \<longleftrightarrow> (case reply_attr as OVS_DP_ATTR_STATS of None \<Rightarrow> True | Some a \<Rightarrow> 24 \<le> length (nla_payload a)) \<and>
     (case reply_attr as OVS_DP_ATTR_MEGAFLOW_STATS of None \<Rightarrow> True | Some a \<Rightarrow> 12 \<le> length (nla_payload a))"

definition kflow_kernel_ok :: "('k, 'd, 'b, 'h) kflow_env \<Rightarrow> bool" where
  "kflow_kernel_ok E \<longleftrightarrow> kernel_acks (kf_kernel E) \<and>
     (\<forall>m k as. fst (k_recv (kf_kernel E) (snd (k_send (kf_kernel E) m k))) = Some (NlReply as) \<longrightarrow>
       (gm_family m = ovs_flow_family (ve_families (ke_vport E)) \<longrightarrow> flow_reply_ok as) \<and>
       (gm_family m = ovs_datapath_family (ve_families (ke_vport E)) \<longrightarrow> dp_reply_ok as))"

lemma kflow_invD:
  assumes "kflow_inv P U A E br hr C st"
  shows "vport_inv P U A (ke_vport E) (ks_vports st)" "kflow_struct E br hr st" "kflow_counts E C st" "xb_wf (kflow_stats_xbuf st)"
    "kflow_stats_writer st \<in> wr_addr ` set (stats_writers (vp_stats (ks_vports st)))"
    "pool_inv P U (nl_freelist (kf_nl st))" "finite U"
  using assms finite_subset by (auto simp: kflow_inv_def kf_nl_def vport_inv_def pool_inv_def)

lemma kflow_structD:
  assumes "kflow_struct E br hr st"
  shows "distinct (kflows st)" "dom (kf_heap st) = set (kflows st)"
    "kflow_buckets st b = filter (\<lambda>a. kflow_bucket E (kf_key (flow_at st a)) = b) (kflows st)"
    "tcam_inv (ke_tcam E) br hr (megaflow_tcam st)" "key_words (megaflow_tcam st) = 32"
    "mset (tcam_entries (megaflow_tcam st)) = mset (map (\<lambda>a. kf_tcam_entry (flow_at st a)) (kflows st))"
    "kf_heap st a = Some kf \<Longrightarrow> kflow_ok E a kf" "a \<in> set (kflows st) \<Longrightarrow> \<exists>kf. kf_heap st a = Some kf"
  using assms by (auto simp: kflow_struct_def)

subsection \<open>Changes that keep it\<close>

lemma kf_set_sel [simp]:
  "kflows (kf_set_nl nl st) = kflows st" "kf_heap (kf_set_nl nl st) = kf_heap st" "kflow_buckets (kf_set_nl nl st) = kflow_buckets st"
  "megaflow_tcam (kf_set_nl nl st) = megaflow_tcam st" "kflow_stats_xbuf (kf_set_nl nl st) = kflow_stats_xbuf st"
  "kflow_stats_writer (kf_set_nl nl st) = kflow_stats_writer st" "kf_nl (kf_set_nl nl st) = nl"
  "ind_ovs_ports (ks_vports (kf_set_nl nl st)) = ind_ovs_ports (ks_vports st)" "vp_stats (ks_vports (kf_set_nl nl st)) = vp_stats (ks_vports st)"
  by (simp_all add: kf_set_nl_def kf_nl_def)

lemma kf_set_nl_twice [simp]: "kf_set_nl nl (kf_set_nl nl' st) = kf_set_nl nl st"
  by (simp add: kf_set_nl_def)

lemma kflow_struct_cong:
  assumes "kflow_struct E br hr st" "kflows st' = kflows st" "kf_heap st' = kf_heap st" "kflow_buckets st' = kflow_buckets st" "megaflow_tcam st' = megaflow_tcam st"
  shows "kflow_struct E br hr st'"
  using assms by (simp add: kflow_struct_def)

lemma kflow_counts_cong:
  assumes "kflow_counts E C st" "ind_ovs_ports (ks_vports st') = ind_ovs_ports (ks_vports st)"
    "\<And>a. a \<in> C \<Longrightarrow> kf_in_port (flow_at st' a) = kf_in_port (flow_at st a)"
  shows "kflow_counts E C st'"
proof -
  have "port_flows C st' i = port_flows C st i" for i using assms(3) by (auto simp: port_flows_def)
  then show ?thesis using assms(1,2) by (simp add: kflow_counts_def)
qed

lemma vport_inv_frame:
  assumes "vport_inv P U A E st" "stats_inv m A" "pool_inv P U' (nl_freelist nl)"
  shows "vport_inv P U' A E (st\<lparr>vp_nl := nl, vp_stats := m\<rparr>)"
proof -
  have "uplink_ok (st\<lparr>vp_nl := nl, vp_stats := m\<rparr>) = uplink_ok st" by (rule uplink_ok_cong) simp_all
  then show ?thesis using assms by (simp add: vport_inv_def)
qed

lemma kflow_inv_nl:
  assumes "kflow_inv P U A E br hr C st" "pool_inv P U' (nl_freelist nl)"
  shows "kflow_inv P U' A E br hr C (kf_set_nl nl st)"
proof -
  note D = kflow_invD [OF assms(1)]
  have "vport_inv P U' A (ke_vport E) ((ks_vports st)\<lparr>vp_nl := nl\<rparr>)"
    using vport_inv_frame [OF D(1) vport_invD(1) [OF D(1)] assms(2)] by simp
  moreover have "kflow_struct E br hr (kf_set_nl nl st)" by (rule kflow_struct_cong [OF D(2)]) simp_all
  moreover have "kflow_counts E C (kf_set_nl nl st)" by (rule kflow_counts_cong [OF D(3)]) simp_all
  ultimately show ?thesis using D(4,5) by (simp add: kflow_inv_def kf_set_nl_def)
qed

definition kflow_same :: "ind_ovs_kflow \<Rightarrow> ind_ovs_kflow \<Rightarrow> bool" where
  "kflow_same kf kf' \<longleftrightarrow> kf_tcam_entry kf' = kf_tcam_entry kf \<and> kf_in_port kf' = kf_in_port kf \<and> kf_mask kf' = kf_mask kf \<and> kf_key kf' = kf_key kf"

lemma kf_put_sel [simp]:
  "kflows (kf_put a kf st) = kflows st" "kf_heap (kf_put a kf st) = (kf_heap st)(a \<mapsto> kf)" "kflow_buckets (kf_put a kf st) = kflow_buckets st"
  "megaflow_tcam (kf_put a kf st) = megaflow_tcam st" "kflow_stats_xbuf (kf_put a kf st) = kflow_stats_xbuf st"
  "kflow_stats_writer (kf_put a kf st) = kflow_stats_writer st" "ks_vports (kf_put a kf st) = ks_vports st" "kf_nl (kf_put a kf st) = kf_nl st"
  by (simp_all add: kf_put_def kf_nl_def)

lemma kflow_inv_put:
  assumes "kflow_inv P U A E br hr C st" "kf_heap st a = Some kf" "kflow_same kf kf'"
  shows "kflow_inv P U A E br hr C (kf_put a kf' st)"
proof -
  note D = kflow_invD [OF assms(1)] and S = kflow_structD [OF kflow_invD(2) [OF assms(1)]]
  have s: "kf_key (flow_at (kf_put a kf' st) x) = kf_key (flow_at st x)" "kf_tcam_entry (flow_at (kf_put a kf' st) x) = kf_tcam_entry (flow_at st x)"
    "kf_in_port (flow_at (kf_put a kf' st) x) = kf_in_port (flow_at st x)" for x
    using assms(2,3) by (simp_all add: kflow_same_def)
  have "kflow_ok E a kf'" using S(7) [OF assms(2)] assms(3) by (simp add: kflow_ok_def kflow_same_def)
  moreover have "dom (kf_heap (kf_put a kf' st)) = set (kflows st)" using S(2) assms(2) by auto
  ultimately have "kflow_struct E br hr (kf_put a kf' st)"
    unfolding kflow_struct_def s using S by simp
  moreover have "kflow_counts E C (kf_put a kf' st)" by (rule kflow_counts_cong [OF D(3)]) (use s in simp_all)
  ultimately show ?thesis using D by (simp add: kflow_inv_def)
qed

lemma kf_set_module_sel [simp]:
  "kflows (kf_set_module m st) = kflows st" "kf_heap (kf_set_module m st) = kf_heap st" "kflow_buckets (kf_set_module m st) = kflow_buckets st"
  "megaflow_tcam (kf_set_module m st) = megaflow_tcam st" "kflow_stats_xbuf (kf_set_module m st) = kflow_stats_xbuf st"
  "kflow_stats_writer (kf_set_module m st) = kflow_stats_writer st" "kf_nl (kf_set_module m st) = kf_nl st"
  "ind_ovs_ports (ks_vports (kf_set_module m st)) = ind_ovs_ports (ks_vports st)" "vp_stats (ks_vports (kf_set_module m st)) = m"
  by (simp_all add: kf_set_module_def kf_nl_def)

lemma kflow_inv_module:
  assumes "kflow_inv P U A E br hr C st" "stats_inv m A" "wr_addr ` set (stats_writers m) = wr_addr ` set (stats_writers (vp_stats (ks_vports st)))"
  shows "kflow_inv P U A E br hr C (kf_set_module m st)"
proof -
  note D = kflow_invD [OF assms(1)]
  have "vport_inv P U A (ke_vport E) ((ks_vports st)\<lparr>vp_stats := m\<rparr>)"
    using vport_inv_frame [OF D(1) assms(2) vport_invD(4) [OF D(1)]] by simp
  moreover have "kflow_struct E br hr (kf_set_module m st)" by (rule kflow_struct_cong [OF D(2)]) simp_all
  moreover have "kflow_counts E C (kf_set_module m st)" by (rule kflow_counts_cong [OF D(3)]) simp_all
  ultimately show ?thesis using D(4,5) assms(3) by (simp add: kflow_inv_def kf_set_module_def)
qed

lemma kflow_inv_xbuf:
  assumes "kflow_inv P U A E br hr C st" "xb_wf x"
  shows "kflow_inv P U A E br hr C (st\<lparr>kflow_stats_xbuf := x\<rparr>)"
proof -
  note D = kflow_invD [OF assms(1)]
  have "kflow_struct E br hr (st\<lparr>kflow_stats_xbuf := x\<rparr>)" by (rule kflow_struct_cong [OF D(2)]) simp_all
  moreover have "kflow_counts E C (st\<lparr>kflow_stats_xbuf := x\<rparr>)" by (rule kflow_counts_cong [OF D(3)]) simp_all
  ultimately show ?thesis using D(1,5) assms(2) by (simp add: kflow_inv_def)
qed

subsection \<open>Messages\<close>

lemma put_flow_key_addr [simp]: "gm_addr (put_flow_key key msg) = gm_addr msg" "gm_family (put_flow_key key msg) = gm_family msg"
  by (simp_all add: put_flow_key_def)

lemma create_nlmsg_ok:
  assumes "pool_inv P U (nl_freelist nl)" "card U < IND_OVS_NLMSG_FREELIST_SIZE" "nlmsg_version F family \<noteq> None"
  obtains msg nl' where "ind_ovs_create_nlmsg F dp family cmd nl = Some (msg, nl')" "gm_addr msg \<in> P - U" "gm_family msg = family"
    "pool_inv P (insert (gm_addr msg) U) (nl_freelist nl')"
proof -
  obtain v where v: "nlmsg_version F family = Some v" using assms(3) by blast
  obtain m fl where m: "ind_ovs_nlmsg_freelist_alloc (nl_freelist nl) = Some (m, fl)" "m \<in> P - U" "pool_inv P (insert m U) fl"
    by (rule pool_alloc [OF assms(1,2)])
  let ?msg = "\<lparr>gm_addr = m, gm_family = family, gm_cmd = cmd, gm_version = v, gm_flags = 0, gm_dp_ifindex = dp, gm_calls = []\<rparr>"
  show thesis by (rule that [of ?msg "nl\<lparr>nl_freelist := fl\<rparr>"]) (use m v in \<open>simp_all add: ind_ovs_create_nlmsg_def\<close>)
qed

lemma flow_msg_ok:
  assumes "kflow_inv P U A E br hr C st" "card U < IND_OVS_NLMSG_FREELIST_SIZE"
  obtains msg nl where "flow_msg E cmd st = Some (msg, kf_set_nl nl st)" "gm_addr msg \<notin> U" "gm_family msg = ovs_flow_family (ve_families (ke_vport E))"
    "kflow_inv P (insert (gm_addr msg) U) A E br hr C (kf_set_nl nl st)"
proof -
  have "nlmsg_version (ve_families (ke_vport E)) (ovs_flow_family (ve_families (ke_vport E))) \<noteq> None" by (simp add: nlmsg_version_def)
  then obtain msg nl where m: "ind_ovs_create_nlmsg (ve_families (ke_vport E)) (ve_dp_ifindex (ke_vport E)) (ovs_flow_family (ve_families (ke_vport E))) cmd (kf_nl st) =
      Some (msg, nl)" "gm_addr msg \<in> P - U" "gm_family msg = ovs_flow_family (ve_families (ke_vport E))" "pool_inv P (insert (gm_addr msg) U) (nl_freelist nl)"
    using create_nlmsg_ok [OF kflow_invD(6) [OF assms(1)] assms(2)] by metis
  show thesis by (rule that [of msg nl]) (use m kflow_inv_nl [OF assms(1) m(4)] in \<open>simp_all add: flow_msg_def\<close>)
qed

lemma flow_transact_ok:
  assumes "kflow_inv P (insert a U) A E br hr C st" "gm_addr msg = a" "a \<notin> U" "card U + 2 \<le> IND_OVS_NLMSG_FREELIST_SIZE" "kernel_acks (kf_kernel E)"
  obtains err nl where "flow_transact E msg st = Some (err, kf_set_nl nl st)" "kflow_inv P U A E br hr C (kf_set_nl nl st)"
proof -
  have "finite U" using kflow_invD(7) [OF assms(1)] by simp
  then have "card (insert a U) < IND_OVS_NLMSG_FREELIST_SIZE" using assms(3,4) by simp
  then obtain nl where "ind_ovs_transact (kf_kernel E) msg (kf_nl st) = Some (fst (transact_result (kf_kernel E) msg (nl_kernel (kf_nl st))), nl)"
    "pool_inv P (insert a U - {a}) (nl_freelist nl)"
    using transact_ok [OF kflow_invD(6) [OF assms(1)] _ _ assms(5), of msg] assms(2) by auto
  moreover have "insert a U - {a} = U" using assms(3) by simp
  ultimately show thesis using that kflow_inv_nl [OF assms(1)] by (simp add: flow_transact_def)
qed

lemma flow_msg_free_ok:
  assumes "kflow_inv P (insert a U) A E br hr C st" "gm_addr msg = a" "a \<notin> U"
  obtains nl where "flow_msg_free msg st = Some (kf_set_nl nl st)" "kflow_inv P U A E br hr C (kf_set_nl nl st)"
proof -
  obtain nl where "nlmsg_free_to_pool a (kf_nl st) = Some nl" "pool_inv P (insert a U - {a}) (nl_freelist nl)"
    by (rule nlmsg_free_ok [OF kflow_invD(6) [OF assms(1)], of a]) simp_all
  moreover have "insert a U - {a} = U" using assms(3) by simp
  ultimately show thesis using that kflow_inv_nl [OF assms(1)] assms(2) by (simp add: flow_msg_free_def)
qed

subsection \<open>Statistics\<close>

lemma stats_inc_frame: "stats_inc m w h np nb = Some m' \<Longrightarrow> free_stack m' = free_stack m \<and> num_free m' = num_free m"
  by (auto simp: stats_inc_def)

lemma stats_inc_all_ok:
  "w \<in> wr_addr ` set (stats_writers m) \<Longrightarrow> \<exists>m'. stats_inc_all w np nb hs m = Some m' \<and> (\<forall>A. stats_inv m' A = stats_inv m A) \<and>
    wr_addr ` set (stats_writers m') = wr_addr ` set (stats_writers m)"
proof (induction hs arbitrary: m)
  case (Cons h hs)
  obtain m1 where m1: "stats_inc m w h np nb = Some m1" "wr_addr ` set (stats_writers m1) = wr_addr ` set (stats_writers m)"
    by (rule stats_inc_defined [OF Cons.prems])
  have "w \<in> wr_addr ` set (stats_writers m1)" using Cons.prems m1(2) by simp
  from Cons.IH [OF this] show ?case using m1 stats_inc_frame [OF m1(1)] stats_inv_cong [of m1 m] by auto
qed simp

definition stats_times :: "nat \<Rightarrow> stats \<Rightarrow> stats" where
  "stats_times n d = \<lparr>packets = of_nat n * packets d, bytes_cnt = of_nat n * bytes_cnt d\<rparr>"

lemma stats_inc_all_get:
  "stats_inc_all w np nb hs m = Some m' \<Longrightarrow> stats_get m' s = stats_add (stats_get m s) (stats_times (count_list hs s) \<lparr>packets = np, bytes_cnt = nb\<rparr>)"
proof (induction hs arbitrary: m)
  case (Cons h hs)
  from Cons.prems obtain m1 where "stats_inc m w h np nb = Some m1" "stats_inc_all w np nb hs m1 = Some m'" by (auto simp: bind_eq_Some_conv)
  then show ?case using Cons.IH stats_inc_get [of m w h np nb m1 s] by (simp add: stats_add_def stats_times_def algebra_simps)
qed (simp add: stats_add_def stats_times_def)

lemma kflow_count_ok:
  assumes "w \<in> wr_addr ` set (stats_writers m)"
  obtains s m' where "kflow_count w np nb kf m = Some (kf\<lparr>kf_stats := s\<rparr>, m')" "\<forall>A. stats_inv m' A = stats_inv m A"
    "wr_addr ` set (stats_writers m') = wr_addr ` set (stats_writers m)"
proof -
  obtain m1 where m1: "stats_inc_all w (np - packets (kf_stats kf)) (nb - bytes_cnt (kf_stats kf)) (take (unat (kf_num_stats_handles kf)) (kf_stats_handles kf)) m = Some m1"
    "\<forall>A. stats_inv m1 A = stats_inv m A" "wr_addr ` set (stats_writers m1) = wr_addr ` set (stats_writers m)"
    using stats_inc_all_ok [OF assms] by blast
  show thesis
  proof (cases "np - packets (kf_stats kf) > 0 \<or> nb - bytes_cnt (kf_stats kf) > 0")
    case True
    then show thesis using that [of "\<lparr>packets = np, bytes_cnt = nb\<rparr>" m1] m1 unfolding kflow_count_def Let_def by simp
  next
    case False
    then show thesis using that [of "kf_stats kf" m] unfolding kflow_count_def Let_def by simp
  qed
qed

lemma kflow_sync_stats_ok:
  assumes "w \<in> wr_addr ` set (stats_writers m)" "flow_reply_ok as"
  obtains s u m' where "kflow_sync_stats w (reply_attr as OVS_FLOW_ATTR_STATS) (reply_attr as OVS_FLOW_ATTR_USED) kf m = Some (kf\<lparr>kf_stats := s, kf_last_used := u\<rparr>, m')"
    "\<forall>A. stats_inv m' A = stats_inv m A" "wr_addr ` set (stats_writers m') = wr_addr ` set (stats_writers m)"
proof -
  have "\<exists>s m'. (case reply_attr as OVS_FLOW_ATTR_STATS of None \<Rightarrow> Some (kf, m) | Some a \<Rightarrow> do { np \<leftarrow> get_le 0 8 a; nb \<leftarrow> get_le 8 8 a; kflow_count w np nb kf m }) =
      Some (kf\<lparr>kf_stats := s\<rparr>, m') \<and> (\<forall>A. stats_inv m' A = stats_inv m A) \<and> wr_addr ` set (stats_writers m') = wr_addr ` set (stats_writers m)"
  proof (cases "reply_attr as OVS_FLOW_ATTR_STATS")
    case None
    then show ?thesis by (intro exI [of _ "kf_stats kf"] exI [of _ m]) simp
  next
    case (Some a)
    then have "16 \<le> length (nla_payload a)" using assms(2) by (simp add: flow_reply_ok_def)
    then obtain np nb :: u64 where "get_le 0 8 a = Some np" "get_le 8 8 a = Some nb" by (simp add: get_le_def)
    then show ?thesis using Some kflow_count_ok [OF assms(1), of np nb kf] by (simp, metis)
  qed
  then obtain s m' where r: "(case reply_attr as OVS_FLOW_ATTR_STATS of None \<Rightarrow> Some (kf, m) | Some a \<Rightarrow> do { np \<leftarrow> get_le 0 8 a; nb \<leftarrow> get_le 8 8 a; kflow_count w np nb kf m }) =
      Some (kf\<lparr>kf_stats := s\<rparr>, m')" "\<forall>A. stats_inv m' A = stats_inv m A" "wr_addr ` set (stats_writers m') = wr_addr ` set (stats_writers m)" by blast
  have "\<exists>u. (case reply_attr as OVS_FLOW_ATTR_USED of None \<Rightarrow> Some (kf\<lparr>kf_stats := s\<rparr>, m')
      | Some a \<Rightarrow> do { used \<leftarrow> nla_get_u64 a; Some (if used > kf_last_used (kf\<lparr>kf_stats := s\<rparr>) then (kf\<lparr>kf_stats := s\<rparr>)\<lparr>kf_last_used := used\<rparr> else kf\<lparr>kf_stats := s\<rparr>, m') }) =
      Some (kf\<lparr>kf_stats := s, kf_last_used := u\<rparr>, m')"
  proof (cases "reply_attr as OVS_FLOW_ATTR_USED")
    case None
    then show ?thesis by (intro exI [of _ "kf_last_used kf"]) simp
  next
    case (Some a)
    then obtain u where "nla_get_u64 a = Some u" using assms(2) by (auto simp: flow_reply_ok_def nla_get_u64_def get_le_def)
    then show ?thesis using Some by (cases "u > kf_last_used kf") (auto intro: exI [of _ "kf_last_used kf"])
  qed
  then show thesis using that r unfolding kflow_sync_stats_def by auto
qed

text \<open>Synchronising a flow only changes its statistics and the time of its last use.\<close>

definition kflow_synced :: "ind_ovs_kflow \<Rightarrow> ind_ovs_kflow \<Rightarrow> bool" where
  "kflow_synced kf kf' \<longleftrightarrow> (\<exists>s u. kf' = kf\<lparr>kf_stats := s, kf_last_used := u\<rparr>)"

lemma kflow_synced_same: "kflow_synced kf kf' \<Longrightarrow> kflow_same kf kf' \<and> kf_actions kf' = kf_actions kf \<and> kf_stats_handles kf' = kf_stats_handles kf \<and>
    kf_num_stats_handles kf' = kf_num_stats_handles kf"
  by (auto simp: kflow_synced_def kflow_same_def)

lemma kflow_synced_refl [simp]: "kflow_synced kf kf"
  unfolding kflow_synced_def by (intro exI [of _ "kf_stats kf"] exI [of _ "kf_last_used kf"]) simp

lemma sync_attrs_ok:
  assumes "kflow_inv P U A E br hr C st" "kf_heap st a = Some kf" "flow_reply_ok as"
  obtains st' kf' where "kflow_sync_attrs as a st = Some st'" "kflow_inv P U A E br hr C st'" "kf_heap st' = (kf_heap st)(a \<mapsto> kf')" "kflow_synced kf kf'"
    "kflows st' = kflows st"
proof -
  note D = kflow_invD [OF assms(1)]
  obtain s u m where r: "kflow_sync_stats (kflow_stats_writer st) (reply_attr as OVS_FLOW_ATTR_STATS) (reply_attr as OVS_FLOW_ATTR_USED) kf (vp_stats (ks_vports st)) =
      Some (kf\<lparr>kf_stats := s, kf_last_used := u\<rparr>, m)" "\<forall>A. stats_inv m A = stats_inv (vp_stats (ks_vports st)) A"
    "wr_addr ` set (stats_writers m) = wr_addr ` set (stats_writers (vp_stats (ks_vports st)))"
    by (rule kflow_sync_stats_ok [OF D(5) assms(3)])
  let ?kf = "kf\<lparr>kf_stats := s, kf_last_used := u\<rparr>"
  have "kflow_inv P U A E br hr C (kf_put a ?kf st)" by (rule kflow_inv_put [OF assms(1,2)]) (simp add: kflow_same_def)
  then have "kflow_inv P U A E br hr C (kf_set_module m (kf_put a ?kf st))"
    by (rule kflow_inv_module) (use r(2,3) vport_invD(1) [OF D(1)] in simp_all)
  then show thesis using r(1) assms(2) by (intro that [of "kf_set_module m (kf_put a ?kf st)" ?kf]) (auto simp: kflow_sync_attrs_def kflow_synced_def)
qed

lemma sync_stats_ok:
  assumes inv: "kflow_inv P U A E br hr C st" and kf: "kf_heap st a = Some kf" and U: "card U < IND_OVS_NLMSG_FREELIST_SIZE" and K: "kflow_kernel_ok E"
  obtains st' kf' where "ind_ovs_kflow_sync_stats E a st = Some st'" "kflow_inv P U A E br hr C st'" "kf_heap st' = (kf_heap st)(a \<mapsto> kf')" "kflow_synced kf kf'"
    "kflows st' = kflows st"
proof -
  obtain msg nl where m: "flow_msg E OVS_FLOW_CMD_GET st = Some (msg, kf_set_nl nl st)" "gm_addr msg \<notin> U"
    "kflow_inv P (insert (gm_addr msg) U) A E br hr C (kf_set_nl nl st)" "gm_family msg = ovs_flow_family (ve_families (ke_vport E))" by (rule flow_msg_ok [OF inv U])
  obtain err as nl' where t: "ind_ovs_transact_reply (kf_kernel E) (put_flow_key (kf_key kf) msg) nl = Some (err, as, nl')"
    "pool_inv P (insert (gm_addr msg) U - {gm_addr msg}) (nl_freelist nl')"
    "\<not> failed err \<Longrightarrow> fst (k_recv (kf_kernel E) (snd (k_send (kf_kernel E) (put_flow_key (kf_key kf) msg) (nl_kernel nl)))) = Some (NlReply as)"
    using transact_reply_ok [of P "insert (gm_addr msg) U" nl "put_flow_key (kf_key kf) msg" "kf_kernel E"] kflow_invD(6) [OF m(3)] by auto
  have "insert (gm_addr msg) U - {gm_addr msg} = U" using m(2) by simp
  then have i: "kflow_inv P U A E br hr C (kf_set_nl nl' st)" using kflow_inv_nl [OF inv] t(2) by simp
  show thesis
  proof (cases "failed err")
    case True
    then show thesis using i kf m(1) t(1) by (intro that [of "kf_set_nl nl' st" kf]) (auto simp: ind_ovs_kflow_sync_stats_def)
  next
    case False
    then have "flow_reply_ok as" using t(3) K m(4) put_flow_key_addr(2) unfolding kflow_kernel_ok_def by metis
    then obtain st' kf' where "kflow_sync_attrs as a (kf_set_nl nl' st) = Some st'" "kflow_inv P U A E br hr C st'"
      "kf_heap st' = (kf_heap st)(a \<mapsto> kf')" "kflow_synced kf kf'" "kflows st' = kflows st"
      using sync_attrs_ok [OF i, of a kf as] kf by auto
    then show thesis using that False kf m(1) t(1) by (auto simp: ind_ovs_kflow_sync_stats_def)
  qed
qed

subsection \<open>Deletion\<close>

lemma unat_ucast_u16: "unat (ucast (x :: u16) :: u32) = unat x"
  by transfer simp

lemma vport_inv_port:
  assumes "vport_inv P U A E st" "i < IND_OVS_MAX_PORTS" "ind_ovs_ports st ! i = Some p"
  shows "vport_inv P U A E (st\<lparr>ind_ovs_ports := (ind_ovs_ports st)[i := Some (p\<lparr>num_kflows := n\<rparr>)]\<rparr>)"
proof -
  note D = vport_invD [OF assms(1)]
  let ?st = "st\<lparr>ind_ovs_ports := (ind_ovs_ports st)[i := Some (p\<lparr>num_kflows := n\<rparr>)]\<rparr>"
  have "ports_ok A ((ind_ovs_ports st)[i := Some (p\<lparr>num_kflows := n\<rparr>)])" by (rule ports_ok_same [OF D(2) assms(3)]) (use assms(2) in simp_all)
  moreover have "uplink_ok ?st" by (rule uplink_ok_upd [OF D(3,6) assms(2), of "Some (p\<lparr>num_kflows := n\<rparr>)"]) (use assms(3) in \<open>simp_all add: up_running_def\<close>)
  ultimately show ?thesis using D by (simp add: vport_inv_def)
qed

lemma kf_set_port_sel [simp]:
  "kflows (kf_set_port i p st) = kflows st" "kf_heap (kf_set_port i p st) = kf_heap st" "kflow_buckets (kf_set_port i p st) = kflow_buckets st"
  "megaflow_tcam (kf_set_port i p st) = megaflow_tcam st" "kflow_stats_xbuf (kf_set_port i p st) = kflow_stats_xbuf st"
  "kflow_stats_writer (kf_set_port i p st) = kflow_stats_writer st" "vp_stats (ks_vports (kf_set_port i p st)) = vp_stats (ks_vports st)"
  "ind_ovs_ports (ks_vports (kf_set_port i p st)) = (ind_ovs_ports (ks_vports st))[i := Some p]"
  by (simp_all add: kf_set_port_def)

lemma port_dec_ok:
  assumes inv: "kflow_inv P U A E br hr C st" and kf: "kf_heap st a = Some kf" and a: "a \<in> C"
  obtains st' where "port_dec_kflows (kf_in_port kf) st = Some st'" "kflow_inv P U A E br hr (C - {a}) st'" "kf_heap st' = kf_heap st" "kflows st' = kflows st"
proof -
  note D = kflow_invD [OF inv]
  let ?i = "unat (kf_in_port kf)" let ?ps = "ind_ovs_ports (ks_vports st)"
  have i: "?i < IND_OVS_MAX_PORTS" using kflow_structD(7) [OF D(2) kf] by (simp add: kflow_ok_def)
  have C: "finite C" using D(3) by (simp add: kflow_counts_def)
  have len: "length ?ps = IND_OVS_MAX_PORTS" by (rule vport_invD(6) [OF D(1)])
  have pf: "port_flows (C - {a}) st j = (if j = ?i then port_flows C st j - {a} else port_flows C st j)" "a \<in> port_flows C st ?i" "finite (port_flows C st j)" for j
    using kf a C by (auto simp: port_flows_def)
  have at: "port_at (ks_vports st) (ucast (kf_in_port kf)) = ?ps ! ?i" using port_at_nth [OF len, of "ucast (kf_in_port kf)"] i by (simp add: unat_ucast_u16)
  show thesis
  proof (cases "?ps ! ?i")
    case None
    have "kflow_counts E (C - {a}) st" using D(3) None pf(1) by (auto simp: kflow_counts_def)
    then have "kflow_inv P U A E br hr (C - {a}) st" using D by (simp add: kflow_inv_def)
    then show thesis using that None i at by (simp add: port_dec_kflows_def)
  next
    case (Some p)
    let ?st = "kf_set_port ?i (p\<lparr>num_kflows := num_kflows p - 1\<rparr>) st"
    have c: "num_kflows p = of_nat (card (port_flows C st ?i))" "\<not> ke_benchmark_mode E \<Longrightarrow> card (port_flows C st ?i) \<le> unat IND_OVS_MAX_KFLOWS_PER_PORT"
      using D(3) i Some by (simp_all add: kflow_counts_def)
    have "card (port_flows C st ?i) = Suc (card (port_flows C st ?i - {a}))" using card.remove [OF pf(3,2)] .
    then have n: "num_kflows p - 1 = of_nat (card (port_flows C st ?i - {a}))" "card (port_flows C st ?i - {a}) \<le> card (port_flows C st ?i)" using c(1) by simp_all
    have s: "port_flows (C - {a}) ?st j = port_flows (C - {a}) st j" for j by (simp add: port_flows_def)
    have "kflow_counts E (C - {a}) ?st"
      unfolding kflow_counts_def s
    proof (intro conjI allI impI)
      fix j q assume j: "j < IND_OVS_MAX_PORTS" "ind_ovs_ports (ks_vports ?st) ! j = Some q"
      show "num_kflows q = of_nat (card (port_flows (C - {a}) st j))"
        using j len n(1) D(3) by (cases "j = ?i") (auto simp: pf(1) kflow_counts_def)
      show "card (port_flows (C - {a}) st j) \<le> unat IND_OVS_MAX_KFLOWS_PER_PORT" if "\<not> ke_benchmark_mode E"
        using j len n(2) c(2) [OF that] D(3) that by (cases "j = ?i") (auto simp: pf(1) kflow_counts_def)
    qed (use C in simp)
    moreover have "vport_inv P U A (ke_vport E) (ks_vports ?st)" using vport_inv_port [OF D(1) i Some] by (simp add: kf_set_port_def)
    moreover have "kflow_struct E br hr ?st" by (rule kflow_struct_cong [OF D(2)]) simp_all
    ultimately have "kflow_inv P U A E br hr (C - {a}) ?st" using D by (simp add: kflow_inv_def)
    then show thesis using that [of ?st] i at Some by (simp add: port_dec_kflows_def)
  qed
qed

lemma filter_key_words: "(\<forall>k :: words. length k = n \<longrightarrow> length k = m) \<Longrightarrow> m = n"
  by (metis length_replicate)

lemma kflow_unlink_ok:
  assumes inv: "kflow_inv P U A E br hr C st" and kf: "kf_heap st a = Some kf'" "kflow_same kf' kf" and a: "a \<notin> C"
  obtains st' where "kflow_unlink E a kf st = Some st'" "kflow_inv P U A E br hr C st'" "kf_heap st' = (kf_heap st)(a := None)" "kflows st' = remove1 a (kflows st)"
proof -
  note D = kflow_invD [OF inv] and S = kflow_structD [OF kflow_invD(2) [OF inv]]
  let ?f = "\<lambda>a. kf_tcam_entry (flow_at st a)" let ?b = "kflow_bucket E (kf_key kf)"
  have in_l: "a \<in> set (kflows st)" using S(2) kf(1) by auto
  have e: "?f a = kf_tcam_entry kf" "kflow_bucket E (kf_key (flow_at st a)) = ?b" using kf by (simp_all add: kflow_same_def)
  have "kf_tcam_entry kf \<in># mset (tcam_entries (megaflow_tcam st))" unfolding S(6) using in_l e(1) by force
  then obtain t where t: "tcam_remove (ke_tcam E) (megaflow_tcam st) (kf_tcam_entry kf) = Some t" "tcam_inv (ke_tcam E) br hr t"
    "mset (tcam_entries (megaflow_tcam st)) = add_mset (kf_tcam_entry kf) (mset (tcam_entries t))"
    "\<forall>k :: words. length k = key_words (megaflow_tcam st) \<longrightarrow> length k = key_words t" using tc.rm_law [OF S(4)] by blast
  let ?st = "st\<lparr>kflows := remove1 a (kflows st), kflow_buckets := (kflow_buckets st)(?b := remove1 a (kflow_buckets st ?b)), megaflow_tcam := t,
      kf_heap := (kf_heap st)(a := None)\<rparr>"
  have "add_mset (kf_tcam_entry kf) (mset (tcam_entries t)) = image_mset ?f (mset (kflows st))" using S(6) t(3) by simp
  moreover have k: "mset (kflows st) = add_mset a (mset (remove1 a (kflows st)))" using in_l by simp
  ultimately have "add_mset (kf_tcam_entry kf) (mset (tcam_entries t)) = add_mset (?f a) (image_mset ?f (mset (remove1 a (kflows st))))"
    unfolding k image_mset_add_mset by blast
  then have "mset (tcam_entries t) = image_mset ?f (mset (remove1 a (kflows st)))" unfolding e(1) by (simp only: add_mset_add_mset_same_iff)
  moreover have ne: "a \<notin> set (remove1 a (kflows st))" using S(1) by simp
  then have "image_mset (\<lambda>x. kf_tcam_entry (the (((kf_heap st)(a := None)) x))) (mset (remove1 a (kflows st))) = image_mset ?f (mset (remove1 a (kflows st)))"
    by (intro image_mset_cong) (auto simp del: mset_remove1)
  ultimately have m: "mset (tcam_entries t) = image_mset (\<lambda>x. kf_tcam_entry (flow_at ?st x)) (mset (kflows ?st))" by (simp del: mset_remove1)
  have b: "kflow_buckets ?st b = filter (\<lambda>x. kflow_bucket E (kf_key (flow_at ?st x)) = b) (kflows ?st)" for b
  proof -
    have "filter (\<lambda>x. kflow_bucket E (kf_key (flow_at ?st x)) = b) (kflows ?st) = filter (\<lambda>x. kflow_bucket E (kf_key (flow_at st x)) = b) (remove1 a (kflows st))"
      using ne by (intro filter_cong) auto
    also have "\<dots> = remove1 a (kflow_buckets st b)" unfolding S(3) by (rule filter_remove1)
    also have "\<dots> = kflow_buckets ?st b" using e(2) by (auto simp: S(3) remove1_idem)
    finally show ?thesis by simp
  qed
  have "kflow_struct E br hr ?st"
    unfolding kflow_struct_def using S(1,2,5,7) t(2) m b filter_key_words [OF t(4)] by auto
  moreover have "kflow_counts E C ?st" by (rule kflow_counts_cong [OF D(3)]) (use a in auto)
  ultimately have "kflow_inv P U A E br hr C ?st" using D by (simp add: kflow_inv_def)
  then show thesis using that [of ?st] t(1) unfolding kflow_unlink_def Let_def by simp
qed

lemma kflow_delete_ok:
  assumes inv: "kflow_inv P U A E br hr C st" and kf: "kf_heap st a = Some kf" and a: "a \<in> C" and U: "card U + 2 \<le> IND_OVS_NLMSG_FREELIST_SIZE"
    and K: "kflow_kernel_ok E"
  obtains st' where "ind_ovs_kflow_delete E a st = Some st'" "kflow_inv P U A E br hr (C - {a}) st'" "kf_heap st' = (kf_heap st)(a := None)" "kflows st' = remove1 a (kflows st)"
proof -
  have U1: "card U < IND_OVS_NLMSG_FREELIST_SIZE" and K1: "kernel_acks (kf_kernel E)" using U K by (simp_all add: kflow_kernel_ok_def)
  obtain st1 where 1: "port_dec_kflows (kf_in_port kf) st = Some st1" "kflow_inv P U A E br hr (C - {a}) st1" "kf_heap st1 = kf_heap st" "kflows st1 = kflows st"
    by (rule port_dec_ok [OF inv kf a])
  obtain st2 kf2 where 2: "ind_ovs_kflow_sync_stats E a st1 = Some st2" "kflow_inv P U A E br hr (C - {a}) st2" "kf_heap st2 = (kf_heap st1)(a \<mapsto> kf2)" "kflow_synced kf kf2"
    "kflows st2 = kflows st1" using sync_stats_ok [OF 1(2) _ U1 K, of a kf] 1(3) kf by metis
  obtain msg nl where m: "flow_msg E OVS_FLOW_CMD_DEL st2 = Some (msg, kf_set_nl nl st2)" "gm_addr msg \<notin> U"
    "kflow_inv P (insert (gm_addr msg) U) A E br hr (C - {a}) (kf_set_nl nl st2)" by (rule flow_msg_ok [OF 2(2) U1])
  obtain err nl' where t: "flow_transact E (put_flow_key (kf_key kf) msg) (kf_set_nl nl st2) = Some (err, kf_set_nl nl' (kf_set_nl nl st2))"
    "kflow_inv P U A E br hr (C - {a}) (kf_set_nl nl' (kf_set_nl nl st2))" by (rule flow_transact_ok [OF m(3) put_flow_key_addr(1) m(2) U K1])
  have "kflow_same kf2 kf" using kflow_synced_same [OF 2(4)] by (simp add: kflow_same_def)
  moreover have "kf_heap (kf_set_nl nl' st2) a = Some kf2" using 2(3) by simp
  ultimately obtain st' where "kflow_unlink E a kf (kf_set_nl nl' st2) = Some st'" "kflow_inv P U A E br hr (C - {a}) st'"
    "kf_heap st' = (kf_heap (kf_set_nl nl' st2))(a := None)" "kflows st' = remove1 a (kflows (kf_set_nl nl' st2))"
    using kflow_unlink_ok [of P U A E br hr "C - {a}" "kf_set_nl nl' st2" a kf2 kf] t(2) by auto
  then show thesis using that 1 2 m(1) t(1) kf by (simp add: ind_ovs_kflow_delete_def)
qed

subsection \<open>The pipeline's answer for a flow\<close>

text \<open>
  For a packet with key \<open>k\<close> the pipeline, started with no counters, gives this verdict, mask, actions and counters.
\<close>

definition flow_result :: "process_fn \<Rightarrow> ind_ovs_parsed_key \<Rightarrow> error \<Rightarrow> ind_ovs_parsed_key \<Rightarrow> bytes \<Rightarrow> u32 list \<Rightarrow> bool" where
  "flow_result process k err msk actions hs \<longleftrightarrow> (\<exists>x base msk' x' ctx'. xb_wf x \<and> xb_length x = 0 \<and>
     process k key_zero x (action_context_init k (Some key_zero) base) = Some (err, msk', x', ctx') \<and> ac_mask ctx' = Some msk \<and>
     actions_of base (ac_msg ctx') = Some actions \<and> stats_handles_of x' = hs)"

text \<open>A cached flow is what the pipeline gives for its key.\<close>

definition coherent :: "('k, 'd, 'b, 'h) kflow_env \<Rightarrow> process_fn \<Rightarrow> ind_ovs_kflow \<Rightarrow> bool" where
  "coherent E process kf \<longleftrightarrow> (\<exists>pkey err. ind_ovs_parse_key (ke_nl E) (kf_key kf) = Some pkey \<and> \<not> failed err \<and>
     flow_result process pkey err (kf_mask kf) (kf_actions kf) (kf_stats_handles kf))"

lemma kflow_run_ok:
  assumes "kflow_inv P U A E br hr C st" "answers process k"
  obtains err msk actions calls x where "kflow_run process k base st = Some (err, msk, calls, st\<lparr>kflow_stats_xbuf := x\<rparr>)"
    "actions_of base calls = Some actions" "flow_result process k err msk actions (stats_handles_of x)" "key_wf msk"
    "ATTR_BITMAP_TEST (populated msk) OVS_KEY_ATTR_ETHERTYPE" "kflow_inv P U A E br hr C (st\<lparr>kflow_stats_xbuf := x\<rparr>)"
proof -
  let ?x = "xbuf_reset (kflow_stats_xbuf st)"
  have x: "xb_wf ?x" "xb_length ?x = 0" using kflow_invD(4) [OF assms(1)] by (simp_all add: xbuf_reset_def xb_wf_def)
  obtain err msk' x' ctx' calls as M where r: "process k key_zero ?x (action_context_init k (Some key_zero) base) = Some (err, msk', x', ctx')" "xb_wf x'"
    "ac_msg ctx' = base @ calls" "nl_emits calls as" "ac_mask ctx' = Some M" "key_wf M" "ATTR_BITMAP_TEST (populated M) OVS_KEY_ATTR_ETHERTYPE"
    by (rule answersE [OF assms(2) x])
  have a: "actions_of base (ac_msg ctx') = Some (attrs_bytes as)" using nl_emits_tree [OF r(4)] r(3) by (simp add: actions_of_def)
  then have "flow_result process k err M (attrs_bytes as) (stats_handles_of x')" unfolding flow_result_def using x r(1,5) by blast
  then show thesis using that [of err M "ac_msg ctx'" x' "attrs_bytes as"] r a kflow_inv_xbuf [OF assms(1) r(2)] by (simp add: kflow_run_def)
qed

lemma put_flow_mask_ok: "ATTR_BITMAP_TEST (populated msk) OVS_KEY_ATTR_ETHERTYPE \<Longrightarrow> \<exists>calls'. put_flow_mask E msk calls = Some calls'"
  by (simp add: put_flow_mask_def)

subsection \<open>Revalidation\<close>

lemma set_handles_ok:
  assumes inv: "kflow_inv P U A E br hr C st" and kf: "kf_heap st a = Some kf" and U: "card U < IND_OVS_NLMSG_FREELIST_SIZE" and K: "kflow_kernel_ok E"
  obtains st' kf' where "kflow_set_handles E a hs st = Some st'" "kflow_inv P U A E br hr C st'" "kf_heap st' = (kf_heap st)(a \<mapsto> kf')" "kflows st' = kflows st"
    "kflow_same kf kf'" "kf_actions kf' = kf_actions kf" "kf_stats_handles kf' = hs"
proof (cases "length hs \<noteq> unat (kf_num_stats_handles kf) \<or> hs \<noteq> kf_stats_handles kf")
  case True
  obtain st1 kf1 where 1: "ind_ovs_kflow_sync_stats E a st = Some st1" "kflow_inv P U A E br hr C st1" "kf_heap st1 = (kf_heap st)(a \<mapsto> kf1)" "kflow_synced kf kf1"
    "kflows st1 = kflows st" by (rule sync_stats_ok [OF inv kf U K])
  let ?kf = "kf1\<lparr>kf_num_stats_handles := of_nat (length hs), kf_stats_handles := hs\<rparr>"
  have "kflow_inv P U A E br hr C (kf_put a ?kf st1)" by (rule kflow_inv_put [OF 1(2), of a kf1]) (use 1(3) in \<open>simp_all add: kflow_same_def\<close>)
  moreover have "kflow_set_handles E a hs st = Some (kf_put a ?kf st1)" unfolding kflow_set_handles_def using True kf 1(1,3) by simp
  moreover have "kflow_same kf ?kf" "kf_actions ?kf = kf_actions kf" using kflow_synced_same [OF 1(4)] by (simp_all add: kflow_same_def)
  ultimately show thesis using that [of "kf_put a ?kf st1" ?kf] 1(3,5) by simp
next
  case False
  moreover have h: "kf_heap st = (kf_heap st)(a \<mapsto> kf)" using kf by (simp add: fun_upd_idem)
  moreover have "kflow_set_handles E a hs st = Some st" unfolding kflow_set_handles_def using False kf by auto
  ultimately show thesis by (intro that [OF _ inv h]) (auto simp: kflow_same_def)
qed

text \<open>The flow at \<open>a\<close> is gone, or it is coherent; the others are as before.\<close>

definition revalidated :: "('k, 'd, 'b, 'h) kflow_env \<Rightarrow> process_fn \<Rightarrow> u64 \<Rightarrow> ('k, 'd, 'b, 'h) kflow_state \<Rightarrow> ('k, 'd, 'b, 'h) kflow_state \<Rightarrow> bool" where
  "revalidated E process a st st' \<longleftrightarrow>
     kflows st' = remove1 a (kflows st) \<and> kf_heap st' = (kf_heap st)(a := None) \<or>
     kflows st' = kflows st \<and> (\<exists>kf'. kf_heap st' = (kf_heap st)(a \<mapsto> kf') \<and> coherent E process kf')"

abbreviation kflow_inv_all ::
  "u64 set \<Rightarrow> u64 set \<Rightarrow> u32 set \<Rightarrow> ('k, 'd, 'b, 'h) kflow_env \<Rightarrow> ('b \<Rightarrow> u32 multiset \<Rightarrow> bool) \<Rightarrow> ('h \<Rightarrow> (u64 \<times> u32) set \<Rightarrow> bool) \<Rightarrow> ('k, 'd, 'b, 'h) kflow_state \<Rightarrow> bool" where
  "kflow_inv_all P U A E br hr st \<equiv> kflow_inv P U A E br hr (set (kflows st)) st"

lemma delete_all_ok:
  assumes "kflow_inv_all P U A E br hr st" "kf_heap st a = Some kf" "card U + 2 \<le> IND_OVS_NLMSG_FREELIST_SIZE" "kflow_kernel_ok E"
  obtains st' where "ind_ovs_kflow_delete E a st = Some st'" "kflow_inv_all P U A E br hr st'" "kf_heap st' = (kf_heap st)(a := None)" "kflows st' = remove1 a (kflows st)"
proof -
  note S = kflow_structD [OF kflow_invD(2) [OF assms(1)]]
  have "a \<in> set (kflows st)" using S(2) assms(2) by auto
  from kflow_delete_ok [OF assms(1,2) this assms(3,4)] obtain st' where "ind_ovs_kflow_delete E a st = Some st'" "kflow_inv P U A E br hr (set (kflows st) - {a}) st'"
    "kf_heap st' = (kf_heap st)(a := None)" "kflows st' = remove1 a (kflows st)" by metis
  moreover have "set (remove1 a (kflows st)) = set (kflows st) - {a}" using S(1) by simp
  ultimately show thesis using that by simp
qed

text \<open>The environment of release builds, with room for three messages.\<close>

definition kflow_env_ok :: "u64 set \<Rightarrow> ('k, 'd, 'b, 'h) kflow_env \<Rightarrow> bool" where
  "kflow_env_ok U E \<longleftrightarrow> card U + 3 \<le> IND_OVS_NLMSG_FREELIST_SIZE \<and> kflow_kernel_ok E \<and> ke_mask_tests E = 0"

lemma set_actions_ok:
  assumes inv: "kflow_inv_all P (insert m U) A E br hr st" "gm_addr msg = m" "m \<notin> U" and E: "kflow_env_ok U E"
    and kf: "kf_heap st a = Some kf" and msk: "ATTR_BITMAP_TEST (populated msk) OVS_KEY_ATTR_ETHERTYPE"
    and co: "coherent E process (kf\<lparr>kf_actions := actions\<rparr>)"
  obtains st' where "kflow_set_actions E process rand a msg msk actions calls st = Some st'" "kflow_inv_all P U A E br hr st'" "revalidated E process a st st'"
proof -
  have e: "card U + 2 \<le> IND_OVS_NLMSG_FREELIST_SIZE" "kernel_acks (kf_kernel E)" "kflow_kernel_ok E" "ke_mask_tests E = 0"
    using E by (simp_all add: kflow_env_ok_def kflow_kernel_ok_def)
  show thesis
  proof (cases "actions = kf_actions kf")
    case True
    obtain nl where f: "flow_msg_free msg st = Some (kf_set_nl nl st)" "kflow_inv_all P U A E br hr (kf_set_nl nl st)"
      using flow_msg_free_ok [OF inv] by auto
    moreover have "kf_heap st = (kf_heap st)(a \<mapsto> kf)" using kf by (simp add: fun_upd_idem)
    then have "revalidated E process a st (kf_set_nl nl st)" unfolding revalidated_def using co True by auto
    ultimately show thesis using that [of "kf_set_nl nl st"] True kf e(4) by (simp add: kflow_set_actions_def)
  next
    case False
    obtain calls' where c: "put_flow_mask E msk calls = Some calls'" using put_flow_mask_ok [OF msk] by blast
    obtain err nl where t: "flow_transact E (msg\<lparr>gm_calls := calls'\<rparr>) st = Some (err, kf_set_nl nl st)" "kflow_inv_all P U A E br hr (kf_set_nl nl st)"
      using flow_transact_ok [OF inv(1) _ inv(3) e(1,2), of "msg\<lparr>gm_calls := calls'\<rparr>"] inv(2) by auto
    show thesis
    proof (cases "failed err")
      case True
      obtain st' where "ind_ovs_kflow_delete E a (kf_set_nl nl st) = Some st'" "kflow_inv_all P U A E br hr st'" "kf_heap st' = (kf_heap st)(a := None)"
        "kflows st' = remove1 a (kflows st)" using delete_all_ok [OF t(2) _ e(1,3), of a kf] kf by auto
      then show thesis using that False True c t kf by (simp add: kflow_set_actions_def revalidated_def)
    next
      case ok: False
      let ?st = "kf_put a (kf\<lparr>kf_actions := actions\<rparr>) (kf_set_nl nl st)"
      have "kflow_inv_all P U A E br hr ?st" using kflow_inv_put [OF t(2), of a kf "kf\<lparr>kf_actions := actions\<rparr>"] kf by (simp add: kflow_same_def)
      then show thesis using that [of ?st] False ok c t kf e(4) co by (auto simp: kflow_set_actions_def revalidated_def)
    qed
  qed
qed

lemma invalidate_ok:
  assumes inv: "kflow_inv_all P U A E br hr st" and kf: "kf_heap st a = Some kf" and E: "kflow_env_ok U E" and pr: "\<And>k. key_wf k \<Longrightarrow> answers process k"
  obtains st' where "ind_ovs_kflow_invalidate E process rand a st = Some st'" "kflow_inv_all P U A E br hr st'" "revalidated E process a st st'"
proof -
  have e: "card U + 3 \<le> IND_OVS_NLMSG_FREELIST_SIZE" "card U + 2 \<le> IND_OVS_NLMSG_FREELIST_SIZE" "card U < IND_OVS_NLMSG_FREELIST_SIZE" "kflow_kernel_ok E"
    using E by (simp_all add: kflow_env_ok_def)
  obtain pkey where pk: "ind_ovs_parse_key (ke_nl E) (kf_key kf) = Some pkey" "key_wf pkey"
    using kflow_structD(7) [OF kflow_invD(2) [OF inv] kf] by (auto simp: kflow_ok_def)
  obtain msg nl where m: "flow_msg E OVS_FLOW_CMD_SET st = Some (msg, kf_set_nl nl st)" "gm_addr msg \<notin> U"
    "kflow_inv_all P (insert (gm_addr msg) U) A E br hr (kf_set_nl nl st)" using flow_msg_ok [OF inv e(3), where cmd = OVS_FLOW_CMD_SET] by (simp, metis)
  let ?msg = "put_flow_key (kf_key kf) msg" let ?base = "nla_nest_start (gm_calls ?msg) OVS_FLOW_ATTR_ACTIONS"
  obtain err msk actions calls x where r: "kflow_run process pkey ?base (kf_set_nl nl st) = Some (err, msk, calls, (kf_set_nl nl st)\<lparr>kflow_stats_xbuf := x\<rparr>)"
    "actions_of ?base calls = Some actions" "flow_result process pkey err msk actions (stats_handles_of x)" "key_wf msk"
    "ATTR_BITMAP_TEST (populated msk) OVS_KEY_ATTR_ETHERTYPE" "kflow_inv_all P (insert (gm_addr msg) U) A E br hr ((kf_set_nl nl st)\<lparr>kflow_stats_xbuf := x\<rparr>)"
    using kflow_run_ok [OF m(3) pr [OF pk(2)], of ?base] by (simp, metis)
  let ?st = "(kf_set_nl nl st)\<lparr>kflow_stats_xbuf := x\<rparr>"
  have h: "kf_heap ?st a = Some kf" "kf_heap ?st = kf_heap st" "kflows ?st = kflows st" using kf by simp_all
  have U: "card (insert (gm_addr msg) U) + 2 \<le> IND_OVS_NLMSG_FREELIST_SIZE" using e(1) m(2) kflow_invD(7) [OF inv] by simp
  have run: "ind_ovs_kflow_invalidate E process rand a st =
      (if failed err then do { st \<leftarrow> ind_ovs_kflow_delete E a ?st; flow_msg_free ?msg st }
       else if msk \<noteq> kf_mask kf then do { st \<leftarrow> flow_msg_free ?msg ?st; ind_ovs_kflow_delete E a st }
       else do { st \<leftarrow> kflow_set_handles E a (stats_handles_of x) ?st; kflow_set_actions E process rand a ?msg msk actions (ind_ovs_nla_nest_end calls) st })"
    using kf pk(1) m(1) r(1,2) by (simp add: ind_ovs_kflow_invalidate_def Let_def)
  consider (fail) "failed err" | (msk) "\<not> failed err" "msk \<noteq> kf_mask kf" | (same) "\<not> failed err" "msk = kf_mask kf" by blast
  then show thesis
  proof cases
    case fail
    obtain st1 where 1: "ind_ovs_kflow_delete E a ?st = Some st1" "kflow_inv_all P (insert (gm_addr msg) U) A E br hr st1" "kf_heap st1 = (kf_heap st)(a := None)"
      "kflows st1 = remove1 a (kflows st)" using delete_all_ok [OF _ h(1) U e(4)] r(6) h(2,3) by metis
    obtain nl2 where "flow_msg_free ?msg st1 = Some (kf_set_nl nl2 st1)" "kflow_inv_all P U A E br hr (kf_set_nl nl2 st1)"
      using flow_msg_free_ok [OF 1(2) _ m(2), of ?msg] by auto
    then show thesis using that [of "kf_set_nl nl2 st1"] run fail 1 by (simp add: revalidated_def)
  next
    case msk
    obtain nl2 where 1: "flow_msg_free ?msg ?st = Some (kf_set_nl nl2 ?st)" "kflow_inv_all P U A E br hr (kf_set_nl nl2 ?st)"
      using flow_msg_free_ok [of P "gm_addr msg" U A E br hr "set (kflows ?st)" ?st ?msg] r(6) m(2) by auto
    obtain st1 where "ind_ovs_kflow_delete E a (kf_set_nl nl2 ?st) = Some st1" "kflow_inv_all P U A E br hr st1" "kf_heap st1 = (kf_heap st)(a := None)"
      "kflows st1 = remove1 a (kflows st)" using delete_all_ok [OF 1(2) _ e(2,4), of a kf] h by auto
    then show thesis using that [of st1] run msk 1(1) by (simp add: revalidated_def)
  next
    case same
    have U1: "card (insert (gm_addr msg) U) < IND_OVS_NLMSG_FREELIST_SIZE" using U by simp
    obtain st1 kf1 where 1: "kflow_set_handles E a (stats_handles_of x) ?st = Some st1" "kflow_inv_all P (insert (gm_addr msg) U) A E br hr st1"
      "kf_heap st1 = (kf_heap st)(a \<mapsto> kf1)" "kflows st1 = kflows st" "kflow_same kf kf1" "kf_stats_handles kf1 = stats_handles_of x"
      using set_handles_ok [of P "insert (gm_addr msg) U" A E br hr "set (kflows ?st)" ?st a kf "stats_handles_of x"] r(6) h U1 e(4) by (metis (no_types, lifting))
    have h1: "kf_heap st1 a = Some kf1" using 1(3) by simp
    have co: "coherent E process (kf1\<lparr>kf_actions := actions\<rparr>)"
      using pk(1) r(3) same 1(5,6) unfolding coherent_def by (auto simp: kflow_same_def)
    obtain st2 where "kflow_set_actions E process rand a ?msg msk actions (ind_ovs_nla_nest_end calls) st1 = Some st2" "kflow_inv_all P U A E br hr st2"
      "revalidated E process a st1 st2" by (rule set_actions_ok [OF 1(2) put_flow_key_addr(1) m(2) E h1 r(5) co])
    then show thesis using that [of st2] run same 1 by (auto simp: revalidated_def)
  qed
qed

lemma invalidate_loop_ok:
  assumes "kflow_env_ok U E" "\<And>k. key_wf k \<Longrightarrow> answers process k"
  shows "kflow_inv_all P U A E br hr st \<Longrightarrow> distinct as \<Longrightarrow> set as \<subseteq> set (kflows st) \<Longrightarrow>
    \<exists>st'. invalidate_loop E process rand as st = Some st' \<and> kflow_inv_all P U A E br hr st' \<and> set (kflows st') \<subseteq> set (kflows st) \<and>
      (\<forall>x. x \<notin> set as \<longrightarrow> kf_heap st' x = kf_heap st x) \<and> (\<forall>x \<in> set as. \<forall>kf. kf_heap st' x = Some kf \<longrightarrow> coherent E process kf)"
proof (induction as arbitrary: st)
  case (Cons a as)
  obtain kf where kf: "kf_heap st a = Some kf" using kflow_structD(8) [OF kflow_invD(2) [OF Cons.prems(1)]] Cons.prems(3) by force
  obtain st1 where 1: "ind_ovs_kflow_invalidate E process rand a st = Some st1" "kflow_inv_all P U A E br hr st1" "revalidated E process a st st1"
    by (rule invalidate_ok [OF Cons.prems(1) kf assms])
  have d: "distinct (kflows st)" by (rule kflow_structD(1) [OF kflow_invD(2) [OF Cons.prems(1)]])
  have s: "set as \<subseteq> set (kflows st1)" "set (kflows st1) \<subseteq> set (kflows st)" "\<forall>x. x \<noteq> a \<longrightarrow> kf_heap st1 x = kf_heap st x"
    "\<forall>kf. kf_heap st1 a = Some kf \<longrightarrow> coherent E process kf"
    using 1(3) Cons.prems(2,3) d by (auto simp: revalidated_def)
  obtain st' where "invalidate_loop E process rand as st1 = Some st'" "kflow_inv_all P U A E br hr st'" "set (kflows st') \<subseteq> set (kflows st1)"
    "\<forall>x. x \<notin> set as \<longrightarrow> kf_heap st' x = kf_heap st1 x" "\<forall>x \<in> set as. \<forall>kf. kf_heap st' x = Some kf \<longrightarrow> coherent E process kf"
    using Cons.IH [OF 1(2) _ s(1)] Cons.prems(2) by auto
  then show ?case using 1(1) s Cons.prems(2) by auto
qed simp

lemma invalidate_all_ok:
  assumes "kflow_inv_all P U A E br hr st" "kflow_env_ok U E" "\<And>k. key_wf k \<Longrightarrow> answers process k"
  obtains st' where "ind_ovs_kflow_invalidate_all E process rand st = Some st'" "kflow_inv_all P U A E br hr st'" "set (kflows st') \<subseteq> set (kflows st)"
    "\<And>a kf. \<not> ke_hitless E \<Longrightarrow> kf_heap st' a = Some kf \<Longrightarrow> coherent E process kf"
proof (cases "ke_hitless E")
  case True
  then show thesis using that [of st] assms(1) by (simp add: ind_ovs_kflow_invalidate_all_def)
next
  case False
  note S = kflow_structD [OF kflow_invD(2) [OF assms(1)]]
  obtain st' where st': "invalidate_loop E process rand (kflows st) st = Some st'" "kflow_inv_all P U A E br hr st'" "set (kflows st') \<subseteq> set (kflows st)"
    "\<forall>x \<in> set (kflows st). \<forall>kf. kf_heap st' x = Some kf \<longrightarrow> coherent E process kf"
    using invalidate_loop_ok [OF assms(2,3,1) S(1) subset_refl] by blast
  have "dom (kf_heap st') = set (kflows st')" by (rule kflow_structD(2) [OF kflow_invD(2) [OF st'(2)]])
  then have "coherent E process kf" if "kf_heap st' a = Some kf" for a kf using st'(3,4) that by blast
  then show thesis using that [of st'] st' False by (simp add: ind_ovs_kflow_invalidate_all_def)
qed

subsection \<open>Addition\<close>

lemma length_key_bytes [simp]: "key_wf k \<Longrightarrow> length (key_bytes k) = 128"
  by (simp add: key_bytes_def key_wf_def)

lemma length_pkey_words [simp]: "key_wf k \<Longrightarrow> length (pkey_words k) = 32"
  by (simp add: pkey_words_def length_words_of)

text \<open>The kernel sends keys with a port of the switch, which parse.\<close>

definition flow_key_ok :: "('k, 'd, 'b, 'h) kflow_env \<Rightarrow> nla \<Rightarrow> bool" where
  "flow_key_ok E key \<longleftrightarrow> (\<exists>attr in_port pkey. nla_find (nla_children key) (attr_code OVS_KEY_ATTR_IN_PORT) = Some attr \<and> nla_get_u32 attr = Some in_port \<and>
     unat in_port < IND_OVS_MAX_PORTS \<and> ind_ovs_parse_key (ke_nl E) key = Some pkey \<and> key_wf pkey)"

definition kflow_room :: "u64 \<Rightarrow> u64 \<Rightarrow> ('k, 'd, 'b, 'h) kflow_state \<Rightarrow> bool" where
  "kflow_room a sa st \<longleftrightarrow> kf_heap st a = None \<and> sa \<notin> sh_addr ` set (shard_list (megaflow_tcam st)) \<and> length (kflows st) < 2 ^ 30"

lemma kflow_ins_ok:
  assumes "kflow_struct E br hr st" "kflow_room a sa st" "key_wf k" "key_wf m"
  shows "tcam_ins_ok (megaflow_tcam st) (a, sa, pkey_words k, pkey_words m, 0)"
proof -
  note S = kflow_structD [OF assms(1)]
  have "set (tcam_entries (megaflow_tcam st)) = set (map (\<lambda>a. kf_tcam_entry (flow_at st a)) (kflows st))" using S(6) by (rule mset_eq_setD)
  moreover have "te_addr (kf_tcam_entry (flow_at st x)) = x" if "x \<in> set (kflows st)" for x
    using S(8) [OF that] S(7) by (auto simp: kflow_ok_def)
  ultimately have "te_addr ` set (tcam_entries (megaflow_tcam st)) = set (kflows st)" by (simp add: image_image)
  moreover have "a \<notin> set (kflows st)" using assms(2) S(2) by (auto simp: kflow_room_def)
  moreover have "length (tcam_entries (megaflow_tcam st)) = length (kflows st)" using arg_cong [OF S(6), of size] by simp
  ultimately show ?thesis using assms(2-4) S(5) by (simp add: tcam_ins_ok_def kflow_room_def)
qed

lemma kflow_insert_struct:
  assumes st: "kflow_struct E br hr st" "kflow_room a sa st" and k: "key_wf pkey" "key_wf msk" "ind_ovs_parse_key (ke_nl E) key = Some pkey"
    and p: "unat in_port < IND_OVS_MAX_PORTS"
  shows "kflow_struct E br hr (kflow_insert E now a sa in_port key pkey msk actions port st)"
proof -
  note S = kflow_structD [OF st(1)]
  let ?req = "(a, sa, pkey_words pkey, pkey_words msk, 0)" let ?t = "megaflow_tcam st"
  let ?kf = "new_kflow now in_port key (tcam_new (ke_tcam E) ?t ?req) msk actions (stats_handles_of (kflow_stats_xbuf st))"
  let ?st = "kflow_insert E now a sa in_port key pkey msk actions port st"
  have a: "a \<notin> set (kflows st)" using st(2) S(2) by (auto simp: kflow_room_def)
  have t: "tcam_inv (ke_tcam E) br hr (tcam_ins (ke_tcam E) ?t ?req)"
    "mset (tcam_entries (tcam_ins (ke_tcam E) ?t ?req)) = add_mset (tcam_new (ke_tcam E) ?t ?req) (mset (tcam_entries ?t))"
    "\<forall>k :: words. length k = key_words ?t \<longrightarrow> length k = key_words (tcam_ins (ke_tcam E) ?t ?req)"
    using tc.ins_law [OF S(4) kflow_ins_ok [OF st k(1,2)]] by blast+
  have sel: "kflows ?st = kflows st @ [a]" "kf_heap ?st = (kf_heap st)(a \<mapsto> ?kf)" "megaflow_tcam ?st = tcam_ins (ke_tcam E) ?t ?req"
    "kflow_buckets ?st b = (if b = kflow_bucket E key then kflow_buckets st b @ [a] else kflow_buckets st b)" for b
    by (simp_all add: kflow_insert_def Let_def)
  have same: "flow_at ?st x = flow_at st x" if "x \<in> set (kflows st)" for x using that a by (auto simp: sel)
  have "unat (ucast in_port :: u16) = unat in_port" using p by (simp add: unsigned_ucast_eq take_bit_nat_eq_self_iff IND_OVS_MAX_PORTS_def)
  then have "kflow_ok E a ?kf" using k p by (simp add: kflow_ok_def new_kflow_def tcam_new_def)
  moreover have "image_mset (\<lambda>a. kf_tcam_entry (flow_at ?st a)) (mset (kflows st)) = image_mset (\<lambda>a. kf_tcam_entry (flow_at st a)) (mset (kflows st))"
    using same by (intro image_mset_cong) auto
  moreover have "filter (\<lambda>a. kflow_bucket E (kf_key (flow_at ?st a)) = b) (kflows st) = kflow_buckets st b" for b
    unfolding S(3) using same by (intro filter_cong) auto
  moreover have "flow_at ?st a = ?kf" "kf_key ?kf = key" "kf_tcam_entry ?kf = tcam_new (ke_tcam E) ?t ?req" by (simp_all add: sel(2) new_kflow_def)
  ultimately show ?thesis
    unfolding kflow_struct_def sel(1,3,4) using S(1,2,5,6,7) a t(1,2) filter_key_words [OF t(3)] by (auto simp: sel(2))
qed

lemma kflow_insert_inv:
  assumes inv: "kflow_inv_all P U A E br hr st" and room: "kflow_room a sa st" and k: "key_wf pkey" "key_wf msk" "ind_ovs_parse_key (ke_nl E) key = Some pkey"
    and p: "unat in_port < IND_OVS_MAX_PORTS" "ind_ovs_ports (ks_vports st) ! unat in_port = Some port"
      "ke_benchmark_mode E \<or> num_kflows port < IND_OVS_MAX_KFLOWS_PER_PORT"
  shows "kflow_inv_all P U A E br hr (kflow_insert E now a sa in_port key pkey msk actions port st)"
proof -
  let ?st = "kflow_insert E now a sa in_port key pkey msk actions port st" let ?i = "unat in_port" let ?C = "set (kflows st)"
  note D = kflow_invD [OF inv]
  have a: "a \<notin> ?C" using room kflow_structD(2) [OF D(2)] by (auto simp: kflow_room_def)
  have len: "length (ind_ovs_ports (ks_vports st)) = IND_OVS_MAX_PORTS" by (rule vport_invD(6) [OF D(1)])
  have sel: "kflows ?st = kflows st @ [a]" "ks_vports ?st = (ks_vports st)\<lparr>ind_ovs_ports := (ind_ovs_ports (ks_vports st))[?i := Some (port\<lparr>num_kflows := num_kflows port + 1\<rparr>)]\<rparr>"
    "kflow_stats_xbuf ?st = kflow_stats_xbuf st" "kflow_stats_writer ?st = kflow_stats_writer st"
    by (simp_all add: kflow_insert_def Let_def kf_set_port_def kf_put_def)
  have "unat (ucast in_port :: u16) = ?i" using p(1) by (simp add: unsigned_ucast_eq take_bit_nat_eq_self_iff IND_OVS_MAX_PORTS_def)
  then have at: "unat (kf_in_port (flow_at ?st x)) = (if x = a then ?i else unat (kf_in_port (flow_at st x)))" for x
    by (simp add: kflow_insert_def Let_def new_kflow_def)
  have pf: "port_flows (insert a ?C) ?st j = (if j = ?i then insert a (port_flows ?C st j) else port_flows ?C st j)" "a \<notin> port_flows ?C st j" "finite (port_flows ?C st j)" for j
    using a unfolding port_flows_def at by auto
  let ?n = "card (port_flows ?C st ?i)"
  have c: "num_kflows port = of_nat ?n" "\<not> ke_benchmark_mode E \<Longrightarrow> ?n \<le> unat IND_OVS_MAX_KFLOWS_PER_PORT"
    using D(3) p(1,2) by (simp_all add: kflow_counts_def)
  have "?n < unat IND_OVS_MAX_KFLOWS_PER_PORT" if "\<not> ke_benchmark_mode E"
  proof -
    have "?n < 2 ^ 32" using c(2) [OF that] by (simp add: IND_OVS_MAX_KFLOWS_PER_PORT_def)
    then have "unat (num_kflows port) = ?n" unfolding c(1) by (simp add: unat_of_nat take_bit_nat_eq_self_iff)
    then show ?thesis using p(3) that by (simp add: word_less_nat_alt)
  qed
  then have "kflow_counts E (insert a ?C) ?st"
    unfolding kflow_counts_def pf(1) using D(3) c(1) pf(2,3) len p(1) by (auto simp: sel(2) kflow_counts_def nth_list_update split: if_splits)
  moreover have "vport_inv P U A (ke_vport E) (ks_vports ?st)" unfolding sel(2) by (rule vport_inv_port [OF D(1) p(1,2)])
  ultimately show ?thesis using D kflow_insert_struct [OF D(2) room k p(1)] unfolding kflow_inv_def sel by simp
qed

text \<open>Adding a flow either leaves the cache alone or appends a flow that is coherent.\<close>

definition kflow_added :: "('k, 'd, 'b, 'h) kflow_env \<Rightarrow> process_fn \<Rightarrow> u64 \<Rightarrow> ('k, 'd, 'b, 'h) kflow_state \<Rightarrow> ('k, 'd, 'b, 'h) kflow_state \<Rightarrow> bool" where
  "kflow_added E process a st st' \<longleftrightarrow> kflows st' = kflows st \<and> kf_heap st' = kf_heap st \<or>
     kflows st' = kflows st @ [a] \<and> (\<exists>kf. kf_heap st' = (kf_heap st)(a \<mapsto> kf) \<and> coherent E process kf)"

lemma kflow_added_refl: "kflow_added E process a st st"
  by (simp add: kflow_added_def)

lemma kflow_create_ok:
  assumes inv: "kflow_inv_all P U A E br hr st" and E: "kflow_env_ok U E" and pr: "\<And>k. key_wf k \<Longrightarrow> answers process k" and room: "kflow_room a sa st"
    and k: "key_wf pkey" "ind_ovs_parse_key (ke_nl E) key = Some pkey"
    and p: "unat in_port < IND_OVS_MAX_PORTS" "ind_ovs_ports (ks_vports st) ! unat in_port = Some port"
      "ke_benchmark_mode E \<or> num_kflows port < IND_OVS_MAX_KFLOWS_PER_PORT"
  obtains err st' where "kflow_create E process rand now a sa in_port key pkey port st = Some (err, st')" "kflow_inv_all P U A E br hr st'" "kflow_added E process a st st'"
proof -
  have e: "card U + 2 \<le> IND_OVS_NLMSG_FREELIST_SIZE" "card U < IND_OVS_NLMSG_FREELIST_SIZE" "kernel_acks (kf_kernel E)" "ke_mask_tests E = 0"
    using E by (simp_all add: kflow_env_ok_def kflow_kernel_ok_def)
  obtain msg nl where m: "flow_msg E OVS_FLOW_CMD_NEW st = Some (msg, kf_set_nl nl st)" "gm_addr msg \<notin> U"
    "kflow_inv_all P (insert (gm_addr msg) U) A E br hr (kf_set_nl nl st)" using flow_msg_ok [OF inv e(2), where cmd = OVS_FLOW_CMD_NEW] by (simp, metis)
  let ?msg = "put_flow_key key msg" let ?base = "nla_nest_start (gm_calls ?msg) OVS_FLOW_ATTR_ACTIONS"
  obtain err msk actions calls x where r: "kflow_run process pkey ?base (kf_set_nl nl st) = Some (err, msk, calls, (kf_set_nl nl st)\<lparr>kflow_stats_xbuf := x\<rparr>)"
    "actions_of ?base calls = Some actions" "flow_result process pkey err msk actions (stats_handles_of x)" "key_wf msk"
    "ATTR_BITMAP_TEST (populated msk) OVS_KEY_ATTR_ETHERTYPE" "kflow_inv_all P (insert (gm_addr msg) U) A E br hr ((kf_set_nl nl st)\<lparr>kflow_stats_xbuf := x\<rparr>)"
    using kflow_run_ok [OF m(3) pr [OF k(1)], of ?base] by (simp, metis)
  let ?st = "(kf_set_nl nl st)\<lparr>kflow_stats_xbuf := x\<rparr>"
  obtain calls' where c: "put_flow_mask E msk (ind_ovs_nla_nest_end calls) = Some calls'" using put_flow_mask_ok [OF r(5)] by blast
  show thesis
  proof (cases "failed err")
    case True
    obtain nl2 where "flow_msg_free ?msg ?st = Some (kf_set_nl nl2 ?st)" "kflow_inv_all P U A E br hr (kf_set_nl nl2 ?st)"
      using flow_msg_free_ok [OF r(6) put_flow_key_addr(1) m(2)] by (metis kf_set_sel(1))
    then show thesis using that [of err "kf_set_nl nl2 ?st"] True m(1) r(1) by (simp add: kflow_create_def Let_def kflow_added_def)
  next
    case False
    obtain err2 nl2 where t: "flow_transact E (?msg\<lparr>gm_calls := calls'\<rparr>) ?st = Some (err2, kf_set_nl nl2 ?st)" "kflow_inv_all P U A E br hr (kf_set_nl nl2 ?st)"
      using flow_transact_ok [OF r(6) _ m(2) e(1,3), of "?msg\<lparr>gm_calls := calls'\<rparr>"] by (simp, metis)
    let ?st2 = "kf_set_nl nl2 ?st"
    have run: "kflow_create E process rand now a sa in_port key pkey port st =
        (if failed err2 then Some (ERROR_UNKNOWN, ?st2) else Some (ERROR_NONE, kflow_insert E now a sa in_port key pkey msk actions port ?st2))"
      using False m(1) r(1,2) c t(1) e(4) by (simp add: kflow_create_def Let_def)
    show thesis
    proof (cases "failed err2")
      case True
      then show thesis using that run t(2) by (simp add: kflow_added_def)
    next
      case ok: False
      let ?st3 = "kflow_insert E now a sa in_port key pkey msk actions port ?st2"
      have "kflow_room a sa ?st2" using room by (simp add: kflow_room_def)
      then have "kflow_inv_all P U A E br hr ?st3" by (rule kflow_insert_inv [OF t(2) _ k(1) r(4) k(2) p(1) _ p(3)]) (use p(2) in simp)
      note i3 = this
      let ?te = "tcam_new (ke_tcam E) (megaflow_tcam ?st2) (a, sa, pkey_words pkey, pkey_words msk, 0)"
      have "kf_heap ?st3 = (kf_heap st)(a \<mapsto> new_kflow now in_port key ?te msk actions (stats_handles_of x))" "kflows ?st3 = kflows st @ [a]"
        by (simp_all add: kflow_insert_def Let_def)
      moreover have "coherent E process (new_kflow now in_port key ?te msk actions (stats_handles_of x))"
        unfolding coherent_def using False r(3) k(2) by (auto simp: new_kflow_def)
      ultimately have "kflow_added E process a st ?st3" unfolding kflow_added_def by blast
      moreover note i3
      ultimately show thesis using that run ok by simp
    qed
  qed
qed

lemma kflow_add_ok:
  assumes inv: "kflow_inv_all P U A E br hr st" and E: "kflow_env_ok U E" and pr: "\<And>k. key_wf k \<Longrightarrow> answers process k" and room: "kflow_room a sa st"
    and key: "flow_key_ok E key"
  obtains err st' where "ind_ovs_kflow_add E process rand now a sa key st = Some (err, st')" "kflow_inv_all P U A E br hr st'" "kflow_added E process a st st'"
proof -
  obtain attr in_port pkey where k: "nla_find (nla_children key) (attr_code OVS_KEY_ATTR_IN_PORT) = Some attr" "nla_get_u32 attr = Some in_port"
    "unat in_port < IND_OVS_MAX_PORTS" "ind_ovs_parse_key (ke_nl E) key = Some pkey" "key_wf pkey" using key by (auto simp: flow_key_ok_def)
  have at: "port_at (ks_vports st) in_port = ind_ovs_ports (ks_vports st) ! unat in_port"
    by (rule port_at_nth [OF vport_invD(6) [OF kflow_invD(1) [OF inv]] k(3)])
  note goal = that
  have none: thesis if "ind_ovs_kflow_add E process rand now a sa key st = Some (err, st)" for err
    by (rule goal [OF that inv kflow_added_refl])
  show thesis
  proof (cases "ke_hitless E \<or> ind_ovs_ports (ks_vports st) ! unat in_port = None")
    case True
    then show thesis using none k at by (auto simp: ind_ovs_kflow_add_def)
  next
    case False
    then obtain port where p: "\<not> ke_hitless E" "ind_ovs_ports (ks_vports st) ! unat in_port = Some port" by blast
    show thesis
    proof (cases "\<not> ke_benchmark_mode E \<and> num_kflows port \<ge> IND_OVS_MAX_KFLOWS_PER_PORT \<or> kflow_match E pkey st \<noteq> None")
      case True
      then have "ind_ovs_kflow_add E process rand now a sa key st =
          Some (if \<not> ke_benchmark_mode E \<and> num_kflows port \<ge> IND_OVS_MAX_KFLOWS_PER_PORT then ERROR_RESOURCE else ERROR_NONE, st)"
        using k at p by (auto simp: ind_ovs_kflow_add_def)
      then show thesis by (rule none)
    next
      case False
      then have "ke_benchmark_mode E \<or> num_kflows port < IND_OVS_MAX_KFLOWS_PER_PORT" by auto
      from kflow_create_ok [OF inv E pr room k(5,4,3) p(2) this, where rand = rand and now = now]
      obtain err st' where "kflow_create E process rand now a sa in_port key pkey port st = Some (err, st')" "kflow_inv_all P U A E br hr st'" "kflow_added E process a st st'" by metis
      moreover have "ind_ovs_kflow_add E process rand now a sa key st = kflow_create E process rand now a sa in_port key pkey port st"
        using False k at p by (auto simp: ind_ovs_kflow_add_def)
      ultimately show thesis using goal by metis
    qed
  qed
qed

subsection \<open>Expiration\<close>

lemma bucket_find_ok:
  "(\<And>x. x \<in> set as \<Longrightarrow> kf_heap st x \<noteq> None) \<Longrightarrow> \<exists>r. bucket_find st key as = Some r \<and> (\<forall>a. r = Some a \<longrightarrow> a \<in> set as)"
  by (induction as) (fastforce simp: bind_eq_Some_conv)+

text \<open>No flow is new, and those that remain only have newer statistics.\<close>

definition kflow_aged :: "('k, 'd, 'b, 'h) kflow_state \<Rightarrow> ('k, 'd, 'b, 'h) kflow_state \<Rightarrow> bool" where
  "kflow_aged st st' \<longleftrightarrow> (\<forall>a kf. kf_heap st' a = Some kf \<longrightarrow> (\<exists>kf0. kf_heap st a = Some kf0 \<and> kflow_synced kf0 kf))"

lemma kflow_synced_trans: "kflow_synced k1 k2 \<Longrightarrow> kflow_synced k2 k3 \<Longrightarrow> kflow_synced k1 k3"
  unfolding kflow_synced_def
proof (elim exE)
  fix s u s' u' assume "k2 = k1\<lparr>kf_stats := s, kf_last_used := u\<rparr>" "k3 = k2\<lparr>kf_stats := s', kf_last_used := u'\<rparr>"
  then show "\<exists>s u. k3 = k1\<lparr>kf_stats := s, kf_last_used := u\<rparr>" by (intro exI [of _ s'] exI [of _ u']) simp
qed

lemma kflow_aged_trans: "kflow_aged s1 s2 \<Longrightarrow> kflow_aged s2 s3 \<Longrightarrow> kflow_aged s1 s3"
  unfolding kflow_aged_def by (meson kflow_synced_trans)

lemma kflow_aged_refl: "kf_heap st' = kf_heap st \<Longrightarrow> kflow_aged st st'"
  by (auto simp: kflow_aged_def)

lemma kflow_expire_ok:
  assumes inv: "kflow_inv_all P U A E br hr st" and E: "kflow_env_ok U E" and as: "flow_reply_ok as" "reply_attr as OVS_FLOW_ATTR_KEY = Some key"
  obtains st' where "kflow_expire E now as st = Some st'" "kflow_inv_all P U A E br hr st'" "kflow_aged st st'"
proof -
  note S = kflow_structD [OF kflow_invD(2) [OF inv]]
  have e: "card U + 2 \<le> IND_OVS_NLMSG_FREELIST_SIZE" "kflow_kernel_ok E" using E by (simp_all add: kflow_env_ok_def)
  have "set (kflow_buckets st (kflow_bucket E key)) \<subseteq> dom (kf_heap st)" unfolding S(3) S(2) by auto
  then obtain r where r: "kflow_lookup E key st = Some r" "\<And>a. r = Some a \<Longrightarrow> kf_heap st a \<noteq> None"
    using bucket_find_ok [of "kflow_buckets st (kflow_bucket E key)" st key] unfolding kflow_lookup_def by blast
  show thesis
  proof (cases r)
    case None
    then show thesis using that [of st] inv as(2) r(1) kflow_aged_refl [of st st] by (simp add: kflow_expire_def)
  next
    case (Some a)
    then obtain kf where kf: "kf_heap st a = Some kf" using r(2) by blast
    obtain st1 kf1 where 1: "kflow_sync_attrs as a st = Some st1" "kflow_inv_all P U A E br hr st1" "kf_heap st1 = (kf_heap st)(a \<mapsto> kf1)" "kflow_synced kf kf1"
      using sync_attrs_ok [OF inv kf as(1)] by metis
    have aged: "kflow_aged st st1" using 1(3,4) kf by (auto simp: kflow_aged_def)
    have h1: "kf_heap st1 a = Some kf1" using 1(3) by simp
    show thesis
    proof (cases "now div 1000 - kf_last_used kf1 \<ge> IND_OVS_KFLOW_EXPIRATION_MS")
      case True
      obtain st2 where 2: "ind_ovs_kflow_delete E a st1 = Some st2" "kflow_inv_all P U A E br hr st2" "kf_heap st2 = (kf_heap st1)(a := None)"
        by (rule delete_all_ok [OF 1(2) h1 e])
      moreover have "kflow_aged st1 st2" using 2(3) by (auto simp: kflow_aged_def split: if_splits)
      ultimately show thesis using that [of st2] as(2) r(1) Some 1(1) h1 True kflow_aged_trans [OF aged] by (simp add: kflow_expire_def)
    next
      case False
      then show thesis using that [of st1] as(2) r(1) Some 1(1,2) h1 aged by (simp add: kflow_expire_def)
    qed
  qed
qed

definition dump_ok :: "nla list \<Rightarrow> bool" where
  "dump_ok as \<longleftrightarrow> flow_reply_ok as \<and> reply_attr as OVS_FLOW_ATTR_KEY \<noteq> None"

lemma kflow_inv_running: "kflow_inv P U A E br hr C (st\<lparr>kflow_expire_task_running := v\<rparr>) = kflow_inv P U A E br hr C st"
  "kflow_inv P U A E br hr C (st\<lparr>kf_counters := c\<rparr>) = kflow_inv P U A E br hr C st"
  by (simp_all add: kflow_inv_def kflow_struct_def kflow_counts_def port_flows_def)

lemma expire_task_ok:
  assumes "kflow_env_ok U E"
  shows "kflow_inv_all P U A E br hr st \<Longrightarrow> (\<And>y now as. (y, now, as) \<in> set ms \<Longrightarrow> dump_ok as) \<Longrightarrow>
    \<exists>go ms' st'. kflow_expire_task E ms st = Some (go, ms', st') \<and> kflow_inv_all P U A E br hr st' \<and> kflow_aged st st' \<and> (go \<longleftrightarrow> ms' \<noteq> [])"
proof (induction ms arbitrary: st)
  case Nil
  then show ?case by (auto simp: kflow_inv_running kflow_aged_refl)
next
  case (Cons m ms)
  obtain y now as where m: "m = (y, now, as)" by (cases m)
  then have d: "dump_ok as" using Cons.prems(2) [of y now as] by simp
  show ?case
  proof (cases y)
    case True
    then show ?thesis using m Cons.prems(1) by (auto simp: kflow_aged_refl)
  next
    case False
    obtain st1 where 1: "kflow_expire E now as st = Some st1" "kflow_inv_all P U A E br hr st1" "kflow_aged st st1"
      using kflow_expire_ok [OF Cons.prems(1) assms, where now = now] d unfolding dump_ok_def by blast
    have "\<exists>go ms' st'. kflow_expire_task E ms st1 = Some (go, ms', st') \<and> kflow_inv_all P U A E br hr st' \<and> kflow_aged st1 st' \<and> (go \<longleftrightarrow> ms' \<noteq> [])"
      by (rule Cons.IH [OF 1(2)]) (use Cons.prems(2) in auto)
    then show ?thesis using False m 1 kflow_aged_trans by fastforce
  qed
qed

lemma update_datapath_stats_ok:
  assumes inv: "kflow_inv_all P U A E br hr st" and E: "kflow_env_ok U E"
  obtains st' where "update_datapath_stats E st = Some st'" "kflow_inv_all P U A E br hr st'" "kf_heap st' = kf_heap st"
proof -
  let ?F = "ve_families (ke_vport E)"
  have e: "card U < IND_OVS_NLMSG_FREELIST_SIZE" "kflow_kernel_ok E" using E by (simp_all add: kflow_env_ok_def)
  have "nlmsg_version ?F (ovs_datapath_family ?F) \<noteq> None" by (simp add: nlmsg_version_def)
  then obtain msg nl where m: "ind_ovs_create_nlmsg ?F (ve_dp_ifindex (ke_vport E)) (ovs_datapath_family ?F) OVS_DP_CMD_GET (kf_nl st) = Some (msg, nl)"
    "gm_addr msg \<in> P - U" "gm_family msg = ovs_datapath_family ?F" "pool_inv P (insert (gm_addr msg) U) (nl_freelist nl)"
    using create_nlmsg_ok [OF kflow_invD(6) [OF inv] e(1)] by metis
  obtain err as nl' where t: "ind_ovs_transact_reply (kf_kernel E) msg nl = Some (err, as, nl')"
    "pool_inv P (insert (gm_addr msg) U - {gm_addr msg}) (nl_freelist nl')"
    "\<not> failed err \<Longrightarrow> fst (k_recv (kf_kernel E) (snd (k_send (kf_kernel E) msg (nl_kernel nl)))) = Some (NlReply as)"
    using transact_reply_ok [of P "insert (gm_addr msg) U" nl msg "kf_kernel E"] m(4) by auto
  have "insert (gm_addr msg) U - {gm_addr msg} = U" using m(2) by auto
  then have i: "kflow_inv_all P U A E br hr (kf_set_nl nl' st)" using kflow_inv_nl [OF inv] t(2) by simp
  show thesis
  proof (cases "failed err")
    case True
    then show thesis using that [of "kf_set_nl nl' st"] i m(1) t(1) by (simp add: update_datapath_stats_def Let_def)
  next
    case False
    then have d: "dp_reply_ok as" using t(3) e(2) m(3) unfolding kflow_kernel_ok_def by blast
    have "update_datapath_stats E st \<noteq> None"
      using d False m(1) t(1) by (auto simp: update_datapath_stats_def Let_def dp_reply_ok_def get_le_def split: option.splits)
    then obtain c where "update_datapath_stats E st = Some ((kf_set_nl nl' st)\<lparr>kf_counters := c\<rparr>)"
      using False m(1) t(1) by (auto simp: update_datapath_stats_def Let_def bind_eq_Some_conv)
    then show thesis using that [of "(kf_set_nl nl' st)\<lparr>kf_counters := c\<rparr>"] i by (simp add: kflow_inv_running)
  qed
qed

subsection \<open>Set-up\<close>

lemma kflow_init_inv:
  assumes "ind_ovs_kflow_module_init E junk salt w vp = Some st" "env_ok (ke_tcam E) br hr" "vport_inv P U A (ke_vport E) vp"
    "\<And>p. Some p \<in> set (ind_ovs_ports vp) \<Longrightarrow> num_kflows p = 0"
  shows "kflow_inv_all P U A E br hr st"
proof -
  obtain x t where x: "xbuf_init junk = Some x" and t: "tcam_create (ke_tcam E) 128 salt = Some t"
    and st: "ks_vports st = vp\<lparr>vp_stats := stats_writer_create (vp_stats vp) w\<rparr>" "kflows st = []" "kf_heap st = (\<lambda>_. None)" "kflow_buckets st = (\<lambda>_. [])"
      "kflow_stats_xbuf st = x" "kflow_stats_writer st = w" "megaflow_tcam st = t"
    using assms(1) by (auto simp: ind_ovs_kflow_module_init_def bind_eq_Some_conv)
  note T = tcam_create_inv [OF assms(2) t]
  have "stats_inv (stats_writer_create (vp_stats vp) w) A" using vport_invD(1) [OF assms(3)] by (simp add: stats_writer_create_def stats_inv_def)
  then have "vport_inv P U A (ke_vport E) (ks_vports st)" using vport_inv_frame [OF assms(3) _ vport_invD(4) [OF assms(3)]] by (simp add: st)
  moreover have "kflow_struct E br hr st" using T by (simp add: kflow_struct_def st)
  moreover have "num_kflows p = 0" if "i < IND_OVS_MAX_PORTS" "ind_ovs_ports vp ! i = Some p" for i p
    using assms(4) [of p] nth_mem [of i "ind_ovs_ports vp"] vport_invD(6) [OF assms(3)] that by simp
  then have "kflow_counts E {} st" by (simp add: kflow_counts_def port_flows_def st)
  moreover have "xb_wf x" using xbuf_init_holds [of junk] x by (auto simp: xb_holds_def)
  ultimately show ?thesis by (simp add: kflow_inv_def st stats_writer_create_def)
qed

subsection \<open>Histories\<close>

text \<open>What happens to the cache; the pipeline may be another one each time.\<close>

datatype kflow_op =
    KflowAdd process_fn "nat \<Rightarrow> bytes" u64 u64 u64 nla
  | KflowInvalidateAll process_fn "nat \<Rightarrow> bytes"
  | KflowExpire bool u64
  | KflowExpireTask "(bool \<times> u64 \<times> nla list) list"

fun kflow_do :: "('k, 'd, 'b, 'h) kflow_env \<Rightarrow> kflow_op \<Rightarrow> ('k, 'd, 'b, 'h) kflow_state \<Rightarrow> ('k, 'd, 'b, 'h) kflow_state option" where
  "kflow_do E (KflowAdd process rand now a sa key) st = map_option snd (ind_ovs_kflow_add E process rand now a sa key st)"
| "kflow_do E (KflowInvalidateAll process rand) st = ind_ovs_kflow_invalidate_all E process rand st"
| "kflow_do E (KflowExpire registered addr) st = ind_ovs_kflow_expire E registered addr st"
| "kflow_do E (KflowExpireTask ms) st = map_option (snd \<circ> snd) (kflow_expire_task E ms st)"

text \<open>
  What is asked of the surroundings: a pipeline that answers, keys and dumps as the kernel sends them, fresh memory, and a socket manager
  and a kernel that take the expiration task.
\<close>

fun kflow_op_ok :: "('k, 'd, 'b, 'h) kflow_env \<Rightarrow> kflow_op \<Rightarrow> ('k, 'd, 'b, 'h) kflow_state \<Rightarrow> bool" where
  "kflow_op_ok E (KflowAdd process rand now a sa key) st \<longleftrightarrow> (\<forall>k. key_wf k \<longrightarrow> answers process k) \<and> kflow_room a sa st \<and> flow_key_ok E key"
| "kflow_op_ok E (KflowInvalidateAll process rand) st \<longleftrightarrow> (\<forall>k. key_wf k \<longrightarrow> answers process k)"
| "kflow_op_ok E (KflowExpire registered addr) st \<longleftrightarrow> registered \<and> (\<forall>k. 0 \<le> fst (k_send (kf_kernel E) (flow_dump_msg E addr) k))"
| "kflow_op_ok E (KflowExpireTask ms) st \<longleftrightarrow> (\<forall>(y, now, as) \<in> set ms. dump_ok as)"

inductive kflow_reach :: "('k, 'd, 'b, 'h) kflow_env \<Rightarrow> ('k, 'd, 'b, 'h) kflow_state \<Rightarrow> ('k, 'd, 'b, 'h) kflow_state \<Rightarrow> bool" for E st0 where
  kflow_start: "kflow_reach E st0 st0"
| kflow_step: "kflow_reach E st0 st \<Longrightarrow> kflow_op_ok E op st \<Longrightarrow> kflow_do E op st = Some st' \<Longrightarrow> kflow_reach E st0 st'"

lemma kflow_expire_start_ok:
  assumes inv: "kflow_inv_all P U A E br hr st" and E: "kflow_env_ok U E" and ok: "registered" "\<forall>k. 0 \<le> fst (k_send (kf_kernel E) (flow_dump_msg E addr) k)"
  obtains st' where "ind_ovs_kflow_expire E registered addr st = Some st'" "kflow_inv_all P U A E br hr st'" "kf_heap st' = kf_heap st"
proof (cases "kflow_expire_task_running st")
  case True
  then show thesis using that [of st] inv by (simp add: ind_ovs_kflow_expire_def)
next
  case False
  obtain st1 where 1: "update_datapath_stats E st = Some st1" "kflow_inv_all P U A E br hr st1" "kf_heap st1 = kf_heap st"
    by (rule update_datapath_stats_ok [OF inv E])
  show thesis
  proof (cases "ke_hitless E")
    case True
    then show thesis using that [of st1] 1 False by (simp add: ind_ovs_kflow_expire_def)
  next
    case h: False
    obtain e k where s: "k_send (kf_kernel E) (flow_dump_msg E addr) (nl_kernel (kf_nl st1)) = (e, k)" by fastforce
    have "0 \<le> e" using ok(2) [rule_format, of "nl_kernel (kf_nl st1)"] s by simp
    moreover let ?st = "(kf_set_nl ((kf_nl st1)\<lparr>nl_kernel := k\<rparr>) st1)\<lparr>kflow_expire_task_running := True\<rparr>"
    have "kflow_inv_all P U A E br hr ?st"
      using kflow_inv_nl [OF 1(2), of U "(kf_nl st1)\<lparr>nl_kernel := k\<rparr>"] kflow_invD(6) [OF 1(2)] by (simp add: kflow_inv_running)
    ultimately show thesis using that [of ?st] 1 False h s ok(1) by (simp add: ind_ovs_kflow_expire_def)
  qed
qed

lemma kflow_do_ok:
  assumes inv: "kflow_inv_all P U A E br hr st" and E: "kflow_env_ok U E" and ok: "kflow_op_ok E op st"
  obtains st' where "kflow_do E op st = Some st'" "kflow_inv_all P U A E br hr st'"
proof (cases op)
  case (KflowAdd process rand now a sa key)
  then have g: "\<And>k. key_wf k \<Longrightarrow> answers process k" "kflow_room a sa st" "flow_key_ok E key" using ok by auto
  obtain err st' where "ind_ovs_kflow_add E process rand now a sa key st = Some (err, st')" "kflow_inv_all P U A E br hr st'"
    by (rule kflow_add_ok [OF inv E g])
  then show thesis using that KflowAdd by simp
next
  case (KflowInvalidateAll process rand)
  then have g: "\<And>k. key_wf k \<Longrightarrow> answers process k" using ok by auto
  show thesis by (rule invalidate_all_ok [OF inv E g, of rand]) (use that KflowInvalidateAll in auto)
next
  case (KflowExpire registered addr)
  then have g: registered "\<forall>k. 0 \<le> fst (k_send (kf_kernel E) (flow_dump_msg E addr) k)" using ok by auto
  obtain st' where "ind_ovs_kflow_expire E registered addr st = Some st'" "kflow_inv_all P U A E br hr st'" by (rule kflow_expire_start_ok [OF inv E g])
  then show thesis using that KflowExpire by simp
next
  case (KflowExpireTask ms)
  then have "\<And>y now as. (y, now, as) \<in> set ms \<Longrightarrow> dump_ok as" using ok by auto
  then show thesis using expire_task_ok [OF E inv, of ms] that KflowExpireTask by auto
qed

lemma kflow_reach_all:
  assumes "kflow_reach E st0 st" "kflow_inv_all P U A E br hr st0" "kflow_env_ok U E"
  shows "kflow_inv_all P U A E br hr st"
  using assms(1)
proof induction
  case (kflow_step st op st')
  then show ?case using kflow_do_ok [OF kflow_step.IH assms(3) kflow_step.hyps(2)] by (metis option.inject)
qed (rule assms(2))

lemma flow_result_agrees:
  assumes "masks_soundly process k k'" "answers process k'" "flow_result process k err msk actions hs" "key_agree msk k k'"
  obtains msk' where "flow_result process k' err msk' actions hs"
proof -
  obtain x base m x' ctx' where r: "xb_wf x" "xb_length x = 0" "process k key_zero x (action_context_init k (Some key_zero) base) = Some (err, m, x', ctx')"
    "ac_mask ctx' = Some msk" "actions_of base (ac_msg ctx') = Some actions" "stats_handles_of x' = hs" using assms(3) unfolding flow_result_def by blast
  have c: "(action_context_init k (Some key_zero) base)\<lparr>current_key := k'\<rparr> = action_context_init k' (Some key_zero) base" by (simp add: action_context_init_def)
  obtain M where M: "ac_mask ctx' = Some M" "key_agree M k k' \<Longrightarrow> \<exists>dtx'. process k' key_zero x (action_context_init k' (Some key_zero) base) = Some (err, m, x', dtx') \<and>
      ac_msg dtx' = ac_msg ctx'"
    by (rule masks_soundlyD [OF assms(1) key_wf_zero _ _ r(3), unfolded c]) (simp_all add: action_context_init_def)
  then obtain dtx' where d: "process k' key_zero x (action_context_init k' (Some key_zero) base) = Some (err, m, x', dtx')" "ac_msg dtx' = ac_msg ctx'"
    using r(4) assms(4) by auto
  obtain msk' where "ac_mask dtx' = Some msk'" using answersE [OF assms(2) r(1,2), of base] d(1) by (metis option.inject prod.inject)
  then show thesis using that [of msk'] r(1,2,5,6) d unfolding flow_result_def by metis
qed

subsection \<open>Properties\<close>



text \<open>A sequence of readings of the kernel's counters of one flow.\<close>

fun kflow_count_all :: "u64 \<Rightarrow> stats list \<Rightarrow> ind_ovs_kflow \<Rightarrow> stats_module \<Rightarrow> (ind_ovs_kflow \<times> stats_module) option" where
  "kflow_count_all w [] kf m = Some (kf, m)"
| "kflow_count_all w (r # rs) kf m = do { (kf, m) \<leftarrow> kflow_count w (packets r) (bytes_cnt r) kf m; kflow_count_all w rs kf m }"

definition stats_sub :: "stats \<Rightarrow> stats \<Rightarrow> stats" where
  "stats_sub a b = \<lparr>packets = packets a - packets b, bytes_cnt = bytes_cnt a - bytes_cnt b\<rparr>"

lemma kflow_count_get:
  assumes "w \<in> wr_addr ` set (stats_writers m)" "length (kf_stats_handles kf) = unat (kf_num_stats_handles kf)"
  obtains m' where "kflow_count w (packets r) (bytes_cnt r) kf m = Some (kf\<lparr>kf_stats := r\<rparr>, m')" "wr_addr ` set (stats_writers m') = wr_addr ` set (stats_writers m)"
    "\<forall>h. stats_get m' h = stats_add (stats_get m h) (stats_times (count_list (kf_stats_handles kf) h) (stats_sub r (kf_stats kf)))"
proof -
  let ?np = "packets r - packets (kf_stats kf)" let ?nb = "bytes_cnt r - bytes_cnt (kf_stats kf)"
  obtain m1 where m1: "stats_inc_all w ?np ?nb (kf_stats_handles kf) m = Some m1" "wr_addr ` set (stats_writers m1) = wr_addr ` set (stats_writers m)"
    using stats_inc_all_ok [OF assms(1)] by blast
  show thesis
  proof (cases "?np > 0 \<or> ?nb > 0")
    case True
    have "kflow_count w (packets r) (bytes_cnt r) kf m = Some (kf\<lparr>kf_stats := r\<rparr>, m1)"
      using True m1(1) assms(2) unfolding kflow_count_def Let_def by simp
    then show thesis using that [of m1] m1(2) stats_inc_all_get [OF m1(1)] by (simp add: stats_sub_def)
  next
    case False
    then have z: "?np = 0" "?nb = 0" by (simp_all add: word_gt_0)
    then have "kf_stats kf = r" by simp
    moreover have "kflow_count w (packets r) (bytes_cnt r) kf m = Some (kf, m)" using False unfolding kflow_count_def Let_def by simp
    ultimately show thesis using that [of m] by (simp add: stats_sub_def stats_times_def stats_add_def)
  qed
qed

lemma kflow_count_all_ok:
  "w \<in> wr_addr ` set (stats_writers m) \<Longrightarrow> length (kf_stats_handles kf) = unat (kf_num_stats_handles kf) \<Longrightarrow>
    \<exists>m'. kflow_count_all w rs kf m = Some (kf\<lparr>kf_stats := last (kf_stats kf # rs)\<rparr>, m') \<and>
      (\<forall>h. stats_get m' h = stats_add (stats_get m h) (stats_times (count_list (kf_stats_handles kf) h) (stats_sub (last (kf_stats kf # rs)) (kf_stats kf))))"
proof (induction rs arbitrary: kf m)
  case Nil
  then show ?case by (simp add: stats_sub_def stats_times_def stats_add_def)
next
  case (Cons r rs)
  obtain m1 where m1: "kflow_count w (packets r) (bytes_cnt r) kf m = Some (kf\<lparr>kf_stats := r\<rparr>, m1)" "wr_addr ` set (stats_writers m1) = wr_addr ` set (stats_writers m)"
    "\<forall>h. stats_get m1 h = stats_add (stats_get m h) (stats_times (count_list (kf_stats_handles kf) h) (stats_sub r (kf_stats kf)))"
    by (rule kflow_count_get [OF Cons.prems, where r = r])
  have "w \<in> wr_addr ` set (stats_writers m1)" using Cons.prems(1) m1(2) by simp
  from Cons.IH [OF this, of "kf\<lparr>kf_stats := r\<rparr>"] Cons.prems(2) obtain m' where
    m': "kflow_count_all w rs (kf\<lparr>kf_stats := r\<rparr>) m1 = Some (kf\<lparr>kf_stats := last (r # rs)\<rparr>, m')"
    "\<forall>h. stats_get m' h = stats_add (stats_get m1 h) (stats_times (count_list (kf_stats_handles kf) h) (stats_sub (last (r # rs)) r))" by auto
  then show ?case using m1(1,3) by (simp add: stats_add_def stats_times_def stats_sub_def algebra_simps)
qed

text \<open>
  C11: the packets that the kernel counts for a flow are credited once to each of its counters: over any sequence of readings each counter of the flow grows by exactly
  the difference of the last reading and the value synchronised before, and no other counter changes; arithmetic is modulo 2^64, as in the kernel.
\<close>

theorem kflow_stats_telescope:
  assumes "w \<in> wr_addr ` set (stats_writers m)" "length (kf_stats_handles kf) = unat (kf_num_stats_handles kf)" "rs \<noteq> []"
  shows "\<exists>kf' m'. kflow_count_all w rs kf m = Some (kf', m') \<and> kf_stats kf' = last rs \<and>
    (\<forall>h. stats_get m' h = stats_add (stats_get m h) (stats_times (count_list (kf_stats_handles kf) h) (stats_sub (last rs) (kf_stats kf))))"
  using kflow_count_all_ok [OF assms(1,2), of rs] assms(3) by auto

subsection \<open>Examples\<close>

text \<open>One port, number 5, and the key of an ARP packet that came in on it.\<close>

definition demo_kflow_env :: "(nat, unit, u32 list, (u64 \<times> u32) list) kflow_env" where
  "demo_kflow_env = \<lparr>ke_vport = demo_vport_env, ke_tcam = list_env, ke_nl = tree_env, ke_murmur = (\<lambda>bs. of_nat (length bs)), ke_hitless = False,
     ke_benchmark_mode = False, ke_disable_megaflows = False, ke_mask_tests = 0\<rparr>"

definition demo_flow_key :: nla where
  "demo_flow_key = NlaNest 1 [Nla 3 [5, 0, 0, 0], Nla 4 [1, 2, 3, 4, 5, 6, 7, 8, 9, 10, 11, 12], Nla 6 [8, 6]]"

definition demo_flow_pkey :: ind_ovs_parsed_key where
  "demo_flow_pkey = key_zero\<lparr>populated := 0x58, pk_in_port := 5, eth_src := [1, 2, 3, 4, 5, 6], eth_dst := [7, 8, 9, 10, 11, 12], pk_ethertype := 0x608, tun_ttl := 64\<rparr>"

lemma demo_flow_key_parse: "ind_ovs_parse_key tree_env demo_flow_key = Some demo_flow_pkey" "key_wf demo_flow_pkey"
proof -
  let ?f = "\<lambda>i. if i \<le> OVS_KEY_ATTR_MAX then last_of_type (nla_children demo_flow_key) i else None"
  have "nla_parse_nested tree_env OVS_KEY_ATTR_MAX demo_flow_key = Some ?f" by (simp add: tree_env_def)
  moreover have "parse_fields tree_env ?f OVS_KEY_FIELDS (key_zero\<lparr>pk_in_port := - 1, tun_ttl := 64\<rparr>) = Some demo_flow_pkey" by code_simp
  moreover have "?f OVS_KEY_ATTR_ENCAP = None" "?f OVS_KEY_ATTR_TUNNEL = None" by code_simp+
  ultimately have "ind_ovs_parse_key_rec tree_env demo_flow_key (key_zero\<lparr>pk_in_port := - 1, tun_ttl := 64\<rparr>) = Some demo_flow_pkey" by (rule parse_key_flat)
  moreover have "ATTR_BITMAP_TEST (populated demo_flow_pkey) OVS_KEY_ATTR_ETHERNET" by code_simp
  ultimately show "ind_ovs_parse_key tree_env demo_flow_key = Some demo_flow_pkey" by (simp add: ind_ovs_parse_key_def)
  show "key_wf demo_flow_pkey" by code_simp
qed

lemma demo_flow_key_ok: "flow_key_ok demo_kflow_env demo_flow_key"
proof -
  have "nla_find (nla_children demo_flow_key) (attr_code OVS_KEY_ATTR_IN_PORT) = Some (Nla 3 [5, 0, 0, 0])" "nla_get_u32 (Nla 3 [5, 0, 0, 0]) = Some 5" by code_simp+
  moreover have "unat (5 :: u32) < IND_OVS_MAX_PORTS" by (simp add: IND_OVS_MAX_PORTS_def)
  ultimately show ?thesis unfolding flow_key_ok_def using demo_flow_key_parse by (auto simp: demo_kflow_env_def)
qed

lemma demo_kflow_env_ok: "kflow_env_ok {} demo_kflow_env"
  by (simp add: kflow_env_ok_def kflow_kernel_ok_def demo_kflow_env_def demo_vport_env_def demo_kernel_def kernel_acks_def IND_OVS_NLMSG_FREELIST_SIZE_def)

lemma demo_port:
  obtains vp p A where "vport_inv {0, 1, 2, 3, 4, 5, 6, 7} {} A (ke_vport demo_kflow_env) vp" "ind_ovs_ports vp = (replicate IND_OVS_MAX_PORTS None)[5 := Some p]" "num_kflows p = 0"
proof -
  obtain vp p where vp: "vport_do demo_vport_env demo_port_added demo_vports = Some vp" "ind_ovs_ports vp = (replicate IND_OVS_MAX_PORTS None)[5 := Some p]" "num_kflows p = 0"
    by (rule demo_vport_run)
  have r: "vport_reach demo_vport_env demo_vports vp"
    by (rule vport_reach.step [OF vport_reach.start [OF demo_vports_started(1)] _ vp(1)]) (simp add: macs_ok_def)
  have "vport_env_ok {} demo_vport_env" using demo_vport_env_ok by (simp add: vport_env_ok_def)
  from vport_reach_acc [OF r demo_vports_started(2,3) demo_vport_env_ok(1) this demo_vport_env_ok(4)]
  show thesis using that vp(2,3) by (auto simp: vport_acc_def demo_kflow_env_def)
qed

lemma demo_kflow_start:
  obtains vp p A st where "vport_inv {0, 1, 2, 3, 4, 5, 6, 7} {} A (ke_vport demo_kflow_env) vp" "\<forall>q. Some q \<in> set (ind_ovs_ports vp) \<longrightarrow> num_kflows q = 0"
    "ind_ovs_kflow_module_init demo_kflow_env (\<lambda>_. 0) 7 0x99 vp = Some st" "kflow_inv_all {0, 1, 2, 3, 4, 5, 6, 7} {} A demo_kflow_env list_bloom_rep list_hash_rep st"
    "kflow_room 0x50 0x60 st" "ind_ovs_ports (ks_vports st) ! 5 = Some p" "num_kflows p = 0" "kflows st = []"
proof -
  obtain vp p A where vp: "vport_inv {0, 1, 2, 3, 4, 5, 6, 7} {} A (ke_vport demo_kflow_env) vp" "ind_ovs_ports vp = (replicate IND_OVS_MAX_PORTS None)[5 := Some p]" "num_kflows p = 0"
    by (rule demo_port)
  have n: "\<forall>q. Some q \<in> set (ind_ovs_ports vp) \<longrightarrow> num_kflows q = 0"
    using vp(3) set_update_subset_insert [of "replicate IND_OVS_MAX_PORTS None" 5 "Some p"] unfolding vp(2) by auto
  obtain x where x: "xbuf_init (\<lambda>_. 0) = Some x" by (rule xbuf_init_holds)
  obtain t where t: "tcam_create list_env 128 7 = Some t" by (simp add: tcam_create_def)
  let ?st = "the (ind_ovs_kflow_module_init demo_kflow_env (\<lambda>_. 0) 7 0x99 vp)"
  have i: "ind_ovs_kflow_module_init demo_kflow_env (\<lambda>_. 0) 7 0x99 vp = Some ?st"
    using x t by (simp add: ind_ovs_kflow_module_init_def demo_kflow_env_def)
  have e: "env_ok (ke_tcam demo_kflow_env) list_bloom_rep list_hash_rep" using list_env_ok by (simp add: demo_kflow_env_def)
  have st: "kf_heap ?st = (\<lambda>_. None)" "megaflow_tcam ?st = t" "kflows ?st = []" "ind_ovs_ports (ks_vports ?st) = ind_ovs_ports vp"
    using x t by (simp_all add: ind_ovs_kflow_module_init_def demo_kflow_env_def)
  have "shard_list t = []" using t by (auto simp: tcam_create_def split: if_splits)
  then have "kflow_room 0x50 0x60 ?st" by (simp add: kflow_room_def st)
  moreover have "ind_ovs_ports (ks_vports ?st) ! 5 = Some p" by (simp add: st vp(2) IND_OVS_MAX_PORTS_def)
  moreover have "kflow_inv_all {0, 1, 2, 3, 4, 5, 6, 7} {} A demo_kflow_env list_bloom_rep list_hash_rep ?st" by (rule kflow_init_inv [OF i e vp(1)]) (use n in blast)
  ultimately show thesis using that [OF vp(1) n i] vp(3) st(3) by blast
qed

abbreviation demo_reflect :: process_fn where
  "demo_reflect \<equiv> process_current (pipeline_reflect_process (\<lambda>_. 0) 0 0) \<lparr>ind_ovs_inband_vlan = VLAN_INVALID, ib_uplink_check = (\<lambda>_. False), ib_uplink_select = OF_PORT_DEST_NONE\<rparr> (- 1)"


lemma demo_std_ready:
  obtains ps B where "pipeline_standard_init demo_ext 7 ''standard-1.3'' demo_start = Some ps" "std_ready demo_ext list_bloom_rep list_hash_rep B (\<lambda>_. 0) 0 0 16 1 ps"
proof -
  obtain ps B where ps: "pipeline_standard_init demo_ext 7 ''standard-1.3'' demo_start = Some ps" "std_inv demo_ext list_bloom_rep list_hash_rep B ps"
    "ps_entries ps = (\<lambda>_. None)" "st_groups (ps_core ps) = st_groups (ps_core demo_start)"
    by (rule init_inv [OF demo_start_ok disjI2 [OF refl], of 7])
  have "groups_ranked (st_groups (ps_core ps)) (\<lambda>_. 0)"
    by (simp add: ps(4) demo_start_def demo_std_state_def groups_ranked_def demo_groups_def demo_group_def)
  moreover have "entries_bounded (\<lambda>_. 0) 0 0 ps" by (simp add: entries_bounded_def ps(3))
  ultimately show thesis using that ps(1,2) by (simp add: std_ready_def)
qed

text \<open>A cache with one flow, whose actions are out of date.\<close>

definition demo_cache :: "ind_ovs_port \<Rightarrow> (nat, unit, u32 list, (u64 \<times> u32) list) kflow_state \<Rightarrow> (nat, unit, u32 list, (u64 \<times> u32) list) kflow_state" where
  "demo_cache p st = kflow_insert demo_kflow_env 0 0x50 0x60 5 demo_flow_key demo_flow_pkey key_zero [] p st"


theorem kflow_stats_telescope_witness:
  "\<exists>m kf' m'. stats_writer_create stats_module_init 9 = m \<and>
    kflow_count_all 9 [\<lparr>packets = 3, bytes_cnt = 180\<rparr>, \<lparr>packets = 5, bytes_cnt = 300\<rparr>] (new_kflow 0 5 demo_flow_key demo_te key_zero [] [7]) m = Some (kf', m') \<and>
    stats_get m' 7 = \<lparr>packets = 5, bytes_cnt = 300\<rparr> \<and> stats_get m' 8 = stats_zero"
proof -
  let ?m = "stats_writer_create stats_module_init 9" let ?kf = "new_kflow 0 5 demo_flow_key demo_te key_zero [] [7]"
  have h: "9 \<in> wr_addr ` set (stats_writers ?m)" "length (kf_stats_handles ?kf) = unat (kf_num_stats_handles ?kf)" by (simp_all add: stats_writer_create_def new_kflow_def)
  have z: "stats_get ?m h = stats_zero" for h by (simp add: stats_get_wsum stats_writer_create_def stats_module_init_def)
  from kflow_stats_telescope [OF h, of "[\<lparr>packets = 3, bytes_cnt = 180\<rparr>, \<lparr>packets = 5, bytes_cnt = 300\<rparr>]"]
  show ?thesis by (auto simp: z new_kflow_def stats_times_def stats_sub_def)
qed

subsection \<open>Two weaknesses\<close>

text \<open>
  A port that is deleted and created again starts with a count of zero although flows of the old port are still cached. When one of those is deleted the
  count wraps around, and from then on the port gets no kernel flows.
\<close>

lemma kflow_count_wraps:
  assumes "port_at (ks_vports st) (ucast in_port) = Some port" "num_kflows port = 0" "unat in_port < IND_OVS_MAX_PORTS"
    and "length (ind_ovs_ports (ks_vports st)) = IND_OVS_MAX_PORTS"
    and key: "nla_find (nla_children key) (attr_code OVS_KEY_ATTR_IN_PORT) = Some attr" "nla_get_u32 attr = Some (ucast in_port)" "\<not> ke_hitless E" "\<not> ke_benchmark_mode E"
  obtains st' where "port_dec_kflows in_port st = Some st'" "ind_ovs_kflow_add E process rand now a sa key st' = Some (ERROR_RESOURCE, st')"
proof -
  let ?st = "kf_set_port (unat in_port) (port\<lparr>num_kflows := - 1\<rparr>) st"
  have big: "IND_OVS_MAX_KFLOWS_PER_PORT \<le> - 1" by (simp only: IND_OVS_MAX_KFLOWS_PER_PORT_def word_order.extremum)
  have "port_dec_kflows in_port st = Some ?st" using assms(1-3) by (simp add: port_dec_kflows_def)
  moreover have "port_at (ks_vports ?st) (ucast in_port) = Some (port\<lparr>num_kflows := - 1\<rparr>)"
    using assms(3,4) by (simp add: port_at_def kf_set_port_def unat_ucast_u16)
  then have "ind_ovs_kflow_add E process rand now a sa key ?st = Some (ERROR_RESOURCE, ?st)"
    using key assms(3) big by (simp add: ind_ovs_kflow_add_def unat_ucast_u16)
  ultimately show thesis by (rule that)
qed

text \<open>
  A flow entry that is deleted gives its counter back at once, but kernel flows keep the handle until they are revalidated. If an entry that is added in between
  gets the same slot, the packets that the kernel counted for the old entry are credited to the new one.
\<close>

lemma stale_counter_credited:
  assumes "stats_free m h = Some m1" "stats_alloc m1 = Some (h', m2)" "w \<in> wr_addr ` set (stats_writers m2)"
    and "kf_stats_handles kf = [h]" "kf_num_stats_handles kf = 1" "kf_stats kf = stats_zero" "num_free m < of_nat MAX_STATS" "0 < n"
  shows "h' = h \<and> stats_get m2 h' = stats_zero \<and> (\<exists>kf' m3. kflow_count w n 0 kf m2 = Some (kf', m3) \<and> packets (stats_get m3 h') = n)"
proof -
  have m1: "m1 = m\<lparr>free_stack := (free_stack m)(unat (num_free m) := h), num_free := num_free m + 1\<rparr>" using assms(1) by (auto simp: stats_free_def split: if_splits)
  then have h: "h' = h" "stats_get m2 h' = stats_zero" using assms(2) by (auto simp: stats_alloc_def Let_def stats_clear_get split: if_splits)
  have "length (kf_stats_handles kf) = unat (kf_num_stats_handles kf)" using assms(4,5) by simp
  then obtain m3 where "kflow_count w n 0 kf m2 = Some (kf\<lparr>kf_stats := \<lparr>packets = n, bytes_cnt = 0\<rparr>\<rparr>, m3)"
    "\<forall>h. stats_get m3 h = stats_add (stats_get m2 h) (stats_times (count_list (kf_stats_handles kf) h) (stats_sub \<lparr>packets = n, bytes_cnt = 0\<rparr> (kf_stats kf)))"
    using kflow_count_get [OF assms(3), of kf "\<lparr>packets = n, bytes_cnt = 0\<rparr>"] by (simp, metis)
  then show ?thesis using h assms(4,6) by (simp add: stats_times_def stats_sub_def)
qed

end
