(* ===== verification/Barrier.thy ===== *)
theory Barrier
  imports Kflow_Inv
begin

text \<open>
  Deferred revalidation (\<open>OVSDriver/module/src/barrier.c\<close>) and the end of a hitless restart (\<open>hitless.c\<close>). A change of the OpenFlow tables
  defers the revalidation of the kernel flows and blocks the barriers of the connection that asked; a barrier request of that connection or a timer runs it.
  Connections, timers and the upcall processes are known by the calls that are made on them.
\<close>

subsection \<open>State\<close>

definition MAX_BLOCKED_CXNS :: nat where "MAX_BLOCKED_CXNS = 8"

text \<open>Calls to the connection manager, the socket manager and the upcall processes; the blocker of a slot is known by its index.\<close>

datatype barrier_call =
    BlockBarrier u32 nat
  | UnblockBarrier nat
  | TimerRegister nat
  | TimerUnregister
  | Revalidated
  | UpcallRespawn
  | BarrierNotifyRegister

text \<open>\<open>INDIGO_CXN_ID_UNSPECIFIED\<close> and \<open>INDIGO_CXN_INVALID\<close> are of the connection manager.\<close>

record ('k, 'd, 'b, 'h) barrier_env =
  be_kflow :: "('k, 'd, 'b, 'h) kflow_env"
  be_unspecified :: u32
  be_invalid :: "u32 \<Rightarrow> bool"

record ('k, 'd, 'b, 'h) barrier_state =
  bs_kflow :: "('k, 'd, 'b, 'h) kflow_state"
  blocked_cxns :: "u32 list"
  barrier_timer_active :: bool
  bs_log :: "barrier_call list"

subsection \<open>Operations\<close>

definition barrier_timer_start :: "nat \<Rightarrow> ('k, 'd, 'b, 'h) barrier_state \<Rightarrow> ('k, 'd, 'b, 'h) barrier_state" where
  "barrier_timer_start ms st =
     (if \<not> barrier_timer_active st then st\<lparr>barrier_timer_active := True, bs_log := bs_log st @ [TimerRegister ms]\<rparr> else st)"

definition ind_ovs_barrier_defer_revalidation_internal :: "('k, 'd, 'b, 'h) barrier_state \<Rightarrow> ('k, 'd, 'b, 'h) barrier_state" where
  "ind_ovs_barrier_defer_revalidation_internal st = barrier_timer_start 100 st"

text \<open>The loop over the table that unblocks every connection.\<close>

fun unblock_loop :: "u32 \<Rightarrow> nat \<Rightarrow> u32 list \<Rightarrow> u32 list \<times> barrier_call list" where
  "unblock_loop un i [] = ([], [])"
| "unblock_loop un i (c # cs) =
     (let (cs, log) = unblock_loop un (Suc i) cs
      in if c \<noteq> un then (un # cs, UnblockBarrier i # log) else (c # cs, log))"

definition revalidate ::
  "('k, 'd, 'b, 'h) barrier_env \<Rightarrow> process_fn \<Rightarrow> (nat \<Rightarrow> bytes) \<Rightarrow> ('k, 'd, 'b, 'h) barrier_state \<Rightarrow> ('k, 'd, 'b, 'h) barrier_state option" where
  "revalidate E process rand st =
     do {
       k \<leftarrow> ind_ovs_kflow_invalidate_all (be_kflow E) process rand (bs_kflow st);
       let (cs, log) = unblock_loop (be_unspecified E) 0 (blocked_cxns st);
       let st = st\<lparr>bs_kflow := k, blocked_cxns := cs, bs_log := bs_log st @ [Revalidated, UpcallRespawn] @ log\<rparr>;
       Some (if barrier_timer_active st then st\<lparr>barrier_timer_active := False, bs_log := bs_log st @ [TimerUnregister]\<rparr> else st)
     }"

text \<open>The search for the connection, which keeps the last free slot: \<open>None\<close> if it is already blocked.\<close>

fun blocked_scan :: "u32 \<Rightarrow> u32 \<Rightarrow> nat \<Rightarrow> u32 list \<Rightarrow> nat option \<Rightarrow> nat option option" where
  "blocked_scan un cxn i [] slot = Some slot"
| "blocked_scan un cxn i (c # cs) slot =
     (if c = cxn then None else blocked_scan un cxn (Suc i) cs (if c = un then Some i else slot))"

definition block_cxn :: "u32 \<Rightarrow> nat \<Rightarrow> ('k, 'd, 'b, 'h) barrier_state \<Rightarrow> ('k, 'd, 'b, 'h) barrier_state" where
  "block_cxn cxn i st = barrier_timer_start 1000 (st\<lparr>blocked_cxns := (blocked_cxns st)[i := cxn], bs_log := bs_log st @ [BlockBarrier cxn i]\<rparr>)"

text \<open>When the table is full the flows are revalidated at once, and the function calls itself again.\<close>

partial_function (option) ind_ovs_barrier_defer_revalidation ::
  "('k, 'd, 'b, 'h) barrier_env \<Rightarrow> process_fn \<Rightarrow> (nat \<Rightarrow> bytes) \<Rightarrow> u32 \<Rightarrow> ('k, 'd, 'b, 'h) barrier_state \<Rightarrow> ('k, 'd, 'b, 'h) barrier_state option" where
  "ind_ovs_barrier_defer_revalidation E process rand cxn st =
     (if be_invalid E cxn then Some (ind_ovs_barrier_defer_revalidation_internal st)
      else case blocked_scan (be_unspecified E) cxn 0 (blocked_cxns st) None of
        None \<Rightarrow> Some st
      | Some (Some i) \<Rightarrow> Some (block_cxn cxn i st)
      | Some None \<Rightarrow> do { st \<leftarrow> revalidate E process rand st; ind_ovs_barrier_defer_revalidation E process rand cxn st })"

definition barrier_timer :: "('k, 'd, 'b, 'h) barrier_env \<Rightarrow> process_fn \<Rightarrow> (nat \<Rightarrow> bytes) \<Rightarrow> ('k, 'd, 'b, 'h) barrier_state \<Rightarrow> ('k, 'd, 'b, 'h) barrier_state option" where
  "barrier_timer E process rand st = revalidate E process rand st"

definition barrier_received ::
  "('k, 'd, 'b, 'h) barrier_env \<Rightarrow> process_fn \<Rightarrow> (nat \<Rightarrow> bytes) \<Rightarrow> u32 \<Rightarrow> ('k, 'd, 'b, 'h) barrier_state \<Rightarrow> ('k, 'd, 'b, 'h) barrier_state option" where
  "barrier_received E process rand cxn st = (if cxn \<in> set (blocked_cxns st) then revalidate E process rand st else Some st)"

definition ind_ovs_barrier_init :: "('k, 'd, 'b, 'h) barrier_env \<Rightarrow> ('k, 'd, 'b, 'h) kflow_state \<Rightarrow> ('k, 'd, 'b, 'h) barrier_state" where
  "ind_ovs_barrier_init E k = \<lparr>bs_kflow = k, blocked_cxns = replicate MAX_BLOCKED_CXNS (be_unspecified E), barrier_timer_active = False,
     bs_log = [BarrierNotifyRegister]\<rparr>"

text \<open>The takeover message ends the hitless mode, which is a flag of the environment of the kernel flows.\<close>

definition handle_takeover :: "('k, 'd, 'b, 'h) kflow_env \<Rightarrow> ('k, 'd, 'b, 'h) kflow_state \<Rightarrow> (('k, 'd, 'b, 'h) kflow_env \<times> ('k, 'd, 'b, 'h) kflow_state) option" where
  "handle_takeover E st =
     (if ke_hitless E then do { st \<leftarrow> ind_ovs_kflow_flush E st; Some (E\<lparr>ke_hitless := False\<rparr>, st) } else Some (E, st))"

datatype listener_result = LISTENER_DROP | LISTENER_PASS

definition message_listener ::
  "('k, 'd, 'b, 'h) kflow_env \<Rightarrow> bool \<Rightarrow> ('k, 'd, 'b, 'h) kflow_state \<Rightarrow> (listener_result \<times> ('k, 'd, 'b, 'h) kflow_env \<times> ('k, 'd, 'b, 'h) kflow_state) option" where
  "message_listener E is_takeover st =
     (if is_takeover then do { (E, st) \<leftarrow> handle_takeover E st; Some (LISTENER_DROP, E, st) } else Some (LISTENER_PASS, E, st))"

subsection \<open>What the calls add up to\<close>

text \<open>The blocked slots after a list of calls: \<open>None\<close> if a slot is blocked twice or unblocked without need. Likewise the timer.\<close>

fun blocks_after :: "barrier_call list \<Rightarrow> (nat \<rightharpoonup> u32) \<Rightarrow> (nat \<rightharpoonup> u32) option" where
  "blocks_after [] m = Some m"
| "blocks_after (BlockBarrier c i # log) m = (if m i = None then blocks_after log (m(i \<mapsto> c)) else None)"
| "blocks_after (UnblockBarrier i # log) m = (if m i \<noteq> None then blocks_after log (m(i := None)) else None)"
| "blocks_after (_ # log) m = blocks_after log m"

fun timer_after :: "barrier_call list \<Rightarrow> bool \<Rightarrow> bool option" where
  "timer_after [] v = Some v"
| "timer_after (TimerRegister ms # log) v = (if v then None else timer_after log True)"
| "timer_after (TimerUnregister # log) v = (if v then timer_after log False else None)"
| "timer_after (_ # log) v = timer_after log v"

lemma blocks_after_append: "blocks_after (l1 @ l2) m = blocks_after l1 m \<bind> blocks_after l2"
proof (induction l1 arbitrary: m)
  case (Cons c l1)
  then show ?case by (cases c) (simp_all add: fun_upd_def)
qed simp

lemma timer_after_append: "timer_after (l1 @ l2) v = timer_after l1 v \<bind> timer_after l2"
  by (induction l1 v rule: timer_after.induct) auto

text \<open>The slots of a table that are in use.\<close>

definition used_slots :: "u32 \<Rightarrow> u32 list \<Rightarrow> nat \<rightharpoonup> u32" where
  "used_slots un cs i = (if i < length cs \<and> cs ! i \<noteq> un then Some (cs ! i) else None)"

definition barrier_ok :: "('k, 'd, 'b, 'h) barrier_env \<Rightarrow> ('k, 'd, 'b, 'h) barrier_state \<Rightarrow> bool" where
  "barrier_ok E st \<longleftrightarrow> length (blocked_cxns st) = MAX_BLOCKED_CXNS \<and> distinct (filter (\<lambda>c. c \<noteq> be_unspecified E) (blocked_cxns st)) \<and>
     blocks_after (bs_log st) Map.empty = Some (used_slots (be_unspecified E) (blocked_cxns st)) \<and>
     timer_after (bs_log st) False = Some (barrier_timer_active st) \<and>
     ((\<exists>c \<in> set (blocked_cxns st). c \<noteq> be_unspecified E) \<longrightarrow> barrier_timer_active st)"

lemma unblock_loop_cs: "fst (unblock_loop un i cs) = replicate (length cs) un"
  by (induction un i cs rule: unblock_loop.induct) (auto simp: split_beta Let_def)

lemma unblock_loop_timer: "timer_after (snd (unblock_loop un i cs)) v = Some v"
  by (induction un i cs rule: unblock_loop.induct) (auto simp: split_beta Let_def)

lemma unblock_loop_log:
  "(\<And>j. m (i + j) = used_slots un cs j) \<Longrightarrow> blocks_after (snd (unblock_loop un i cs)) m = Some (\<lambda>j. if j < i then m j else None)"
proof (induction un i cs arbitrary: m rule: unblock_loop.induct)
  case (1 un i)
  have "m j = None" if "\<not> j < i" for j using 1 [of "j - i"] that by (simp add: used_slots_def)
  then show ?case by (auto simp: fun_eq_iff)
next
  case (2 un i c cs)
  have "m i = used_slots un (c # cs) 0" using 2(2) [of 0] by simp
  then have c: "m i = (if c \<noteq> un then Some c else None)" by (simp add: used_slots_def)
  have "(m(i := None)) (Suc i + j) = used_slots un cs j" for j using 2(2) [of "Suc j"] by (simp add: used_slots_def)
  from 2(1) [OF this] have "blocks_after (snd (unblock_loop un (Suc i) cs)) (m(i := None)) = Some (\<lambda>j. if j < Suc i then (m(i := None)) j else None)" .
  moreover have "(\<lambda>j. if j < Suc i then (m(i := None)) j else None) = (\<lambda>j. if j < i then m j else None)" by (auto simp: fun_eq_iff)
  moreover have "m(i := None) = m" if "c = un" using c that by (simp add: fun_upd_idem)
  ultimately show ?case using c by (cases "c = un") (simp_all add: split_beta Let_def)
qed

subsection \<open>Every operation keeps the table in order\<close>

lemma used_slots_free: "used_slots un (replicate n un) = Map.empty"
  by (auto simp: used_slots_def fun_eq_iff)

lemma timer_start_ok:
  assumes "length (blocked_cxns st) = MAX_BLOCKED_CXNS" "distinct (filter (\<lambda>c. c \<noteq> be_unspecified E) (blocked_cxns st))"
    "blocks_after (bs_log st) Map.empty = Some (used_slots (be_unspecified E) (blocked_cxns st))" "timer_after (bs_log st) False = Some (barrier_timer_active st)"
  shows "barrier_ok E (barrier_timer_start ms st)" "barrier_timer_active (barrier_timer_start ms st)"
    "blocked_cxns (barrier_timer_start ms st) = blocked_cxns st" "bs_kflow (barrier_timer_start ms st) = bs_kflow st"
  using assms by (simp_all add: barrier_ok_def barrier_timer_start_def blocks_after_append timer_after_append)

lemma revalidate_ok:
  assumes "barrier_ok E st" "ind_ovs_kflow_invalidate_all (be_kflow E) process rand (bs_kflow st) = Some k"
  obtains st' where "revalidate E process rand st = Some st'" "barrier_ok E st'" "bs_kflow st' = k" "blocked_cxns st' = replicate MAX_BLOCKED_CXNS (be_unspecified E)"
    "\<not> barrier_timer_active st'" "\<exists>log. bs_log st' = bs_log st @ Revalidated # log"
proof -
  let ?un = "be_unspecified E"
  obtain cs log where u: "unblock_loop ?un 0 (blocked_cxns st) = (cs, log)" by fastforce
  have cs: "cs = replicate MAX_BLOCKED_CXNS ?un" using unblock_loop_cs [of ?un 0 "blocked_cxns st"] u assms(1) by (simp add: barrier_ok_def)
  have "blocks_after log (used_slots ?un (blocked_cxns st)) = Some Map.empty" using unblock_loop_log [of "used_slots ?un (blocked_cxns st)" 0 ?un "blocked_cxns st"] u by simp
  moreover have "timer_after log v = Some v" for v using unblock_loop_timer [of ?un 0 "blocked_cxns st"] u by simp
  ultimately show thesis
    using that assms cs u
    by (cases "barrier_timer_active st")
      (auto simp: revalidate_def barrier_ok_def blocks_after_append timer_after_append used_slots_free)
qed

lemma blocked_scan_None: "blocked_scan un cxn i cs slot = None \<longleftrightarrow> cxn \<in> set cs"
  by (induction un cxn i cs slot rule: blocked_scan.induct) auto

lemma blocked_scan_slot:
  "blocked_scan un cxn i cs slot = Some (Some j) \<Longrightarrow> slot = Some j \<or> i \<le> j \<and> j < i + length cs \<and> cs ! (j - i) = un"
  by (induction un cxn i cs slot rule: blocked_scan.induct) (fastforce split: if_splits simp: nth_Cons')+

lemma blocked_scan_full: "blocked_scan un cxn i cs slot = Some None \<Longrightarrow> un \<notin> set cs"
proof -
  have *: "blocked_scan un cxn i cs (Some j) \<noteq> Some None" for un cxn i cs j by (induction un cxn i cs "Some j" arbitrary: j rule: blocked_scan.induct) auto
  show "blocked_scan un cxn i cs slot = Some None \<Longrightarrow> un \<notin> set cs"
    by (induction un cxn i cs slot rule: blocked_scan.induct) (use * in \<open>auto split: if_splits\<close>)
qed

lemma used_slots_upd:
  "i < length cs \<Longrightarrow> cxn \<noteq> un \<Longrightarrow> used_slots un (cs[i := cxn]) = (used_slots un cs)(i \<mapsto> cxn)"
  by (auto simp: used_slots_def fun_eq_iff nth_list_update)

lemma distinct_filter_upd:
  assumes "distinct (filter P cs)" "i < length cs" "\<not> P (cs ! i)" "c \<notin> set cs"
  shows "distinct (filter P (cs[i := c]))"
proof -
  have s: "cs = take i cs @ cs ! i # drop (Suc i) cs" using assms(2) by (rule id_take_nth_drop)
  have u: "cs[i := c] = take i cs @ c # drop (Suc i) cs" using assms(2) by (rule upd_conv_take_nth_drop)
  have "c \<notin> set (take i cs)" "c \<notin> set (drop (Suc i) cs)" using assms(4) by (meson in_set_takeD in_set_dropD)+
  moreover have "distinct (filter P (take i cs) @ filter P (drop (Suc i) cs))" using assms(1,3) by (subst (asm) s) simp
  ultimately show ?thesis unfolding u by auto
qed

lemma block_cxn_ok:
  assumes ok: "barrier_ok E st" and i: "i < MAX_BLOCKED_CXNS" "blocked_cxns st ! i = be_unspecified E" and c: "cxn \<notin> set (blocked_cxns st)" "cxn \<noteq> be_unspecified E"
  shows "barrier_ok E (block_cxn cxn i st)" "blocked_cxns (block_cxn cxn i st) = (blocked_cxns st)[i := cxn]" "barrier_timer_active (block_cxn cxn i st)"
    "bs_kflow (block_cxn cxn i st) = bs_kflow st"
proof -
  let ?st = "st\<lparr>blocked_cxns := (blocked_cxns st)[i := cxn], bs_log := bs_log st @ [BlockBarrier cxn i]\<rparr>"
  have len: "length (blocked_cxns st) = MAX_BLOCKED_CXNS" using ok by (simp add: barrier_ok_def)
  have "used_slots (be_unspecified E) (blocked_cxns st) i = None" using i by (simp add: used_slots_def)
  then have b: "blocks_after (bs_log ?st) Map.empty = Some (used_slots (be_unspecified E) (blocked_cxns ?st))"
    using ok used_slots_upd [of i "blocked_cxns st" cxn "be_unspecified E"] i(1) len c(2) by (simp add: barrier_ok_def blocks_after_append)
  have d: "distinct (filter (\<lambda>c. c \<noteq> be_unspecified E) (blocked_cxns ?st))"
    using distinct_filter_upd [of "\<lambda>c. c \<noteq> be_unspecified E" "blocked_cxns st" i cxn] ok i len c(1) by (simp add: barrier_ok_def)
  have l: "length (blocked_cxns ?st) = MAX_BLOCKED_CXNS" "timer_after (bs_log ?st) False = Some (barrier_timer_active ?st)"
    using ok by (simp_all add: barrier_ok_def timer_after_append)
  note t = timer_start_ok [of ?st E 1000, OF l(1) d b l(2)]
  show "barrier_ok E (block_cxn cxn i st)" "blocked_cxns (block_cxn cxn i st) = (blocked_cxns st)[i := cxn]" "barrier_timer_active (block_cxn cxn i st)"
    "bs_kflow (block_cxn cxn i st) = bs_kflow st"
    using t by (simp_all add: block_cxn_def)
qed

text \<open>The connections with a pending request, and the environment's promise that a valid connection is not the unspecified one.\<close>

definition blocked_ids :: "('k, 'd, 'b, 'h) barrier_env \<Rightarrow> ('k, 'd, 'b, 'h) barrier_state \<Rightarrow> u32 set" where
  "blocked_ids E st = set (blocked_cxns st) - {be_unspecified E}"

lemma defer_ok:
  assumes ok: "barrier_ok E st" and k: "ind_ovs_kflow_invalidate_all (be_kflow E) process rand (bs_kflow st) = Some k" and un: "be_invalid E (be_unspecified E)"
  obtains st' where "ind_ovs_barrier_defer_revalidation E process rand cxn st = Some st'" "barrier_ok E st'" "barrier_timer_active st'"
    "bs_kflow st' = bs_kflow st \<and> blocked_ids E st' = (if be_invalid E cxn then blocked_ids E st else insert cxn (blocked_ids E st)) \<or>
     bs_kflow st' = k \<and> blocked_ids E st' = {cxn} \<and> \<not> be_invalid E cxn"
proof -
  have len: "length (blocked_cxns st) = MAX_BLOCKED_CXNS" using ok by (simp add: barrier_ok_def)
  have 0: "(0 :: nat) < MAX_BLOCKED_CXNS" by (simp add: MAX_BLOCKED_CXNS_def)
  note S = ind_ovs_barrier_defer_revalidation.simps and goal = that
  show thesis
  proof (cases "be_invalid E cxn")
    case True
    have "barrier_ok E (barrier_timer_start 100 st)" "barrier_timer_active (barrier_timer_start 100 st)" "blocked_cxns (barrier_timer_start 100 st) = blocked_cxns st"
      "bs_kflow (barrier_timer_start 100 st) = bs_kflow st" using timer_start_ok [of st E 100] ok by (simp_all add: barrier_ok_def)
    moreover have "ind_ovs_barrier_defer_revalidation E process rand cxn st = Some (barrier_timer_start 100 st)"
      using True by (subst S) (simp add: ind_ovs_barrier_defer_revalidation_internal_def)
    ultimately show thesis using that True by (simp add: blocked_ids_def)
  next
    case False
    then have cu: "cxn \<noteq> be_unspecified E" using un by metis
    have block: thesis if st1: "barrier_ok E st1" "blocked_scan (be_unspecified E) cxn 0 (blocked_cxns st1) None = Some (Some i)"
        "ind_ovs_barrier_defer_revalidation E process rand cxn st = ind_ovs_barrier_defer_revalidation E process rand cxn st1"
        "bs_kflow st1 = bs_kflow st \<and> blocked_ids E st1 = blocked_ids E st \<or> bs_kflow st1 = k \<and> blocked_ids E st1 = {}" for st1 i
    proof -
      have i: "i < MAX_BLOCKED_CXNS" "blocked_cxns st1 ! i = be_unspecified E" using blocked_scan_slot [OF st1(2)] st1(1) by (simp_all add: barrier_ok_def)
      have n: "cxn \<notin> set (blocked_cxns st1)" using blocked_scan_None [of "be_unspecified E" cxn 0 "blocked_cxns st1" None] st1(2) by simp
      note B = block_cxn_ok [OF st1(1) i n cu]
      have "length (blocked_cxns st1) = MAX_BLOCKED_CXNS" using st1(1) by (simp add: barrier_ok_def)
      then have "set ((blocked_cxns st1)[i := cxn]) - {be_unspecified E} = insert cxn (set (blocked_cxns st1) - {be_unspecified E})"
        using i cu by (auto simp: set_conv_nth nth_list_update split: if_splits)
      then have "blocked_ids E (block_cxn cxn i st1) = insert cxn (blocked_ids E st1)" using B(2) by (simp add: blocked_ids_def)
      moreover have "ind_ovs_barrier_defer_revalidation E process rand cxn st1 = Some (block_cxn cxn i st1)" using False st1(2) by (subst S) simp
      ultimately show thesis using goal [of "block_cxn cxn i st1"] B False st1(3,4) by auto
    qed
    show thesis
    proof (cases "blocked_scan (be_unspecified E) cxn 0 (blocked_cxns st) None")
      case None
      then have "cxn \<in> blocked_ids E st" using blocked_scan_None cu by (auto simp: blocked_ids_def)
      moreover have "ind_ovs_barrier_defer_revalidation E process rand cxn st = Some st" using False None by (subst S) simp
      moreover have "barrier_timer_active st" using ok \<open>cxn \<in> blocked_ids E st\<close> by (auto simp: barrier_ok_def blocked_ids_def)
      ultimately show thesis using goal [of st] ok False by (simp add: insert_absorb)
    next
      case (Some slot)
      show thesis
      proof (cases slot)
        case None
        obtain st1 where 1: "revalidate E process rand st = Some st1" "barrier_ok E st1" "bs_kflow st1 = k" "blocked_cxns st1 = replicate MAX_BLOCKED_CXNS (be_unspecified E)"
          by (rule revalidate_ok [OF ok k])
        have "ind_ovs_barrier_defer_revalidation E process rand cxn st = ind_ovs_barrier_defer_revalidation E process rand cxn st1"
          using False Some None 1(1) by (subst S) simp
        moreover have "blocked_scan (be_unspecified E) cxn 0 (blocked_cxns st1) None \<noteq> None" "blocked_scan (be_unspecified E) cxn 0 (blocked_cxns st1) None \<noteq> Some None"
          using blocked_scan_None [of "be_unspecified E" cxn 0 "blocked_cxns st1" None] blocked_scan_full [of "be_unspecified E" cxn 0 "blocked_cxns st1" None] 1(4) 0 cu by auto
        then obtain i where "blocked_scan (be_unspecified E) cxn 0 (blocked_cxns st1) None = Some (Some i)" by auto
        moreover have "blocked_ids E st1 = {}" using 1(4) by (auto simp: blocked_ids_def)
        ultimately show thesis using block [OF 1(2)] 1(3) by blast
      next
        case (Some i)
        then show thesis using block [OF ok, of i] \<open>blocked_scan _ _ _ _ _ = Some slot\<close> by simp
      qed
    qed
  qed
qed

subsection \<open>Histories\<close>

text \<open>
  What happens: requests to defer from connections and from the driver itself, barriers, the timer, and the life of the cache. The timer fires only
  while it is registered.
\<close>

datatype barrier_op =
    Defer process_fn "nat \<Rightarrow> bytes" u32
  | DeferInternally
  | BarrierRequest process_fn "nat \<Rightarrow> bytes" u32
  | TimerFires process_fn "nat \<Rightarrow> bytes"
  | KflowEvent kflow_op

fun barrier_do :: "('k, 'd, 'b, 'h) barrier_env \<Rightarrow> barrier_op \<Rightarrow> ('k, 'd, 'b, 'h) barrier_state \<Rightarrow> ('k, 'd, 'b, 'h) barrier_state option" where
  "barrier_do E (Defer process rand cxn) st = ind_ovs_barrier_defer_revalidation E process rand cxn st"
| "barrier_do E DeferInternally st = Some (ind_ovs_barrier_defer_revalidation_internal st)"
| "barrier_do E (BarrierRequest process rand cxn) st = barrier_received E process rand cxn st"
| "barrier_do E (TimerFires process rand) st = barrier_timer E process rand st"
| "barrier_do E (KflowEvent op) st = map_option (\<lambda>k. st\<lparr>bs_kflow := k\<rparr>) (kflow_do (be_kflow E) op (bs_kflow st))"

abbreviation pipeline_answers :: "process_fn \<Rightarrow> bool" where
  "pipeline_answers process \<equiv> \<forall>k. key_wf k \<longrightarrow> answers process k"

fun barrier_op_ok :: "('k, 'd, 'b, 'h) barrier_env \<Rightarrow> barrier_op \<Rightarrow> ('k, 'd, 'b, 'h) barrier_state \<Rightarrow> bool" where
  "barrier_op_ok E (Defer process rand cxn) st \<longleftrightarrow> pipeline_answers process"
| "barrier_op_ok E DeferInternally st \<longleftrightarrow> True"
| "barrier_op_ok E (BarrierRequest process rand cxn) st \<longleftrightarrow> pipeline_answers process \<and> cxn \<noteq> be_unspecified E"
| "barrier_op_ok E (TimerFires process rand) st \<longleftrightarrow> pipeline_answers process \<and> barrier_timer_active st"
| "barrier_op_ok E (KflowEvent op) st \<longleftrightarrow> kflow_op_ok (be_kflow E) op (bs_kflow st)"

inductive barrier_reach :: "('k, 'd, 'b, 'h) barrier_env \<Rightarrow> ('k, 'd, 'b, 'h) barrier_state \<Rightarrow> ('k, 'd, 'b, 'h) barrier_state \<Rightarrow> bool" for E st0 where
  barrier_start: "barrier_reach E st0 st0"
| barrier_step: "barrier_reach E st0 st \<Longrightarrow> barrier_op_ok E op st \<Longrightarrow> barrier_do E op st = Some st' \<Longrightarrow> barrier_reach E st0 st'"

definition barrier_inv ::
  "u64 set \<Rightarrow> u64 set \<Rightarrow> u32 set \<Rightarrow> ('k, 'd, 'b, 'h) barrier_env \<Rightarrow> ('b \<Rightarrow> u32 multiset \<Rightarrow> bool) \<Rightarrow> ('h \<Rightarrow> (u64 \<times> u32) set \<Rightarrow> bool) \<Rightarrow>
    ('k, 'd, 'b, 'h) barrier_state \<Rightarrow> bool" where
  "barrier_inv P U A E br hr st \<longleftrightarrow> barrier_ok E st \<and> kflow_inv_all P U A (be_kflow E) br hr (bs_kflow st)"

text \<open>After a revalidation: nothing is blocked, the timer is off, and the cache is right.\<close>

definition revalidation_done :: "('k, 'd, 'b, 'h) barrier_env \<Rightarrow> process_fn \<Rightarrow> ('k, 'd, 'b, 'h) barrier_state \<Rightarrow> bool" where
  "revalidation_done E process st \<longleftrightarrow> blocked_ids E st = {} \<and> \<not> barrier_timer_active st \<and>
     (\<not> ke_hitless (be_kflow E) \<longrightarrow> (\<forall>a kf. kf_heap (bs_kflow st) a = Some kf \<longrightarrow> coherent (be_kflow E) process kf))"

lemma barrier_init_inv: "kflow_inv_all P U A (be_kflow E) br hr k \<Longrightarrow> barrier_inv P U A E br hr (ind_ovs_barrier_init E k)"
  by (simp add: barrier_inv_def barrier_ok_def ind_ovs_barrier_init_def used_slots_free)

lemma revalidate_inv:
  assumes "barrier_inv P U A E br hr st" "kflow_env_ok U (be_kflow E)" "pipeline_answers process"
  obtains st' where "revalidate E process rand st = Some st'" "barrier_inv P U A E br hr st'" "revalidation_done E process st'"
proof -
  have i: "barrier_ok E st" "kflow_inv_all P U A (be_kflow E) br hr (bs_kflow st)" using assms(1) by (simp_all add: barrier_inv_def)
  obtain k where k: "ind_ovs_kflow_invalidate_all (be_kflow E) process rand (bs_kflow st) = Some k" "kflow_inv_all P U A (be_kflow E) br hr k"
    "\<And>a kf. \<not> ke_hitless (be_kflow E) \<Longrightarrow> kf_heap k a = Some kf \<Longrightarrow> coherent (be_kflow E) process kf"
    by (rule invalidate_all_ok [OF i(2) assms(2), of process rand]) (use assms(3) in blast)+
  obtain st' where "revalidate E process rand st = Some st'" "barrier_ok E st'" "bs_kflow st' = k" "blocked_cxns st' = replicate MAX_BLOCKED_CXNS (be_unspecified E)"
    "\<not> barrier_timer_active st'" by (rule revalidate_ok [OF i(1) k(1)])
  moreover have "set (replicate MAX_BLOCKED_CXNS (be_unspecified E)) - {be_unspecified E} = {}" by auto
  ultimately show thesis using that [of st'] k(2,3) by (auto simp: barrier_inv_def revalidation_done_def blocked_ids_def)
qed

lemma barrier_do_ok:
  assumes inv: "barrier_inv P U A E br hr st" and E: "kflow_env_ok U (be_kflow E)" "be_invalid E (be_unspecified E)" and ok: "barrier_op_ok E op st"
  obtains st' where "barrier_do E op st = Some st'" "barrier_inv P U A E br hr st'"
proof (cases op)
  case (Defer process rand cxn)
  have i: "barrier_ok E st" "kflow_inv_all P U A (be_kflow E) br hr (bs_kflow st)" using inv by (simp_all add: barrier_inv_def)
  obtain k where k: "ind_ovs_kflow_invalidate_all (be_kflow E) process rand (bs_kflow st) = Some k" "kflow_inv_all P U A (be_kflow E) br hr k"
    by (rule invalidate_all_ok [OF i(2) E(1), of process rand]) (use ok Defer in auto)
  obtain st' where "ind_ovs_barrier_defer_revalidation E process rand cxn st = Some st'" "barrier_ok E st'" "bs_kflow st' = bs_kflow st \<or> bs_kflow st' = k"
    using defer_ok [OF i(1) k(1) E(2)] by metis
  then show thesis using that [of st'] i(2) k(2) Defer by (auto simp: barrier_inv_def)
next
  case DeferInternally
  then show thesis
    using that [of "barrier_timer_start 100 st"] inv timer_start_ok [of st E 100]
    by (simp add: ind_ovs_barrier_defer_revalidation_internal_def barrier_inv_def barrier_ok_def)
next
  case (BarrierRequest process rand cxn)
  then have a: "pipeline_answers process" using ok by simp
  obtain st' where "revalidate E process rand st = Some st'" "barrier_inv P U A E br hr st'" by (rule revalidate_inv [OF inv E(1) a])
  then show thesis using that [of st'] that [of st] inv BarrierRequest by (cases "cxn \<in> set (blocked_cxns st)") (simp_all add: barrier_received_def)
next
  case (TimerFires process rand)
  then have a: "pipeline_answers process" using ok by simp
  obtain st' where "revalidate E process rand st = Some st'" "barrier_inv P U A E br hr st'" by (rule revalidate_inv [OF inv E(1) a])
  then show thesis using that TimerFires by (simp add: barrier_timer_def)
next
  case (KflowEvent kop)
  have i: "kflow_inv_all P U A (be_kflow E) br hr (bs_kflow st)" "kflow_op_ok (be_kflow E) kop (bs_kflow st)" using inv ok KflowEvent by (simp_all add: barrier_inv_def)
  obtain k where "kflow_do (be_kflow E) kop (bs_kflow st) = Some k" "kflow_inv_all P U A (be_kflow E) br hr k" by (rule kflow_do_ok [OF i(1) E(1) i(2)])
  then show thesis using that [of "st\<lparr>bs_kflow := k\<rparr>"] inv KflowEvent by (simp add: barrier_inv_def barrier_ok_def)
qed

lemma barrier_reach_inv:
  assumes "barrier_reach E st0 st" "barrier_inv P U A E br hr st0" "kflow_env_ok U (be_kflow E)" "be_invalid E (be_unspecified E)"
  shows "barrier_inv P U A E br hr st"
  using assms(1)
proof induction
  case (barrier_step st op st')
  then show ?case using barrier_do_ok [OF barrier_step.IH assms(3,4) barrier_step.hyps(2)] by (metis option.inject)
qed (rule assms(2))

lemma hitless_empty:
  assumes "kflow_reach E st0 st" "ke_hitless E" "kflows st0 = []" "kflow_inv_all P U A E br hr st0" "kflow_env_ok U E"
  shows "kflows st = []"
  using assms(1)
proof induction
  case (kflow_step st op st')
  have inv: "kflow_inv_all P U A E br hr st" "kflow_inv_all P U A E br hr st'"
    using kflow_reach_all [OF _ assms(4,5)] kflow_step.hyps kflow_reach.kflow_step by blast+
  have d: "dom (kf_heap st) = set (kflows st)" "dom (kf_heap st') = set (kflows st')" using kflow_structD(2) [OF kflow_invD(2)] inv by blast+
  have "kf_heap st' a = None" for a
  proof (cases op)
    case (KflowAdd process rand now x sa key)
    then show ?thesis using kflow_step d assms(2) by (auto simp: ind_ovs_kflow_add_def)
  next
    case (KflowInvalidateAll process rand)
    then show ?thesis using kflow_step d assms(2) by (auto simp: ind_ovs_kflow_invalidate_all_def)
  next
    case (KflowExpire registered addr)
    then have g: registered "\<forall>k. 0 \<le> fst (k_send (kf_kernel E) (flow_dump_msg E addr) k)" using kflow_step.hyps(2) by auto
    obtain s where "ind_ovs_kflow_expire E registered addr st = Some s" "kf_heap s = kf_heap st" by (rule kflow_expire_start_ok [OF inv(1) assms(5) g])
    then show ?thesis using kflow_step d KflowExpire by auto
  next
    case (KflowExpireTask ms)
    then have "\<And>y now as. (y, now, as) \<in> set ms \<Longrightarrow> dump_ok as" using kflow_step.hyps(2) by auto
    then obtain go ms' s where "kflow_expire_task E ms st = Some (go, ms', s)" "kflow_aged st s" using expire_task_ok [OF assms(5) inv(1), of ms] by blast
    then show ?thesis using kflow_step d KflowExpireTask by (cases "kf_heap s a") (auto simp: kflow_aged_def)
  qed
  then show ?case using d(2) by (auto simp: dom_def)
qed (rule assms(3))

lemma flush_ok:
  assumes "kflow_inv_all P U A E br hr st" "kflow_env_ok U E" "kflows st = []"
  obtains nl where "ind_ovs_kflow_flush E st = Some (kf_set_nl nl st)" "kflow_inv_all P U A E br hr (kf_set_nl nl st)"
proof -
  have e: "card U + 2 \<le> IND_OVS_NLMSG_FREELIST_SIZE" "card U < IND_OVS_NLMSG_FREELIST_SIZE" "kernel_acks (kf_kernel E)"
    using assms(2) by (simp_all add: kflow_env_ok_def kflow_kernel_ok_def)
  obtain msg nl where m: "flow_msg E OVS_FLOW_CMD_DEL st = Some (msg, kf_set_nl nl st)" "gm_addr msg \<notin> U"
    "kflow_inv P (insert (gm_addr msg) U) A E br hr (set (kflows st)) (kf_set_nl nl st)" by (rule flow_msg_ok [OF assms(1) e(2)])
  obtain err nl' where t: "flow_transact E msg (kf_set_nl nl st) = Some (err, kf_set_nl nl' (kf_set_nl nl st))"
    "kflow_inv P U A E br hr (set (kflows st)) (kf_set_nl nl' (kf_set_nl nl st))" by (rule flow_transact_ok [OF m(3) refl m(2) e(1,3)])
  then show thesis using that [of nl'] assms(3) m(1) by (simp add: ind_ovs_kflow_flush_def)
qed

subsection \<open>Properties\<close>

text \<open>
  C8: a deferred revalidation is never lost. Whenever a revalidation has been asked for, in whatever reachable state, the timer is running afterwards (so that it comes
  within a second), and the connection that asked is blocked; when the timer fires or the connection sends a barrier, the revalidation runs, every connection is
  unblocked, the timer is off, and every kernel flow left is what the pipeline then gives. A full table of blocked connections is emptied by one revalidation, so
  the recursion ends.
\<close>

theorem deferred_revalidation_runs:
  assumes "barrier_reach E (ind_ovs_barrier_init E k) st" "kflow_inv_all P U A (be_kflow E) br hr k" "kflow_env_ok U (be_kflow E)" "be_invalid E (be_unspecified E)"
    and "pipeline_answers process" "pipeline_answers process'" "\<not> be_invalid E cxn"
  shows "\<exists>st1. ind_ovs_barrier_defer_revalidation E process rand cxn st = Some st1 \<and> barrier_timer_active st1 \<and> cxn \<in> blocked_ids E st1 \<and>
    (\<exists>st2. barrier_received E process' rand cxn st1 = Some st2 \<and> revalidation_done E process' st2) \<and>
    (\<exists>st2. barrier_timer E process' rand st1 = Some st2 \<and> revalidation_done E process' st2)"
proof -
  have inv: "barrier_inv P U A E br hr st" by (rule barrier_reach_inv [OF assms(1) barrier_init_inv [OF assms(2)] assms(3,4)])
  then have i: "barrier_ok E st" "kflow_inv_all P U A (be_kflow E) br hr (bs_kflow st)" by (simp_all add: barrier_inv_def)
  obtain k' where k': "ind_ovs_kflow_invalidate_all (be_kflow E) process rand (bs_kflow st) = Some k'" "kflow_inv_all P U A (be_kflow E) br hr k'"
    by (rule invalidate_all_ok [OF i(2) assms(3), of process rand]) (use assms(5) in blast)+
  obtain st1 where st1: "ind_ovs_barrier_defer_revalidation E process rand cxn st = Some st1" "barrier_ok E st1" "barrier_timer_active st1"
    "bs_kflow st1 = bs_kflow st \<and> blocked_ids E st1 = (if be_invalid E cxn then blocked_ids E st else insert cxn (blocked_ids E st)) \<or>
     bs_kflow st1 = k' \<and> blocked_ids E st1 = {cxn} \<and> \<not> be_invalid E cxn" by (rule defer_ok [OF i(1) k'(1) assms(4)])
  then have c: "cxn \<in> blocked_ids E st1" and inv1: "barrier_inv P U A E br hr st1" using assms(7) i(2) k'(2) by (auto simp: barrier_inv_def)
  obtain st2 where "revalidate E process' rand st1 = Some st2" "revalidation_done E process' st2" by (rule revalidate_inv [OF inv1 assms(3,6)])
  then show ?thesis using st1(1,3) c by (auto simp: barrier_received_def barrier_timer_def blocked_ids_def)
qed

text \<open>
  C9: barriers and the timer are used properly. In every history of deferrals, barriers, timer events and events of the cache, no operation fails; the barriers that the driver
  has blocked and not yet unblocked are exactly those of the connections in its table, each blocked once; the timer is registered exactly when the driver
  believes it is, and is never registered twice or removed without need; and as long as a connection is blocked, the timer is running.
\<close>

theorem barriers_balanced:
  assumes "barrier_reach E (ind_ovs_barrier_init E k) st" "kflow_inv_all P U A (be_kflow E) br hr k" "kflow_env_ok U (be_kflow E)" "be_invalid E (be_unspecified E)"
  shows "blocks_after (bs_log st) Map.empty = Some (used_slots (be_unspecified E) (blocked_cxns st)) \<and> timer_after (bs_log st) False = Some (barrier_timer_active st) \<and>
    distinct (filter (\<lambda>c. c \<noteq> be_unspecified E) (blocked_cxns st)) \<and> (blocked_ids E st \<noteq> {} \<longrightarrow> barrier_timer_active st) \<and>
    (\<forall>op. barrier_op_ok E op st \<longrightarrow> barrier_do E op st \<noteq> None)"
proof -
  have inv: "barrier_inv P U A E br hr st" by (rule barrier_reach_inv [OF assms(1) barrier_init_inv [OF assms(2)] assms(3,4)])
  then have "barrier_do E op st \<noteq> None" if "barrier_op_ok E op st" for op using barrier_do_ok [OF inv assms(3,4) that] by auto
  then show ?thesis using inv by (auto simp: barrier_inv_def barrier_ok_def blocked_ids_def)
qed


subsection \<open>Examples\<close>

definition demo_barrier_env :: "(nat, unit, u32 list, (u64 \<times> u32) list) barrier_env" where
  "demo_barrier_env = \<lparr>be_kflow = demo_kflow_env, be_unspecified = 0xffffffff, be_invalid = (\<lambda>c. c = 0xffffffff)\<rparr>"

lemma demo_barrier_env_ok: "kflow_env_ok {} (be_kflow demo_barrier_env)" "be_invalid demo_barrier_env (be_unspecified demo_barrier_env)" "\<not> be_invalid demo_barrier_env 7"
  using demo_kflow_env_ok by (simp_all add: demo_barrier_env_def)

lemma demo_reflect_answers: "pipeline_answers demo_reflect"
  by (auto intro: reflect_flow.current_answers simp: reflect_delay_def)

lemma demo_barrier_start:
  obtains k A where "kflow_inv_all {0, 1, 2, 3, 4, 5, 6, 7} {} A (be_kflow demo_barrier_env) list_bloom_rep list_hash_rep k" "kflows k = []"
  by (rule demo_kflow_start) (use that in \<open>simp add: demo_barrier_env_def\<close>)

theorem deferred_revalidation_runs_witness:
  "\<exists>k st1 st2. ind_ovs_barrier_defer_revalidation demo_barrier_env demo_reflect (\<lambda>_. []) 7 (ind_ovs_barrier_init demo_barrier_env k) = Some st1 \<and> barrier_timer_active st1 \<and>
    barrier_received demo_barrier_env demo_reflect (\<lambda>_. []) 7 st1 = Some st2 \<and> revalidation_done demo_barrier_env demo_reflect st2"
proof -
  obtain k A where k: "kflow_inv_all {0, 1, 2, 3, 4, 5, 6, 7} {} A (be_kflow demo_barrier_env) list_bloom_rep list_hash_rep k" by (rule demo_barrier_start)
  from deferred_revalidation_runs [OF barrier_start k demo_barrier_env_ok(1,2) demo_reflect_answers demo_reflect_answers demo_barrier_env_ok(3), of "\<lambda>_. []"]
  show ?thesis by blast
qed

theorem barriers_balanced_witness:
  "\<exists>k st1. ind_ovs_barrier_defer_revalidation demo_barrier_env demo_reflect (\<lambda>_. []) 7 (ind_ovs_barrier_init demo_barrier_env k) = Some st1 \<and>
    blocks_after (bs_log st1) Map.empty = Some (used_slots 0xffffffff (blocked_cxns st1)) \<and> timer_after (bs_log st1) False = Some (barrier_timer_active st1)"
proof -
  obtain k A where k: "kflow_inv_all {0, 1, 2, 3, 4, 5, 6, 7} {} A (be_kflow demo_barrier_env) list_bloom_rep list_hash_rep k" by (rule demo_barrier_start)
  note B = barriers_balanced [OF _ k demo_barrier_env_ok(1,2)]
  let ?op = "Defer demo_reflect (\<lambda>_. []) 7" let ?st = "ind_ovs_barrier_init demo_barrier_env k"
  have ok: "barrier_op_ok demo_barrier_env ?op ?st" using demo_reflect_answers by simp
  then have "barrier_do demo_barrier_env ?op ?st \<noteq> None" using B [OF barrier_start] by blast
  then obtain st1 where st1: "barrier_do demo_barrier_env ?op ?st = Some st1" by blast
  show ?thesis using B [OF barrier_step [OF barrier_start ok st1]] st1 by (auto simp: demo_barrier_env_def)
qed


end
