(* ===== verification/Spec2Isabelle.thy ===== *)
theory Spec2Isabelle
  imports L2table Barrier
begin

text \<open>
  A verification development of the Indigo Virtual Switch (IVS): a user-space OpenFlow agent that
  drives the Open vSwitch kernel datapath over netlink.

  \<^bold>\<open>Theories.\<close>
  \<^item> \<open>Prelude\<close>: machine integers, byte order, error codes, and the \<open>refinement\<close> interface.
  \<^item> \<open>L2table\<close>: the MAC/VLAN hash table of \<open>modules/l2table\<close>.
\<close>

end
